(* ===== verification/Prelude.thy ===== *)
theory Prelude
  imports Main "HOL-Library.Word" "HOL-Library.Monad_Syntax" "HOL-Library.Multiset"
begin

text \<open>
  Shared vocabulary of the development.

  Kernel code fails by stopping the machine: \<^verbatim>\<open>ASSERT\<close> and \<^verbatim>\<open>PANIC\<close> never return, and a
  dereference of a null pointer faults. Every fallible operation of the model
  therefore has a result in \<^typ>\<open>'a option\<close>: \<open>None\<close> is ``the kernel stopped'' (or, for a
  loop written as a partial function, ``the loop did not end''), and a theorem that
  an operation succeeds is always stated as an equation \<open>op \<dots> = Some \<dots>\<close>.
  Sequences of such operations use the option monad.
\<close>

section \<open>Failure\<close>

definition ASSERT :: "bool \<Rightarrow> unit option" where
  "ASSERT c = (if c then Some () else None)"

lemma ASSERT_simps [simp]:
  "ASSERT True = Some ()" "ASSERT False = None"
  "(ASSERT c = Some u) = c" "(ASSERT c = None) = (\<not> c)"
  by (auto simp: ASSERT_def)

lemma bind_ASSERT [simp]: "(ASSERT c \<bind> f) = (if c then f () else None)"
  by (simp add: ASSERT_def)

named_theorems model_defs \<open>definitions of straight-line operations, unfolded together\<close>

section \<open>Lists\<close>

lemma append_eq_snocE:
  obtains us u where "a # as = us @ [u]" "u = last (a # as)"
  by (metis append_butlast_last_id list.distinct(1))

lemma successively_append_single:
  "successively P (xs @ [x]) \<longleftrightarrow> successively P xs \<and> (xs \<noteq> [] \<longrightarrow> P (last xs) x)"
  by (auto simp: successively_append_iff)

lemma set_butlast_distinct: "distinct xs \<Longrightarrow> xs \<noteq> [] \<Longrightarrow> set (butlast xs) = set xs - {last xs}"
  by (cases xs rule: rev_cases) auto

section \<open>Words\<close>

lemma unat_less_width: "unat (x :: 'a::len word) < 2 ^ LENGTH('a)"
  by (rule unsigned_less)

lemma unat_push_bit:
  fixes x :: "'a::len word"
  assumes "unat x * 2 ^ k < 2 ^ LENGTH('a)"
  shows "unat (push_bit k x) = unat x * 2 ^ k"
proof -
  have "unat (push_bit k x) = take_bit LENGTH('a) (push_bit k (unat x))" by (rule unsigned_push_bit_eq)
  also have "\<dots> = unat x * 2 ^ k" unfolding push_bit_eq_mult by (rule take_bit_nat_eq_self [OF assms])
  finally show ?thesis .
qed

lemma unat_of_nat_less: "n < 2 ^ LENGTH('a) \<Longrightarrow> unat (of_nat n :: 'a::len word) = n"
  unfolding unat_of_nat by simp

lemma unat_plus_less:
  fixes x y :: "'a::len word"
  assumes "unat x + unat y < 2 ^ LENGTH('a)"
  shows "unat (x + y) = unat x + unat y"
  using assms by (simp add: unat_word_ariths)

lemma unat_mult_less:
  fixes x y :: "'a::len word"
  assumes "unat x * unat y < 2 ^ LENGTH('a)"
  shows "unat (x * y) = unat x * unat y"
  using assms by (simp add: unat_word_ariths)

lemma unat_minus_le:
  fixes x y :: "'a::len word"
  assumes "y \<le> x"
  shows "unat (x - y) = unat x - unat y"
  using assms by (simp add: unat_sub)

lemma unat_ucast_less:
  fixes x :: "'a::len word"
  assumes "unat x < 2 ^ LENGTH('b::len)"
  shows "unat (ucast x :: 'b word) = unat x"
  using assms by (simp add: unsigned_ucast_eq take_bit_nat_eq_self)

lemma unat_ucast_up:
  fixes x :: "'a::len word"
  assumes "LENGTH('a) \<le> LENGTH('b::len)"
  shows "unat (ucast x :: 'b word) = unat x"
proof (rule unat_ucast_less)
  have "(2 :: nat) ^ LENGTH('a) \<le> 2 ^ LENGTH('b)" using assms by (intro power_increasing) auto
  then show "unat x < 2 ^ LENGTH('b)" using unat_less_width [of x] by linarith
qed

lemma unat_drop_bit: "unat (drop_bit k (x :: 'a::len word)) = unat x div 2 ^ k"
  unfolding unsigned_drop_bit_eq by (simp add: drop_bit_eq_div take_bit_nat_eq_self)

lemma unat_ucast_down: "unat (ucast (x :: 'a::len word) :: 'b::len word) = unat x mod 2 ^ LENGTH('b)"
  by (simp add: unsigned_ucast_eq take_bit_eq_mod)

end
