(* ===== verification/Clist.thy ===== *)
theory Clist
  imports Prelude
begin

text \<open>
  \<^verbatim>\<open>src/pintos/src/lib/kernel/list.c\<close>: intrusive doubly linked lists with two header
  elements. The model is at pointer level: a heap holds the \<open>prev\<close> and \<open>next\<close> links
  of every list element, a list is the pair of addresses of its two header elements.
  Address 0 is the null pointer. The links of a list element are the only memory
  these functions write, so the payload of the elements enters only through the
  comparison function \<open>less\<close>, which the callers supply (its auxiliary argument is
  part of that function).
\<close>

section \<open>Memory\<close>

type_synonym addr = nat

abbreviation (input) NULL :: addr where "NULL \<equiv> 0"

record list_heap =
  prev :: "addr \<Rightarrow> addr"
  nxt :: "addr \<Rightarrow> addr"

record clist =
  head :: addr
  tail :: addr

type_synonym list_less_func = "addr \<Rightarrow> addr \<Rightarrow> bool"

definition set_prev :: "addr \<Rightarrow> addr \<Rightarrow> list_heap \<Rightarrow> list_heap" where
  "set_prev p v h = h\<lparr>prev := (prev h)(p := v)\<rparr>"

definition set_next :: "addr \<Rightarrow> addr \<Rightarrow> list_heap \<Rightarrow> list_heap" where
  "set_next p v h = h\<lparr>nxt := (nxt h)(p := v)\<rparr>"

section \<open>Operations\<close>

definition is_head :: "list_heap \<Rightarrow> addr \<Rightarrow> bool" where
  "is_head h elem \<longleftrightarrow> elem \<noteq> NULL \<and> prev h elem = NULL \<and> nxt h elem \<noteq> NULL"

definition is_interior :: "list_heap \<Rightarrow> addr \<Rightarrow> bool" where
  "is_interior h elem \<longleftrightarrow> elem \<noteq> NULL \<and> prev h elem \<noteq> NULL \<and> nxt h elem \<noteq> NULL"

definition is_tail :: "list_heap \<Rightarrow> addr \<Rightarrow> bool" where
  "is_tail h elem \<longleftrightarrow> elem \<noteq> NULL \<and> prev h elem \<noteq> NULL \<and> nxt h elem = NULL"

definition list_init :: "clist \<Rightarrow> list_heap \<Rightarrow> list_heap" where
  "list_init l h =
     (let h = set_prev (head l) NULL h;
          h = set_next (head l) (tail l) h;
          h = set_prev (tail l) (head l) h
      in set_next (tail l) NULL h)"

definition list_begin :: "list_heap \<Rightarrow> clist \<Rightarrow> addr" where
  "list_begin h l = nxt h (head l)"

definition list_next :: "list_heap \<Rightarrow> addr \<Rightarrow> addr option" where
  "list_next h elem = do {
     ASSERT (is_head h elem \<or> is_interior h elem);
     Some (nxt h elem)
   }"

definition list_end :: "clist \<Rightarrow> addr" where
  "list_end l = tail l"

definition list_rbegin :: "list_heap \<Rightarrow> clist \<Rightarrow> addr" where
  "list_rbegin h l = prev h (tail l)"

definition list_prev :: "list_heap \<Rightarrow> addr \<Rightarrow> addr option" where
  "list_prev h elem = do {
     ASSERT (is_interior h elem \<or> is_tail h elem);
     Some (prev h elem)
   }"

definition list_rend :: "clist \<Rightarrow> addr" where
  "list_rend l = head l"

definition list_head :: "clist \<Rightarrow> addr" where
  "list_head l = head l"

definition list_tail :: "clist \<Rightarrow> addr" where
  "list_tail l = tail l"

definition list_insert :: "addr \<Rightarrow> addr \<Rightarrow> list_heap \<Rightarrow> list_heap option" where
  "list_insert before elem h = do {
     ASSERT (is_interior h before \<or> is_tail h before);
     ASSERT (elem \<noteq> NULL);
     let h = set_prev elem (prev h before) h;
     let h = set_next elem before h;
     let h = set_next (prev h before) elem h;
     Some (set_prev before elem h)
   }"

definition list_splice :: "addr \<Rightarrow> addr \<Rightarrow> addr \<Rightarrow> list_heap \<Rightarrow> list_heap option" where
  "list_splice before first last' h = do {
     ASSERT (is_interior h before \<or> is_tail h before);
     if first = last' then Some h
     else do {
       last' \<leftarrow> list_prev h last';
       ASSERT (is_interior h first);
       ASSERT (is_interior h last');
       let h = set_next (prev h first) (nxt h last') h;
       let h = set_prev (nxt h last') (prev h first) h;
       let h = set_prev first (prev h before) h;
       let h = set_next last' before h;
       let h = set_next (prev h before) first h;
       Some (set_prev before last' h)
     }
   }"

definition list_push_front :: "clist \<Rightarrow> addr \<Rightarrow> list_heap \<Rightarrow> list_heap option" where
  "list_push_front l elem h = list_insert (list_begin h l) elem h"

definition list_push_back :: "clist \<Rightarrow> addr \<Rightarrow> list_heap \<Rightarrow> list_heap option" where
  "list_push_back l elem h = list_insert (list_end l) elem h"

definition list_remove :: "addr \<Rightarrow> list_heap \<Rightarrow> (addr \<times> list_heap) option" where
  "list_remove elem h = do {
     ASSERT (is_interior h elem);
     let h = set_next (prev h elem) (nxt h elem) h;
     let h = set_prev (nxt h elem) (prev h elem) h;
     Some (nxt h elem, h)
   }"

definition list_empty :: "list_heap \<Rightarrow> clist \<Rightarrow> bool" where
  "list_empty h l \<longleftrightarrow> list_begin h l = list_end l"

definition list_front :: "list_heap \<Rightarrow> clist \<Rightarrow> addr option" where
  "list_front h l = do { ASSERT (\<not> list_empty h l); Some (nxt h (head l)) }"

definition list_back :: "list_heap \<Rightarrow> clist \<Rightarrow> addr option" where
  "list_back h l = do { ASSERT (\<not> list_empty h l); Some (prev h (tail l)) }"

definition list_pop_front :: "clist \<Rightarrow> list_heap \<Rightarrow> (addr \<times> list_heap) option" where
  "list_pop_front l h = do {
     front \<leftarrow> list_front h l;
     (_, h) \<leftarrow> list_remove front h;
     Some (front, h)
   }"

definition list_pop_back :: "clist \<Rightarrow> list_heap \<Rightarrow> (addr \<times> list_heap) option" where
  "list_pop_back l h = do {
     back \<leftarrow> list_back h l;
     (_, h) \<leftarrow> list_remove back h;
     Some (back, h)
   }"

text \<open>The loops. Each \<open>for\<close> or \<open>while\<close> of the source is one partial function over the
  values its iterations change.\<close>

partial_function (option) list_size_loop ::
    "list_heap \<Rightarrow> clist \<Rightarrow> addr \<Rightarrow> nat \<Rightarrow> nat option" where
  "list_size_loop h l e cnt =
     (if e = list_end l then Some cnt
      else do { e' \<leftarrow> list_next h e; list_size_loop h l e' (Suc cnt) })"

definition list_size :: "list_heap \<Rightarrow> clist \<Rightarrow> nat option" where
  "list_size h l = list_size_loop h l (list_begin h l) 0"

text \<open>\<open>swap (&e->prev, &e->next)\<close>: exchanges two link fields.\<close>

definition swap_links :: "addr \<Rightarrow> list_heap \<Rightarrow> list_heap" where
  "swap_links e h = (let t = prev h e in set_next e t (set_prev e (nxt h e) h))"

partial_function (option) list_reverse_loop ::
    "clist \<Rightarrow> addr \<Rightarrow> list_heap \<Rightarrow> list_heap option" where
  "list_reverse_loop l e h =
     (if e = list_end l then Some h
      else do {
        ASSERT (e \<noteq> NULL);
        let h = swap_links e h;
        list_reverse_loop l (prev h e) h
      })"

definition list_reverse :: "clist \<Rightarrow> list_heap \<Rightarrow> list_heap option" where
  "list_reverse l h =
     (if list_empty h l then Some h
      else do {
        h \<leftarrow> list_reverse_loop l (list_begin h l) h;
        let t = nxt h (head l);
        let h = set_next (head l) (prev h (tail l)) h;
        let h = set_prev (tail l) t h;
        let a = nxt h (head l);
        let b = prev h (tail l);
        ASSERT (a \<noteq> NULL \<and> b \<noteq> NULL);
        let t = prev h a;
        let h = set_prev a (nxt h b) h;
        Some (set_next b t h)
      })"

partial_function (option) is_sorted_loop ::
    "list_heap \<Rightarrow> addr \<Rightarrow> addr \<Rightarrow> list_less_func \<Rightarrow> bool option" where
  "is_sorted_loop h a b lessf = do {
     a \<leftarrow> list_next h a;
     if a = b then Some True
     else do {
       p \<leftarrow> list_prev h a;
       if lessf a p then Some False else is_sorted_loop h a b lessf
     }
   }"

definition is_sorted :: "list_heap \<Rightarrow> addr \<Rightarrow> addr \<Rightarrow> list_less_func \<Rightarrow> bool option" where
  "is_sorted h a b lessf = (if a \<noteq> b then is_sorted_loop h a b lessf else Some True)"

partial_function (option) find_end_of_run_loop ::
    "list_heap \<Rightarrow> addr \<Rightarrow> addr \<Rightarrow> list_less_func \<Rightarrow> addr option" where
  "find_end_of_run_loop h a b lessf = do {
     a \<leftarrow> list_next h a;
     if a = b then Some a
     else do {
       p \<leftarrow> list_prev h a;
       if lessf a p then Some a else find_end_of_run_loop h a b lessf
     }
   }"

definition find_end_of_run ::
    "list_heap \<Rightarrow> addr \<Rightarrow> addr \<Rightarrow> list_less_func \<Rightarrow> addr option" where
  "find_end_of_run h a b lessf = do {
     ASSERT (a \<noteq> NULL);
     ASSERT (b \<noteq> NULL);
     ASSERT (a \<noteq> b);
     find_end_of_run_loop h a b lessf
   }"

partial_function (option) inplace_merge_loop ::
    "addr \<Rightarrow> addr \<Rightarrow> addr \<Rightarrow> list_less_func \<Rightarrow> list_heap \<Rightarrow> list_heap option" where
  "inplace_merge_loop a0 a1b0 b1 lessf h =
     (if a0 \<noteq> a1b0 \<and> a1b0 \<noteq> b1 then
        if \<not> lessf a1b0 a0 then do {
          a0 \<leftarrow> list_next h a0;
          inplace_merge_loop a0 a1b0 b1 lessf h
        }
        else do {
          a1b0 \<leftarrow> list_next h a1b0;
          p \<leftarrow> list_prev h a1b0;
          h \<leftarrow> list_splice a0 p a1b0 h;
          inplace_merge_loop a0 a1b0 b1 lessf h
        }
      else Some h)"

definition inplace_merge ::
    "addr \<Rightarrow> addr \<Rightarrow> addr \<Rightarrow> list_less_func \<Rightarrow> list_heap \<Rightarrow> list_heap option" where
  "inplace_merge a0 a1b0 b1 lessf h = do {
     ASSERT (a0 \<noteq> NULL);
     ASSERT (a1b0 \<noteq> NULL);
     ASSERT (b1 \<noteq> NULL);
     s1 \<leftarrow> is_sorted h a0 a1b0 lessf;
     ASSERT s1;
     s2 \<leftarrow> is_sorted h a1b0 b1 lessf;
     ASSERT s2;
     inplace_merge_loop a0 a1b0 b1 lessf h
   }"

partial_function (option) list_sort_pass ::
    "clist \<Rightarrow> list_less_func \<Rightarrow> addr \<Rightarrow> nat \<Rightarrow> list_heap \<Rightarrow> (nat \<times> list_heap) option" where
  "list_sort_pass l lessf a0 output_run_cnt h =
     (if a0 = list_end l then Some (output_run_cnt, h)
      else do {
        let output_run_cnt = Suc output_run_cnt;
        a1b0 \<leftarrow> find_end_of_run h a0 (list_end l) lessf;
        if a1b0 = list_end l then Some (output_run_cnt, h)
        else do {
          b1 \<leftarrow> find_end_of_run h a1b0 (list_end l) lessf;
          h \<leftarrow> inplace_merge a0 a1b0 b1 lessf h;
          list_sort_pass l lessf b1 output_run_cnt h
        }
      })"

partial_function (option) list_sort_loop ::
    "clist \<Rightarrow> list_less_func \<Rightarrow> list_heap \<Rightarrow> list_heap option" where
  "list_sort_loop l lessf h = do {
     r \<leftarrow> list_sort_pass l lessf (list_begin h l) 0 h;
     if fst r > 1 then list_sort_loop l lessf (snd r) else Some (snd r)
   }"

definition list_sort :: "clist \<Rightarrow> list_less_func \<Rightarrow> list_heap \<Rightarrow> list_heap option" where
  "list_sort l lessf h = do {
     h \<leftarrow> list_sort_loop l lessf h;
     s \<leftarrow> is_sorted h (list_begin h l) (list_end l) lessf;
     ASSERT s;
     Some h
   }"

partial_function (option) insert_ordered_loop ::
    "list_heap \<Rightarrow> clist \<Rightarrow> addr \<Rightarrow> list_less_func \<Rightarrow> addr \<Rightarrow> addr option" where
  "insert_ordered_loop h l elem lessf e =
     (if e = list_end l then Some e
      else if lessf elem e then Some e
      else do { e' \<leftarrow> list_next h e; insert_ordered_loop h l elem lessf e' })"

definition list_insert_ordered ::
    "clist \<Rightarrow> addr \<Rightarrow> list_less_func \<Rightarrow> list_heap \<Rightarrow> list_heap option" where
  "list_insert_ordered l elem lessf h = do {
     ASSERT (elem \<noteq> NULL);
     e \<leftarrow> insert_ordered_loop h l elem lessf (list_begin h l);
     list_insert e elem h
   }"

partial_function (option) list_unique_loop ::
    "clist \<Rightarrow> clist option \<Rightarrow> list_less_func \<Rightarrow> addr \<Rightarrow> list_heap \<Rightarrow> list_heap option" where
  "list_unique_loop l duplicates lessf elem h = do {
     n \<leftarrow> list_next h elem;
     if n = list_end l then Some h
     else if \<not> lessf elem n \<and> \<not> lessf n elem then do {
       r \<leftarrow> list_remove n h;
       h \<leftarrow> (case duplicates of None \<Rightarrow> Some (snd r) | Some d \<Rightarrow> list_push_back d n (snd r));
       list_unique_loop l duplicates lessf elem h
     }
     else list_unique_loop l duplicates lessf n h
   }"

definition list_unique ::
    "clist \<Rightarrow> clist option \<Rightarrow> list_less_func \<Rightarrow> list_heap \<Rightarrow> list_heap option" where
  "list_unique l duplicates lessf h =
     (if list_empty h l then Some h
      else list_unique_loop l duplicates lessf (list_begin h l) h)"

partial_function (option) list_max_loop ::
    "list_heap \<Rightarrow> clist \<Rightarrow> list_less_func \<Rightarrow> addr \<Rightarrow> addr \<Rightarrow> addr option" where
  "list_max_loop h l lessf mx e =
     (if e = list_end l then Some mx
      else do {
        e' \<leftarrow> list_next h e;
        list_max_loop h l lessf (if lessf mx e then e else mx) e'
      })"

definition list_max :: "list_heap \<Rightarrow> clist \<Rightarrow> list_less_func \<Rightarrow> addr option" where
  "list_max h l lessf =
     (let mx = list_begin h l
      in if mx \<noteq> list_end l then do {
           e \<leftarrow> list_next h mx;
           list_max_loop h l lessf mx e
         }
         else Some mx)"

partial_function (option) list_min_loop ::
    "list_heap \<Rightarrow> clist \<Rightarrow> list_less_func \<Rightarrow> addr \<Rightarrow> addr \<Rightarrow> addr option" where
  "list_min_loop h l lessf mn e =
     (if e = list_end l then Some mn
      else do {
        e' \<leftarrow> list_next h e;
        list_min_loop h l lessf (if lessf e mn then e else mn) e'
      })"

definition list_min :: "list_heap \<Rightarrow> clist \<Rightarrow> list_less_func \<Rightarrow> addr option" where
  "list_min h l lessf =
     (let mn = list_begin h l
      in if mn \<noteq> list_end l then do {
           e \<leftarrow> list_next h mn;
           list_min_loop h l lessf mn e
         }
         else Some mn)"

text \<open>The loops as code equations.\<close>

lemmas list_loops [code] =
  list_size_loop.simps
  list_reverse_loop.simps
  is_sorted_loop.simps
  find_end_of_run_loop.simps
  inplace_merge_loop.simps
  list_sort_pass.simps
  list_sort_loop.simps
  insert_ordered_loop.simps
  list_unique_loop.simps
  list_max_loop.simps
  list_min_loop.simps

end
