(* ===== verification/List_Interface.thy ===== *)
theory List_Interface
  imports Prelude
begin

text \<open>
  The contract between \<^verbatim>\<open>src/pintos/src/lib/kernel/list.c\<close> and its clients.

  Clients see a list as a sequence of elements. The locale \<open>intrusive_list\<close> names the
  operations and what each promises about that sequence and about the memory outside
  the list; \<open>Clist_Rep\<close> interprets it on the pointer code. Clients built on this
  contract (scheduler, semaphores, page tables, allocators) use plain HOL lists with
  the operations below.
\<close>

section \<open>Ordered insertion on sequences\<close>

text \<open>\<open>list_insert_ordered\<close>: before the first element that the new one is less than.\<close>

definition insert_ordered :: "('a \<Rightarrow> 'a \<Rightarrow> bool) \<Rightarrow> 'a \<Rightarrow> 'a list \<Rightarrow> 'a list" where
  "insert_ordered lessf e xs =
     takeWhile (\<lambda>x. \<not> lessf e x) xs @ e # dropWhile (\<lambda>x. \<not> lessf e x) xs"

lemma insert_ordered_Nil [simp]: "insert_ordered lessf e [] = [e]"
  by (simp add: insert_ordered_def)

lemma insert_ordered_Cons [simp]:
  "insert_ordered lessf e (x # xs) =
     (if lessf e x then e # x # xs else x # insert_ordered lessf e xs)"
  by (simp add: insert_ordered_def)

lemma mset_insert_ordered [simp]: "mset (insert_ordered lessf e xs) = add_mset e (mset xs)"
  by (induction xs) auto

lemma set_insert_ordered [simp]: "set (insert_ordered lessf e xs) = insert e (set xs)"
  by (induction xs) auto

lemma length_insert_ordered [simp]: "length (insert_ordered lessf e xs) = Suc (length xs)"
  by (induction xs) auto

lemma distinct_insert_ordered [simp]:
  "distinct (insert_ordered lessf e xs) \<longleftrightarrow> e \<notin> set xs \<and> distinct xs"
  by (induction xs) auto

lemma insert_ordered_ne [simp]: "insert_ordered lessf e xs \<noteq> []"
  by (simp add: insert_ordered_def)

text \<open>The kernel's comparison functions are non-strict (\<open>a->priority <= b->priority\<close>), so a
  new element goes in front of its equals. Taken from the back, the list is then a
  priority queue that serves equals in order of arrival.\<close>

lemma sorted_insert_ordered:
  fixes prio :: "'a \<Rightarrow> 'k :: linorder"
  shows "sorted (map prio xs) \<Longrightarrow> sorted (map prio (insert_ordered (\<lambda>a b. prio a \<le> prio b) e xs))"
  by (induction xs) auto

lemma sorted_map_last:
  fixes prio :: "'a \<Rightarrow> 'k :: linorder"
  shows "sorted (map prio xs) \<Longrightarrow> x \<in> set xs \<Longrightarrow> prio x \<le> prio (last xs)"
  by (induction xs) auto

lemma last_insert_ordered_self:
  fixes prio :: "'a \<Rightarrow> 'k :: linorder"
  shows "sorted (map prio xs) \<Longrightarrow> e \<notin> set xs \<Longrightarrow>
    last (insert_ordered (\<lambda>a b. prio a \<le> prio b) e xs) = e \<longleftrightarrow> (\<forall>x\<in>set xs. prio x < prio e)"
proof (induction xs)
  case (Cons x xs)
  show ?case
  proof (cases "prio e \<le> prio x")
    case True
    then have "last (x # xs) \<noteq> e" "\<not> prio x < prio e" using Cons.prems(2) last_in_set [of "x # xs"] by auto
    then show ?thesis using True by auto
  next
    case False
    then show ?thesis using Cons by auto
  qed
qed simp

lemma filter_insert_ordered:
  fixes prio :: "'a \<Rightarrow> 'k :: linorder"
  shows "sorted (map prio xs) \<Longrightarrow>
    filter (\<lambda>x. prio x = k) (insert_ordered (\<lambda>a b. prio a \<le> prio b) e xs) =
    (if prio e = k then [e] else []) @ filter (\<lambda>x. prio x = k) xs"
proof (induction xs)
  case (Cons x xs)
  have "filter (\<lambda>y. prio y = prio e) (x # xs) = []" if "prio x < prio e" "filter (\<lambda>y. prio y = prio e) xs = []"
    using that by auto
  then show ?case using Cons by auto
qed auto

lemma last_insert_ordered_max:
  fixes prio :: "'a \<Rightarrow> 'k :: linorder"
  assumes "sorted (map prio xs)" "xs \<noteq> []" "x \<in> set xs"
  shows "prio x \<le> prio (last xs)"
  using assms by (induction xs) (auto simp: last_in_set)

definition insert_seq :: "('a \<Rightarrow> 'k :: linorder) \<Rightarrow> 'a list \<Rightarrow> 'a list \<Rightarrow> 'a list" where
  "insert_seq prio es xs = foldl (\<lambda>xs e. insert_ordered (\<lambda>a b. prio a \<le> prio b) e xs) xs es"

lemma insert_seq_props:
  fixes prio :: "'a \<Rightarrow> 'k :: linorder"
  assumes "sorted (map prio xs)"
  shows "sorted (map prio (insert_seq prio es xs))"
    and "mset (insert_seq prio es xs) = mset es + mset xs"
    and "filter (\<lambda>x. prio x = k) (insert_seq prio es xs) =
      rev (filter (\<lambda>x. prio x = k) es) @ filter (\<lambda>x. prio x = k) xs"
  using assms
  by (induction es arbitrary: xs) (auto simp: insert_seq_def sorted_insert_ordered filter_insert_ordered)

lemma sorted_rev_uminus:
  "sorted (map f xs) \<Longrightarrow> sorted (map (\<lambda>e. - f e :: int) (rev xs))"
  by (induction xs) (auto simp: sorted_append)

lemma rev_insert_seq: "rev (insert_seq prio es []) = sort_key (\<lambda>e. - prio e :: int) es"
proof (rule properties_for_sort_key [symmetric])
  show "mset (rev (insert_seq prio es [])) = mset es" by (simp add: insert_seq_props)
  show "sorted (map (\<lambda>e. - prio e) (rev (insert_seq prio es [])))"
    by (rule sorted_rev_uminus) (simp add: insert_seq_props)
  show "filter (\<lambda>x. - prio k = - prio x) (rev (insert_seq prio es [])) =
      filter (\<lambda>x. - prio k = - prio x) es" for k
    using insert_seq_props(3) [of prio "[]" "prio k" es]
    by (simp add: rev_filter [symmetric] eq_commute [of "prio k"])
qed

section \<open>The interface\<close>

text \<open>Insert a sequence of elements, one at a time; take a number of them out again.\<close>

fun insert_all :: "('e \<Rightarrow> 'h \<Rightarrow> 'h option) \<Rightarrow> 'e list \<Rightarrow> 'h \<Rightarrow> 'h option" where
  "insert_all ins [] h = Some h"
| "insert_all ins (e # es) h = do { h \<leftarrow> ins e h; insert_all ins es h }"

fun drain :: "('h \<Rightarrow> ('e \<times> 'h) option) \<Rightarrow> nat \<Rightarrow> 'h \<Rightarrow> ('e list \<times> 'h) option" where
  "drain pop 0 h = Some ([], h)"
| "drain pop (Suc n) h = do {
     (e, h) \<leftarrow> pop h;
     (es, h) \<leftarrow> drain pop n h;
     Some (e # es, h)
   }"

locale intrusive_list =
  fixes rep :: "'h \<Rightarrow> 'l \<Rightarrow> 'e list \<Rightarrow> bool"
    and cells :: "'l \<Rightarrow> 'e list \<Rightarrow> 'e set"
    and valid :: "'e \<Rightarrow> bool"
    and frame :: "'e set \<Rightarrow> 'h \<Rightarrow> 'h \<Rightarrow> bool"
    and push_back :: "'l \<Rightarrow> 'e \<Rightarrow> 'h \<Rightarrow> 'h option"
    and ins_ordered :: "'l \<Rightarrow> 'e \<Rightarrow> ('e \<Rightarrow> 'e \<Rightarrow> bool) \<Rightarrow> 'h \<Rightarrow> 'h option"
    and pop_front :: "'l \<Rightarrow> 'h \<Rightarrow> ('e \<times> 'h) option"
    and pop_back :: "'l \<Rightarrow> 'h \<Rightarrow> ('e \<times> 'h) option"
  assumes push_back: "rep h l xs \<Longrightarrow> valid e \<Longrightarrow> e \<notin> cells l xs \<Longrightarrow>
      \<exists>h'. push_back l e h = Some h' \<and> rep h' l (xs @ [e]) \<and> frame (insert e (cells l xs)) h h'"
    and ins_ordered: "rep h l xs \<Longrightarrow> valid e \<Longrightarrow> e \<notin> cells l xs \<Longrightarrow>
      \<exists>h'. ins_ordered l e lessf h = Some h' \<and> rep h' l (insert_ordered lessf e xs) \<and>
        frame (insert e (cells l xs)) h h'"
    and pop_front: "rep h l (x # xs) \<Longrightarrow>
      \<exists>h'. pop_front l h = Some (x, h') \<and> rep h' l xs \<and> frame (cells l (x # xs)) h h'"
    and pop_back: "rep h l (xs @ [x]) \<Longrightarrow>
      \<exists>h'. pop_back l h = Some (x, h') \<and> rep h' l xs \<and> frame (cells l (xs @ [x])) h h'"
    and cells_eq: "cells l xs = cells l [] \<union> set xs"
    and frame_rep: "frame S h h' \<Longrightarrow> cells l xs \<inter> S = {} \<Longrightarrow> rep h' l xs = rep h l xs"
begin

lemma insert_all_ordered:
  assumes "rep h l xs" "distinct es" "set es \<inter> cells l xs = {}" "\<forall>e \<in> set es. valid e"
  shows "\<exists>h'. insert_all (\<lambda>e. ins_ordered l e (\<lambda>a b. prio a \<le> prio b)) es h = Some h' \<and>
    rep h' l (insert_seq prio es xs)"
  using assms
proof (induction es arbitrary: h xs)
  case (Cons e es)
  let ?le = "\<lambda>a b. prio a \<le> prio b"
  have e: "valid e" "e \<notin> cells l xs" using Cons.prems by auto
  obtain h1 where h1: "ins_ordered l e ?le h = Some h1" "rep h1 l (insert_ordered ?le e xs)"
    using ins_ordered [OF Cons.prems(1) e] by blast
  have "cells l (insert_ordered ?le e xs) = insert e (cells l xs)"
    using cells_eq [of l "insert_ordered ?le e xs"] cells_eq [of l xs] by auto
  then have "\<exists>h'. insert_all (\<lambda>e. ins_ordered l e ?le) es h1 = Some h' \<and>
      rep h' l (insert_seq prio es (insert_ordered ?le e xs))"
    using Cons.prems by (intro Cons.IH [OF h1(2)]) auto
  then show ?case using h1(1) by (auto simp: insert_seq_def)
qed (simp add: insert_seq_def)

lemma drain_back:
  "rep h l xs \<Longrightarrow> \<exists>h'. drain (pop_back l) (length xs) h = Some (rev xs, h') \<and> rep h' l []"
proof (induction xs arbitrary: h rule: rev_induct)
  case (snoc x xs)
  then obtain h1 where h1: "pop_back l h = Some (x, h1)" "rep h1 l xs" using pop_back by blast
  with snoc.IH [OF h1(2)] show ?case by auto
qed simp

lemma drain_front:
  "rep h l xs \<Longrightarrow> \<exists>h'. drain (pop_front l) (length xs) h = Some (xs, h') \<and> rep h' l []"
proof (induction xs arbitrary: h)
  case (Cons x xs)
  then obtain h1 where h1: "pop_front l h = Some (x, h1)" "rep h1 l xs" using pop_front by blast
  with Cons.IH [OF h1(2)] show ?case by auto
qed simp

text \<open>The discipline of the kernel's ready list and of a semaphore's waiters.\<close>

lemma priority_discipline:
  fixes prio :: "'e \<Rightarrow> int"
  assumes "rep h l []" "distinct es" "set es \<inter> cells l [] = {}" "\<forall>e \<in> set es. valid e"
  shows "\<exists>h1 h2. insert_all (\<lambda>e. ins_ordered l e (\<lambda>a b. prio a \<le> prio b)) es h = Some h1 \<and>
    drain (pop_back l) (length es) h1 = Some (sort_key (\<lambda>e. - prio e) es, h2) \<and> rep h2 l []"
proof -
  obtain h1 where h1: "insert_all (\<lambda>e. ins_ordered l e (\<lambda>a b. prio a \<le> prio b)) es h = Some h1"
    "rep h1 l (insert_seq prio es [])"
    using insert_all_ordered [OF assms, of prio] by blast
  have "length (insert_seq prio es []) = length es"
    using insert_seq_props(2) [of prio "[]" es] by (metis add.right_neutral mset.simps(1) size_mset
        map_is_Nil_conv sorted_wrt.simps(1) list.simps(8))
  then show ?thesis
    using drain_back [OF h1(2)] h1(1) rev_insert_seq [of prio es] by metis
qed

end

end
