(* ===== verification/Clist_Rep.thy ===== *)
theory Clist_Rep
  imports Clist List_Interface
begin

text \<open>
  Representation of a mathematical list by the linked structure of
  \<^verbatim>\<open>src/pintos/src/lib/kernel/list.c\<close>, and the correctness of the operations of
  \<open>Clist\<close> against it: each pointer operation computes, on the heap, the list
  operation a client has in mind.
\<close>

section \<open>Chains of links\<close>

fun linked :: "list_heap \<Rightarrow> addr list \<Rightarrow> bool" where
  "linked h (a # b # ws) \<longleftrightarrow> nxt h a = b \<and> prev h b = a \<and> linked h (b # ws)"
| "linked h ws \<longleftrightarrow> True"

definition list_rep :: "list_heap \<Rightarrow> clist \<Rightarrow> addr list \<Rightarrow> bool" where
  "list_rep h l xs \<longleftrightarrow>
     linked h (head l # xs @ [tail l]) \<and> prev h (head l) = NULL \<and> nxt h (tail l) = NULL \<and>
     distinct (head l # xs @ [tail l]) \<and> NULL \<notin> set (head l # xs @ [tail l])"

text \<open>The cells a list occupies: its two headers and its elements.\<close>

definition cells :: "clist \<Rightarrow> addr list \<Rightarrow> addr set" where
  "cells l xs = insert (head l) (insert (tail l) (set xs))"

text \<open>The element at which a suffix of the list starts (the tail for an empty
  suffix), and the element just before it.\<close>

definition node :: "clist \<Rightarrow> addr list \<Rightarrow> addr" where
  "node l vs = hd (vs @ [tail l])"

definition pnode :: "clist \<Rightarrow> addr list \<Rightarrow> addr" where
  "pnode l us = last (head l # us)"

lemma set_prev_simps [simp]:
  "prev (set_prev p v h) = (prev h)(p := v)" "nxt (set_prev p v h) = nxt h"
  by (simp_all add: set_prev_def)

lemma set_next_simps [simp]:
  "nxt (set_next p v h) = (nxt h)(p := v)" "prev (set_next p v h) = prev h"
  by (simp_all add: set_next_def)

lemma linked_append: "linked h (us @ a # vs) \<longleftrightarrow> linked h (us @ [a]) \<and> linked h (a # vs)"
proof (induction us)
  case Nil
  then show ?case by simp
next
  case (Cons u us)
  then show ?case by (cases us) auto
qed

lemma linked_mid: "linked h (us @ a # b # vs) \<longleftrightarrow>
    linked h (us @ [a]) \<and> nxt h a = b \<and> prev h b = a \<and> linked h (b # vs)"
  by (subst linked_append) simp

lemma linked_cong:
  "(\<And>p. p \<in> set (butlast ws) \<Longrightarrow> nxt h' p = nxt h p) \<Longrightarrow>
   (\<And>p. p \<in> set (tl ws) \<Longrightarrow> prev h' p = prev h p) \<Longrightarrow> linked h' ws = linked h ws"
proof (induction h ws rule: linked.induct)
  case (1 h a b ws)
  have "linked h' (b # ws) = linked h (b # ws)"
    using 1(2,3) by (intro 1(1)) (auto split: if_splits dest: list.set_sel(2))
  then show ?case using 1(2,3) by auto
qed auto

lemma linked_set_next [simp]:
  "p \<notin> set (butlast ws) \<Longrightarrow> linked (set_next p v h) ws = linked h ws"
  by (rule linked_cong) auto

lemma linked_set_prev [simp]:
  "p \<notin> set (tl ws) \<Longrightarrow> linked (set_prev p v h) ws = linked h ws"
  by (rule linked_cong) auto

lemma linked_snoc_frame [simp]:
  "p \<notin> set us \<Longrightarrow> p \<noteq> a \<Longrightarrow> linked (set_prev p v h) (us @ [a]) = linked h (us @ [a])"
  "p \<notin> set us \<Longrightarrow> linked (set_next p v h) (us @ [a]) = linked h (us @ [a])"
  by (intro linked_cong; cases us; auto)+

lemma linked_Cons_frame [simp]:
  "p \<noteq> a \<Longrightarrow> p \<notin> set us \<Longrightarrow> linked (set_next p v h) (a # us) = linked h (a # us)"
  by (intro linked_cong) (auto split: if_splits dest: in_set_butlastD)

lemma node_simps [simp]: "node l [] = tail l" "node l (v # vs) = v"
  by (simp_all add: node_def)

lemma pnode_simps [simp]: "pnode l [] = head l" "pnode l (us @ [u]) = u"
  by (simp_all add: pnode_def)

lemma cells_append: "cells l (xs @ ys) = cells l xs \<union> set ys"
  by (auto simp: cells_def)

section \<open>Splitting a representation\<close>

lemma list_rep_splitE:
  assumes "list_rep h l (us @ vs)"
  obtains A B where "head l # us = A @ [pnode l us]" "vs @ [tail l] = node l vs # B"
    "linked h (A @ pnode l us # node l vs # B)"
    "distinct (A @ pnode l us # node l vs # B)" "NULL \<notin> set (A @ pnode l us # node l vs # B)"
    "prev h (head l) = NULL" "nxt h (tail l) = NULL"
proof -
  have A: "head l # us = butlast (head l # us) @ [pnode l us]"
    unfolding pnode_def by (metis append_butlast_last_id list.distinct(1))
  have B: "vs @ [tail l] = node l vs # tl (vs @ [tail l])"
    unfolding node_def by (cases vs) auto
  have "head l # (us @ vs) @ [tail l] = (head l # us) @ (vs @ [tail l])"
    by simp
  also have "\<dots> = butlast (head l # us) @ pnode l us # node l vs # tl (vs @ [tail l])"
    by (subst A, subst B) (simp del: butlast.simps)
  finally show ?thesis
    using that [OF A B] assms unfolding list_rep_def by metis
qed

lemma list_rep_node:
  assumes "list_rep h l (us @ vs)"
  shows "prev h (node l vs) = pnode l us" "nxt h (pnode l us) = node l vs"
    "node l vs \<noteq> NULL" "pnode l us \<noteq> NULL"
proof -
  obtain A B where
    *: "linked h (A @ pnode l us # node l vs # B)" "NULL \<notin> set (A @ pnode l us # node l vs # B)"
    using assms by (rule list_rep_splitE)
  then show "prev h (node l vs) = pnode l us" "nxt h (pnode l us) = node l vs"
    by (simp_all add: linked_mid)
  show "node l vs \<noteq> NULL" "pnode l us \<noteq> NULL"
    using * by auto
qed

lemma list_rep_kinds:
  assumes "list_rep h l (us @ vs)"
  shows "is_interior h (node l vs) \<or> is_tail h (node l vs)"
    "vs \<noteq> [] \<Longrightarrow> is_interior h (node l vs)"
    "is_head h (pnode l us) \<or> is_interior h (pnode l us)"
proof -
  note n = list_rep_node [OF assms]
  show 1: "is_interior h (node l vs) \<or> is_tail h (node l vs)"
    using n by (auto simp: is_interior_def is_tail_def)
  show "is_head h (pnode l us) \<or> is_interior h (pnode l us)"
    using n by (auto simp: is_interior_def is_head_def)
  assume "vs \<noteq> []"
  then obtain v vs' where vs: "vs = v # vs'" by (cases vs) auto
  have "list_rep h l ((us @ [v]) @ vs')" using assms vs by simp
  from list_rep_node [OF this] n vs show "is_interior h (node l vs)"
    by (simp add: is_interior_def)
qed

lemma list_rep_interior: "list_rep h l xs \<Longrightarrow> x \<in> set xs \<Longrightarrow> is_interior h x"
  using list_rep_kinds(2) [of h l _ "x # _"] by (auto dest!: split_list)

lemma list_rep_begin [simp]: "list_rep h l xs \<Longrightarrow> list_begin h l = node l xs"
  using list_rep_node(2) [of h l "[]" xs] by (simp add: list_begin_def)

lemma list_rep_rbegin: "list_rep h l xs \<Longrightarrow> list_rbegin h l = pnode l xs"
  using list_rep_node(1) [of h l xs "[]"] by (simp add: list_rbegin_def)

lemma list_rep_next: "list_rep h l (us @ v # vs) \<Longrightarrow> list_next h v = Some (node l vs)"
  using list_rep_node(2) [of h l "us @ [v]" vs] list_rep_kinds(2) [of h l us "v # vs"]
  by (simp add: list_next_def)

lemma list_rep_next_head: "list_rep h l xs \<Longrightarrow> list_next h (head l) = Some (node l xs)"
  using list_rep_node(2) [of h l "[]" xs] list_rep_kinds(3) [of h l "[]" xs]
  by (simp add: list_next_def)

lemma list_rep_prev: "list_rep h l (us @ vs) \<Longrightarrow> list_prev h (node l vs) = Some (pnode l us)"
  using list_rep_node(1) [of h l us vs] list_rep_kinds(1) [of h l us vs]
  by (simp add: list_prev_def)

lemma list_rep_node_eq_tail [simp]:
  "list_rep h l (us @ vs) \<Longrightarrow> node l vs = tail l \<longleftrightarrow> vs = []"
  by (cases vs) (auto simp: list_rep_def)

lemma list_rep_ne_tail: "list_rep h l (us @ v # vs) \<Longrightarrow> v \<noteq> tail l"
  by (auto simp: list_rep_def)

lemma list_rep_node_ne:
  assumes "list_rep h l (us @ vs)"
  shows "node l vs \<noteq> head l" "pnode l us \<noteq> tail l" "node l vs \<noteq> pnode l us"
  using assms by (cases vs; cases us rule: rev_cases; auto simp: list_rep_def)+

lemma list_rep_node_inj:
  assumes "list_rep h l (us @ ws @ vs)"
  shows "node l (ws @ vs) = node l vs \<longleftrightarrow> ws = []"
  using assms by (cases ws; cases vs) (auto simp: list_rep_def)

lemma list_rep_empty [simp]: "list_rep h l xs \<Longrightarrow> list_empty h l \<longleftrightarrow> xs = []"
  using list_rep_node_eq_tail [of h l "[]" xs] by (simp add: list_empty_def list_end_def)

lemma list_rep_distinct: "list_rep h l xs \<Longrightarrow> distinct xs"
  by (simp add: list_rep_def)

lemma list_rep_cong:
  assumes "\<And>p. p \<in> cells l xs \<Longrightarrow> nxt h' p = nxt h p \<and> prev h' p = prev h p"
  shows "list_rep h' l xs = list_rep h l xs"
proof -
  have "linked h' (head l # xs @ [tail l]) = linked h (head l # xs @ [tail l])"
    using assms by (intro linked_cong) (auto simp: cells_def butlast_append split: if_splits)
  then show ?thesis using assms by (simp add: list_rep_def cells_def)
qed

text \<open>What an operation leaves alone: the links of every cell outside a set.\<close>

definition frame :: "addr set \<Rightarrow> list_heap \<Rightarrow> list_heap \<Rightarrow> bool" where
  "frame S h h' \<longleftrightarrow> (\<forall>p. p \<notin> S \<longrightarrow> nxt h' p = nxt h p \<and> prev h' p = prev h p)"

lemma frame_refl [simp]: "frame S h h"
  by (simp add: frame_def)

lemma frame_trans [trans]: "frame S h h' \<Longrightarrow> frame S h' h'' \<Longrightarrow> frame S h h''"
  by (simp add: frame_def)

lemma frame_mono: "frame S h h' \<Longrightarrow> S \<subseteq> T \<Longrightarrow> frame T h h'"
  by (auto simp: frame_def)

lemma frame_set_prev [simp]: "p \<in> S \<Longrightarrow> frame S h (set_prev p v h') \<longleftrightarrow> frame S h h'"
  by (auto simp: frame_def)

lemma frame_set_next [simp]: "p \<in> S \<Longrightarrow> frame S h (set_next p v h') \<longleftrightarrow> frame S h h'"
  by (auto simp: frame_def)

lemma frame_list_rep:
  "frame S h h' \<Longrightarrow> cells l xs \<inter> S = {} \<Longrightarrow> list_rep h' l xs = list_rep h l xs"
  by (rule list_rep_cong) (auto simp: frame_def)

section \<open>Initialisation, insertion, removal\<close>

lemma list_init_rep:
  assumes "head l \<noteq> tail l" "head l \<noteq> NULL" "tail l \<noteq> NULL"
  shows "list_rep (list_init l h) l []" "frame (cells l []) h (list_init l h)"
  using assms by (auto simp: list_init_def list_rep_def Let_def cells_def frame_def)

lemma node_in_cells: "node l vs \<in> cells l (us @ vs)"
  by (cases vs) (auto simp: cells_def)

lemma pnode_in_cells: "pnode l us \<in> cells l (us @ vs)"
  by (cases us rule: rev_cases) (auto simp: cells_def)

lemma linked_insert:
  assumes "linked h (A @ a # b # B)" "distinct (A @ a # b # B)" "e \<notin> set (A @ a # b # B)"
  shows "linked (set_prev b e (set_next a e (set_next e b (set_prev e a h)))) (A @ a # e # b # B)"
  using assms by (simp add: linked_mid)

lemma list_insert_rep:
  assumes rep: "list_rep h l (us @ vs)" and e: "e \<noteq> NULL" "e \<notin> cells l (us @ vs)"
  shows "\<exists>h'. list_insert (node l vs) e h = Some h' \<and> list_rep h' l (us @ e # vs) \<and>
    frame (insert e (cells l (us @ vs))) h h'"
proof -
  obtain A B where AB: "head l # us = A @ [pnode l us]" "vs @ [tail l] = node l vs # B"
    and lk: "linked h (A @ pnode l us # node l vs # B)"
      "distinct (A @ pnode l us # node l vs # B)" "NULL \<notin> set (A @ pnode l us # node l vs # B)"
    and ends: "prev h (head l) = NULL" "nxt h (tail l) = NULL"
    using rep by (rule list_rep_splitE)
  have eq: "head l # (us @ vs) @ [tail l] = A @ pnode l us # node l vs # B"
    using AB by (metis append.assoc append_Cons append_Nil)
  have eq': "head l # (us @ e # vs) @ [tail l] = A @ pnode l us # e # node l vs # B"
    using AB by (metis append.assoc append_Cons append_Nil)
  have enin: "e \<notin> set (A @ pnode l us # node l vs # B)"
    using e eq [symmetric] by (auto simp: cells_def)
  define h' where
    "h' = set_prev (node l vs) e (set_next (pnode l us) e (set_next e (node l vs) (set_prev e (pnode l us) h)))"
  have ne: "e \<noteq> node l vs" "e \<noteq> pnode l us" "node l vs \<noteq> head l" "pnode l us \<noteq> tail l"
      "e \<noteq> head l" "e \<noteq> tail l"
    using enin list_rep_node_ne [OF rep] e by (auto simp: cells_def)
  have "list_insert (node l vs) e h = Some h'"
    using list_rep_kinds(1) [OF rep] list_rep_node [OF rep] e ne
    by (simp add: list_insert_def h'_def)
  moreover have "list_rep h' l (us @ e # vs)"
    unfolding list_rep_def eq'
    using linked_insert [OF lk(1,2) enin] ends ne lk enin e(1) by (auto simp: h'_def)
  moreover have "frame (insert e (cells l (us @ vs))) h h'"
    using node_in_cells pnode_in_cells by (simp add: h'_def)
  ultimately show ?thesis by blast
qed

lemma list_push_front_rep:
  assumes "list_rep h l xs" "e \<noteq> NULL" "e \<notin> cells l xs"
  shows "\<exists>h'. list_push_front l e h = Some h' \<and> list_rep h' l (e # xs) \<and>
    frame (insert e (cells l xs)) h h'"
  using list_insert_rep [of h l "[]" xs e] assms by (simp add: list_push_front_def)

lemma list_push_back_rep:
  assumes "list_rep h l xs" "e \<noteq> NULL" "e \<notin> cells l xs"
  shows "\<exists>h'. list_push_back l e h = Some h' \<and> list_rep h' l (xs @ [e]) \<and>
    frame (insert e (cells l xs)) h h'"
  using list_insert_rep [of h l xs "[]" e] assms by (simp add: list_push_back_def list_end_def)

lemma list_remove_rep:
  assumes rep: "list_rep h l (us @ e # vs)"
  shows "\<exists>h'. list_remove e h = Some (node l vs, h') \<and> list_rep h' l (us @ vs) \<and>
    frame (cells l (us @ e # vs)) h h'"
proof -
  obtain A B where AB: "head l # us = A @ [pnode l us]" "(e # vs) @ [tail l] = e # B"
    and lk: "linked h (A @ pnode l us # e # B)"
      "distinct (A @ pnode l us # e # B)" "NULL \<notin> set (A @ pnode l us # e # B)"
    and ends: "prev h (head l) = NULL" "nxt h (tail l) = NULL"
    using list_rep_splitE [OF rep] by (metis node_simps(2))
  obtain C where B: "B = node l vs # C" using AB(2) by (cases vs) auto
  have eq': "head l # (us @ vs) @ [tail l] = A @ pnode l us # node l vs # C"
    using AB B by (metis append.assoc append_Cons append_Nil list.inject)
  have rep': "list_rep h l ((us @ [e]) @ vs)" using rep by simp
  define h' where "h' = set_prev (node l vs) (pnode l us) (set_next (pnode l us) (node l vs) h)"
  have ne: "e \<noteq> node l vs" "e \<noteq> pnode l us" "node l vs \<noteq> head l" "pnode l us \<noteq> tail l"
    using lk(2) B list_rep_node_ne [OF rep] list_rep_node_ne [OF rep'] by auto
  have "list_remove e h = Some (node l vs, h')"
    using list_rep_kinds(2) [OF rep] list_rep_node [OF rep] list_rep_node [OF rep'] ne
    by (simp add: list_remove_def h'_def)
  moreover have "list_rep h' l (us @ vs)"
    unfolding list_rep_def eq' using lk B ends ne by (auto simp: h'_def linked_mid)
  moreover have "frame (cells l (us @ e # vs)) h h'"
    using node_in_cells [of l vs "us @ [e]"] pnode_in_cells [of l us "e # vs"]
    by (simp add: h'_def)
  ultimately show ?thesis by blast
qed

lemma list_front_rep: "list_rep h l (x # xs) \<Longrightarrow> list_front h l = Some x"
  using list_rep_begin [of h l "x # xs"] by (simp add: list_front_def list_begin_def)

lemma list_back_rep: "list_rep h l (xs @ [x]) \<Longrightarrow> list_back h l = Some x"
  using list_rep_node(1) [of h l "xs @ [x]" "[]"] by (simp add: list_back_def)

lemma list_pop_front_rep:
  assumes "list_rep h l (x # xs)"
  shows "\<exists>h'. list_pop_front l h = Some (x, h') \<and> list_rep h' l xs \<and> frame (cells l (x # xs)) h h'"
  using list_remove_rep [of h l "[]" x xs] list_front_rep [OF assms] assms
  by (auto simp: list_pop_front_def)

lemma list_pop_back_rep:
  assumes "list_rep h l (xs @ [x])"
  shows "\<exists>h'. list_pop_back l h = Some (x, h') \<and> list_rep h' l xs \<and> frame (cells l (xs @ [x])) h h'"
  using list_remove_rep [of h l xs x "[]"] list_back_rep [OF assms] assms
  by (auto simp: list_pop_back_def)

lemma list_pop_empty:
  "list_rep h l [] \<Longrightarrow> list_pop_front l h = None \<and> list_pop_back l h = None"
  by (simp add: list_pop_front_def list_pop_back_def list_front_def list_back_def)

section \<open>Traversals\<close>

lemma list_size_loop_rep:
  "list_rep h l (us @ vs) \<Longrightarrow> list_size_loop h l (node l vs) n = Some (n + length vs)"
proof (induction vs arbitrary: us n)
  case Nil
  then show ?case by (simp add: list_size_loop.simps list_end_def)
next
  case (Cons v vs)
  have "v \<noteq> tail l" using Cons.prems by (rule list_rep_ne_tail)
  then show ?case
    using Cons.IH [of "us @ [v]" "Suc n"] Cons.prems list_rep_next [OF Cons.prems]
    by (simp add: list_size_loop.simps [of h l v] list_end_def)
qed

lemma list_size_rep: "list_rep h l xs \<Longrightarrow> list_size h l = Some (length xs)"
  using list_size_loop_rep [of h l "[]" xs 0] by (simp add: list_size_def)

lemma insert_ordered_loop_rep:
  "list_rep h l (us @ vs) \<Longrightarrow>
   insert_ordered_loop h l e lessf (node l vs) = Some (node l (dropWhile (\<lambda>x. \<not> lessf e x) vs))"
proof (induction vs arbitrary: us)
  case Nil
  then show ?case by (simp add: insert_ordered_loop.simps list_end_def)
next
  case (Cons v vs)
  have "v \<noteq> tail l" using Cons.prems by (rule list_rep_ne_tail)
  then show ?case
    using Cons.IH [of "us @ [v]"] Cons.prems list_rep_next [OF Cons.prems]
    by (simp add: insert_ordered_loop.simps [of h l e lessf v] list_end_def)
qed

lemma list_insert_ordered_rep:
  assumes "list_rep h l xs" "e \<noteq> NULL" "e \<notin> cells l xs"
  shows "\<exists>h'. list_insert_ordered l e lessf h = Some h' \<and>
    list_rep h' l (insert_ordered lessf e xs) \<and> frame (insert e (cells l xs)) h h'"
  using insert_ordered_loop_rep [of h l "[]" xs e lessf] assms
    list_insert_rep [of h l "takeWhile (\<lambda>x. \<not> lessf e x) xs" "dropWhile (\<lambda>x. \<not> lessf e x) xs" e]
  by (simp add: list_insert_ordered_def insert_ordered_def)

text \<open>The maximum and the minimum keep the earliest of several candidates.\<close>

lemma list_max_loop_rep:
  "list_rep h l (us @ vs) \<Longrightarrow>
   list_max_loop h l lessf m (node l vs) = Some (foldl (\<lambda>m e. if lessf m e then e else m) m vs)"
proof (induction vs arbitrary: us m)
  case Nil
  then show ?case by (simp add: list_max_loop.simps list_end_def)
next
  case (Cons v vs)
  have "v \<noteq> tail l" using Cons.prems by (rule list_rep_ne_tail)
  then show ?case
    using Cons.IH [of "us @ [v]"] Cons.prems list_rep_next [OF Cons.prems]
    by (simp add: list_max_loop.simps [of h l lessf m v] list_end_def)
qed

lemma list_min_loop_rep:
  "list_rep h l (us @ vs) \<Longrightarrow>
   list_min_loop h l lessf m (node l vs) = Some (foldl (\<lambda>m e. if lessf e m then e else m) m vs)"
proof (induction vs arbitrary: us m)
  case Nil
  then show ?case by (simp add: list_min_loop.simps list_end_def)
next
  case (Cons v vs)
  have "v \<noteq> tail l" using Cons.prems by (rule list_rep_ne_tail)
  then show ?case
    using Cons.IH [of "us @ [v]"] Cons.prems list_rep_next [OF Cons.prems]
    by (simp add: list_min_loop.simps [of h l lessf m v] list_end_def)
qed

lemma list_max_rep:
  assumes "list_rep h l xs"
  shows "list_max h l lessf =
    Some (case xs of [] \<Rightarrow> tail l | x # xs \<Rightarrow> foldl (\<lambda>m e. if lessf m e then e else m) x xs)"
proof (cases xs)
  case Nil
  then show ?thesis using assms by (simp add: list_max_def list_end_def)
next
  case (Cons x ys)
  then have rep: "list_rep h l ([] @ x # ys)" using assms by simp
  then have "list_max_loop h l lessf x (node l ys) = Some (foldl (\<lambda>m e. if lessf m e then e else m) x ys)"
    using list_max_loop_rep [of h l "[x]" ys] by simp
  then show ?thesis
    using Cons assms list_rep_next [OF rep] list_rep_ne_tail [OF rep]
    by (simp add: list_max_def list_end_def)
qed

lemma list_min_rep:
  assumes "list_rep h l xs"
  shows "list_min h l lessf =
    Some (case xs of [] \<Rightarrow> tail l | x # xs \<Rightarrow> foldl (\<lambda>m e. if lessf e m then e else m) x xs)"
proof (cases xs)
  case Nil
  then show ?thesis using assms by (simp add: list_min_def list_end_def)
next
  case (Cons x ys)
  then have rep: "list_rep h l ([] @ x # ys)" using assms by simp
  then have "list_min_loop h l lessf x (node l ys) = Some (foldl (\<lambda>m e. if lessf e m then e else m) x ys)"
    using list_min_loop_rep [of h l "[x]" ys] by simp
  then show ?thesis
    using Cons assms list_rep_next [OF rep] list_rep_ne_tail [OF rep]
    by (simp add: list_min_def list_end_def)
qed

section \<open>Splicing\<close>

lemma linked_append2:
  assumes "us \<noteq> []" "vs \<noteq> []"
  shows "linked h (us @ vs) \<longleftrightarrow>
    linked h us \<and> linked h vs \<and> nxt h (last us) = hd vs \<and> prev h (hd vs) = last us"
proof -
  obtain A a where us: "us = A @ [a]" using assms(1) by (cases us rule: rev_cases) auto
  obtain b B where vs: "vs = b # B" using assms(2) by (cases vs) auto
  show ?thesis unfolding us vs using linked_mid [of h A a b B] by auto
qed

lemma distinct_last_butlast: "distinct ws \<Longrightarrow> ws \<noteq> [] \<Longrightarrow> last ws \<notin> set (butlast ws)"
  by (cases ws rule: rev_cases) auto

lemma distinct_hd_tl: "distinct ws \<Longrightarrow> ws \<noteq> [] \<Longrightarrow> hd ws \<notin> set (tl ws)"
  by (cases ws) auto

lemma linked_frame:
  assumes "linked h ws" "distinct ws" "ws \<noteq> []"
    and "\<And>p. p \<in> set ws \<Longrightarrow> p \<noteq> last ws \<Longrightarrow> nxt h' p = nxt h p"
    and "\<And>p. p \<in> set ws \<Longrightarrow> p \<noteq> hd ws \<Longrightarrow> prev h' p = prev h p"
  shows "linked h' ws"
proof -
  have "linked h' ws = linked h ws"
  proof (rule linked_cong)
    fix p assume "p \<in> set (butlast ws)"
    then show "nxt h' p = nxt h p"
      using assms(4) distinct_last_butlast [OF assms(2,3)] by (auto dest: in_set_butlastD)
  next
    fix p assume "p \<in> set (tl ws)"
    then show "prev h' p = prev h p"
      using assms(3,5) distinct_hd_tl [OF assms(2,3)] by (auto dest: list.set_sel(2))
  qed
  then show ?thesis using assms(1) by simp
qed

definition splice_heap ::
    "addr \<Rightarrow> addr \<Rightarrow> addr \<Rightarrow> addr \<Rightarrow> addr \<Rightarrow> addr \<Rightarrow> list_heap \<Rightarrow> list_heap" where
  "splice_heap q s s' w p v h =
     set_prev v s' (set_next p s (set_next s' v (set_prev s p (set_prev w q (set_next q w h)))))"

lemma list_splice_eq:
  assumes "is_interior h v \<or> is_tail h v" "is_interior h s" "is_interior h s'" "is_tail h w \<or> is_interior h w"
    and "prev h w = s'" "nxt h s' = w" "prev h s = q" "prev h v = p"
    and "s \<noteq> w" "w \<noteq> v" "s \<noteq> v" "s' \<noteq> q"
  shows "list_splice v s w h = Some (splice_heap q s s' w p v h)"
  using assms by (auto simp: list_splice_def list_prev_def splice_heap_def)

lemma linked_splice_same:
  assumes lk: "linked h (P @ M @ S @ V)" and ds: "distinct (P @ M @ S @ V)"
    and ne: "P \<noteq> []" "M \<noteq> []" "S \<noteq> []" "V \<noteq> []"
  shows "linked (splice_heap (last M) (hd S) (last S) (hd V) (last P) (hd M) h) (P @ S @ M @ V)"
    (is "linked ?h _")
proof -
  have segs: "linked h P" "linked h M" "linked h S" "linked h V"
    using lk ne by (simp_all add: linked_append2)
  have ends: "last P \<in> set P" "last M \<in> set M" "last S \<in> set S"
    "hd M \<in> set M" "hd S \<in> set S" "hd V \<in> set V"
    using ne by simp_all
  have "linked ?h P"
    using segs(1) ds ne(1) ends by (rule_tac linked_frame) (auto simp: splice_heap_def)
  moreover have "linked ?h M"
    using segs(2) ds ne(2) ends by (rule_tac linked_frame) (auto simp: splice_heap_def)
  moreover have "linked ?h S"
    using segs(3) ds ne(3) ends by (rule_tac linked_frame) (auto simp: splice_heap_def)
  moreover have "linked ?h V"
    using segs(4) ds ne(4) ends by (rule_tac linked_frame) (auto simp: splice_heap_def)
  moreover have "nxt ?h (last P) = hd S" "prev ?h (hd S) = last P"
    "nxt ?h (last S) = hd M" "prev ?h (hd M) = last S"
    "nxt ?h (last M) = hd V" "prev ?h (hd V) = last M"
    using ds ends by (auto simp: splice_heap_def)
  ultimately show ?thesis using ne by (simp add: linked_append2)
qed

text \<open>Moving a segment forward inside one list.\<close>

lemma list_splice_rep:
  assumes rep: "list_rep h l (us @ M @ S @ vs)" and ne: "M \<noteq> []" "S \<noteq> []"
  shows "\<exists>h'. list_splice (hd M) (hd S) (node l vs) h = Some h' \<and>
    list_rep h' l (us @ S @ M @ vs) \<and> frame (cells l (us @ M @ S @ vs)) h h'"
proof -
  define P V where "P = head l # us" and "V = vs @ [tail l]"
  have PV: "P \<noteq> []" "V \<noteq> []" "hd V = node l vs" "hd P = head l" "last V = tail l"
    by (simp_all add: P_def V_def node_def)
  have eq: "head l # (us @ M @ S @ vs) @ [tail l] = P @ M @ S @ V" by (simp add: P_def V_def)
  have lk: "linked h (P @ M @ S @ V)" and ds: "distinct (P @ M @ S @ V)"
    and nn: "NULL \<notin> set (P @ M @ S @ V)"
    and e: "prev h (hd P) = NULL" "nxt h (last V) = NULL"
    using rep unfolding list_rep_def eq by (simp_all add: PV)
  have links: "prev h (hd M) = last P" "prev h (hd S) = last M" "nxt h (last M) = hd S"
    "nxt h (last S) = hd V" "prev h (hd V) = last S" "nxt h (last P) = hd M"
    using lk ne PV by (simp_all add: linked_append2)
  have mem: "hd P \<in> set P" "last P \<in> set P" "hd M \<in> set M" "last M \<in> set M"
    "hd S \<in> set S" "last S \<in> set S" "hd V \<in> set V" "last V \<in> set V"
    using ne PV(1,2) by simp_all
  have nnm: "hd M \<noteq> NULL" "hd S \<noteq> NULL" "last S \<noteq> NULL" "hd V \<noteq> NULL" "last P \<noteq> NULL" "last M \<noteq> NULL"
    using nn mem by (metis Un_iff set_append)+
  define h' where "h' = splice_heap (last M) (hd S) (last S) (hd V) (last P) (hd M) h"
  have int: "is_interior h (hd M)" "is_interior h (hd S)" "is_interior h (last S)"
    using list_rep_interior [OF rep] mem by simp_all
  have tl: "is_tail h (hd V) \<or> is_interior h (hd V)"
    using list_rep_kinds(1) [of h l "us @ M @ S" vs] rep PV by auto
  have nes: "hd S \<noteq> hd V" "hd V \<noteq> hd M" "hd S \<noteq> hd M" "last S \<noteq> last M"
    using ds mem by (auto simp: disjoint_iff)
  have "list_splice (hd M) (hd S) (hd V) h = Some h'"
    unfolding h'_def using int tl links nes by (intro list_splice_eq) simp_all
  moreover have "list_rep h' l (us @ S @ M @ vs)"
  proof -
    have eq': "head l # (us @ S @ M @ vs) @ [tail l] = P @ S @ M @ V" by (simp add: P_def V_def)
    have "linked h' (P @ S @ M @ V)"
      unfolding h'_def using linked_splice_same [OF lk ds] PV ne by blast
    moreover have "prev h' (hd P) = NULL" "nxt h' (last V) = NULL"
      using e ds mem by (auto simp: h'_def splice_heap_def)
    ultimately show ?thesis unfolding list_rep_def eq' using ds nn PV by auto
  qed
  moreover have "frame (cells l (us @ M @ S @ vs)) h h'"
  proof -
    have "cells l (us @ M @ S @ vs) = set (P @ M @ S @ V)"
      by (auto simp: cells_def P_def V_def)
    then show ?thesis using mem by (simp add: h'_def splice_heap_def)
  qed
  ultimately show ?thesis using PV by auto
qed

section \<open>Reversal\<close>

definition flip :: "list_heap \<Rightarrow> list_heap" where
  "flip h = h\<lparr>prev := nxt h, nxt := prev h\<rparr>"

lemma linked_flip: "linked (flip h) (rev ws) = linked h ws"
proof (induction h ws rule: linked.induct)
  case (1 h a b ws)
  then show ?case
    using linked_append2 [of "rev ws @ [b]" "[a]" "flip h"] by (auto simp: flip_def)
qed auto

lemma list_reverse_loop_rep:
  "list_rep h0 l (us @ vs) \<Longrightarrow> (\<And>p. p \<notin> set us \<Longrightarrow> nxt h p = nxt h0 p \<and> prev h p = prev h0 p) \<Longrightarrow>
   \<exists>h'. list_reverse_loop l (node l vs) h = Some h' \<and>
     (\<forall>p. p \<in> set vs \<longrightarrow> nxt h' p = prev h0 p \<and> prev h' p = nxt h0 p) \<and>
     (\<forall>p. p \<notin> set vs \<longrightarrow> nxt h' p = nxt h p \<and> prev h' p = prev h p)"
proof (induction vs arbitrary: us h)
  case Nil
  then show ?case by (simp add: list_reverse_loop.simps list_end_def)
next
  case (Cons v vs)
  let ?h = "swap_links v h"
  have rep': "list_rep h0 l ((us @ [v]) @ vs)" using Cons.prems by simp
  have v: "v \<noteq> tail l" "v \<noteq> NULL" "v \<notin> set us" "v \<notin> set vs"
    using Cons.prems(1) by (auto simp: list_rep_def)
  have sw: "prev ?h v = nxt h0 v" "nxt ?h v = prev h0 v" "\<And>p. p \<noteq> v \<Longrightarrow> nxt ?h p = nxt h p \<and> prev ?h p = prev h p"
    using Cons.prems(2) [of v] v by (auto simp: swap_links_def Let_def)
  have "prev ?h v = node l vs" using sw list_rep_node(2) [OF rep'] by simp
  moreover obtain h' where "list_reverse_loop l (node l vs) ?h = Some h'"
    "\<forall>p. p \<in> set vs \<longrightarrow> nxt h' p = prev h0 p \<and> prev h' p = nxt h0 p"
    "\<forall>p. p \<notin> set vs \<longrightarrow> nxt h' p = nxt ?h p \<and> prev h' p = prev ?h p"
    using Cons.IH [OF rep', of ?h] sw(3) Cons.prems(2) by auto
  ultimately show ?case
    using v sw by (intro exI [of _ h']) (auto simp: list_reverse_loop.simps [of l v] list_end_def)
qed

lemma list_reverse_rep:
  assumes rep: "list_rep h l xs"
  shows "\<exists>h'. list_reverse l h = Some h' \<and> list_rep h' l (rev xs) \<and> frame (cells l xs) h h'"
proof (cases xs)
  case Nil
  then show ?thesis using rep by (intro exI [of _ h]) (simp add: list_reverse_def)
next
  case (Cons x xs')
  let ?a = "last xs" and ?b = "hd xs"
  have ne: "xs \<noteq> []" using Cons by simp
  obtain h1 where h1: "list_reverse_loop l (node l xs) h = Some h1"
    and in1: "\<And>p. p \<in> set xs \<Longrightarrow> nxt h1 p = prev h p \<and> prev h1 p = nxt h p"
    and out1: "\<And>p. p \<notin> set xs \<Longrightarrow> nxt h1 p = nxt h p \<and> prev h1 p = prev h p"
    using list_reverse_loop_rep [of h l "[]" xs h] rep by auto
  have lk: "linked h (head l # xs @ [tail l])" and ds: "distinct (head l # xs @ [tail l])"
    and nn: "NULL \<notin> set (head l # xs @ [tail l])"
    and e: "prev h (head l) = NULL" "nxt h (tail l) = NULL"
    using rep by (simp_all add: list_rep_def)
  have segs: "linked h xs" "nxt h (head l) = ?b" "prev h ?b = head l" "nxt h ?a = tail l" "prev h (tail l) = ?a"
    using lk ne linked_append2 [of "[head l]" "xs @ [tail l]" h] linked_append2 [of xs "[tail l]" h] by auto
  have mem: "?a \<in> set xs" "?b \<in> set xs" using ne by auto
  have nin: "head l \<notin> set xs" "tail l \<notin> set xs" "NULL \<notin> set xs" "head l \<noteq> tail l"
    using ds nn by auto
  have ab: "?a \<noteq> head l" "?a \<noteq> tail l" "?b \<noteq> head l" "?b \<noteq> tail l" "?a \<noteq> NULL" "?b \<noteq> NULL"
    using nin mem by metis+
  define h' where "h' = set_next ?b (tail l) (set_prev ?a (head l)
    (set_prev (tail l) ?b (set_next (head l) ?a h1)))"
  have "list_reverse l h = Some h'"
    using rep ne h1 segs ab nin out1 [of "head l"] out1 [of "tail l"] in1 [OF mem(1)] in1 [OF mem(2)]
    by (simp add: list_reverse_def h'_def Let_def)
  moreover have "list_rep h' l (rev xs)"
  proof -
    have "linked h' (rev xs)"
    proof (rule linked_frame)
      show "linked (flip h) (rev xs)" using segs(1) by (simp add: linked_flip)
    qed (use ds ne ab nin in1 in \<open>auto simp: h'_def flip_def hd_rev last_rev\<close>)
    moreover have "nxt h' (head l) = ?a" "prev h' ?a = head l" "nxt h' ?b = tail l" "prev h' (tail l) = ?b"
      using ab nin by (auto simp: h'_def)
    ultimately have "linked h' (head l # rev xs @ [tail l])"
      using ne linked_append2 [of "[head l]" "rev xs @ [tail l]" h'] linked_append2 [of "rev xs" "[tail l]" h']
      by (simp add: hd_rev last_rev hd_append)
    moreover have "prev h' (head l) = NULL" "nxt h' (tail l) = NULL"
      using e ab nin out1 by (auto simp: h'_def)
    ultimately show ?thesis using ds nn by (auto simp: list_rep_def)
  qed
  moreover have "frame (cells l xs) h h'"
    using mem out1 by (simp add: h'_def cells_def) (auto simp: frame_def)
  ultimately show ?thesis by blast
qed

section \<open>Removing adjacent duplicates\<close>

text \<open>The elements \<open>list_unique\<close> keeps after \<open>x\<close> and those it takes out.\<close>

fun unique_split :: "('a \<Rightarrow> 'a \<Rightarrow> bool) \<Rightarrow> 'a \<Rightarrow> 'a list \<Rightarrow> 'a list \<times> 'a list" where
  "unique_split lessf x [] = ([], [])"
| "unique_split lessf x (y # ys) =
     (if \<not> lessf x y \<and> \<not> lessf y x
      then let (k, d) = unique_split lessf x ys in (k, y # d)
      else let (k, d) = unique_split lessf y ys in (y # k, d))"

definition dup_rep :: "list_heap \<Rightarrow> clist option \<Rightarrow> addr list \<Rightarrow> addr set \<Rightarrow> bool" where
  "dup_rep h dup ds S \<longleftrightarrow>
     (case dup of None \<Rightarrow> True | Some d \<Rightarrow> list_rep h d ds \<and> cells d ds \<inter> S = {})"

lemma dup_rep_frame:
  "dup_rep h dup ds S \<Longrightarrow> frame S h h' \<Longrightarrow> dup_rep h' dup ds S"
  by (cases dup) (auto simp: dup_rep_def frame_list_rep)

lemma dup_rep_push:
  assumes dr: "dup_rep h (Some d) ds (insert y S)" and rep: "list_rep h l xs" "cells l xs \<subseteq> S"
    and y: "y \<notin> S" "y \<noteq> NULL"
  shows "\<exists>h'. list_push_back d y h = Some h' \<and> list_rep h' l xs \<and> dup_rep h' (Some d) (ds @ [y]) S"
proof -
  have d: "list_rep h d ds" "cells d ds \<inter> insert y S = {}" using dr by (auto simp: dup_rep_def)
  obtain h' where h': "list_push_back d y h = Some h'" "list_rep h' d (ds @ [y])"
    "frame (insert y (cells d ds)) h h'"
    using list_push_back_rep [OF d(1) y(2)] d(2) by auto
  have "list_rep h' l xs"
    using frame_list_rep [OF h'(3)] d(2) rep y(1) by blast
  then show ?thesis using h' d(2) y(1) by (auto simp: dup_rep_def cells_append)
qed

lemma list_unique_loop_rep:
  "list_rep h l (us @ x # vs) \<Longrightarrow> dup_rep h dup ds (cells l (us @ x # vs)) \<Longrightarrow>
   unique_split lessf x vs = (k, d) \<Longrightarrow>
   \<exists>h'. list_unique_loop l dup lessf x h = Some h' \<and> list_rep h' l (us @ x # k) \<and>
     dup_rep h' dup (ds @ d) (cells l (us @ x # k))"
proof (induction lessf x vs arbitrary: us h ds k d rule: unique_split.induct)
  case (1 lessf x)
  then show ?case
    using list_rep_next [OF 1(1)] by (simp add: list_unique_loop.simps [of l dup lessf x] list_end_def)
next
  case (2 lessf x y ys)
  note unf = list_unique_loop.simps [of l _ lessf x h]
  have y: "y \<noteq> tail l" "y \<noteq> NULL" "y \<notin> cells l (us @ x # ys)"
    using 2(3) by (auto simp: list_rep_def cells_def)
  show ?case
  proof (cases "\<not> lessf x y \<and> \<not> lessf y x")
    case True
    obtain k1 d1 where kd: "unique_split lessf x ys = (k1, d1)" "k = k1" "d = y # d1"
      using 2(5) True by (auto split: prod.splits)
    obtain h1 where h1: "list_remove y h = Some (node l ys, h1)" "list_rep h1 l (us @ x # ys)"
        "frame (cells l (us @ x # y # ys)) h h1"
      using list_remove_rep [of h l "us @ [x]" y ys] 2(3) by auto
    have S: "cells l (us @ x # y # ys) = insert y (cells l (us @ x # ys))" by (auto simp: cells_def)
    have dr1: "dup_rep h1 dup ds (insert y (cells l (us @ x # ys)))"
      using dup_rep_frame [OF 2(4) h1(3)] S by simp
    have "\<exists>h2. (case dup of None \<Rightarrow> Some h1 | Some d \<Rightarrow> list_push_back d y h1) = Some h2 \<and>
        list_rep h2 l (us @ x # ys) \<and> dup_rep h2 dup (ds @ [y]) (cells l (us @ x # ys))"
      using dup_rep_push [OF _ h1(2) subset_refl y(3,2)] dr1 h1(2)
      by (cases dup) (auto simp: dup_rep_def)
    then obtain h2 where h2: "(case dup of None \<Rightarrow> Some h1 | Some d \<Rightarrow> list_push_back d y h1) = Some h2"
        "list_rep h2 l (us @ x # ys)" "dup_rep h2 dup (ds @ [y]) (cells l (us @ x # ys))"
      by blast
    show ?thesis
      using 2(1) [OF True h2(2,3) kd(1)] kd(2,3) h1(1) h2(1) True y(1) list_rep_next [OF 2(3)]
      by (cases dup) (simp_all add: unf list_end_def)
  next
    case False
    obtain k1 d1 where kd: "unique_split lessf y ys = (k1, d1)" "k = y # k1" "d = d1"
      using 2(5) False by (auto split: prod.splits)
    have "list_rep h l ((us @ [x]) @ y # ys)" using 2(3) by simp
    from 2(2) [OF False this _ kd(1)] 2(4) kd(2,3) False y(1) list_rep_next [OF 2(3)]
    show ?thesis by (auto simp: unf list_end_def)
  qed
qed

lemma list_unique_rep:
  assumes rep: "list_rep h l (x # xs)" and dup: "dup_rep h dup ds (cells l (x # xs))"
    and split: "unique_split lessf x xs = (k, d)"
  shows "\<exists>h'. list_unique l dup lessf h = Some h' \<and> list_rep h' l (x # k) \<and>
    dup_rep h' dup (ds @ d) (cells l (x # k))"
  using list_unique_loop_rep [of h l "[]" x xs dup ds lessf k d] assms
  by (simp add: list_unique_def)

lemma unique_split_props:
  assumes "unique_split lessf x ys = (k, d)"
  shows "mset k + mset d = mset ys"
    "successively (\<lambda>a b. lessf a b \<or> lessf b a) (x # k)"
  using assms by (induction lessf x ys arbitrary: k d rule: unique_split.induct)
    (auto split: prod.splits if_splits)

section \<open>The interface, provided\<close>

interpretation clist: intrusive_list list_rep cells "\<lambda>e. e \<noteq> NULL" frame
  list_push_back list_insert_ordered list_pop_front list_pop_back
proof unfold_locales
  show "cells l xs = cells l [] \<union> set xs" for l xs by (auto simp: cells_def)
qed (rule list_push_back_rep list_insert_ordered_rep list_pop_front_rep list_pop_back_rep
    frame_list_rep; assumption)+

end
