(* ===== verification/Clist_Sort.thy ===== *)
theory Clist_Sort
  imports Clist_Rep
begin

text \<open>
  \<open>list_sort\<close> of \<^verbatim>\<open>src/pintos/src/lib/kernel/list.c\<close> is a natural merge sort that works
  by relinking. Here it is related to a merge sort on mathematical lists, its
  termination is proved (each pass halves the number of runs), and its result is
  shown to be the stable sort of the list.
\<close>

section \<open>The algorithm on lists\<close>

text \<open>The rest of the first run, after its first element \<open>x\<close>, and what follows it.\<close>

fun split_run :: "('a \<Rightarrow> 'a \<Rightarrow> bool) \<Rightarrow> 'a \<Rightarrow> 'a list \<Rightarrow> 'a list \<times> 'a list" where
  "split_run lessf x [] = ([], [])"
| "split_run lessf x (y # ys) =
     (if lessf y x then ([], y # ys)
      else let (r, rest) = split_run lessf y ys in (y # r, rest))"

fun merge_runs :: "('a \<Rightarrow> 'a \<Rightarrow> bool) \<Rightarrow> 'a list \<Rightarrow> 'a list \<Rightarrow> 'a list" where
  "merge_runs lessf [] ys = ys"
| "merge_runs lessf xs [] = xs"
| "merge_runs lessf (x # xs) (y # ys) =
     (if \<not> lessf y x then x # merge_runs lessf xs (y # ys) else y # merge_runs lessf (x # xs) ys)"

definition run_ok :: "('a \<Rightarrow> 'a \<Rightarrow> bool) \<Rightarrow> 'a list \<Rightarrow> bool" where
  "run_ok lessf xs \<longleftrightarrow> successively (\<lambda>a b. \<not> lessf b a) xs"

lemma split_run_append: "split_run lessf x ys = (r, rest) \<Longrightarrow> r @ rest = ys"
  by (induction lessf x ys arbitrary: r rest rule: split_run.induct)
    (auto split: if_splits prod.splits)

lemma split_run_length: "split_run lessf x ys = (r, rest) \<Longrightarrow> length r + length rest = length ys"
  by (drule split_run_append) auto

lemma split_run_ok: "split_run lessf x ys = (r, rest) \<Longrightarrow> run_ok lessf (x # r)"
  by (induction lessf x ys arbitrary: r rest rule: split_run.induct)
    (auto split: if_splits prod.splits simp: run_ok_def)

lemma split_run_complete: "run_ok lessf (x # ys) \<Longrightarrow> split_run lessf x ys = (ys, [])"
  by (induction lessf x ys rule: split_run.induct) (auto simp: run_ok_def)

function merge_pass :: "('a \<Rightarrow> 'a \<Rightarrow> bool) \<Rightarrow> 'a list \<Rightarrow> nat \<times> 'a list" where
  "merge_pass lessf [] = (0, [])"
| "merge_pass lessf (x # xs) =
     (case split_run lessf x xs of
        (r, []) \<Rightarrow> (1, x # r)
      | (r, y # ys) \<Rightarrow>
          (case split_run lessf y ys of (r', rest) \<Rightarrow>
             let (n, zs) = merge_pass lessf rest
             in (Suc n, merge_runs lessf (x # r) (y # r') @ zs)))"
  by pat_completeness auto
termination
  by (relation "measure (\<lambda>(lessf, xs). length xs)") (auto dest!: split_run_length [OF sym])

text \<open>The number of maximal runs.\<close>

fun runs :: "('a \<Rightarrow> 'a \<Rightarrow> bool) \<Rightarrow> 'a list \<Rightarrow> nat" where
  "runs lessf [] = 0"
| "runs lessf [x] = 1"
| "runs lessf (x # y # ys) = (if lessf y x then Suc (runs lessf (y # ys)) else runs lessf (y # ys))"

lemma runs_split: "split_run lessf x ys = (r, rest) \<Longrightarrow> runs lessf (x # ys) = Suc (runs lessf rest)"
  by (induction lessf x ys arbitrary: r rest rule: split_run.induct)
    (auto split: if_splits prod.splits)

lemma runs_append_le: "runs lessf (xs @ ys) \<le> runs lessf xs + runs lessf ys"
proof (induction lessf xs rule: runs.induct)
  case (2 lessf x)
  then show ?case by (cases ys) auto
qed auto

lemma runs_ok: "run_ok lessf xs \<Longrightarrow> runs lessf xs \<le> 1"
  by (induction lessf xs rule: runs.induct) (auto simp: run_ok_def)

lemma merge_runs_hd:
  "merge_runs lessf xs ys = z # zs \<Longrightarrow>
   (\<exists>xs'. xs = z # xs' \<and> (ys = [] \<or> \<not> lessf (hd ys) z)) \<or>
   (\<exists>ys'. ys = z # ys' \<and> (xs = [] \<or> lessf z (hd xs)))"
  by (cases xs; cases ys) (auto split: if_splits)

lemma run_ok_Cons: "run_ok lessf (x # xs) \<longleftrightarrow> (xs = [] \<or> \<not> lessf (hd xs) x) \<and> run_ok lessf xs"
  by (cases xs) (auto simp: run_ok_def)

lemma merge_runs_ok:
  "(\<And>a b. lessf a b \<Longrightarrow> \<not> lessf b a) \<Longrightarrow> run_ok lessf xs \<Longrightarrow> run_ok lessf ys \<Longrightarrow>
   run_ok lessf (merge_runs lessf xs ys)"
proof (induction lessf xs ys rule: merge_runs.induct)
  case (3 lessf x xs y ys)
  show ?case
  proof (cases "lessf y x")
    case True
    then have "run_ok lessf (merge_runs lessf (x # xs) ys)"
      using "3.IH"(2) "3.prems" by (simp add: run_ok_Cons)
    then show ?thesis using True "3.prems" merge_runs_hd [of lessf "x # xs" ys]
      by (cases "merge_runs lessf (x # xs) ys") (auto simp: run_ok_Cons)
  next
    case False
    then have "run_ok lessf (merge_runs lessf xs (y # ys))"
      using "3.IH"(1) "3.prems" by (simp add: run_ok_Cons)
    then show ?thesis using False "3.prems" merge_runs_hd [of lessf xs "y # ys"]
      by (cases "merge_runs lessf xs (y # ys)") (auto simp: run_ok_Cons)
  qed
qed auto

lemma mset_merge_runs: "mset (merge_runs lessf xs ys) = mset xs + mset ys"
  by (induction lessf xs ys rule: merge_runs.induct) auto

lemma merge_pass_last: "split_run lessf x xs = (r, []) \<Longrightarrow> merge_pass lessf (x # xs) = (1, x # r)"
  by simp

lemma merge_pass_step:
  "split_run lessf x xs = (r, y # ys) \<Longrightarrow> split_run lessf y ys = (r', rest) \<Longrightarrow>
   merge_pass lessf (x # xs) =
     (Suc (fst (merge_pass lessf rest)),
      merge_runs lessf (x # r) (y # r') @ snd (merge_pass lessf rest))"
  by (simp add: case_prod_beta)

text \<open>Induction along the passes: nothing left, one run left, two runs and a rest.\<close>

lemma merge_pass_induct [case_names Nil One Two]:
  assumes "P []"
    and "\<And>x xs r. split_run lessf x xs = (r, []) \<Longrightarrow> P (x # xs)"
    and "\<And>x xs r y ys r' rest. split_run lessf x xs = (r, y # ys) \<Longrightarrow>
      split_run lessf y ys = (r', rest) \<Longrightarrow> P rest \<Longrightarrow> P (x # xs)"
  shows "P xs"
proof (induction xs rule: length_induct)
  case (1 xs)
  show ?case
  proof (cases xs)
    case (Cons x xs')
    obtain r rest where s: "split_run lessf x xs' = (r, rest)" by fastforce
    show ?thesis
    proof (cases rest)
      case (Cons y ys)
      obtain r' rest' where s': "split_run lessf y ys = (r', rest')" by fastforce
      have "length rest' < length xs"
        using split_run_length [OF s] split_run_length [OF s'] \<open>rest = y # ys\<close> \<open>xs = x # xs'\<close> by simp
      then show ?thesis using assms(3) s s' \<open>rest = y # ys\<close> \<open>xs = x # xs'\<close> 1 by blast
    qed (use assms(2) s Cons in blast)
  qed (simp add: assms(1))
qed

lemma merge_pass_mset: "mset (snd (merge_pass lessf xs)) = mset xs"
proof (induction xs rule: merge_pass_induct [where lessf = lessf])
  case (One x xs r)
  then show ?case using split_run_append [OF One] by simp
next
  case (Two x xs r y ys r' rest)
  have "xs = r @ y # r' @ rest"
    using split_run_append [OF Two(1)] split_run_append [OF Two(2)] by simp
  then show ?case unfolding merge_pass_step [OF Two(1,2)] by (simp add: mset_merge_runs Two(3))
qed simp

lemma merge_pass_count: "fst (merge_pass lessf xs) = (runs lessf xs + 1) div 2"
proof (induction xs rule: merge_pass_induct [where lessf = lessf])
  case (One x xs r)
  then show ?case using runs_split [OF One] by simp
next
  case (Two x xs r y ys r' rest)
  then show ?case
    unfolding merge_pass_step [OF Two(1,2)] runs_split [OF Two(1)] runs_split [OF Two(2)] by simp
qed simp

lemma merge_pass_runs:
  assumes asym: "\<And>a b. lessf a b \<Longrightarrow> \<not> lessf b a"
  shows "runs lessf (snd (merge_pass lessf xs)) \<le> fst (merge_pass lessf xs)"
proof (induction xs rule: merge_pass_induct [where lessf = lessf])
  case (One x xs r)
  then show ?case using runs_ok [OF split_run_ok [OF One]] by simp
next
  case (Two x xs r y ys r' rest)
  have "runs lessf (merge_runs lessf (x # r) (y # r')) \<le> 1"
    using split_run_ok [OF Two(1)] split_run_ok [OF Two(2)] asym by (intro runs_ok merge_runs_ok) auto
  then have "runs lessf (merge_runs lessf (x # r) (y # r') @ snd (merge_pass lessf rest))
      \<le> Suc (fst (merge_pass lessf rest))"
    using runs_append_le [of lessf "merge_runs lessf (x # r) (y # r')" "snd (merge_pass lessf rest)"]
      Two(3) by simp
  then show ?case unfolding merge_pass_step [OF Two(1,2)] by simp
qed simp

lemma merge_pass_one:
  "fst (merge_pass lessf xs) \<le> 1 \<Longrightarrow> (\<And>a b. lessf a b \<Longrightarrow> \<not> lessf b a) \<Longrightarrow>
   run_ok lessf (snd (merge_pass lessf xs))"
proof -
  have one: "runs lessf zs \<le> 1 \<Longrightarrow> run_ok lessf zs" for zs
  proof (induction lessf zs rule: runs.induct)
    case (3 lessf x y ys)
    have "runs lessf (y # ys) > 0" by (induction ys arbitrary: y) auto
    then show ?case using 3 by (auto simp: run_ok_def split: if_splits)
  qed (auto simp: run_ok_def)
  assume "fst (merge_pass lessf xs) \<le> 1" "\<And>a b. lessf a b \<Longrightarrow> \<not> lessf b a"
  then show ?thesis using merge_pass_runs [of lessf xs] by (intro one) auto
qed

section \<open>The pointer loops compute it\<close>

lemma find_end_of_run_loop_rep:
  "list_rep h l (us @ x # ys) \<Longrightarrow> split_run lessf x ys = (r, rest) \<Longrightarrow>
   find_end_of_run_loop h x (tail l) lessf = Some (node l rest)"
proof (induction lessf x ys arbitrary: us r rest rule: split_run.induct)
  case (1 lessf x)
  then show ?case
    using list_rep_next [OF 1(1)] by (simp add: find_end_of_run_loop.simps [of h x])
next
  case (2 lessf x y ys)
  have rep': "list_rep h l ((us @ [x]) @ y # ys)" using 2(2) by simp
  note st = list_rep_next [OF 2(2)] list_rep_prev [OF rep'] list_rep_ne_tail [OF rep']
  show ?case
  proof (cases "lessf y x")
    case True
    then show ?thesis using 2(3) st by (auto simp: find_end_of_run_loop.simps [of h x])
  next
    case False
    then obtain r' where "split_run lessf y ys = (r', rest)"
      using 2(3) by (auto split: prod.splits)
    then show ?thesis using 2(1) [OF False rep'] False st by (simp add: find_end_of_run_loop.simps [of h x])
  qed
qed

lemma list_rep_ne_NULL: "list_rep h l (us @ x # ys) \<Longrightarrow> x \<noteq> NULL"
  by (auto simp: list_rep_def)

lemma list_rep_tail_ne_NULL: "list_rep h l xs \<Longrightarrow> tail l \<noteq> NULL"
  by (auto simp: list_rep_def)

lemma find_end_of_run_rep:
  "list_rep h l (us @ x # ys) \<Longrightarrow> split_run lessf x ys = (r, rest) \<Longrightarrow>
   find_end_of_run h x (tail l) lessf = Some (node l rest)"
  using find_end_of_run_loop_rep list_rep_ne_NULL list_rep_tail_ne_NULL list_rep_ne_tail
  by (simp add: find_end_of_run_def)

lemma is_sorted_loop_rep:
  "list_rep h l (us @ x # seg @ vs) \<Longrightarrow>
   is_sorted_loop h x (node l vs) lessf = Some (run_ok lessf (x # seg))"
proof (induction seg arbitrary: us x)
  case Nil
  then show ?case
    using list_rep_next [of h l us x vs] by (simp add: is_sorted_loop.simps [of h x] run_ok_def)
next
  case (Cons y seg)
  have rep': "list_rep h l ((us @ [x]) @ y # seg @ vs)" using Cons.prems by simp
  have "node l (y # seg @ vs) \<noteq> node l vs"
    using list_rep_node_inj [of h l "us @ [x]" "y # seg" vs] rep' by simp
  then show ?case
    using Cons.IH [OF rep'] list_rep_next [of h l us x "y # seg @ vs"] list_rep_prev [OF rep'] Cons.prems
    by (auto simp: is_sorted_loop.simps [of h x] run_ok_Cons)
qed

lemma is_sorted_rep:
  assumes "list_rep h l (us @ seg @ vs)"
  shows "is_sorted h (node l (seg @ vs)) (node l vs) lessf = Some (run_ok lessf seg)"
proof (cases seg)
  case Nil
  then show ?thesis by (simp add: is_sorted_def run_ok_def)
next
  case (Cons x seg')
  then show ?thesis
    using assms is_sorted_loop_rep [of h l us x seg' vs] list_rep_node_inj [of h l us seg vs]
    by (simp add: is_sorted_def)
qed

lemma cells_perm: "mset xs = mset ys \<Longrightarrow> cells l xs = cells l ys"
  by (auto simp: cells_def dest: mset_eq_setD)

lemma inplace_merge_loop_rep:
  "list_rep h l (us @ xs @ ys @ vs) \<Longrightarrow>
   \<exists>h'. inplace_merge_loop (node l (xs @ ys @ vs)) (node l (ys @ vs)) (node l vs) lessf h = Some h' \<and>
     list_rep h' l (us @ merge_runs lessf xs ys @ vs) \<and> frame (cells l (us @ xs @ ys @ vs)) h h'"
proof (induction lessf xs ys arbitrary: us h rule: merge_runs.induct)
  case (1 lessf ys)
  then show ?case by (intro exI [of _ h]) (simp add: inplace_merge_loop.simps)
next
  case (2 lessf x xs)
  then show ?case by (intro exI [of _ h]) (simp add: inplace_merge_loop.simps)
next
  case (3 lessf x xs y ys)
  note rep = 3(3)
  have ne: "x \<noteq> y" "y \<noteq> node l vs"
    using list_rep_node_inj [of h l us "x # xs" "y # ys @ vs"]
      list_rep_node_inj [of h l "us @ x # xs" "y # ys" vs] rep by simp_all
  note unf = inplace_merge_loop.simps [of x y "node l vs" lessf h]
  show ?case
  proof (cases "lessf y x")
    case False
    have rep': "list_rep h l ((us @ [x]) @ xs @ (y # ys) @ vs)" using rep by simp
    then show ?thesis
      using 3(1) [OF _ rep'] False ne list_rep_next [of h l us x "xs @ y # ys @ vs"] rep
      by (simp add: unf)
  next
    case True
    have r2: "list_rep h l ((us @ x # xs) @ y # ys @ vs)" "list_rep h l ((us @ x # xs @ [y]) @ ys @ vs)"
      using rep by simp_all
    obtain h1 where h1: "list_splice x y (node l (ys @ vs)) h = Some h1"
      "list_rep h1 l (us @ [y] @ (x # xs) @ ys @ vs)" "frame (cells l (us @ (x # xs) @ (y # ys) @ vs)) h h1"
      using list_splice_rep [of h l us "x # xs" "[y]" "ys @ vs"] rep by auto
    have c: "cells l (us @ [y] @ (x # xs) @ ys @ vs) = cells l (us @ (x # xs) @ (y # ys) @ vs)"
      by (rule cells_perm) simp
    have "list_rep h1 l ((us @ [y]) @ (x # xs) @ ys @ vs)" using h1(2) by simp
    from 3(2) [OF _ this] True obtain h2 where h2:
      "inplace_merge_loop x (node l (ys @ vs)) (node l vs) lessf h1 = Some h2"
      "list_rep h2 l ((us @ [y]) @ merge_runs lessf (x # xs) ys @ vs)"
      "frame (cells l ((us @ [y]) @ (x # xs) @ ys @ vs)) h1 h2"
      by auto
    have "frame (cells l (us @ (x # xs) @ (y # ys) @ vs)) h h2"
      using frame_trans [OF h1(3)] h2(3) c by simp
    moreover have "pnode l (us @ x # xs @ [y]) = y"
      using pnode_simps(2) [of l "us @ x # xs" y] by simp
    ultimately show ?thesis
      using True ne h1(1) h2 list_rep_next [OF r2(1)] list_rep_prev [OF r2(2)]
      by (intro exI [of _ h2]) (simp add: unf)
  qed
qed

lemma inplace_merge_rep:
  assumes rep: "list_rep h l (us @ (x # xs) @ (y # ys) @ vs)"
    and runs: "run_ok lessf (x # xs)" "run_ok lessf (y # ys)"
  shows "\<exists>h'. inplace_merge x y (node l vs) lessf h = Some h' \<and>
    list_rep h' l (us @ merge_runs lessf (x # xs) (y # ys) @ vs) \<and>
    frame (cells l (us @ (x # xs) @ (y # ys) @ vs)) h h'"
proof -
  have "x \<noteq> NULL" "y \<noteq> NULL" "node l vs \<noteq> NULL"
    using list_rep_ne_NULL [of h l us x] list_rep_ne_NULL [of h l "us @ x # xs" y]
      list_rep_node(3) [of h l "us @ (x # xs) @ (y # ys)" vs] rep by simp_all
  moreover have "is_sorted h x y lessf = Some True" "is_sorted h y (node l vs) lessf = Some True"
    using is_sorted_rep [of h l us "x # xs" "(y # ys) @ vs" lessf]
      is_sorted_rep [of h l "us @ x # xs" "y # ys" vs lessf] rep runs by simp_all
  ultimately show ?thesis
    using inplace_merge_loop_rep [OF rep, of lessf] by (simp add: inplace_merge_def)
qed

lemma list_sort_pass_rep:
  "list_rep h l (us @ xs) \<Longrightarrow>
   \<exists>h'. list_sort_pass l lessf (node l xs) c h = Some (c + fst (merge_pass lessf xs), h') \<and>
     list_rep h' l (us @ snd (merge_pass lessf xs)) \<and> frame (cells l (us @ xs)) h h'"
proof (induction xs arbitrary: us h c rule: merge_pass_induct [where lessf = lessf])
  case Nil
  then show ?case by (intro exI [of _ h]) (simp add: list_sort_pass.simps list_end_def)
next
  case (One x xs r)
  have "r = xs" using split_run_append [OF One(1)] by simp
  then show ?case
    using One list_rep_ne_tail [OF One(2)] find_end_of_run_rep [OF One(2,1)]
    by (intro exI [of _ h]) (simp add: list_sort_pass.simps [of l lessf x] list_end_def)
next
  case (Two x xs r y ys r' rest)
  have xs: "xs = r @ y # ys" "ys = r' @ rest"
    using split_run_append [OF Two(1)] split_run_append [OF Two(2)] by simp_all
  have rep: "list_rep h l (us @ (x # r) @ (y # r') @ rest)" using Two(4) xs by simp
  have rep2: "list_rep h l ((us @ x # r) @ y # ys)" using Two(4) xs by simp
  obtain h1 where h1: "inplace_merge x y (node l rest) lessf h = Some h1"
    "list_rep h1 l (us @ merge_runs lessf (x # r) (y # r') @ rest)" "frame (cells l (us @ x # xs)) h h1"
    using inplace_merge_rep [OF rep split_run_ok [OF Two(1)] split_run_ok [OF Two(2)]] xs by auto
  let ?us = "us @ merge_runs lessf (x # r) (y # r')"
  obtain h2 where h2:
    "list_sort_pass l lessf (node l rest) (Suc c) h1 = Some (Suc c + fst (merge_pass lessf rest), h2)"
    "list_rep h2 l (?us @ snd (merge_pass lessf rest))" "frame (cells l (?us @ rest)) h1 h2"
    using Two(3) [of h1 ?us "Suc c"] h1(2) by auto
  have "cells l (?us @ rest) = cells l (us @ x # xs)"
    by (rule cells_perm) (simp add: xs mset_merge_runs)
  then have "frame (cells l (us @ x # xs)) h h2" using frame_trans [OF h1(3)] h2(3) by simp
  moreover have "list_sort_pass l lessf x c h = Some (Suc c + fst (merge_pass lessf rest), h2)"
    using list_rep_ne_tail [OF Two(4)] list_rep_ne_tail [OF rep2] find_end_of_run_rep [OF Two(4,1)]
      find_end_of_run_rep [OF rep2 Two(2)] h1(1) h2(1)
    by (simp add: list_sort_pass.simps [of l lessf x] list_end_def)
  ultimately show ?case
    using h2(2) unfolding merge_pass_step [OF Two(1,2)] by (intro exI [of _ h2]) simp
qed

lemma list_sort_loop_rep:
  assumes asym: "\<And>a b. lessf a b \<Longrightarrow> \<not> lessf b a"
  shows "list_rep h l xs \<Longrightarrow>
    \<exists>h' n. list_sort_loop l lessf h = Some h' \<and>
      list_rep h' l (((\<lambda>xs. snd (merge_pass lessf xs)) ^^ n) xs) \<and>
      run_ok lessf (((\<lambda>xs. snd (merge_pass lessf xs)) ^^ n) xs) \<and> frame (cells l xs) h h'"
proof (induction "runs lessf xs" arbitrary: xs h rule: less_induct)
  case less
  let ?ys = "snd (merge_pass lessf xs)"
  obtain h1 where h1: "list_sort_pass l lessf (node l xs) 0 h = Some (fst (merge_pass lessf xs), h1)"
    "list_rep h1 l ?ys" "frame (cells l xs) h h1"
    using list_sort_pass_rep [of h l "[]" xs lessf 0] less(2) by auto
  have unf: "list_sort_loop l lessf h =
      (if fst (merge_pass lessf xs) > 1 then list_sort_loop l lessf h1 else Some h1)"
    using h1(1) less(2) by (simp add: list_sort_loop.simps [of l lessf h])
  show ?case
  proof (cases "fst (merge_pass lessf xs) > 1")
    case True
    then have "runs lessf ?ys < runs lessf xs"
      using merge_pass_runs [of lessf xs] asym merge_pass_count [of lessf xs] by fastforce
    from less(1) [OF this h1(2)] obtain h2 n where h2: "list_sort_loop l lessf h1 = Some h2"
      "list_rep h2 l (((\<lambda>xs. snd (merge_pass lessf xs)) ^^ n) ?ys)"
      "run_ok lessf (((\<lambda>xs. snd (merge_pass lessf xs)) ^^ n) ?ys)" "frame (cells l ?ys) h1 h2"
      by blast
    have "cells l ?ys = cells l xs" by (rule cells_perm) (rule merge_pass_mset)
    then have "frame (cells l xs) h h2" using frame_trans [OF h1(3)] h2(4) by simp
    then show ?thesis
      using True h2 by (intro exI [of _ h2] exI [of _ "Suc n"]) (simp add: unf funpow_Suc_right del: funpow.simps)
  next
    case False
    then have "run_ok lessf ?ys" using merge_pass_one [of lessf xs] asym by auto
    then show ?thesis using False h1 unf by (intro exI [of _ h1] exI [of _ 1]) simp
  qed
qed

section \<open>Stability\<close>

lemma run_ok_key: "run_ok (\<lambda>a b. key a < (key b :: 'k :: linorder)) xs \<longleftrightarrow> sorted (map key xs)"
proof -
  have "run_ok (\<lambda>a b. key a < key b) xs \<longleftrightarrow> successively (\<le>) (map key xs)"
    by (simp add: run_ok_def successively_map not_less)
  then show ?thesis
    by (simp add: successively_conv_sorted_wrt)
qed

lemma merge_runs_stable:
  fixes key :: "'a \<Rightarrow> 'k :: linorder"
  shows "sorted (map key xs) \<Longrightarrow> sorted (map key ys) \<Longrightarrow>
    filter (\<lambda>z. key z = k) (merge_runs (\<lambda>a b. key a < key b) xs ys) =
    filter (\<lambda>z. key z = k) xs @ filter (\<lambda>z. key z = k) ys"
proof (induction "\<lambda>a b. key a < key b" xs ys rule: merge_runs.induct)
  case (3 x xs y ys)
  have "filter (\<lambda>z. key z = k) (x # xs) = []" if "key y < key x" "key y = k"
    using that 3(3) by (auto simp: filter_empty_conv)
  then show ?case using 3 by auto
qed auto

lemma merge_pass_stable:
  fixes key :: "'a \<Rightarrow> 'k :: linorder"
  defines "lt \<equiv> \<lambda>a b. key a < key b"
  shows "filter (\<lambda>z. key z = k) (snd (merge_pass lt xs)) = filter (\<lambda>z. key z = k) xs"
proof (induction xs rule: merge_pass_induct [where lessf = lt])
  case (One x xs r)
  then show ?case using split_run_append [OF One] by simp
next
  case (Two x xs r y ys r' rest)
  have xs: "xs = r @ y # r' @ rest"
    using split_run_append [OF Two(1)] split_run_append [OF Two(2)] by simp
  have "filter (\<lambda>z. key z = k) (merge_runs lt (x # r) (y # r')) =
      filter (\<lambda>z. key z = k) (x # r) @ filter (\<lambda>z. key z = k) (y # r')"
    using split_run_ok [OF Two(1)] split_run_ok [OF Two(2)] unfolding lt_def run_ok_key
    by (rule merge_runs_stable)
  then have "filter (\<lambda>z. key z = k) (snd (merge_pass lt (x # xs))) =
      (filter (\<lambda>z. key z = k) (x # r) @ filter (\<lambda>z. key z = k) (y # r')) @ filter (\<lambda>z. key z = k) rest"
    unfolding merge_pass_step [OF Two(1,2)] using Two(3) by (simp del: merge_runs.simps)
  then show ?case by (simp add: xs)
qed simp

lemma list_sort_rep:
  fixes key :: "addr \<Rightarrow> 'k :: linorder"
  assumes rep: "list_rep h l xs"
  shows "\<exists>h'. list_sort l (\<lambda>a b. key a < key b) h = Some h' \<and>
    list_rep h' l (sort_key key xs) \<and> frame (cells l xs) h h'"
proof -
  let ?lt = "\<lambda>a b. key a < key b"
  let ?p = "\<lambda>xs. snd (merge_pass ?lt xs)"
  obtain h' n where h': "list_sort_loop l ?lt h = Some h'" "list_rep h' l ((?p ^^ n) xs)"
    "run_ok ?lt ((?p ^^ n) xs)" "frame (cells l xs) h h'"
    using list_sort_loop_rep [of ?lt, OF _ rep] by (auto dest: less_asym)
  have "mset ((?p ^^ m) xs) = mset xs" for m by (induction m) (simp_all add: merge_pass_mset)
  moreover have "filter (\<lambda>z. key z = k) ((?p ^^ m) xs) = filter (\<lambda>z. key z = k) xs" for m k
    by (induction m) (simp_all add: merge_pass_stable)
  ultimately have "sort_key key xs = (?p ^^ n) xs"
    using h'(3) unfolding run_ok_key by (intro properties_for_sort_key) (simp_all add: eq_commute)
  moreover have "is_sorted h' (node l ((?p ^^ n) xs)) (tail l) ?lt = Some True"
    using is_sorted_rep [of h' l "[]" "(?p ^^ n) xs" "[]" ?lt] h'(2,3) by simp
  ultimately show ?thesis
    using h' by (intro exI [of _ h']) (simp add: list_sort_def list_end_def)
qed

section \<open>Properties\<close>

text \<open>A list of three elements at addresses 10, 20, 30, with its headers at 1 and 2, and
  one of two elements at 40, 50, with its headers at 3 and 4.\<close>

definition ex_list :: clist where
  "ex_list = \<lparr>head = 1, tail = 2\<rparr>"

definition ex_list2 :: clist where
  "ex_list2 = \<lparr>head = 3, tail = 4\<rparr>"

definition ex_heap :: list_heap where
  "ex_heap = \<lparr>prev = (\<lambda>_. 0)(10 := 1, 20 := 10, 30 := 20, 2 := 30, 40 := 3, 50 := 40, 4 := 50),
     nxt = (\<lambda>_. 0)(1 := 10, 10 := 20, 20 := 30, 30 := 2, 3 := 40, 40 := 50, 50 := 4)\<rparr>"

lemma ex_rep: "list_rep ex_heap ex_list [10, 20, 30]" "list_rep ex_heap ex_list2 [40, 50]"
  by (simp_all add: list_rep_def ex_heap_def ex_list_def ex_list2_def)

lemma ex_cells: "cells ex_list xs = insert 1 (insert 2 (set xs))" "cells ex_list2 ys = insert 3 (insert 4 (set ys))"
  by (simp_all add: cells_def ex_list_def ex_list2_def)

text \<open>C9. \<open>list_sort\<close> on a well-formed list returns (no assertion fails, every loop ends) and
  leaves the list holding its elements in the stable order of their keys, when \<open>less\<close>
  compares keys of a linear order; every other list whose cells are disjoint from it
  is unchanged.\<close>

theorem list_sort_stable:
  fixes key :: "addr \<Rightarrow> 'k :: linorder"
  assumes "list_rep h l xs"
  shows "\<exists>h'. list_sort l (\<lambda>a b. key a < key b) h = Some h' \<and> list_rep h' l (sort_key key xs) \<and>
    (\<forall>l2 ys. list_rep h l2 ys \<longrightarrow> cells l2 ys \<inter> cells l xs = {} \<longrightarrow> list_rep h' l2 ys)"
  using list_sort_rep [OF assms, of key] frame_list_rep by blast

theorem list_sort_stable_witness:
  "\<exists>h'. list_sort ex_list (\<lambda>a b. - int a < - int b) ex_heap = Some h' \<and>
    list_rep h' ex_list [30, 20, 10] \<and> list_rep h' ex_list2 [40, 50]"
proof -
  have "sort_key (\<lambda>a. - int a) [10, 20, 30] = [30, 20, 10]" by simp
  then show ?thesis
    using list_sort_stable [OF ex_rep(1), of "\<lambda>a. - int a"] ex_rep(2)
    by (auto simp: ex_cells)
qed

text \<open>The discipline of every priority queue of the kernel (ready list, semaphore waiters,
  condition waiters): elements inserted one by one with \<open>list_insert_ordered\<close> under a
  comparison \<open>prio a <= prio b\<close> and then taken with \<open>list_pop_back\<close> come out by
  decreasing priority, equals in the order in which they were inserted.\<close>

theorem ordered_queue_discipline:
  fixes prio :: "addr \<Rightarrow> int"
  assumes "list_rep h l []" "distinct es" "set es \<inter> cells l [] = {}" "NULL \<notin> set es"
  shows "\<exists>h1 h2. insert_all (\<lambda>e. list_insert_ordered l e (\<lambda>a b. prio a \<le> prio b)) es h = Some h1 \<and>
    drain (list_pop_back l) (length es) h1 = Some (sort_key (\<lambda>e. - prio e) es, h2) \<and>
    list_rep h2 l []"
  using assms by (intro clist.priority_discipline) auto

theorem ordered_queue_discipline_witness:
  "\<exists>h1 h2. insert_all (\<lambda>e. list_insert_ordered ex_list e (\<lambda>a b. int (a mod 3) \<le> int (b mod 3)))
      [3, 4, 7, 6] (list_init ex_list ex_heap) = Some h1 \<and>
    drain (list_pop_back ex_list) 4 h1 = Some ([4, 7, 3, 6], h2) \<and> list_rep h2 ex_list []"
proof -
  have "list_rep (list_init ex_list ex_heap) ex_list []"
    by (rule list_init_rep) (simp_all add: ex_list_def)
  moreover have "set [3, 4, 7, 6] \<inter> cells ex_list [] = {}" by (simp add: ex_cells)
  moreover have "sort_key (\<lambda>e. - int (e mod 3)) [3, 4, 7, 6] = [4, 7, 3, 6]" "length [3, 4, 7, 6::nat] = 4"
    by simp_all
  moreover have "distinct [3, 4, 7, 6::nat]" "NULL \<notin> set [3, 4, 7, 6]" by simp_all
  ultimately show ?thesis
    using ordered_queue_discipline [of "list_init ex_list ex_heap" ex_list "[3, 4, 7, 6]" "\<lambda>a. int (a mod 3)"]
    by metis
qed

text \<open>\<open>list_splice\<close> moves a nonempty segment in front of an earlier element of the same
  list: it succeeds, yields exactly the rearranged sequence and writes no cell outside
  the list. This is the step by which \<open>inplace_merge\<close> merges two runs.\<close>

theorem list_splice_moves_segment:
  assumes "list_rep h l (us @ M @ S @ vs)" "M \<noteq> []" "S \<noteq> []"
  shows "\<exists>h'. list_splice (hd M) (hd S) (node l vs) h = Some h' \<and>
    list_rep h' l (us @ S @ M @ vs) \<and> frame (cells l (us @ M @ S @ vs)) h h'"
  using assms by (rule list_splice_rep)

theorem list_splice_moves_segment_witness:
  "\<exists>h'. list_splice 10 20 2 ex_heap = Some h' \<and> list_rep h' ex_list [20, 30, 10]"
  using list_splice_moves_segment [of ex_heap ex_list "[]" "[10]" "[20, 30]" "[]"] ex_rep
  by (auto simp: ex_list_def)

text \<open>\<open>list_reverse\<close> succeeds on every well-formed list and reverses it in place, so that
  applying it twice restores the sequence.\<close>

theorem list_reverse_reverses:
  assumes "list_rep h l xs"
  shows "\<exists>h1 h2. list_reverse l h = Some h1 \<and> list_rep h1 l (rev xs) \<and> frame (cells l xs) h h1 \<and>
    list_reverse l h1 = Some h2 \<and> list_rep h2 l xs"
proof -
  obtain h1 where h1: "list_reverse l h = Some h1" "list_rep h1 l (rev xs)" "frame (cells l xs) h h1"
    using list_reverse_rep [OF assms] by blast
  then show ?thesis using list_reverse_rep [OF h1(2)] by auto
qed

theorem list_reverse_reverses_witness:
  "\<exists>h1 h2. list_reverse ex_list ex_heap = Some h1 \<and> list_rep h1 ex_list [30, 20, 10] \<and>
    list_reverse ex_list h1 = Some h2 \<and> list_rep h2 ex_list [10, 20, 30]"
  using list_reverse_reverses [OF ex_rep(1)] by auto

text \<open>\<open>list_unique\<close> keeps the first element of every group of adjacent equals and moves
  the others, in order, to the end of the list of duplicates: what is kept and what is
  moved together are the original elements, and no two neighbours of the result are
  equal under \<open>less\<close>.\<close>

theorem list_unique_splits:
  assumes "list_rep h l (x # xs)" "list_rep h d ds" "cells d ds \<inter> cells l (x # xs) = {}"
  shows "\<exists>h' k r. list_unique l (Some d) lessf h = Some h' \<and>
    list_rep h' l (x # k) \<and> list_rep h' d (ds @ r) \<and> mset k + mset r = mset xs \<and>
    successively (\<lambda>a b. lessf a b \<or> lessf b a) (x # k)"
proof -
  obtain k r where kr: "unique_split lessf x xs = (k, r)" by fastforce
  have "dup_rep h (Some d) ds (cells l (x # xs))" using assms by (simp add: dup_rep_def)
  from list_unique_rep [OF assms(1) this kr] unique_split_props [OF kr]
  show ?thesis by (auto simp: dup_rep_def)
qed

theorem list_unique_splits_witness:
  "\<exists>h' k r. list_unique ex_list (Some ex_list2) (\<lambda>a b. a + 15 < b) ex_heap = Some h' \<and>
    list_rep h' ex_list (10 # k) \<and> list_rep h' ex_list2 ([40, 50] @ r) \<and>
    mset k + mset r = {#20, 30#} \<and> successively (\<lambda>a b. a + 15 < b \<or> b + 15 < a) (10 # k)"
  using list_unique_splits [OF ex_rep(1) ex_rep(2), of "\<lambda>a b. a + 15 < b"]
  by (simp add: ex_cells add_mset_commute)

end
