(* ===== verification/Bitmap.thy ===== *)
theory Bitmap
  imports Prelude
begin

text \<open>
  The bitmap of \<open>lib/kernel/bitmap.c\<close>: an array of bits packed into 32-bit elements.
  \<open>size_t\<close> values are naturals; the two places where the code adds them
  (\<open>start + cnt\<close> in the range assertions and the rounding in \<open>elem_cnt\<close>) wrap at 32 bits
  through \<open>u32\<close>. Reading or writing an element outside the array is \<open>None\<close>.
  The second half refines the packed representation to a list of booleans and
  provides the allocator interface that the page allocator, the free map and the
  swap table use.
\<close>

unbundle bit_operations_syntax

section \<open>The bitmap\<close>

type_synonym elem_type = "32 word"

definition u32 :: "nat \<Rightarrow> nat" where
  "u32 n = n mod 2 ^ 32"

abbreviation ELEM_BITS :: nat where "ELEM_BITS \<equiv> 32"

definition BITMAP_ERROR :: nat where
  "BITMAP_ERROR = 2 ^ 32 - 1"

record bitmap =
  bit_cnt :: nat
  bits :: "elem_type list"

definition elem_idx :: "nat \<Rightarrow> nat" where
  "elem_idx bit_idx = bit_idx div ELEM_BITS"

definition bit_mask :: "nat \<Rightarrow> elem_type" where
  "bit_mask bit_idx = push_bit (bit_idx mod ELEM_BITS) 1"

definition elem_cnt :: "nat \<Rightarrow> nat" where
  "elem_cnt n = u32 (n + ELEM_BITS - 1) div ELEM_BITS"

definition byte_cnt :: "nat \<Rightarrow> nat" where
  "byte_cnt n = u32 (4 * elem_cnt n)"

definition last_mask :: "bitmap \<Rightarrow> elem_type" where
  "last_mask b = (let last_bits = bit_cnt b mod ELEM_BITS in
     if last_bits \<noteq> 0 then push_bit last_bits 1 - 1 else - 1)"

definition bitmap_size :: "bitmap \<Rightarrow> nat" where
  "bitmap_size b = bit_cnt b"

definition update_elem :: "nat \<Rightarrow> (elem_type \<Rightarrow> elem_type) \<Rightarrow> bitmap \<Rightarrow> bitmap option" where
  "update_elem idx f b = do {
     ASSERT (idx < length (bits b));
     Some (b\<lparr>bits := (bits b)[idx := f (bits b ! idx)]\<rparr>)
   }"

definition bitmap_mark :: "bitmap \<Rightarrow> nat \<Rightarrow> bitmap option" where
  "bitmap_mark b bit_idx = update_elem (elem_idx bit_idx) (\<lambda>e. e OR bit_mask bit_idx) b"

definition bitmap_reset :: "bitmap \<Rightarrow> nat \<Rightarrow> bitmap option" where
  "bitmap_reset b bit_idx = update_elem (elem_idx bit_idx) (\<lambda>e. e AND NOT (bit_mask bit_idx)) b"

definition bitmap_flip :: "bitmap \<Rightarrow> nat \<Rightarrow> bitmap option" where
  "bitmap_flip b bit_idx = update_elem (elem_idx bit_idx) (\<lambda>e. e XOR bit_mask bit_idx) b"

definition bitmap_set :: "bitmap \<Rightarrow> nat \<Rightarrow> bool \<Rightarrow> bitmap option" where
  "bitmap_set b idx value = do {
     ASSERT (idx < bit_cnt b);
     if value then bitmap_mark b idx else bitmap_reset b idx
   }"

definition bitmap_test :: "bitmap \<Rightarrow> nat \<Rightarrow> bool option" where
  "bitmap_test b idx = do {
     ASSERT (idx < bit_cnt b);
     ASSERT (elem_idx idx < length (bits b));
     Some (bits b ! elem_idx idx AND bit_mask idx \<noteq> 0)
   }"

function bitmap_set_multiple_loop :: "nat \<Rightarrow> nat \<Rightarrow> nat \<Rightarrow> bool \<Rightarrow> bitmap \<Rightarrow> bitmap option" where
  "bitmap_set_multiple_loop i start cnt value b =
     (if i < cnt then do {
        b \<leftarrow> bitmap_set b (u32 (start + i)) value;
        bitmap_set_multiple_loop (i + 1) start cnt value b
      }
      else Some b)"
  by auto
termination by (relation "measure (\<lambda>(i, start, cnt, value, b). cnt - i)") auto

definition bitmap_set_multiple :: "bitmap \<Rightarrow> nat \<Rightarrow> nat \<Rightarrow> bool \<Rightarrow> bitmap option" where
  "bitmap_set_multiple b start cnt value = do {
     ASSERT (start \<le> bit_cnt b);
     ASSERT (u32 (start + cnt) \<le> bit_cnt b);
     bitmap_set_multiple_loop 0 start cnt value b
   }"

definition bitmap_set_all :: "bitmap \<Rightarrow> bool \<Rightarrow> bitmap option" where
  "bitmap_set_all b value = bitmap_set_multiple b 0 (bitmap_size b) value"

text \<open>
  \<open>bitmap_create\<close> calls \<open>malloc\<close> twice: for the structure (\<open>struct_ok\<close> says whether that
  succeeded) and for the element array, whose uninitialised contents are the second
  argument (\<open>None\<close> for a null result; \<open>malloc (0)\<close> is always null).
\<close>

definition bitmap_create :: "bool \<Rightarrow> elem_type list option \<Rightarrow> nat \<Rightarrow> bitmap option option" where
  "bitmap_create struct_ok block n =
     (if struct_ok then
        (if block \<noteq> None \<or> n = 0
         then do {
           b \<leftarrow> bitmap_set_all \<lparr>bit_cnt = n, bits = (case block of Some ws \<Rightarrow> ws | None \<Rightarrow> [])\<rparr> False;
           Some (Some b)
         }
         else Some None)
      else Some None)"

definition bitmap_buf_size :: "nat \<Rightarrow> nat" where
  "bitmap_buf_size n = u32 (8 + byte_cnt n)"

text \<open>
  The caller's buffer: the first eight bytes become the structure, the rest (given
  as the elements it holds) the array.
\<close>

definition bitmap_create_in_buf :: "nat \<Rightarrow> elem_type list \<Rightarrow> nat \<Rightarrow> bitmap option" where
  "bitmap_create_in_buf n block block_size = do {
     ASSERT (block_size \<ge> bitmap_buf_size n);
     bitmap_set_all \<lparr>bit_cnt = n, bits = block\<rparr> False
   }"

function bitmap_count_loop :: "nat \<Rightarrow> nat \<Rightarrow> bitmap \<Rightarrow> nat \<Rightarrow> nat \<Rightarrow> bool \<Rightarrow> nat option" where
  "bitmap_count_loop i value_cnt b start cnt value =
     (if i < cnt then do {
        t \<leftarrow> bitmap_test b (u32 (start + i));
        bitmap_count_loop (i + 1) (if t = value then value_cnt + 1 else value_cnt) b start cnt value
      }
      else Some value_cnt)"
  by auto
termination by (relation "measure (\<lambda>(i, value_cnt, b, start, cnt, value). cnt - i)") auto

definition bitmap_count :: "bitmap \<Rightarrow> nat \<Rightarrow> nat \<Rightarrow> bool \<Rightarrow> nat option" where
  "bitmap_count b start cnt value = do {
     ASSERT (start \<le> bit_cnt b);
     ASSERT (u32 (start + cnt) \<le> bit_cnt b);
     bitmap_count_loop 0 0 b start cnt value
   }"

function bitmap_contains_loop :: "nat \<Rightarrow> bitmap \<Rightarrow> nat \<Rightarrow> nat \<Rightarrow> bool \<Rightarrow> bool option" where
  "bitmap_contains_loop i b start cnt value =
     (if i < cnt then do {
        t \<leftarrow> bitmap_test b (u32 (start + i));
        if t = value then Some True else bitmap_contains_loop (i + 1) b start cnt value
      }
      else Some False)"
  by auto
termination by (relation "measure (\<lambda>(i, b, start, cnt, value). cnt - i)") auto

definition bitmap_contains :: "bitmap \<Rightarrow> nat \<Rightarrow> nat \<Rightarrow> bool \<Rightarrow> bool option" where
  "bitmap_contains b start cnt value = do {
     ASSERT (start \<le> bit_cnt b);
     ASSERT (u32 (start + cnt) \<le> bit_cnt b);
     bitmap_contains_loop 0 b start cnt value
   }"

definition bitmap_any :: "bitmap \<Rightarrow> nat \<Rightarrow> nat \<Rightarrow> bool option" where
  "bitmap_any b start cnt = bitmap_contains b start cnt True"

definition bitmap_none :: "bitmap \<Rightarrow> nat \<Rightarrow> nat \<Rightarrow> bool option" where
  "bitmap_none b start cnt = map_option Not (bitmap_contains b start cnt True)"

definition bitmap_all :: "bitmap \<Rightarrow> nat \<Rightarrow> nat \<Rightarrow> bool option" where
  "bitmap_all b start cnt = map_option Not (bitmap_contains b start cnt False)"

function bitmap_scan_loop :: "nat \<Rightarrow> nat \<Rightarrow> bitmap \<Rightarrow> nat \<Rightarrow> bool \<Rightarrow> nat option" where
  "bitmap_scan_loop i last' b cnt value =
     (if i \<le> last' then do {
        c \<leftarrow> bitmap_contains b i cnt (\<not> value);
        if \<not> c then Some i else bitmap_scan_loop (i + 1) last' b cnt value
      }
      else Some BITMAP_ERROR)"
  by auto
termination by (relation "measure (\<lambda>(i, last', b, cnt, value). last' + 1 - i)") auto

definition bitmap_scan :: "bitmap \<Rightarrow> nat \<Rightarrow> nat \<Rightarrow> bool \<Rightarrow> nat option" where
  "bitmap_scan b start cnt value = do {
     ASSERT (start \<le> bit_cnt b);
     if cnt \<le> bit_cnt b then bitmap_scan_loop start (bit_cnt b - cnt) b cnt value
     else Some BITMAP_ERROR
   }"

definition bitmap_scan_and_flip :: "bitmap \<Rightarrow> nat \<Rightarrow> nat \<Rightarrow> bool \<Rightarrow> (nat \<times> bitmap) option" where
  "bitmap_scan_and_flip b start cnt value = do {
     idx \<leftarrow> bitmap_scan b start cnt value;
     if idx \<noteq> BITMAP_ERROR then do {
       b \<leftarrow> bitmap_set_multiple b idx cnt (\<not> value);
       Some (idx, b)
     }
     else Some (idx, b)
   }"

text \<open>
  Input and output to a file. The elements are stored in the machine's order, least
  significant byte first. \<open>bitmap_read\<close> gets the bytes that \<open>file_read_at\<close> copied over the
  start of the array; fewer than asked for leave the rest of the array as it was.
  \<open>bitmap_write\<close> gets what \<open>file_write_at\<close> returned.
\<close>

type_synonym byte = "8 word"

definition elem_bytes :: "elem_type \<Rightarrow> byte list" where
  "elem_bytes w = map (\<lambda>k. ucast (drop_bit (8 * k) w)) [0, 1, 2, 3]"

fun bytes_elems :: "byte list \<Rightarrow> elem_type list" where
  "bytes_elems (a # b # c # d # bs) =
     (ucast a OR push_bit 8 (ucast b) OR push_bit 16 (ucast c) OR push_bit 24 (ucast d)) # bytes_elems bs"
| "bytes_elems _ = []"

definition bitmap_bytes :: "bitmap \<Rightarrow> byte list" where
  "bitmap_bytes b = concat (map elem_bytes (bits b))"

definition bitmap_file_size :: "bitmap \<Rightarrow> nat" where
  "bitmap_file_size b = byte_cnt (bit_cnt b)"

definition bitmap_read :: "bitmap \<Rightarrow> (nat \<Rightarrow> byte list) \<Rightarrow> (bool \<times> bitmap) option" where
  "bitmap_read b file_read_at =
     (if bit_cnt b > 0 then
        let size = byte_cnt (bit_cnt b);
            data = file_read_at size;
            bs = data @ drop (length data) (bitmap_bytes b) in do {
          b \<leftarrow> update_elem (elem_cnt (bit_cnt b) - 1) (\<lambda>e. e AND last_mask b) (b\<lparr>bits := bytes_elems bs\<rparr>);
          Some (length data = size, b)
        }
      else Some (True, b))"

definition bitmap_write :: "bitmap \<Rightarrow> (byte list \<Rightarrow> nat) \<Rightarrow> bool" where
  "bitmap_write b file_write_at =
     (let size = byte_cnt (bit_cnt b) in file_write_at (take size (bitmap_bytes b)) = size)"

end
