(* ===== verification/Bitmap_Refine.thy ===== *)
theory Bitmap_Refine
  imports Bitmap
begin

text \<open>
  Refinement of the packed bitmap to a list of booleans (\<open>bools\<close>): every operation of
  \<open>Bitmap\<close> is characterised by its effect on that list, the searches by the first
  fitting position. The locale \<open>slot_allocator\<close> states what the users of a bitmap rely on
  and is interpreted on \<open>bitmap_scan_and_flip\<close> and \<open>bitmap_set_multiple\<close>.
\<close>

unbundle bit_operations_syntax

section \<open>The abstraction\<close>

definition bitmap_ok :: "bitmap \<Rightarrow> bool" where
  "bitmap_ok b \<longleftrightarrow> bit_cnt b < 2 ^ 32 \<and> bit_cnt b \<le> ELEM_BITS * length (bits b)"

definition bit_at :: "bitmap \<Rightarrow> nat \<Rightarrow> bool" where
  "bit_at b i = bit (bits b ! (i div 32)) (i mod 32)"

definition bools :: "bitmap \<Rightarrow> bool list" where
  "bools b = map (bit_at b) [0..<bit_cnt b]"

lemma length_bools [simp]: "length (bools b) = bit_cnt b"
  by (simp add: bools_def)

lemma nth_bools [simp]: "i < bit_cnt b \<Longrightarrow> bools b ! i = bit_at b i"
  by (simp add: bools_def)

lemma u32_less [simp]: "n < 2 ^ 32 \<Longrightarrow> u32 n = n"
  by (simp add: u32_def)

lemma elem_in_range: "bitmap_ok b \<Longrightarrow> i < bit_cnt b \<Longrightarrow> i div 32 < length (bits b)"
  by (auto simp: bitmap_ok_def less_mult_imp_div_less mult.commute)

lemma bit_bit_mask_iff: "bit (bit_mask i) k \<longleftrightarrow> k = i mod 32"
  by (auto simp: bit_mask_def bit_exp_iff possible_bit_def)

lemma bitmap_test_eq:
  assumes "bitmap_ok b" "i < bit_cnt b"
  shows "bitmap_test b i = Some (bools b ! i)"
proof -
  have "(w AND bit_mask i \<noteq> 0) = bit w (i mod 32)" for w :: elem_type
    by (simp add: bit_mask_def bit_iff_and_push_bit_not_eq_0)
  then show ?thesis
    using assms elem_in_range [OF assms] by (simp add: bitmap_test_def elem_idx_def bit_at_def)
qed

lemma bit_at_update:
  assumes "bitmap_ok b" "i < bit_cnt b" "j < bit_cnt b"
    and "\<And>w k. k < 32 \<Longrightarrow> bit (f w) k = (if k = i mod 32 then v (bit w k) else bit w k)"
  shows "bit_at (b\<lparr>bits := (bits b)[i div 32 := f (bits b ! (i div 32))]\<rparr>) j =
    (if j = i then v (bit_at b i) else bit_at b j)"
proof (cases "j div 32 = i div 32")
  case True
  then have "(j mod 32 = i mod 32) = (j = i)" by (metis div_mod_decomp)
  then show ?thesis using True elem_in_range [OF assms(1,2)] assms(4) by (auto simp: bit_at_def)
next
  case False
  then show ?thesis by (auto simp: bit_at_def)
qed

lemma bitmap_set_eq:
  assumes "bitmap_ok b" "i < bit_cnt b"
  shows "\<exists>b'. bitmap_set b i v = Some b' \<and> bitmap_ok b' \<and> bit_cnt b' = bit_cnt b \<and>
    bools b' = (bools b)[i := v]"
proof -
  let ?f = "\<lambda>w. if v then w OR bit_mask i else w AND NOT (bit_mask i)"
  let ?b = "b\<lparr>bits := (bits b)[i div 32 := ?f (bits b ! (i div 32))]\<rparr>"
  have "bitmap_set b i v = Some ?b"
    using assms elem_in_range [OF assms]
    by (simp add: bitmap_set_def bitmap_mark_def bitmap_reset_def update_elem_def elem_idx_def)
  moreover have "bit_at ?b j = (if j = i then v else bit_at b j)" if "j < bit_cnt b" for j
    using bit_at_update [OF assms that, of ?f "\<lambda>_. v"]
    by (auto simp: bit_or_iff bit_and_iff bit_not_iff bit_bit_mask_iff)
  ultimately show ?thesis
    using assms by (auto simp: bitmap_ok_def list_eq_iff_nth_eq nth_list_update)
qed

lemma bitmap_flip_eq:
  assumes "bitmap_ok b" "i < bit_cnt b"
  shows "\<exists>b'. bitmap_flip b i = Some b' \<and> bitmap_ok b' \<and> bit_cnt b' = bit_cnt b \<and>
    bools b' = (bools b)[i := \<not> bools b ! i]"
proof -
  let ?b = "b\<lparr>bits := (bits b)[i div 32 := (bits b ! (i div 32)) XOR bit_mask i]\<rparr>"
  have "bitmap_flip b i = Some ?b"
    using elem_in_range [OF assms] by (simp add: bitmap_flip_def update_elem_def elem_idx_def)
  moreover have "bit_at ?b j = (if j = i then \<not> bit_at b i else bit_at b j)" if "j < bit_cnt b" for j
    using bit_at_update [OF assms that, of "\<lambda>w. w XOR bit_mask i" Not]
    by (auto simp: bit_xor_iff bit_bit_mask_iff)
  ultimately show ?thesis
    using assms by (auto simp: bitmap_ok_def list_eq_iff_nth_eq nth_list_update)
qed

section \<open>Ranges\<close>

definition set_range :: "bool list \<Rightarrow> nat \<Rightarrow> nat \<Rightarrow> bool \<Rightarrow> bool list" where
  "set_range xs start cnt v = take start xs @ replicate cnt v @ drop (start + cnt) xs"

lemma nth_set_range:
  assumes "start + cnt \<le> length xs" "i < length xs"
  shows "set_range xs start cnt v ! i = (if start \<le> i \<and> i < start + cnt then v else xs ! i)"
  using assms by (auto simp: set_range_def nth_append min_def)

lemma length_set_range [simp]: "start + cnt \<le> length xs \<Longrightarrow> length (set_range xs start cnt v) = length xs"
  by (simp add: set_range_def)

lemma set_range_step:
  assumes "start + cnt \<le> length xs" "i < cnt"
  shows "set_range (xs[start + i := v]) (start + Suc i) (cnt - Suc i) v = set_range xs (start + i) (cnt - i) v"
proof (rule nth_equalityI)
  fix k assume "k < length (set_range (xs[start + i := v]) (start + Suc i) (cnt - Suc i) v)"
  then have "k < length xs" using assms by simp
  then show "set_range (xs[start + i := v]) (start + Suc i) (cnt - Suc i) v ! k =
      set_range xs (start + i) (cnt - i) v ! k"
    using assms by (cases "k = start + i") (auto simp: nth_set_range)
qed (use assms in simp)

lemma bitmap_set_multiple_loop_eq:
  assumes "bitmap_ok b" "start + cnt \<le> bit_cnt b" "i \<le> cnt"
  shows "\<exists>b'. bitmap_set_multiple_loop i start cnt v b = Some b' \<and> bitmap_ok b' \<and>
    bit_cnt b' = bit_cnt b \<and> bools b' = set_range (bools b) (start + i) (cnt - i) v"
  using assms
proof (induction i start cnt v b rule: bitmap_set_multiple_loop.induct)
  case (1 i start cnt v b)
  show ?case
  proof (cases "i < cnt")
    case True
    with 1 have u: "u32 (start + i) = start + i" "start + i < bit_cnt b"
      by (auto simp: bitmap_ok_def)
    obtain b1 where b1: "bitmap_set b (start + i) v = Some b1" "bitmap_ok b1" "bit_cnt b1 = bit_cnt b"
        "bools b1 = (bools b)[start + i := v]"
      using bitmap_set_eq [OF 1(2) u(2)] by blast
    then show ?thesis
      using 1(1) [OF True, of b1] 1 True u set_range_step [of start cnt "bools b" i v]
      by (subst bitmap_set_multiple_loop.simps) (simp del: bitmap_set_multiple_loop.simps)
  next
    case False
    with 1 show ?thesis by (simp add: set_range_def)
  qed
qed

lemma bitmap_set_multiple_eq:
  assumes "bitmap_ok b" "start + cnt \<le> bit_cnt b"
  shows "\<exists>b'. bitmap_set_multiple b start cnt v = Some b' \<and> bitmap_ok b' \<and>
    bit_cnt b' = bit_cnt b \<and> bools b' = set_range (bools b) start cnt v"
  using bitmap_set_multiple_loop_eq [OF assms, of 0 v] assms
  by (auto simp: bitmap_set_multiple_def bitmap_ok_def simp del: bitmap_set_multiple_loop.simps)

lemma bitmap_set_preserves:
  "bitmap_ok b \<Longrightarrow> bitmap_set b i v = Some b' \<Longrightarrow> bitmap_ok b' \<and> bit_cnt b' = bit_cnt b"
  by (auto simp: bitmap_set_def bitmap_mark_def bitmap_reset_def update_elem_def bitmap_ok_def split: if_splits)

text \<open>
  The second range assertion of the code wraps, so it lets a huge \<open>cnt\<close> pass; the
  per-bit assertion then stops the kernel before a bit outside the map is touched.
\<close>

lemma bitmap_set_multiple_loop_fails:
  assumes "bitmap_ok b" "start \<le> bit_cnt b" "bit_cnt b < start + cnt" "start + i \<le> bit_cnt b" "i < cnt"
  shows "bitmap_set_multiple_loop i start cnt v b = None"
  using assms
proof (induction i start cnt v b rule: bitmap_set_multiple_loop.induct)
  case (1 i start cnt v b)
  then have u: "u32 (start + i) = start + i" by (auto simp: bitmap_ok_def)
  show ?case
  proof (cases "start + i < bit_cnt b")
    case True
    then obtain b1 where b1: "bitmap_set b (start + i) v = Some b1" "bitmap_ok b1" "bit_cnt b1 = bit_cnt b"
      using bitmap_set_eq [OF 1(2) True] by blast
    then show ?thesis
      using 1(1) [OF 1(6), of b1] 1 True u
      by (subst bitmap_set_multiple_loop.simps) (simp del: bitmap_set_multiple_loop.simps)
  next
    case False
    then show ?thesis using u 1(6) by (simp add: bitmap_set_def)
  qed
qed

lemma bitmap_set_multiple_bounds:
  assumes "bitmap_ok b" "start < 2 ^ 32" "cnt < 2 ^ 32"
  shows "bitmap_set_multiple b start cnt v \<noteq> None \<longleftrightarrow> start + cnt \<le> bit_cnt b"
proof
  assume *: "bitmap_set_multiple b start cnt v \<noteq> None"
  then have "start \<le> bit_cnt b" "bitmap_set_multiple_loop 0 start cnt v b \<noteq> None"
    by (auto simp: bitmap_set_multiple_def split: if_splits simp del: bitmap_set_multiple_loop.simps)
  then show "start + cnt \<le> bit_cnt b"
    using bitmap_set_multiple_loop_fails [OF assms(1), of start cnt 0 v] by fastforce
qed (use bitmap_set_multiple_eq [OF assms(1)] in fastforce)

lemma bitmap_count_loop_eq:
  assumes "bitmap_ok b" "start + cnt \<le> bit_cnt b" "i \<le> cnt"
  shows "bitmap_count_loop i n b start cnt v =
    Some (n + length (filter ((=) v) (take (cnt - i) (drop (start + i) (bools b)))))"
  using assms
proof (induction i n b start cnt v rule: bitmap_count_loop.induct)
  case (1 i n b start cnt v)
  show ?case
  proof (cases "i < cnt")
    case True
    with 1 have u: "u32 (start + i) = start + i" "start + i < bit_cnt b"
      by (auto simp: bitmap_ok_def)
    have "drop (start + i) (bools b) = bools b ! (start + i) # drop (start + Suc i) (bools b)"
      using Cons_nth_drop_Suc [of "start + i" "bools b"] u by simp
    then have "take (cnt - i) (drop (start + i) (bools b)) =
        bools b ! (start + i) # take (cnt - Suc i) (drop (start + Suc i) (bools b))"
      using True by (simp add: Suc_diff_Suc [symmetric])
    then show ?thesis
      using 1(1) [OF True] 1 True u bitmap_test_eq [OF 1(2) u(2)]
      by (subst bitmap_count_loop.simps) (auto simp del: bitmap_count_loop.simps nth_bools)
  next
    case False
    with 1 show ?thesis by simp
  qed
qed

lemma bitmap_count_eq:
  assumes "bitmap_ok b" "start + cnt \<le> bit_cnt b"
  shows "bitmap_count b start cnt v = Some (length (filter ((=) v) (take cnt (drop start (bools b)))))"
  using bitmap_count_loop_eq [OF assms, of 0 0 v] assms
  by (simp add: bitmap_count_def bitmap_ok_def del: bitmap_count_loop.simps)

definition all_are :: "bool list \<Rightarrow> nat \<Rightarrow> nat \<Rightarrow> bool \<Rightarrow> bool" where
  "all_are xs start cnt v \<longleftrightarrow> (\<forall>i<cnt. xs ! (start + i) = v)"

lemma bitmap_contains_loop_eq:
  assumes "bitmap_ok b" "start + cnt \<le> bit_cnt b" "i \<le> cnt"
  shows "bitmap_contains_loop i b start cnt v = Some (\<exists>j\<in>{i..<cnt}. bools b ! (start + j) = v)"
  using assms
proof (induction i b start cnt v rule: bitmap_contains_loop.induct)
  case (1 i b start cnt v)
  show ?case
  proof (cases "i < cnt")
    case True
    with 1 have u: "u32 (start + i) = start + i" "start + i < bit_cnt b"
      by (auto simp: bitmap_ok_def)
    have "{i..<cnt} = insert i {i + 1..<cnt}" using True by auto
    then have "(\<exists>j\<in>{i..<cnt}. bools b ! (start + j) = v) \<longleftrightarrow>
        bools b ! (start + i) = v \<or> (\<exists>j\<in>{i + 1..<cnt}. bools b ! (start + j) = v)"
      by simp
    then show ?thesis
      using 1(1) [OF True, of "bools b ! (start + i)"] 1 True u bitmap_test_eq [OF 1(2) u(2)]
      by (subst bitmap_contains_loop.simps) (simp del: bitmap_contains_loop.simps nth_bools)
  qed simp
qed

lemma bitmap_contains_eq:
  assumes "bitmap_ok b" "start + cnt \<le> bit_cnt b"
  shows "bitmap_contains b start cnt v = Some (\<not> all_are (bools b) start cnt (\<not> v))"
  using bitmap_contains_loop_eq [OF assms, of 0 v] assms
  by (auto simp: bitmap_contains_def bitmap_ok_def all_are_def simp del: bitmap_contains_loop.simps)

section \<open>Searching\<close>

definition fits :: "bool list \<Rightarrow> nat \<Rightarrow> nat \<Rightarrow> bool \<Rightarrow> nat \<Rightarrow> bool" where
  "fits xs start cnt v i \<longleftrightarrow> start \<le> i \<and> i + cnt \<le> length xs \<and> all_are xs i cnt v"

definition first_fit :: "bool list \<Rightarrow> nat \<Rightarrow> nat \<Rightarrow> bool \<Rightarrow> nat option" where
  "first_fit xs start cnt v = find (\<lambda>i. all_are xs i cnt v) [start..<Suc (length xs) - cnt]"

lemma first_fit_Some:
  "first_fit xs start cnt v = Some i \<longleftrightarrow> fits xs start cnt v i \<and> (\<forall>j<i. \<not> fits xs start cnt v j)"
  unfolding first_fit_def find_Some_iff
proof safe
  fix k
  assume *: "k < length [start..<Suc (length xs) - cnt]"
    "all_are xs ([start..<Suc (length xs) - cnt] ! k) cnt v"
    "\<forall>j<k. \<not> all_are xs ([start..<Suc (length xs) - cnt] ! j) cnt v"
  then show "fits xs start cnt v ([start..<Suc (length xs) - cnt] ! k)" by (auto simp: fits_def)
  fix j
  assume "j < [start..<Suc (length xs) - cnt] ! k" "fits xs start cnt v j"
  then show False using * [unfolded length_upt] by (auto simp: fits_def dest: spec [of _ "j - start"])
next
  assume *: "fits xs start cnt v i" "\<forall>j<i. \<not> fits xs start cnt v j"
  then show "\<exists>k<length [start..<Suc (length xs) - cnt]. all_are xs ([start..<Suc (length xs) - cnt] ! k) cnt v \<and>
      i = [start..<Suc (length xs) - cnt] ! k \<and> (\<forall>j<k. \<not> all_are xs ([start..<Suc (length xs) - cnt] ! j) cnt v)"
    by (intro exI [of _ "i - start"]) (auto simp: fits_def)
qed

lemma first_fit_None: "first_fit xs start cnt v = None \<longleftrightarrow> (\<forall>i. \<not> fits xs start cnt v i)"
  unfolding first_fit_def find_None_iff by (auto simp: fits_def)

lemma bitmap_scan_loop_eq:
  assumes "bitmap_ok b" "last' + cnt = bit_cnt b"
  shows "bitmap_scan_loop i last' b cnt v =
    Some (case find (\<lambda>i. all_are (bools b) i cnt v) [i..<Suc last'] of Some k \<Rightarrow> k | None \<Rightarrow> BITMAP_ERROR)"
  using assms
proof (induction i last' b cnt v rule: bitmap_scan_loop.induct)
  case (1 i last' b cnt v)
  show ?case
  proof (cases "i \<le> last'")
    case True
    then have "[i..<Suc last'] = i # [i + 1..<Suc last']" by (simp add: upt_rec)
    then show ?thesis
      using 1(1) [OF True, of "\<not> all_are (bools b) i cnt v"] 1(2,3) True bitmap_contains_eq [OF 1(2), of i cnt "\<not> v"]
      by (subst bitmap_scan_loop.simps) (auto simp del: bitmap_scan_loop.simps upt_Suc)
  qed simp
qed

lemma bitmap_scan_eq:
  assumes "bitmap_ok b" "start \<le> bit_cnt b"
  shows "bitmap_scan b start cnt v =
    Some (case first_fit (bools b) start cnt v of Some k \<Rightarrow> k | None \<Rightarrow> BITMAP_ERROR)"
proof (cases "cnt \<le> bit_cnt b")
  case True
  then have "Suc (bit_cnt b) - cnt = Suc (bit_cnt b - cnt)" by simp
  then show ?thesis
    using bitmap_scan_loop_eq [OF assms(1), of "bit_cnt b - cnt" cnt start v] assms True
    by (simp add: bitmap_scan_def first_fit_def del: bitmap_scan_loop.simps upt_Suc)
qed (use assms in \<open>simp add: bitmap_scan_def first_fit_def\<close>)

lemma first_fit_not_error:
  "bitmap_ok b \<Longrightarrow> 0 < cnt \<Longrightarrow> first_fit (bools b) start cnt v \<noteq> Some BITMAP_ERROR"
  by (auto simp: first_fit_Some fits_def bitmap_ok_def BITMAP_ERROR_def)

lemma bitmap_scan_and_flip_eq:
  assumes "bitmap_ok b" "start \<le> bit_cnt b" "0 < cnt"
  shows "\<exists>b'. bitmap_ok b' \<and> bit_cnt b' = bit_cnt b \<and>
    (case first_fit (bools b) start cnt v of
       None \<Rightarrow> bitmap_scan_and_flip b start cnt v = Some (BITMAP_ERROR, b') \<and> b' = b
     | Some i \<Rightarrow> i \<noteq> BITMAP_ERROR \<and> bitmap_scan_and_flip b start cnt v = Some (i, b') \<and>
         bools b' = set_range (bools b) i cnt (\<not> v))"
proof (cases "first_fit (bools b) start cnt v")
  case None
  then show ?thesis using assms by (simp add: bitmap_scan_and_flip_def bitmap_scan_eq)
next
  case (Some i)
  then have "i + cnt \<le> bit_cnt b" by (auto simp: first_fit_Some fits_def)
  then show ?thesis
    using Some assms bitmap_set_multiple_eq [OF assms(1), of i cnt "\<not> v"] first_fit_not_error [OF assms(1,3), of start v]
    by (auto simp: bitmap_scan_and_flip_def bitmap_scan_eq)
qed

section \<open>Creation\<close>

lemma set_range_all: "set_range xs 0 (length xs) v = replicate (length xs) v"
  by (simp add: set_range_def)

lemma bitmap_set_all_eq:
  assumes "bitmap_ok b"
  shows "\<exists>b'. bitmap_set_all b v = Some b' \<and> bitmap_ok b' \<and> bit_cnt b' = bit_cnt b \<and>
    bools b' = replicate (bit_cnt b) v"
  using bitmap_set_multiple_eq [OF assms, of 0 "bit_cnt b" v] set_range_all [of "bools b" v]
  by (simp add: bitmap_set_all_def bitmap_size_def)

lemma elem_cnt_enough:
  assumes "n + 31 < 2 ^ 32"
  shows "n \<le> 32 * elem_cnt n" "elem_cnt n = (n + 31) div 32" "32 * elem_cnt n < n + 32"
  using assms by (auto simp: elem_cnt_def u32_def)

lemma bitmap_create_eq:
  assumes "n + 31 < 2 ^ 32" "length ws = elem_cnt n"
  shows "\<exists>b. bitmap_create True (Some ws) n = Some (Some b) \<and> bitmap_ok b \<and>
    bit_cnt b = n \<and> bools b = replicate n False"
proof -
  have "bitmap_ok \<lparr>bit_cnt = n, bits = ws\<rparr>"
    using assms elem_cnt_enough(1) [OF assms(1)] by (simp add: bitmap_ok_def)
  then show ?thesis
    using bitmap_set_all_eq [of "\<lparr>bit_cnt = n, bits = ws\<rparr>" False] by (auto simp: bitmap_create_def)
qed

lemma bitmap_create_in_buf_eq:
  assumes "n + 31 < 2 ^ 32" "elem_cnt n \<le> length ws" "bitmap_buf_size n \<le> sz"
  shows "\<exists>b. bitmap_create_in_buf n ws sz = Some b \<and> bitmap_ok b \<and> bit_cnt b = n \<and>
    bools b = replicate n False"
proof -
  have "bitmap_ok \<lparr>bit_cnt = n, bits = ws\<rparr>"
    using assms elem_cnt_enough(1) [OF assms(1)] by (simp add: bitmap_ok_def)
  then show ?thesis
    using bitmap_set_all_eq [of "\<lparr>bit_cnt = n, bits = ws\<rparr>" False] assms(3)
    by (auto simp: bitmap_create_in_buf_def)
qed

section \<open>The allocator interface\<close>

text \<open>
  What the users of a bitmap rely on: \<open>alloc cnt\<close> hands out a contiguous range of
  unused slots or reports that there is none, \<open>free\<close> returns a range.
\<close>

locale slot_allocator =
  fixes ok :: "'s \<Rightarrow> bool"
    and cap :: "'s \<Rightarrow> nat"
    and used :: "'s \<Rightarrow> nat set"
    and alloc :: "nat \<Rightarrow> 's \<Rightarrow> (nat option \<times> 's) option"
    and free :: "nat \<Rightarrow> nat \<Rightarrow> 's \<Rightarrow> 's option"
  assumes used_bound: "ok s \<Longrightarrow> used s \<subseteq> {..<cap s}"
    and alloc_total: "ok s \<Longrightarrow> 0 < cnt \<Longrightarrow> \<exists>r s'. alloc cnt s = Some (r, s')"
    and alloc_Some: "ok s \<Longrightarrow> 0 < cnt \<Longrightarrow> alloc cnt s = Some (Some i, s') \<Longrightarrow>
      ok s' \<and> cap s' = cap s \<and> i + cnt \<le> cap s \<and> {i..<i + cnt} \<inter> used s = {} \<and>
      used s' = used s \<union> {i..<i + cnt}"
    and alloc_None: "ok s \<Longrightarrow> 0 < cnt \<Longrightarrow> alloc cnt s = Some (None, s') \<Longrightarrow>
      s' = s \<and> (\<forall>i. i + cnt \<le> cap s \<longrightarrow> {i..<i + cnt} \<inter> used s \<noteq> {})"
    and free_total: "ok s \<Longrightarrow> i + cnt \<le> cap s \<Longrightarrow>
      \<exists>s'. free i cnt s = Some s' \<and> ok s' \<and> cap s' = cap s \<and> used s' = used s - {i..<i + cnt}"
begin

lemma alloc_free_restores:
  assumes "ok s" "0 < cnt" "alloc cnt s = Some (Some i, s1)"
  shows "\<exists>s2. free i cnt s1 = Some s2 \<and> ok s2 \<and> used s2 = used s"
  using alloc_Some [OF assms] free_total [of s1 i cnt] by (auto simp: Un_Diff Diff_triv inf_commute)

lemma alloc_finds_free:
  assumes "ok s" "0 < cnt" "i + cnt \<le> cap s" "{i..<i + cnt} \<inter> used s = {}"
  shows "\<exists>k s'. alloc cnt s = Some (Some k, s')"
proof -
  obtain r s' where r: "alloc cnt s = Some (r, s')" using alloc_total [OF assms(1,2)] by auto
  then have "r \<noteq> None" using alloc_None [OF assms(1,2), of s'] assms(3,4) by (cases r) auto
  then show ?thesis using r by auto
qed

lemma two_allocs_disjoint:
  assumes "ok s" "0 < m" "alloc m s = Some (Some i, s1)" "0 < n" "alloc n s1 = Some (Some j, s2)"
  shows "{i..<i + m} \<inter> {j..<j + n} = {}"
proof -
  have "ok s1" "{i..<i + m} \<subseteq> used s1" using alloc_Some [OF assms(1-3)] by auto
  then show ?thesis using alloc_Some [OF _ assms(4,5)] by blast
qed

lemma alloc_counts:
  assumes "ok s" "0 < cnt" "alloc cnt s = Some (Some i, s')"
  shows "card (used s') = card (used s) + cnt"
proof -
  have "finite (used s)" using used_bound [OF assms(1)] finite_subset by blast
  then show ?thesis using alloc_Some [OF assms] by (auto simp: card_Un_disjoint Int_commute)
qed

end

definition bitmap_used :: "bitmap \<Rightarrow> nat set" where
  "bitmap_used b = {i. i < bit_cnt b \<and> bools b ! i}"

definition bitmap_alloc :: "nat \<Rightarrow> bitmap \<Rightarrow> (nat option \<times> bitmap) option" where
  "bitmap_alloc cnt b =
     map_option (\<lambda>(i, b). (if i = BITMAP_ERROR then None else Some i, b)) (bitmap_scan_and_flip b 0 cnt False)"

definition bitmap_free :: "nat \<Rightarrow> nat \<Rightarrow> bitmap \<Rightarrow> bitmap option" where
  "bitmap_free i cnt b = bitmap_set_multiple b i cnt False"

lemma bitmap_alloc_cases:
  assumes "bitmap_ok b" "0 < cnt"
  obtains (full) "bitmap_alloc cnt b = Some (None, b)" "\<forall>i. \<not> fits (bools b) 0 cnt False i"
  | (found) i b' where "bitmap_alloc cnt b = Some (Some i, b')" "bitmap_ok b'" "bit_cnt b' = bit_cnt b"
      "fits (bools b) 0 cnt False i" "\<forall>j<i. \<not> fits (bools b) 0 cnt False j"
      "bools b' = set_range (bools b) i cnt True"
proof (cases "first_fit (bools b) 0 cnt False")
  case None
  then have "bitmap_scan_and_flip b 0 cnt False = Some (BITMAP_ERROR, b)"
    using bitmap_scan_and_flip_eq [OF assms(1) _ assms(2), of 0 False] by auto
  then show ?thesis using full None by (simp add: first_fit_None bitmap_alloc_def)
next
  case (Some i)
  then obtain b' where b': "bitmap_ok b'" "bit_cnt b' = bit_cnt b" "i \<noteq> BITMAP_ERROR"
      "bitmap_scan_and_flip b 0 cnt False = Some (i, b')" "bools b' = set_range (bools b) i cnt True"
    using bitmap_scan_and_flip_eq [OF assms(1) _ assms(2), of 0 False] by auto
  then have "bitmap_alloc cnt b = Some (Some i, b')" by (simp add: bitmap_alloc_def)
  then show ?thesis using found b' Some by (auto simp: first_fit_Some)
qed

lemma fits_iff_unused:
  "fits (bools b) 0 cnt False i \<longleftrightarrow> i + cnt \<le> bit_cnt b \<and> {i..<i + cnt} \<inter> bitmap_used b = {}"
proof -
  have "all_are (bools b) i cnt False \<longleftrightarrow> {i..<i + cnt} \<inter> bitmap_used b = {}" if "i + cnt \<le> bit_cnt b"
  proof
    assume *: "all_are (bools b) i cnt False"
    then have "\<not> bools b ! k" if "k \<in> {i..<i + cnt}" for k
      using that by (auto simp: all_are_def dest: spec [of _ "k - i"] simp del: nth_bools)
    then show "{i..<i + cnt} \<inter> bitmap_used b = {}" by (auto simp: bitmap_used_def simp del: nth_bools)
  next
    assume *: "{i..<i + cnt} \<inter> bitmap_used b = {}"
    then show "all_are (bools b) i cnt False"
      unfolding all_are_def using that
      by (auto simp: bitmap_used_def disjoint_iff simp del: nth_bools)
  qed
  then show ?thesis by (auto simp: fits_def)
qed

lemma used_set_range:
  assumes "bools b' = set_range (bools b) i cnt v" "bit_cnt b' = bit_cnt b" "i + cnt \<le> bit_cnt b"
  shows "bitmap_used b' = (if v then bitmap_used b \<union> {i..<i + cnt} else bitmap_used b - {i..<i + cnt})"
  using assms by (auto simp: bitmap_used_def nth_set_range simp del: nth_bools split: if_splits)

interpretation bm: slot_allocator bitmap_ok bit_cnt bitmap_used bitmap_alloc bitmap_free
proof unfold_locales
  fix b :: bitmap
  show "bitmap_used b \<subseteq> {..<bit_cnt b}" by (auto simp: bitmap_used_def)
next
  fix b :: bitmap and cnt :: nat
  assume "bitmap_ok b" "0 < cnt"
  then show "\<exists>r s'. bitmap_alloc cnt b = Some (r, s')" by (rule bitmap_alloc_cases) auto
next
  fix b b' :: bitmap and cnt i :: nat
  assume "bitmap_ok b" "0 < cnt" "bitmap_alloc cnt b = Some (Some i, b')"
  then show "bitmap_ok b' \<and> bit_cnt b' = bit_cnt b \<and> i + cnt \<le> bit_cnt b \<and>
      {i..<i + cnt} \<inter> bitmap_used b = {} \<and> bitmap_used b' = bitmap_used b \<union> {i..<i + cnt}"
    by (cases rule: bitmap_alloc_cases [of b cnt]) (auto simp: fits_iff_unused used_set_range)
next
  fix b b' :: bitmap and cnt :: nat
  assume "bitmap_ok b" "0 < cnt" "bitmap_alloc cnt b = Some (None, b')"
  then show "b' = b \<and> (\<forall>i. i + cnt \<le> bit_cnt b \<longrightarrow> {i..<i + cnt} \<inter> bitmap_used b \<noteq> {})"
    by (cases rule: bitmap_alloc_cases [of b cnt]) (auto simp: fits_iff_unused)
next
  fix b :: bitmap and i cnt :: nat
  assume "bitmap_ok b" "i + cnt \<le> bit_cnt b"
  then show "\<exists>b'. bitmap_free i cnt b = Some b' \<and> bitmap_ok b' \<and> bit_cnt b' = bit_cnt b \<and>
      bitmap_used b' = bitmap_used b - {i..<i + cnt}"
    using bitmap_set_multiple_eq [of b i cnt False] by (auto simp: bitmap_free_def used_set_range)
qed

section \<open>Storage in a file\<close>

lemma elem_bytes_inverse:
  fixes w :: elem_type
  shows "ucast (ucast (drop_bit 0 w) :: byte) OR push_bit 8 (ucast (ucast (drop_bit 8 w) :: byte)) OR
    push_bit 16 (ucast (ucast (drop_bit 16 w) :: byte)) OR
    push_bit 24 (ucast (ucast (drop_bit 24 w) :: byte)) = w" (is "?l = w")
proof (rule bit_word_eqI)
  fix n
  assume n: "n < LENGTH(32)"
  consider "n < 8" | "8 \<le> n" "n < 16" | "16 \<le> n" "n < 24" | "24 \<le> n" by linarith
  then show "bit ?l n = bit w n"
    using n by cases (simp_all add: bit_or_iff bit_push_bit_iff bit_unsigned_iff bit_drop_bit_eq less_diff_conv2)
qed

lemma bytes_elems_inverse: "bytes_elems (concat (map elem_bytes ws)) = ws"
proof (induction ws)
  case (Cons w ws)
  then show ?case using elem_bytes_inverse [of w] by (simp add: elem_bytes_def)
qed simp

lemma length_bitmap_bytes: "length (bitmap_bytes b) = 4 * length (bits b)"
  by (induction "bits b" arbitrary: b)
    (auto simp: bitmap_bytes_def elem_bytes_def length_concat comp_def sum_list_triv)

definition bitmap_exact :: "bitmap \<Rightarrow> bool" where
  "bitmap_exact b \<longleftrightarrow> bit_cnt b + 31 < 2 ^ 32 \<and> length (bits b) = elem_cnt (bit_cnt b)"

lemma bitmap_exact_ok: "bitmap_exact b \<Longrightarrow> bitmap_ok b"
  by (simp add: bitmap_exact_def bitmap_ok_def elem_cnt_enough)

lemma byte_cnt_exact: "bitmap_exact b \<Longrightarrow> byte_cnt (bit_cnt b) = length (bitmap_bytes b)"
  by (auto simp: bitmap_exact_def length_bitmap_bytes byte_cnt_def elem_cnt_enough(2) u32_def)

lemma bit_last_mask:
  assumes "0 < bit_cnt b" "i < bit_cnt b" "i div 32 = (bit_cnt b + 31) div 32 - 1"
  shows "bit (last_mask b) (i mod 32)"
proof (cases "bit_cnt b mod 32 = 0")
  case True
  then show ?thesis by (simp add: last_mask_def bit_minus_1_iff possible_bit_def)
next
  case False
  define q r where "q = bit_cnt b div 32" and "r = bit_cnt b mod 32"
  then have "bit_cnt b = 32 * q + r" "0 < r" "r < 32" using False by simp_all
  then have "(bit_cnt b + 31) div 32 = q + 1" by (intro div_nat_eqI) simp_all
  then have "i div 32 = bit_cnt b div 32" using assms(3) by (simp add: q_def)
  then have "i mod 32 < bit_cnt b mod 32"
    using assms(2) div_mult_mod_eq [of i 32] div_mult_mod_eq [of "bit_cnt b" 32] by linarith
  moreover have "push_bit n (1::elem_type) - 1 = mask n" for n by (simp add: mask_eq_exp_minus_1)
  ultimately show ?thesis using False by (simp add: last_mask_def bit_mask_iff possible_bit_def)
qed

lemma bitmap_read_back:
  assumes "bitmap_exact b" "bitmap_exact b0" "bit_cnt b0 = bit_cnt b"
  shows "\<exists>b'. bitmap_read b0 (\<lambda>size. take size (bitmap_bytes b)) = Some (True, b') \<and>
    bitmap_exact b' \<and> bools b' = bools b"
proof (cases "bit_cnt b = 0")
  case True
  then show ?thesis using assms by (auto simp: bitmap_read_def bools_def)
next
  case False
  let ?k = "elem_cnt (bit_cnt b) - 1"
  let ?b = "b0\<lparr>bits := (bits b)[?k := bits b ! ?k AND last_mask b]\<rparr>"
  have len: "length (bitmap_bytes b0) = length (bitmap_bytes b)"
    using assms by (simp add: length_bitmap_bytes bitmap_exact_def)
  have k: "elem_cnt (bit_cnt b) = (bit_cnt b + 31) div 32" "?k < length (bits b)"
    using assms(1) False elem_cnt_enough(1,2) [of "bit_cnt b"] by (auto simp: bitmap_exact_def)
  have "bitmap_read b0 (\<lambda>size. take size (bitmap_bytes b)) = Some (True, ?b)"
    using assms False k len byte_cnt_exact [OF assms(1)]
    by (simp add: bitmap_read_def update_elem_def bitmap_bytes_def bytes_elems_inverse last_mask_def)
  moreover have "bit_at ?b i = bit_at b i" if "i < bit_cnt b" for i
    using bit_last_mask [of b i] False that k by (auto simp: bit_at_def bit_and_iff nth_list_update)
  ultimately show ?thesis
    using assms by (auto simp: bitmap_exact_def bools_def intro!: map_cong)
qed

section \<open>Properties\<close>

text \<open>C10. Allocation from a bitmap (\<open>bitmap_scan_and_flip\<close> with \<open>value = false\<close>): it always
  returns; the result is the first range of \<open>cnt\<close> clear bits at or after \<open>start\<close>, exactly
  those bits become set, and \<open>BITMAP_ERROR\<close> is returned, with nothing changed, only when
  no such range exists.\<close>

theorem scan_and_flip_first_fit:
  assumes "bitmap_ok b" "start \<le> bit_cnt b" "0 < cnt"
  shows "\<exists>i b'. bitmap_scan_and_flip b start cnt False = Some (i, b') \<and> bitmap_ok b' \<and>
    (if i = BITMAP_ERROR then b' = b \<and> (\<forall>k. \<not> fits (bools b) start cnt False k)
     else fits (bools b) start cnt False i \<and> (\<forall>k<i. \<not> fits (bools b) start cnt False k) \<and>
       bools b' = set_range (bools b) i cnt True)"
  using bitmap_scan_and_flip_eq [OF assms, of False] assms(1)
  by (cases "first_fit (bools b) start cnt False") (auto simp: first_fit_None first_fit_Some)

definition ex_bitmap :: bitmap where
  "ex_bitmap = \<lparr>bit_cnt = 40, bits = [0xFFFF00FF, 0x2]\<rparr>"

lemma ex_bitmap_ok: "bitmap_ok ex_bitmap" "bit_cnt ex_bitmap = 40"
  by (simp_all add: bitmap_ok_def ex_bitmap_def)

theorem scan_and_flip_first_fit_witness:
  "\<exists>i b'. bitmap_scan_and_flip ex_bitmap 3 5 False = Some (i, b') \<and> bitmap_ok b' \<and>
    (if i = BITMAP_ERROR then b' = ex_bitmap \<and> (\<forall>k. \<not> fits (bools ex_bitmap) 3 5 False k)
     else fits (bools ex_bitmap) 3 5 False i \<and> (\<forall>k<i. \<not> fits (bools ex_bitmap) 3 5 False k) \<and>
       bools b' = set_range (bools ex_bitmap) i 5 True)"
  using scan_and_flip_first_fit [of ex_bitmap 3 5] ex_bitmap_ok by simp

text \<open>The range assertions of \<open>bitmap_set_multiple\<close> are sufficient although \<open>start + cnt\<close>
  wraps at 32 bits: the operation succeeds exactly when the range lies inside the
  bitmap, and otherwise the kernel stops.\<close>

theorem set_multiple_iff_in_range:
  assumes "bitmap_ok b" "start < 2 ^ 32" "cnt < 2 ^ 32"
  shows "bitmap_set_multiple b start cnt v \<noteq> None \<longleftrightarrow> start + cnt \<le> bit_cnt b"
  using assms by (rule bitmap_set_multiple_bounds)

theorem set_multiple_iff_in_range_witness:
  "u32 (20 + (2 ^ 32 - 10)) = 10 \<and> bitmap_set_multiple ex_bitmap 20 (2 ^ 32 - 10) True = None"
  using set_multiple_iff_in_range [of ex_bitmap 20 "2 ^ 32 - 10" True] ex_bitmap_ok
  by (auto simp: u32_def)

text \<open>A bitmap written to a file with \<open>bitmap_write\<close> and read into another bitmap of the
  same size with \<open>bitmap_read\<close> has the same bits, whatever the second one held before.\<close>

theorem write_read_same_bits:
  assumes "bitmap_exact b" "bitmap_exact b0" "bit_cnt b0 = bit_cnt b"
  shows "\<exists>data b'. bitmap_write b (\<lambda>bs. if bs = data then length bs else 0) \<and>
    bitmap_read b0 (\<lambda>n. take n data) = Some (True, b') \<and> bools b' = bools b"
proof -
  have "bitmap_write b (\<lambda>bs. if bs = bitmap_bytes b then length bs else 0)"
    using byte_cnt_exact [OF assms(1)] by (simp add: bitmap_write_def)
  then show ?thesis using bitmap_read_back [OF assms] by blast
qed

theorem write_read_same_bits_witness:
  "\<exists>data b'. bitmap_write ex_bitmap (\<lambda>bs. if bs = data then length bs else 0) \<and>
    bitmap_read \<lparr>bit_cnt = 40, bits = [7, 9]\<rparr> (\<lambda>n. take n data) = Some (True, b') \<and> bools b' = bools ex_bitmap"
  by (rule write_read_same_bits)
    (simp_all add: bitmap_exact_def ex_bitmap_def elem_cnt_def u32_def)

end
