(* ===== verification/Fixed_Point.thy ===== *)
theory Fixed_Point
  imports Prelude "HOL-Library.Signed_Division"
begin

text \<open>
  The 17.14 fixed-point arithmetic of \<open>threads/fixed_point.h\<close> and the two pure functions of
  \<open>threads/thread.c\<close> that use it, \<open>calc_priority\<close> and \<open>fix_to_int\<close>.

  A C \<open>int\<close> is an integer kept in range by \<open>s32\<close> and an \<open>int64_t\<close> by \<open>s64\<close>, which wrap (the
  C standard leaves signed overflow undefined; the bounds below say where none
  happens). C division truncates toward zero: \<open>sdiv\<close>.
\<close>

unbundle bit_operations_syntax

section \<open>Machine integers\<close>

definition s32 :: "int \<Rightarrow> int" where
  "s32 x = signed_take_bit 31 x"

definition s64 :: "int \<Rightarrow> int" where
  "s64 x = signed_take_bit 63 x"

lemma s32_id: "- (2 ^ 31) \<le> x \<Longrightarrow> x < 2 ^ 31 \<Longrightarrow> s32 x = x"
  by (simp add: s32_def signed_take_bit_int_eq_self)

lemma s64_id: "- (2 ^ 63) \<le> x \<Longrightarrow> x < 2 ^ 63 \<Longrightarrow> s64 x = x"
  by (simp add: s64_def signed_take_bit_int_eq_self)

lemma s32_range: "- (2 ^ 31) \<le> s32 x" "s32 x < 2 ^ 31"
  using signed_take_bit_int_greater_eq_minus_exp [of 31 x] signed_take_bit_int_less_exp [of 31 x]
  by (simp_all add: s32_def)

lemma sdiv_pos: "0 < n \<Longrightarrow> x sdiv n = (if 0 \<le> x then x div n else - ((- x) div n))" for x n :: int
  by (auto simp: signed_divide_int_def sgn_if)

lemma sdiv_mono: "0 < n \<Longrightarrow> x \<le> y \<Longrightarrow> x sdiv n \<le> y sdiv n" for x y n :: int
proof -
  assume "0 < n" "x \<le> y"
  moreover have "x div n \<le> y div n" "(- y) div n \<le> (- x) div n"
    using \<open>0 < n\<close> \<open>x \<le> y\<close> by (simp_all add: zdiv_mono1)
  moreover have "0 \<le> y \<Longrightarrow> 0 \<le> y div n" "x < 0 \<Longrightarrow> 0 \<le> (- x) div n"
    using \<open>0 < n\<close> by (simp_all add: pos_imp_zdiv_nonneg_iff)
  ultimately show ?thesis by (cases "0 \<le> x"; cases "0 \<le> y") (simp_all add: sdiv_pos)
qed

lemma sdiv_abs_le: "0 < n \<Longrightarrow> \<bar>x sdiv n\<bar> \<le> \<bar>x\<bar>" for x n :: int
proof -
  have "a div n \<le> a \<and> 0 \<le> a div n" if "0 \<le> a" "0 < n" for a
    using that zdiv_mono2 [of a 1 n] by (simp add: pos_imp_zdiv_nonneg_iff)
  from this [of x] this [of "- x"] show "0 < n \<Longrightarrow> ?thesis" by (auto simp: sdiv_pos)
qed

section \<open>The macros\<close>

type_synonym fixed_point_t = int

definition FP :: int where
  "FP = 2 ^ 14"

definition CONVERT_N_TO_FIXED :: "int \<Rightarrow> fixed_point_t" where
  "CONVERT_N_TO_FIXED n = s32 (n * FP)"

definition ROUND_TO_ZERO :: "fixed_point_t \<Rightarrow> int" where
  "ROUND_TO_ZERO x = x sdiv FP"

definition ROUND_TO_NEAR :: "fixed_point_t \<Rightarrow> int" where
  "ROUND_TO_NEAR x = (if x \<ge> 0 then s32 (x + FP sdiv 2) sdiv FP else s32 (x - FP sdiv 2) sdiv FP)"

definition ADD_X_Y :: "fixed_point_t \<Rightarrow> fixed_point_t \<Rightarrow> fixed_point_t" where
  "ADD_X_Y x y = s32 (x + y)"

definition SUBTRACT_X_Y :: "fixed_point_t \<Rightarrow> fixed_point_t \<Rightarrow> fixed_point_t" where
  "SUBTRACT_X_Y x y = s32 (x - y)"

definition ADD_X_N :: "fixed_point_t \<Rightarrow> int \<Rightarrow> fixed_point_t" where
  "ADD_X_N x n = s32 (x + s32 (n * FP))"

definition SUBTRACT_X_N :: "fixed_point_t \<Rightarrow> int \<Rightarrow> fixed_point_t" where
  "SUBTRACT_X_N x n = s32 (x - s32 (n * FP))"

text \<open>\<open>MULT_X_Y\<close> and \<open>DIV_X_Y\<close> have a 64-bit result.\<close>

definition MULT_X_Y :: "fixed_point_t \<Rightarrow> fixed_point_t \<Rightarrow> int" where
  "MULT_X_Y x y = s64 (x * y) sdiv FP"

definition MULT_X_N :: "fixed_point_t \<Rightarrow> int \<Rightarrow> fixed_point_t" where
  "MULT_X_N x n = s32 (x * n)"

definition DIV_X_Y :: "fixed_point_t \<Rightarrow> fixed_point_t \<Rightarrow> int" where
  "DIV_X_Y x y = s64 (x * FP) sdiv y"

definition DIV_X_N :: "fixed_point_t \<Rightarrow> int \<Rightarrow> fixed_point_t" where
  "DIV_X_N x n = x sdiv n"

lemmas fp_defs = CONVERT_N_TO_FIXED_def ROUND_TO_ZERO_def ADD_X_Y_def SUBTRACT_X_Y_def ADD_X_N_def
  SUBTRACT_X_N_def MULT_X_Y_def MULT_X_N_def DIV_X_Y_def DIV_X_N_def FP_def

section \<open>Priorities\<close>

abbreviation (input) PRI_MIN :: int where "PRI_MIN \<equiv> 0"
abbreviation (input) PRI_DEFAULT :: int where "PRI_DEFAULT \<equiv> 31"
abbreviation (input) PRI_MAX :: int where "PRI_MAX \<equiv> 63"

definition calc_priority :: "fixed_point_t \<Rightarrow> int \<Rightarrow> int" where
  "calc_priority recent_cpu nice =
     (let converted_pri_max = CONVERT_N_TO_FIXED PRI_MAX;
          converted_recent_cpu = DIV_X_N recent_cpu 4;
          result = SUBTRACT_X_N (SUBTRACT_X_Y converted_pri_max converted_recent_cpu) (2 * nice);
          result = ROUND_TO_ZERO result in
      if result < PRI_MIN then PRI_MIN
      else if result > PRI_MAX then PRI_MAX
      else result)"

definition fix_to_int :: "32 word \<Rightarrow> 32 word" where
  "fix_to_int num = signed_drop_bit 14 num AND 0x8001FFFF"

definition pri_ok :: "int \<Rightarrow> bool" where
  "pri_ok p \<longleftrightarrow> PRI_MIN \<le> p \<and> p \<le> PRI_MAX"

definition nice_ok :: "int \<Rightarrow> bool" where
  "nice_ok n \<longleftrightarrow> - 20 \<le> n \<and> n \<le> 20"

lemma calc_priority_range: "pri_ok (calc_priority r n)"
  by (simp add: calc_priority_def Let_def pri_ok_def)

text \<open>Without overflow the code computes \<open>PRI_MAX - recent_cpu / 4 - 2 * nice\<close>, rounded and clamped.\<close>

lemma calc_priority_eq:
  assumes "nice_ok n" "\<bar>r\<bar> \<le> 2 ^ 31 - 1"
  shows "calc_priority r n = max 0 (min 63 ((63 * FP - r sdiv 4 - 2 * n * FP) sdiv FP))"
proof -
  have "\<bar>r sdiv 4\<bar> \<le> 2 ^ 29"
    using assms(2) by (auto simp: sdiv_pos abs_le_iff)
  then have b: "- 536870912 \<le> r sdiv 4" "r sdiv 4 \<le> 536870912" by (simp_all add: abs_le_iff)
  have "SUBTRACT_X_N (SUBTRACT_X_Y (CONVERT_N_TO_FIXED PRI_MAX) (DIV_X_N r 4)) (2 * n) =
      63 * FP - r sdiv 4 - 2 * n * FP"
    using assms(1) b by (simp add: fp_defs nice_ok_def s32_id)
  then show ?thesis by (simp add: calc_priority_def ROUND_TO_ZERO_def Let_def)
qed

text \<open>
  \<open>fix_to_int\<close> drops the fraction of a nonnegative number, but its mask (meant to
  restore the sign bit) also clears bits 17 to 30 of the sign-extended value, so the
  result is wrong for every negative number. No caller uses it.
\<close>

lemma fix_to_int_right_iff: "fix_to_int x = signed_drop_bit 14 x \<longleftrightarrow> \<not> bit x 31"
proof -
  have b: "bit (signed_drop_bit 14 x) n = bit x (if n \<le> 17 then 14 + n else 31)" if "n < 32" for n
    using that by (auto simp: bit_signed_drop_bit_iff)
  have mk: "mask 17 OR push_bit 31 1 = (0x8001FFFF :: 32 word)" by (simp add: mask_eq_exp_minus_1)
  have m: "bit (0x8001FFFF :: 32 word) n = (n < 17 \<or> n = 31)" for n
    unfolding mk [symmetric] bit_or_iff bit_push_bit_iff bit_mask_iff bit_1_iff
    by (auto simp: possible_bit_def)
  have "bit (fix_to_int x) n = (bit (signed_drop_bit 14 x) n \<and> (n < 17 \<or> n = 31))" for n
    unfolding fix_to_int_def bit_and_iff m by (rule refl)
  then have "fix_to_int x = signed_drop_bit 14 x \<longleftrightarrow>
      (\<forall>n<32. bit (signed_drop_bit 14 x) n \<longrightarrow> n < 17 \<or> n = 31)"
    by (auto simp: bit_eq_iff)
  also have "\<dots> \<longleftrightarrow> \<not> bit x 31"
  proof
    assume "\<forall>n<32. bit (signed_drop_bit 14 x) n \<longrightarrow> n < 17 \<or> n = 31"
    from this [rule_format, of 30] show "\<not> bit x 31" by (auto simp: b)
  next
    assume "\<not> bit x 31"
    then show "\<forall>n<32. bit (signed_drop_bit 14 x) n \<longrightarrow> n < 17 \<or> n = 31"
      by (auto simp: b le_less split: if_splits)
  qed
  finally show ?thesis .
qed

section \<open>Properties\<close>

text \<open>\<open>calc_priority\<close> always yields a legal priority, whatever overflow does to its
  intermediate results; and for a legal \<open>nice\<close> and any non-minimal \<open>recent_cpu\<close> nothing
  overflows, so it is the documented formula
  \<open>PRI_MAX - recent_cpu / 4 - nice * 2\<close>, truncated and clamped.\<close>

theorem calc_priority_correct:
  "pri_ok (calc_priority r n) \<and>
   (nice_ok n \<and> \<bar>r\<bar> \<le> 2 ^ 31 - 1 \<longrightarrow>
    calc_priority r n = max PRI_MIN (min PRI_MAX ((PRI_MAX * FP - r sdiv 4 - 2 * n * FP) sdiv FP)))"
  using calc_priority_range calc_priority_eq by blast

theorem calc_priority_correct_witness:
  "calc_priority (8 * FP) 5 = 51"
  using calc_priority_correct [of "8 * FP" 5]
  by (simp add: nice_ok_def FP_def sdiv_pos)

text \<open>A thread that has used more processor time, or is nicer, never gets a higher
  priority: \<open>calc_priority\<close> is antitone in both arguments.\<close>

theorem calc_priority_antitone:
  assumes "nice_ok n" "nice_ok n'" "n \<le> n'" "\<bar>r\<bar> \<le> 2 ^ 31 - 1" "\<bar>r'\<bar> \<le> 2 ^ 31 - 1" "r \<le> r'"
  shows "calc_priority r' n' \<le> calc_priority r n"
proof -
  have "63 * FP - r' sdiv 4 - 2 * n' * FP \<le> 63 * FP - r sdiv 4 - 2 * n * FP"
    using sdiv_mono [of 4 r r'] assms(3,6) by (simp add: FP_def)
  then have "(63 * FP - r' sdiv 4 - 2 * n' * FP) sdiv FP \<le> (63 * FP - r sdiv 4 - 2 * n * FP) sdiv FP"
    by (intro sdiv_mono) (simp_all add: FP_def)
  then show ?thesis unfolding calc_priority_eq [OF assms(2,5)] calc_priority_eq [OF assms(1,4)] by linarith
qed

theorem calc_priority_antitone_witness:
  "calc_priority (40 * FP) 3 \<le> calc_priority (- 7) (- 2)"
  by (rule calc_priority_antitone) (simp_all add: nice_ok_def FP_def)

end
