(* ===== verification/Kernel.thy ===== *)
theory Kernel
  imports Prelude List_Interface Fixed_Point
begin

text \<open>
  The state of the threading system: \<open>struct thread\<close> (\<open>threads/thread.h\<close>), the
  synchronisation objects of \<open>threads/synch.h\<close>, and the static variables of
  \<open>threads/thread.c\<close>, \<open>threads/interrupt.c\<close> and \<open>devices/timer.c\<close>.

  Threads, locks and condition variables are identified by their addresses. A thread
  that is switched out resumes later in the middle of the kernel function it was
  executing; the rest of its execution is the stack \<open>frames\<close> of calls still to be made.
  Each frame runs atomically up to the next context switch or the next frame, and the
  timer interrupt can come between two frames. The lists \<open>ready_list\<close>, \<open>waiters\<close> and so on
  are HOL lists of their elements, with \<open>list_insert_ordered\<close> as \<open>insert_ordered\<close>; the theory
  \<open>Clist_Rep\<close> shows that the pointer code implements these operations. A dereference of
  an address that holds no live thread is \<open>None\<close>.
\<close>

section \<open>Data\<close>

type_synonym tptr = nat
type_synonym lptr = nat
type_synonym cptr = nat

datatype thread_status = THREAD_RUNNING | THREAD_READY | THREAD_BLOCKED | THREAD_DYING

text \<open>
  Semaphores: free-standing ones, the one inside a lock, the one in the
  \<open>semaphore_elem\<close> on the stack of a thread in \<open>cond_wait\<close>, and the two inside \<open>struct thread\<close>
  (\<open>parent_child_sync\<close>, \<open>parent_wait_sema\<close>).
\<close>

datatype sema_id = Sema nat | LockSema lptr | WaiterSema tptr | ChildSync tptr | WaitSema tptr

record semaphore =
  sema_value :: nat
  waiters :: "tptr list"

record lock_elem =
  locked_thread :: tptr
  le_priority :: int
  le_lock :: lptr

record semaphore_elem =
  se_thread :: tptr
  se_priority :: int

record child_info =
  ci_tid :: int
  ci_exit_status :: int
  ci_exited :: bool
  ci_waited :: bool

text \<open>Calls that a thread still has to make (see above).\<close>

datatype frame =
    F_sema_down sema_id
  | F_sema_up sema_id
  | F_lock_acquire lptr
  | F_set_holder lptr
  | F_lock_release lptr
  | F_cond_signal cptr lptr
  | F_cond_broadcast cptr lptr
  | F_take_tid tptr
  | F_create tptr
  | F_die
  | F_idle_start sema_id
  | F_idle_loop

record thread =
  tid :: int
  status :: thread_status
  th_name :: string
  priority :: int
  original_priority :: int
  nice :: int
  recent_cpu :: fixed_point_t
  possessing_locks :: "lock_elem list"
  holded_by :: "lptr option"
  waking_time :: int
  pagedir :: "nat option"
  children_thread_list :: "tptr list"
  child_info_list :: "child_info list"
  parent_thread :: "tptr option"
  exit_status :: int
  child_load_failed :: bool
  frames :: "frame list"

record kernel =
  threads :: "tptr \<Rightarrow> thread option"
  current :: tptr
  ready_list :: "tptr list"
  waiting_list :: "tptr list"
  all_list :: "tptr list"
  idle_thread :: "tptr option"
  initial_thread :: tptr
  next_tid :: int
  thread_ticks :: nat
  idle_ticks :: int
  kernel_ticks :: int
  user_ticks :: int
  load_avg :: fixed_point_t
  thread_mlfqs :: bool
  ticks :: int
  in_external_intr :: bool
  yield_on_return :: bool
  active_pd :: "nat option"
  semas :: "sema_id \<Rightarrow> semaphore"
  holder :: "lptr \<Rightarrow> tptr option"
  conds :: "cptr \<Rightarrow> semaphore_elem list"
  frame_table :: "(nat \<times> tptr) list"

definition upd_thread :: "tptr \<Rightarrow> (thread \<Rightarrow> thread) \<Rightarrow> kernel \<Rightarrow> kernel" where
  "upd_thread t f k = k\<lparr>threads := (threads k)(t := map_option f (threads k t))\<rparr>"

definition upd_sema :: "sema_id \<Rightarrow> (semaphore \<Rightarrow> semaphore) \<Rightarrow> kernel \<Rightarrow> kernel" where
  "upd_sema s f k = k\<lparr>semas := (semas k)(s := f (semas k s))\<rparr>"

definition push_frames :: "frame list \<Rightarrow> kernel \<Rightarrow> kernel" where
  "push_frames fs k = upd_thread (current k) (\<lambda>t. t\<lparr>frames := fs @ frames t\<rparr>) k"

definition prio :: "kernel \<Rightarrow> tptr \<Rightarrow> int" where
  "prio k t = (case threads k t of Some th \<Rightarrow> priority th | None \<Rightarrow> 0)"

section \<open>Scheduling\<close>

abbreviation (input) TIME_SLICE :: nat where "TIME_SLICE \<equiv> 4"

definition is_thread :: "kernel \<Rightarrow> tptr \<Rightarrow> bool" where
  "is_thread k t \<longleftrightarrow> threads k t \<noteq> None"

definition thread_current :: "kernel \<Rightarrow> tptr option" where
  "thread_current k = do {
     t \<leftarrow> threads k (current k);
     ASSERT (status t = THREAD_RUNNING);
     Some (current k)
   }"

definition less_priority :: "kernel \<Rightarrow> tptr \<Rightarrow> tptr \<Rightarrow> bool" where
  "less_priority k a b \<longleftrightarrow> prio k a \<le> prio k b"

definition less_waking_time :: "kernel \<Rightarrow> tptr \<Rightarrow> tptr \<Rightarrow> bool" where
  "less_waking_time k a b \<longleftrightarrow>
     (case (threads k a, threads k b) of
        (Some ta, Some tb) \<Rightarrow> waking_time ta \<le> waking_time tb
      | _ \<Rightarrow> False)"

definition insert_ready :: "tptr \<Rightarrow> kernel \<Rightarrow> kernel" where
  "insert_ready t k = k\<lparr>ready_list := insert_ordered (less_priority k) t (ready_list k)\<rparr>"

definition set_status :: "tptr \<Rightarrow> thread_status \<Rightarrow> kernel \<Rightarrow> kernel" where
  "set_status t s k = upd_thread t (\<lambda>th. th\<lparr>status := s\<rparr>) k"

definition next_thread_to_run :: "kernel \<Rightarrow> tptr option \<times> kernel" where
  "next_thread_to_run k =
     (if ready_list k = [] then (idle_thread k, k)
      else (Some (last (ready_list k)), k\<lparr>ready_list := butlast (ready_list k)\<rparr>))"

definition process_activate :: "kernel \<Rightarrow> kernel option" where
  "process_activate k = do {
     c \<leftarrow> thread_current k;
     t \<leftarrow> threads k c;
     Some (k\<lparr>active_pd := pagedir t\<rparr>)
   }"

definition schedule_tail :: "tptr option \<Rightarrow> kernel \<Rightarrow> kernel option" where
  "schedule_tail prev k = do {
     let curr = current k;
     let k = set_status curr THREAD_RUNNING k;
     let k = k\<lparr>thread_ticks := 0\<rparr>;
     k \<leftarrow> process_activate k;
     case prev of
       None \<Rightarrow> Some k
     | Some p \<Rightarrow> do {
         t \<leftarrow> threads k p;
         if status t = THREAD_DYING \<and> p \<noteq> initial_thread k then do {
           ASSERT (p \<noteq> curr);
           Some (k\<lparr>threads := (threads k)(p := None)\<rparr>)
         }
         else Some k
       }
   }"

definition schedule :: "kernel \<Rightarrow> kernel option" where
  "schedule k = do {
     let curr = current k;
     let (nx, k) = next_thread_to_run k;
     t \<leftarrow> threads k curr;
     ASSERT (status t \<noteq> THREAD_RUNNING);
     next \<leftarrow> nx;
     ASSERT (is_thread k next);
     let prev = (if curr \<noteq> next then Some curr else None);
     schedule_tail prev (k\<lparr>current := next\<rparr>)
   }"

definition thread_block :: "kernel \<Rightarrow> kernel option" where
  "thread_block k = do {
     ASSERT (\<not> in_external_intr k);
     c \<leftarrow> thread_current k;
     schedule (set_status c THREAD_BLOCKED k)
   }"

definition thread_yield :: "kernel \<Rightarrow> kernel option" where
  "thread_yield k = do {
     curr \<leftarrow> thread_current k;
     ASSERT (\<not> in_external_intr k);
     let k = (if Some curr \<noteq> idle_thread k then insert_ready curr k else k);
     schedule (set_status curr THREAD_READY k)
   }"

definition thread_unblock :: "tptr \<Rightarrow> kernel \<Rightarrow> kernel option" where
  "thread_unblock t k = do {
     ASSERT (is_thread k t);
     th \<leftarrow> threads k t;
     ASSERT (status th = THREAD_BLOCKED);
     let k = set_status t THREAD_READY (insert_ready t k);
     c \<leftarrow> thread_current k;
     if Some c \<noteq> idle_thread k \<and> prio k c \<le> prio k t then thread_yield k else Some k
   }"

section \<open>Priorities and the multi-level feedback queue\<close>

definition thread_set_priority :: "int \<Rightarrow> kernel \<Rightarrow> kernel option" where
  "thread_set_priority new_priority k =
     (if thread_mlfqs k then Some k
      else do {
        c \<leftarrow> thread_current k;
        t \<leftarrow> threads k c;
        let k = (if possessing_locks t \<noteq> []
                 then upd_thread c (\<lambda>t. t\<lparr>original_priority := new_priority\<rparr>) k
                 else upd_thread c (\<lambda>t. t\<lparr>priority := new_priority, original_priority := new_priority\<rparr>) k);
        if ready_list k \<noteq> [] then do {
          l \<leftarrow> threads k (last (ready_list k));
          if new_priority \<le> priority l then thread_yield k else Some k
        }
        else Some k
      })"

definition thread_get_priority :: "kernel \<Rightarrow> int option" where
  "thread_get_priority k = do { c \<leftarrow> thread_current k; t \<leftarrow> threads k c; Some (priority t) }"

definition calc_recent_cpu :: "tptr \<Rightarrow> kernel \<Rightarrow> kernel option" where
  "calc_recent_cpu t k = do {
     th \<leftarrow> threads k t;
     let converted_load_avg = MULT_X_N (load_avg k) 2;
     let denom = ADD_X_N converted_load_avg 1;
     ASSERT (denom \<noteq> 0);
     let temp1 = s32 (DIV_X_Y converted_load_avg denom);
     let result = s32 (s64 (MULT_X_Y temp1 (recent_cpu th) + s32 (nice th * FP)));
     Some (upd_thread t (\<lambda>th. th\<lparr>recent_cpu := result\<rparr>) k)
   }"

definition thread_set_nice :: "int \<Rightarrow> kernel \<Rightarrow> kernel option" where
  "thread_set_nice n k = do {
     c \<leftarrow> thread_current k;
     let n' = (if n > 20 then 20 else if n < - 20 then - 20 else n);
     let k = upd_thread c (\<lambda>t. t\<lparr>nice := n'\<rparr>) k;
     k \<leftarrow> calc_recent_cpu c k;
     let k = upd_thread c (\<lambda>t. t\<lparr>priority := calc_priority (recent_cpu t) (nice t)\<rparr>) k;
     thread_yield k
   }"

definition thread_get_nice :: "kernel \<Rightarrow> int option" where
  "thread_get_nice k = do { c \<leftarrow> thread_current k; t \<leftarrow> threads k c; Some (nice t) }"

definition thread_get_load_avg :: "kernel \<Rightarrow> int" where
  "thread_get_load_avg k = ROUND_TO_NEAR (MULT_X_N (load_avg k) 100)"

definition thread_get_recent_cpu :: "kernel \<Rightarrow> int option" where
  "thread_get_recent_cpu k = do {
     c \<leftarrow> thread_current k; t \<leftarrow> threads k c;
     Some (ROUND_TO_NEAR (MULT_X_N (recent_cpu t) 100)) }"

text \<open>
  \<open>list_size\<close> is unsigned, so \<open>CONVERT_N_TO_FIXED\<close> and the division of \<open>temp2\<close> are unsigned
  32-bit operations before the result is stored in an \<open>int\<close>.
\<close>

definition calc_load_avg :: "kernel \<Rightarrow> kernel option" where
  "calc_load_avg k = do {
     let temp1 = DIV_X_N (MULT_X_N (load_avg k) 59) 60;
     c \<leftarrow> thread_current k;
     let n = (if Some c = idle_thread k then int (length (ready_list k)) else int (length (ready_list k)) + 1);
     let temp2 = s32 ((n * FP) mod 2 ^ 32 div 60);
     Some (k\<lparr>load_avg := ADD_X_Y temp1 temp2\<rparr>)
   }"

fun for_all_threads :: "(tptr \<Rightarrow> kernel \<Rightarrow> kernel option) \<Rightarrow> tptr list \<Rightarrow> kernel \<Rightarrow> kernel option" where
  "for_all_threads f [] k = Some k"
| "for_all_threads f (t # ts) k = do {
     k \<leftarrow> (if Some t \<noteq> idle_thread k then f t k else Some k);
     for_all_threads f ts k
   }"

definition mlfqs_tick_change :: "int \<Rightarrow> kernel \<Rightarrow> kernel option" where
  "mlfqs_tick_change timer_ticks k = do {
     c \<leftarrow> thread_current k;
     let k = (if Some c \<noteq> idle_thread k
              then upd_thread c (\<lambda>t. t\<lparr>recent_cpu := ADD_X_N (recent_cpu t) 1\<rparr>) k else k);
     k \<leftarrow> (if timer_ticks smod 100 = 0 then do {
             k \<leftarrow> calc_load_avg k;
             for_all_threads calc_recent_cpu (all_list k) k
           } else Some k);
     (if timer_ticks smod 4 = 0 then
        for_all_threads (\<lambda>t k. Some (upd_thread t (\<lambda>th. th\<lparr>priority := calc_priority (recent_cpu th) (nice th)\<rparr>) k))
          (all_list k) k
      else Some k)
   }"

section \<open>The timer\<close>

definition thread_tick :: "kernel \<Rightarrow> kernel option" where
  "thread_tick k = do {
     c \<leftarrow> thread_current k;
     t \<leftarrow> threads k c;
     let k = (if Some c = idle_thread k then k\<lparr>idle_ticks := idle_ticks k + 1\<rparr>
              else if pagedir t \<noteq> None then k\<lparr>user_ticks := user_ticks k + 1\<rparr>
              else k\<lparr>kernel_ticks := kernel_ticks k + 1\<rparr>);
     let k = k\<lparr>thread_ticks := thread_ticks k + 1\<rparr>;
     if thread_ticks k \<ge> TIME_SLICE then do {
       ASSERT (in_external_intr k);
       Some (k\<lparr>yield_on_return := True\<rparr>)
     }
     else Some k
   }"

definition waiting_list_push_back :: "tptr \<Rightarrow> kernel \<Rightarrow> kernel" where
  "waiting_list_push_back t k = k\<lparr>waiting_list := insert_ordered (less_waking_time k) t (waiting_list k)\<rparr>"

text \<open>
  The loop of \<open>wake_waiting_list\<close> walks over the elements that the list had at entry. It
  removes the front of the list, whichever element it looks at; when that is another
  element, the list links of a queued thread are overwritten and the lists are
  corrupt, which is \<open>None\<close> here.
\<close>

fun wake_loop :: "int \<Rightarrow> tptr list \<Rightarrow> kernel \<Rightarrow> kernel option" where
  "wake_loop now [] k = Some k"
| "wake_loop now (t # ts) k = do {
     th \<leftarrow> threads k t;
     if waking_time th \<le> now \<and> status th = THREAD_BLOCKED then do {
       ASSERT (waiting_list k \<noteq> [] \<and> hd (waiting_list k) = t);
       let k = k\<lparr>waiting_list := tl (waiting_list k)\<rparr>;
       let k = set_status t THREAD_READY (insert_ready t k);
       wake_loop now ts k
     }
     else wake_loop now ts k
   }"

definition wake_waiting_list :: "int \<Rightarrow> kernel \<Rightarrow> kernel option" where
  "wake_waiting_list now k = wake_loop now (waiting_list k) k"

definition timer_interrupt :: "kernel \<Rightarrow> kernel option" where
  "timer_interrupt k = do {
     let k = k\<lparr>ticks := s64 (ticks k + 1)\<rparr>;
     k \<leftarrow> thread_tick k;
     k \<leftarrow> (if thread_mlfqs k then mlfqs_tick_change (ticks k) k else Some k);
     wake_waiting_list (ticks k) k
   }"

text \<open>\<open>intr_handler\<close> for the external interrupt of the timer.\<close>

definition intr_handler :: "(kernel \<Rightarrow> kernel option) \<Rightarrow> kernel \<Rightarrow> kernel option" where
  "intr_handler handler k = do {
     ASSERT (\<not> in_external_intr k);
     let k = k\<lparr>in_external_intr := True, yield_on_return := False\<rparr>;
     k \<leftarrow> handler k;
     ASSERT (in_external_intr k);
     let k = k\<lparr>in_external_intr := False\<rparr>;
     if yield_on_return k then thread_yield k else Some k
   }"

definition timer_sleep :: "int \<Rightarrow> kernel \<Rightarrow> kernel option" where
  "timer_sleep sleep_ticks k =
     (if sleep_ticks \<le> 0 then Some k
      else do {
        let start = ticks k;
        t \<leftarrow> thread_current k;
        let k = upd_thread t (\<lambda>th. th\<lparr>waking_time := s64 (start + sleep_ticks)\<rparr>) k;
        thread_block (waiting_list_push_back t k)
      })"

definition real_time_sleep :: "int \<Rightarrow> int \<Rightarrow> kernel \<Rightarrow> kernel option" where
  "real_time_sleep num denom k = do {
     let n = s64 (num * 100) sdiv denom;
     if n > 0 then timer_sleep n k
     else do { ASSERT (denom smod 1000 = 0); Some k }
   }"

definition timer_msleep :: "int \<Rightarrow> kernel \<Rightarrow> kernel option" where
  "timer_msleep ms k = real_time_sleep ms 1000 k"

definition timer_usleep :: "int \<Rightarrow> kernel \<Rightarrow> kernel option" where
  "timer_usleep us k = real_time_sleep us (1000 * 1000) k"

definition timer_nsleep :: "int \<Rightarrow> kernel \<Rightarrow> kernel option" where
  "timer_nsleep ns k = real_time_sleep ns (1000 * 1000 * 1000) k"

definition timer_elapsed :: "int \<Rightarrow> kernel \<Rightarrow> int" where
  "timer_elapsed then' k = s64 (ticks k - then')"

end
