(* ===== verification/Synch.thy ===== *)
theory Synch
  imports Kernel
begin

text \<open>
  \<open>threads/synch.c\<close>: semaphores, locks with priority donation, condition variables; the
  operations of \<open>threads/thread.c\<close> that use them (\<open>thread_create\<close>, \<open>thread_exit\<close>, \<open>idle\<close>); and the
  step relation of the whole threading system.

  An operation that continues after a call that may switch to another thread pushes
  the rest of its work as \<open>frames\<close> and is finished by \<open>run_frame\<close> when the thread runs again.
\<close>

section \<open>Semaphores\<close>

definition sema_init :: "sema_id \<Rightarrow> nat \<Rightarrow> kernel \<Rightarrow> kernel" where
  "sema_init s v k = upd_sema s (\<lambda>_. \<lparr>sema_value = v, waiters = []\<rparr>) k"

text \<open>One round of the loop of \<open>sema_down\<close>; a thread that has to wait comes back to it.\<close>

definition sema_down :: "sema_id \<Rightarrow> kernel \<Rightarrow> kernel option" where
  "sema_down s k = do {
     ASSERT (\<not> in_external_intr k);
     if sema_value (semas k s) = 0 then do {
       c \<leftarrow> thread_current k;
       let k = upd_sema s (\<lambda>x. x\<lparr>waiters := insert_ordered (less_priority k) c (waiters x)\<rparr>) k;
       thread_block (push_frames [F_sema_down s] k)
     }
     else Some (upd_sema s (\<lambda>x. x\<lparr>sema_value := sema_value x - 1\<rparr>) k)
   }"

definition sema_try_down :: "sema_id \<Rightarrow> kernel \<Rightarrow> bool \<times> kernel" where
  "sema_try_down s k =
     (if sema_value (semas k s) > 0
      then (True, upd_sema s (\<lambda>x. x\<lparr>sema_value := sema_value x - 1\<rparr>) k)
      else (False, k))"

definition sema_up :: "sema_id \<Rightarrow> kernel \<Rightarrow> kernel option" where
  "sema_up s k = do {
     let k = upd_sema s (\<lambda>x. x\<lparr>sema_value := (sema_value x + 1) mod 2 ^ 32\<rparr>) k;
     let ws = waiters (semas k s);
     if ws \<noteq> [] then thread_unblock (last ws) (upd_sema s (\<lambda>x. x\<lparr>waiters := butlast ws\<rparr>) k)
     else Some k
   }"

section \<open>Priority donation\<close>

definition less_lock_priority :: "lock_elem \<Rightarrow> lock_elem \<Rightarrow> bool" where
  "less_lock_priority a b \<longleftrightarrow> le_priority a \<le> le_priority b"

partial_function (option) nested_donation :: "tptr \<Rightarrow> tptr \<Rightarrow> kernel \<Rightarrow> kernel option" where
  "nested_donation high medium k = do {
     m \<leftarrow> threads k medium;
     case holded_by m of
       None \<Rightarrow> Some k
     | Some l \<Rightarrow> do {
         low \<leftarrow> holder k l;
         _ \<leftarrow> threads k low;
         h \<leftarrow> threads k high;
         nested_donation medium low (upd_thread low (\<lambda>t. t\<lparr>priority := priority h\<rparr>) k)
       }
   }"

declare nested_donation.simps [code]

definition priority_donation :: "tptr \<Rightarrow> tptr \<Rightarrow> lptr \<Rightarrow> kernel \<Rightarrow> kernel option" where
  "priority_donation high low lock k = do {
     h \<leftarrow> threads k high;
     _ \<leftarrow> threads k low;
     let member = \<lparr>locked_thread = high, le_priority = priority h, le_lock = lock\<rparr>;
     let k = upd_thread low (\<lambda>t. t\<lparr>possessing_locks :=
               insert_ordered less_lock_priority member (possessing_locks t)\<rparr>) k;
     let k = upd_thread high (\<lambda>t. t\<lparr>holded_by := Some lock\<rparr>) k;
     let k = upd_thread low (\<lambda>t. t\<lparr>priority := priority h\<rparr>) k;
     nested_donation high low k
   }"

fun clear_holded :: "lock_elem list \<Rightarrow> kernel \<Rightarrow> kernel option" where
  "clear_holded [] k = Some k"
| "clear_holded (m # ms) k = do {
     _ \<leftarrow> threads k (locked_thread m);
     clear_holded ms (upd_thread (locked_thread m) (\<lambda>t. t\<lparr>holded_by := None\<rparr>) k)
   }"

definition priority_rollback :: "tptr \<Rightarrow> lptr \<Rightarrow> kernel \<Rightarrow> kernel option" where
  "priority_rollback t lock k =
     (if waiters (semas k (LockSema lock)) = [] then Some k
      else do {
        th \<leftarrow> threads k t;
        k \<leftarrow> clear_holded (filter (\<lambda>m. le_lock m = lock) (possessing_locks th)) k;
        let rest = filter (\<lambda>m. le_lock m \<noteq> lock) (possessing_locks th);
        Some (upd_thread t (\<lambda>th. th\<lparr>possessing_locks := rest,
          priority := (if rest = [] then original_priority th else le_priority (last rest))\<rparr>) k)
      })"

section \<open>Locks\<close>

definition lock_init :: "lptr \<Rightarrow> kernel \<Rightarrow> kernel" where
  "lock_init l k = sema_init (LockSema l) 1 (k\<lparr>holder := (holder k)(l := None)\<rparr>)"

definition lock_held_by_current_thread :: "lptr \<Rightarrow> kernel \<Rightarrow> bool option" where
  "lock_held_by_current_thread l k = do { c \<leftarrow> thread_current k; Some (holder k l = Some c) }"

definition lock_acquire :: "lptr \<Rightarrow> kernel \<Rightarrow> kernel option" where
  "lock_acquire l k = do {
     ASSERT (\<not> in_external_intr k);
     held \<leftarrow> lock_held_by_current_thread l k;
     ASSERT (\<not> held);
     c \<leftarrow> thread_current k;
     k \<leftarrow> (case holder k l of
             None \<Rightarrow> Some k
           | Some h \<Rightarrow> do {
               _ \<leftarrow> threads k h;
               if prio k h < prio k c then priority_donation c h l k else Some k
             });
     Some (push_frames [F_sema_down (LockSema l), F_set_holder l] k)
   }"

definition set_holder :: "lptr \<Rightarrow> kernel \<Rightarrow> kernel option" where
  "set_holder l k = do { c \<leftarrow> thread_current k; Some (k\<lparr>holder := (holder k)(l := Some c)\<rparr>) }"

definition lock_try_acquire :: "lptr \<Rightarrow> kernel \<Rightarrow> (bool \<times> kernel) option" where
  "lock_try_acquire l k = do {
     held \<leftarrow> lock_held_by_current_thread l k;
     ASSERT (\<not> held);
     let (success, k) = sema_try_down (LockSema l) k;
     if success then do { k \<leftarrow> set_holder l k; Some (True, k) } else Some (False, k)
   }"

definition lock_release :: "lptr \<Rightarrow> kernel \<Rightarrow> kernel option" where
  "lock_release l k = do {
     held \<leftarrow> lock_held_by_current_thread l k;
     ASSERT held;
     let k = k\<lparr>holder := (holder k)(l := None)\<rparr>;
     c \<leftarrow> thread_current k;
     t \<leftarrow> threads k c;
     k \<leftarrow> (if possessing_locks t \<noteq> [] then priority_rollback c l k else Some k);
     Some (push_frames [F_sema_up (LockSema l)] k)
   }"

section \<open>Condition variables\<close>

definition cond_init :: "cptr \<Rightarrow> kernel \<Rightarrow> kernel" where
  "cond_init c k = k\<lparr>conds := (conds k)(c := [])\<rparr>"

definition less_waiter_priority :: "semaphore_elem \<Rightarrow> semaphore_elem \<Rightarrow> bool" where
  "less_waiter_priority a b \<longleftrightarrow> se_priority a \<le> se_priority b"

definition cond_wait :: "cptr \<Rightarrow> lptr \<Rightarrow> kernel \<Rightarrow> kernel option" where
  "cond_wait c l k = do {
     ASSERT (\<not> in_external_intr k);
     held \<leftarrow> lock_held_by_current_thread l k;
     ASSERT held;
     me \<leftarrow> thread_current k;
     let k = sema_init (WaiterSema me) 0 k;
     let waiter = \<lparr>se_thread = me, se_priority = prio k me\<rparr>;
     let k = k\<lparr>conds := (conds k)(c := insert_ordered less_waiter_priority waiter (conds k c))\<rparr>;
     Some (push_frames [F_lock_release l, F_sema_down (WaiterSema me), F_lock_acquire l] k)
   }"

definition cond_signal :: "cptr \<Rightarrow> lptr \<Rightarrow> kernel \<Rightarrow> kernel option" where
  "cond_signal c l k = do {
     ASSERT (\<not> in_external_intr k);
     held \<leftarrow> lock_held_by_current_thread l k;
     ASSERT held;
     let ws = conds k c;
     if ws \<noteq> [] then sema_up (WaiterSema (se_thread (last ws))) (k\<lparr>conds := (conds k)(c := butlast ws)\<rparr>)
     else Some k
   }"

definition cond_broadcast :: "cptr \<Rightarrow> lptr \<Rightarrow> kernel \<Rightarrow> kernel option" where
  "cond_broadcast c l k =
     (if conds k c \<noteq> [] then cond_signal c l (push_frames [F_cond_broadcast c l] k) else Some k)"

section \<open>Creating and ending threads\<close>

abbreviation (input) tid_lock :: lptr where "tid_lock \<equiv> 0"

definition empty_thread :: thread where
  "empty_thread = \<lparr>tid = 0, status = THREAD_BLOCKED, th_name = [], priority = 0, original_priority = 0,
     nice = 0, recent_cpu = 0, possessing_locks = [], holded_by = None, waking_time = 0, pagedir = None,
     children_thread_list = [], child_info_list = [], parent_thread = None, exit_status = 0,
     child_load_failed = False, frames = []\<rparr>"

definition init_thread :: "tptr \<Rightarrow> string \<Rightarrow> int \<Rightarrow> kernel \<Rightarrow> kernel option" where
  "init_thread t name p k = do {
     ASSERT (t \<noteq> 0);
     ASSERT (PRI_MIN \<le> p \<and> p \<le> PRI_MAX);
     let th = empty_thread\<lparr>status := THREAD_BLOCKED, th_name := take 15 name, priority := p,
                original_priority := p\<rparr>;
     let k = k\<lparr>threads := (threads k)(t \<mapsto> th)\<rparr>;
     let k = sema_init (ChildSync t) 0 k;
     let k = sema_init (WaitSema t) 0 k;
     Some (k\<lparr>all_list := all_list k @ [t]\<rparr>)
   }"

text \<open>
  \<open>thread_create\<close>. The page comes from \<open>palloc_get_page\<close> (\<open>None\<close>: out of memory, the call
  returns \<open>TID_ERROR\<close>); \<open>body\<close> is what the new thread executes. After the initialisation the
  call takes \<open>tid_lock\<close> in \<open>allocate_tid\<close>, then enters the thread in the lists
  of its parent and unblocks it.
\<close>

definition thread_create :: "tptr option \<Rightarrow> string \<Rightarrow> int \<Rightarrow> frame list \<Rightarrow> kernel \<Rightarrow> kernel option" where
  "thread_create page name p body k =
     (case page of
        None \<Rightarrow> Some k
      | Some t \<Rightarrow> do {
          k \<leftarrow> init_thread t name p k;
          k \<leftarrow> (if thread_mlfqs k then do {
                  n \<leftarrow> thread_get_nice k;
                  r \<leftarrow> thread_get_recent_cpu k;
                  Some (upd_thread t (\<lambda>th. th\<lparr>nice := n, recent_cpu := r, priority := calc_priority r n\<rparr>) k)
                } else Some k);
          let k = upd_thread t (\<lambda>th. th\<lparr>frames := body\<rparr>) k;
          Some (push_frames [F_lock_acquire tid_lock, F_take_tid t, F_lock_release tid_lock, F_create t] k)
        })"

definition take_tid :: "tptr \<Rightarrow> kernel \<Rightarrow> kernel option" where
  "take_tid t k = do {
     _ \<leftarrow> threads k t;
     let n = next_tid k;
     Some (upd_thread t (\<lambda>th. th\<lparr>tid := n\<rparr>) (k\<lparr>next_tid := s32 (n + 1)\<rparr>))
   }"

definition create_rest :: "tptr \<Rightarrow> kernel \<Rightarrow> kernel option" where
  "create_rest t k = do {
     c \<leftarrow> thread_current k;
     th \<leftarrow> threads k t;
     let k = upd_thread t (\<lambda>th. th\<lparr>parent_thread := Some c\<rparr>) k;
     let k = (if th_name th \<noteq> ''idle'' then
                upd_thread c (\<lambda>p. p\<lparr>children_thread_list := children_thread_list p @ [t],
                  child_info_list := child_info_list p @
                    [\<lparr>ci_tid = tid th, ci_exit_status = 0, ci_exited = False, ci_waited = False\<rparr>]\<rparr>) k
              else k);
     thread_unblock t k
   }"

definition process_exit :: "kernel \<Rightarrow> kernel option" where
  "process_exit k = do {
     c \<leftarrow> thread_current k;
     t \<leftarrow> threads k c;
     Some (if pagedir t \<noteq> None
           then (upd_thread c (\<lambda>t. t\<lparr>pagedir := None\<rparr>) k)\<lparr>active_pd := None\<rparr> else k)
   }"

definition thread_exit :: "kernel \<Rightarrow> kernel option" where
  "thread_exit k = do {
     ASSERT (\<not> in_external_intr k);
     k \<leftarrow> process_exit k;
     curr \<leftarrow> thread_current k;
     let k = k\<lparr>all_list := filter (\<lambda>t. t \<noteq> curr) (all_list k)\<rparr>;
     k \<leftarrow> (if curr \<noteq> initial_thread k then do {
             t \<leftarrow> threads k curr;
             p \<leftarrow> parent_thread t;
             pt \<leftarrow> threads k p;
             ASSERT (curr \<in> set (children_thread_list pt));
             Some (upd_thread p (\<lambda>pt. pt\<lparr>children_thread_list :=
               filter (\<lambda>t. t \<noteq> curr) (children_thread_list pt)\<rparr>) k)
           } else Some k);
     let k = upd_thread curr (\<lambda>t. t\<lparr>possessing_locks := [], child_info_list := []\<rparr>) k;
     let k = k\<lparr>frame_table := filter (\<lambda>(f, owner). owner \<noteq> curr) (frame_table k)\<rparr>;
     sema_up (WaitSema curr) (push_frames [F_die] k)
   }"

definition thread_die :: "kernel \<Rightarrow> kernel option" where
  "thread_die k = do { c \<leftarrow> thread_current k; schedule (set_status c THREAD_DYING k) }"

definition idle_start :: "sema_id \<Rightarrow> kernel \<Rightarrow> kernel option" where
  "idle_start idle_started k = do {
     c \<leftarrow> thread_current k;
     sema_up idle_started (push_frames [F_idle_loop] (k\<lparr>idle_thread := Some c\<rparr>))
   }"

definition idle_loop :: "kernel \<Rightarrow> kernel option" where
  "idle_loop k = thread_block (push_frames [F_idle_loop] k)"

section \<open>Execution\<close>

fun run_frame :: "frame \<Rightarrow> kernel \<Rightarrow> kernel option" where
  "run_frame (F_sema_down s) k = sema_down s k"
| "run_frame (F_sema_up s) k = sema_up s k"
| "run_frame (F_lock_acquire l) k = lock_acquire l k"
| "run_frame (F_set_holder l) k = set_holder l k"
| "run_frame (F_lock_release l) k = lock_release l k"
| "run_frame (F_cond_signal c l) k = cond_signal c l k"
| "run_frame (F_cond_broadcast c l) k = cond_broadcast c l k"
| "run_frame (F_take_tid t) k = take_tid t k"
| "run_frame (F_create t) k = create_rest t k"
| "run_frame F_die k = thread_die k"
| "run_frame (F_idle_start s) k = idle_start s k"
| "run_frame F_idle_loop k = idle_loop k"

definition pop_frame :: "kernel \<Rightarrow> (frame \<times> kernel) option" where
  "pop_frame k = do {
     t \<leftarrow> threads k (current k);
     case frames t of
       [] \<Rightarrow> None
     | f # fs \<Rightarrow> Some (f, upd_thread (current k) (\<lambda>t. t\<lparr>frames := fs\<rparr>) k)
   }"

definition run :: "kernel \<Rightarrow> kernel option" where
  "run k = do { (f, k) \<leftarrow> pop_frame k; run_frame f k }"

fun run_n :: "nat \<Rightarrow> kernel \<Rightarrow> kernel option" where
  "run_n 0 k = Some k"
| "run_n (Suc n) k = do { k \<leftarrow> run k; run_n n k }"

text \<open>What a thread that is not inside a kernel function may call.\<close>

datatype call =
    Sema_down nat | Sema_up nat | Sema_try_down nat
  | Lock_acquire lptr | Lock_try_acquire lptr | Lock_release lptr
  | Cond_wait cptr lptr | Cond_signal cptr lptr | Cond_broadcast cptr lptr
  | Create "tptr option" string int | Exit | Yield | Sleep int
  | Set_priority int | Set_nice int

fun do_call :: "call \<Rightarrow> kernel \<Rightarrow> kernel option" where
  "do_call (Sema_down s) k = sema_down (Sema s) k"
| "do_call (Sema_up s) k = sema_up (Sema s) k"
| "do_call (Sema_try_down s) k = Some (snd (sema_try_down (Sema s) k))"
| "do_call (Lock_acquire l) k = lock_acquire l k"
| "do_call (Lock_try_acquire l) k = map_option snd (lock_try_acquire l k)"
| "do_call (Lock_release l) k = lock_release l k"
| "do_call (Cond_wait c l) k = cond_wait c l k"
| "do_call (Cond_signal c l) k = cond_signal c l k"
| "do_call (Cond_broadcast c l) k = cond_broadcast c l k"
| "do_call (Create page name p) k = thread_create page name p [] k"
| "do_call Exit k = thread_exit k"
| "do_call Yield k = thread_yield k"
| "do_call (Sleep n) k = timer_sleep n k"
| "do_call (Set_priority p) k = thread_set_priority p k"
| "do_call (Set_nice n) k = thread_set_nice n k"

text \<open>
  A page handed out by \<open>palloc_get_page\<close> is not the page of a live thread. The free
  semaphores \<open>Sema 0\<close> and the lock \<open>tid_lock\<close> belong to \<open>thread.c\<close> (\<open>idle_started\<close>, \<open>allocate_tid\<close>).
\<close>

fun call_ok :: "call \<Rightarrow> kernel \<Rightarrow> bool" where
  "call_ok (Create (Some t) name p) k \<longleftrightarrow> threads k t = None"
| "call_ok c k \<longleftrightarrow> True"

fun interruptible :: "frame list \<Rightarrow> bool" where
  "interruptible fs \<longleftrightarrow> F_die \<notin> set fs"

inductive step :: "kernel \<Rightarrow> kernel \<Rightarrow> bool" where
  call: "\<lbrakk>threads k (current k) = Some t; frames t = []; call_ok c k; do_call c k = Some k'\<rbrakk> \<Longrightarrow> step k k'"
| run: "run k = Some k' \<Longrightarrow> step k k'"
| tick: "\<lbrakk>threads k (current k) = Some t; interruptible (frames t);
    intr_handler timer_interrupt k = Some k'\<rbrakk> \<Longrightarrow> step k k'"

definition thread_init :: "tptr \<Rightarrow> bool \<Rightarrow> kernel" where
  "thread_init t mlfqs = \<lparr>threads = [t \<mapsto> empty_thread\<lparr>status := THREAD_RUNNING, th_name := ''main'',
       priority := PRI_DEFAULT, original_priority := PRI_DEFAULT, tid := 1\<rparr>],
     current = t, ready_list = [], waiting_list = [], all_list = [t], idle_thread = None,
     initial_thread = t, next_tid = 2, thread_ticks = 0, idle_ticks = 0, kernel_ticks = 0, user_ticks = 0,
     load_avg = CONVERT_N_TO_FIXED 0, thread_mlfqs = mlfqs, ticks = 0, in_external_intr = False,
     yield_on_return = False, active_pd = None,
     semas = (\<lambda>s. case s of LockSema l \<Rightarrow> \<lparr>sema_value = 1, waiters = []\<rparr> | _ \<Rightarrow> \<lparr>sema_value = 0, waiters = []\<rparr>),
     holder = (\<lambda>_. None), conds = (\<lambda>_. []), frame_table = []\<rparr>"

text \<open>\<open>thread_start\<close>: the initial thread creates the idle thread and waits until it has run.\<close>

definition thread_start :: "tptr \<Rightarrow> kernel \<Rightarrow> kernel option" where
  "thread_start page k = do {
     let k = sema_init (Sema 0) 0 k;
     k \<leftarrow> thread_create (Some page) ''idle'' PRI_MIN [F_idle_start (Sema 0)]
            (push_frames [F_sema_down (Sema 0)] k);
     Some k
   }"

end
