(* ===== verification/Kernel_Inv.thy ===== *)
theory Kernel_Inv
  imports Synch
begin

text \<open>
  The scheduler invariant. \<open>struct thread\<close> has one \<open>elem\<close> that links the thread into the
  ready list, a semaphore's waiters or the list of sleepers; this is sound only when a
  thread is on at most one of them, the ready list holding exactly ready threads and
  the others blocked ones. The theory proves it for every reachable state, together
  with the uniqueness of the running thread.
\<close>

section \<open>Views of the state\<close>

datatype queue_id = Q_ready | Q_sleep | Q_sema sema_id

fun qof :: "kernel \<Rightarrow> queue_id \<Rightarrow> tptr list" where
  "qof k Q_ready = ready_list k"
| "qof k Q_sleep = waiting_list k"
| "qof k (Q_sema s) = waiters (semas k s)"

definition stat :: "kernel \<Rightarrow> tptr \<Rightarrow> thread_status option" where
  "stat k t = map_option status (threads k t)"

definition frs :: "kernel \<Rightarrow> tptr \<Rightarrow> frame list" where
  "frs k t = (case threads k t of Some th \<Rightarrow> frames th | None \<Rightarrow> [])"

definition queue_status :: "queue_id \<Rightarrow> thread_status" where
  "queue_status q = (if q = Q_ready then THREAD_READY else THREAD_BLOCKED)"

definition pending :: "kernel \<Rightarrow> tptr \<Rightarrow> bool" where
  "pending k t \<longleftrightarrow> (\<exists>u. F_create t \<in> set (frs k u))"

definition queues_ok :: "kernel \<Rightarrow> bool" where
  "queues_ok k \<longleftrightarrow>
     (\<forall>q. distinct (qof k q) \<and> (\<forall>t \<in> set (qof k q). stat k t = Some (queue_status q) \<and> idle_thread k \<noteq> Some t)) \<and>
     (\<forall>q q' t. t \<in> set (qof k q) \<longrightarrow> t \<in> set (qof k q') \<longrightarrow> q = q') \<and>
     (\<forall>t. stat k t = Some THREAD_RUNNING \<longrightarrow> t = current k)"

definition running_ok :: "kernel \<Rightarrow> bool" where
  "running_ok k \<longleftrightarrow> queues_ok k \<and> stat k (current k) = Some THREAD_RUNNING"

lemma stat_upd_thread [simp]:
  "(\<And>th. status (f th) = status th) \<Longrightarrow> stat (upd_thread t f k) = stat k"
  by (auto simp: stat_def upd_thread_def fun_eq_iff option.map_comp comp_def)

lemma upd_thread_sel [simp]:
  "current (upd_thread t f k) = current k" "ready_list (upd_thread t f k) = ready_list k"
  "waiting_list (upd_thread t f k) = waiting_list k" "idle_thread (upd_thread t f k) = idle_thread k"
  "semas (upd_thread t f k) = semas k" "holder (upd_thread t f k) = holder k"
  "in_external_intr (upd_thread t f k) = in_external_intr k" "conds (upd_thread t f k) = conds k"
  "all_list (upd_thread t f k) = all_list k" "initial_thread (upd_thread t f k) = initial_thread k"
  "thread_mlfqs (upd_thread t f k) = thread_mlfqs k" "ticks (upd_thread t f k) = ticks k"
  "load_avg (upd_thread t f k) = load_avg k" "yield_on_return (upd_thread t f k) = yield_on_return k"
  by (simp_all add: upd_thread_def)

lemma stat_set_status: "stat (set_status t s k) u = (if u = t \<and> stat k t \<noteq> None then Some s else stat k u)"
  by (auto simp: stat_def set_status_def upd_thread_def)

lemma set_status_sel [simp]:
  "current (set_status t s k) = current k" "ready_list (set_status t s k) = ready_list k"
  "waiting_list (set_status t s k) = waiting_list k" "idle_thread (set_status t s k) = idle_thread k"
  "semas (set_status t s k) = semas k" "holder (set_status t s k) = holder k"
  "in_external_intr (set_status t s k) = in_external_intr k" "initial_thread (set_status t s k) = initial_thread k"
  "conds (set_status t s k) = conds k" "qof (set_status t s k) = qof k"
  by (auto simp: set_status_def fun_eq_iff) (case_tac x; simp)

lemma qof_upd_thread [simp]: "qof (upd_thread t f k) = qof k"
  by (rule ext, case_tac x) simp_all

lemma qof_record [simp]:
  "qof (k\<lparr>waiting_list := ws\<rparr>) = (qof k)(Q_sleep := ws)"
  "qof (upd_sema s f k) = (qof k)(Q_sema s := waiters (f (semas k s)))"
  "qof (k\<lparr>holder := hs\<rparr>) = qof k" "qof (k\<lparr>conds := cs\<rparr>) = qof k" "qof (k\<lparr>ticks := n\<rparr>) = qof k"
  "qof (k\<lparr>in_external_intr := b\<rparr>) = qof k" "qof (k\<lparr>yield_on_return := b\<rparr>) = qof k"
  "qof (k\<lparr>load_avg := n\<rparr>) = qof k" "qof (k\<lparr>thread_ticks := m\<rparr>) = qof k" "qof (k\<lparr>idle_ticks := n\<rparr>) = qof k"
  "qof (k\<lparr>kernel_ticks := n\<rparr>) = qof k" "qof (k\<lparr>user_ticks := n\<rparr>) = qof k" "qof (k\<lparr>all_list := ts\<rparr>) = qof k"
  "qof (k\<lparr>frame_table := ft\<rparr>) = qof k" "qof (k\<lparr>active_pd := pd\<rparr>) = qof k" "qof (k\<lparr>next_tid := n\<rparr>) = qof k"
  "qof (k\<lparr>threads := th\<rparr>) = qof k" "qof (k\<lparr>idle_thread := i\<rparr>) = qof k"
  by (rule ext, case_tac x; simp add: upd_sema_def)+

lemma stat_record [simp]:
  "stat (k\<lparr>waiting_list := ws\<rparr>) = stat k" "stat (upd_sema s f k) = stat k"
  "stat (k\<lparr>holder := hs\<rparr>) = stat k" "stat (k\<lparr>conds := cs\<rparr>) = stat k" "stat (k\<lparr>ticks := n\<rparr>) = stat k"
  "stat (k\<lparr>in_external_intr := b\<rparr>) = stat k" "stat (k\<lparr>yield_on_return := b\<rparr>) = stat k"
  "stat (k\<lparr>load_avg := n\<rparr>) = stat k" "stat (k\<lparr>thread_ticks := m\<rparr>) = stat k" "stat (k\<lparr>idle_ticks := n\<rparr>) = stat k"
  "stat (k\<lparr>kernel_ticks := n\<rparr>) = stat k" "stat (k\<lparr>user_ticks := n\<rparr>) = stat k" "stat (k\<lparr>all_list := ts\<rparr>) = stat k"
  "stat (k\<lparr>frame_table := ft\<rparr>) = stat k" "stat (k\<lparr>active_pd := pd\<rparr>) = stat k" "stat (k\<lparr>next_tid := n\<rparr>) = stat k"
  "stat (k\<lparr>idle_thread := i\<rparr>) = stat k"
  by (simp_all add: stat_def upd_sema_def fun_eq_iff)

lemma frs_record [simp]:
  "frs (k\<lparr>waiting_list := ws\<rparr>) = frs k" "frs (upd_sema s f k) = frs k"
  "frs (k\<lparr>holder := hs\<rparr>) = frs k" "frs (k\<lparr>conds := cs\<rparr>) = frs k" "frs (k\<lparr>ticks := n\<rparr>) = frs k"
  "frs (k\<lparr>in_external_intr := b\<rparr>) = frs k" "frs (k\<lparr>yield_on_return := b\<rparr>) = frs k"
  "frs (k\<lparr>load_avg := n\<rparr>) = frs k" "frs (k\<lparr>thread_ticks := m\<rparr>) = frs k" "frs (k\<lparr>idle_ticks := n\<rparr>) = frs k"
  "frs (k\<lparr>kernel_ticks := n\<rparr>) = frs k" "frs (k\<lparr>user_ticks := n\<rparr>) = frs k" "frs (k\<lparr>all_list := ts\<rparr>) = frs k"
  "frs (k\<lparr>frame_table := ft\<rparr>) = frs k" "frs (k\<lparr>active_pd := pd\<rparr>) = frs k" "frs (k\<lparr>next_tid := n\<rparr>) = frs k"
  "frs (k\<lparr>idle_thread := i\<rparr>) = frs k"
  by (simp_all add: frs_def upd_sema_def fun_eq_iff)

lemma upd_sema_sel [simp]:
  "current (upd_sema s f k) = current k" "idle_thread (upd_sema s f k) = idle_thread k"
  "threads (upd_sema s f k) = threads k" "holder (upd_sema s f k) = holder k" "conds (upd_sema s f k) = conds k"
  "in_external_intr (upd_sema s f k) = in_external_intr k" "ready_list (upd_sema s f k) = ready_list k"
  "waiting_list (upd_sema s f k) = waiting_list k" "semas (upd_sema s f k) = (semas k)(s := f (semas k s))"
  by (simp_all add: upd_sema_def)

lemma stat_insert_ready [simp]: "stat (insert_ready t k) = stat k"
  by (simp add: stat_def insert_ready_def fun_eq_iff)

lemma insert_ready_sel [simp]:
  "current (insert_ready t k) = current k" "idle_thread (insert_ready t k) = idle_thread k"
  "semas (insert_ready t k) = semas k" "waiting_list (insert_ready t k) = waiting_list k"
  "threads (insert_ready t k) = threads k" "holder (insert_ready t k) = holder k"
  "in_external_intr (insert_ready t k) = in_external_intr k" "conds (insert_ready t k) = conds k"
  "ready_list (insert_ready t k) = insert_ordered (less_priority k) t (ready_list k)"
  by (simp_all add: insert_ready_def)

lemma thread_current_eq: "thread_current k = Some c \<longleftrightarrow> c = current k \<and> stat k (current k) = Some THREAD_RUNNING"
  by (auto simp: thread_current_def stat_def bind_eq_Some_conv split: if_splits)

section \<open>Context switches\<close>

lemma queuesI:
  assumes "\<And>q. distinct (qof k q)"
    and "\<And>q t. t \<in> set (qof k q) \<Longrightarrow> stat k t = Some (queue_status q) \<and> idle_thread k \<noteq> Some t"
    and "\<And>q q' t. t \<in> set (qof k q) \<Longrightarrow> t \<in> set (qof k q') \<Longrightarrow> q = q'"
    and "\<And>t. stat k t = Some THREAD_RUNNING \<Longrightarrow> t = current k"
  shows "queues_ok k"
  using assms unfolding queues_ok_def by blast

lemma queuesD:
  assumes "queues_ok k"
  shows "distinct (qof k q)"
    and "t \<in> set (qof k q) \<Longrightarrow> stat k t = Some (queue_status q)"
    and "t \<in> set (qof k q) \<Longrightarrow> idle_thread k \<noteq> Some t"
    and "t \<in> set (qof k q) \<Longrightarrow> t \<in> set (qof k q') \<Longrightarrow> q = q'"
    and "stat k t = Some THREAD_RUNNING \<Longrightarrow> t = current k"
  using assms unfolding queues_ok_def by blast+

lemma queue_status_simps [simp]:
  "queue_status Q_ready = THREAD_READY" "queue_status Q_sleep = THREAD_BLOCKED"
  "queue_status (Q_sema s) = THREAD_BLOCKED" "queue_status q \<noteq> THREAD_RUNNING" "queue_status q \<noteq> THREAD_DYING"
  "THREAD_RUNNING \<noteq> queue_status q" "THREAD_DYING \<noteq> queue_status q"
  by (simp_all add: queue_status_def)

text \<open>The queues matter only through which elements they have.\<close>

lemma queues_shrink:
  assumes "queues_ok k" "stat k' = stat k" "current k' = current k" "idle_thread k' = idle_thread k"
    and "\<And>q. distinct (qof k' q)" "\<And>q. set (qof k' q) \<subseteq> set (qof k q)"
  shows "queues_ok k'"
proof (rule queuesI)
  show "distinct (qof k' q)" for q by fact
  fix q t assume "t \<in> set (qof k' q)"
  then have t: "t \<in> set (qof k q)" using assms(6) by blast
  then show "stat k' t = Some (queue_status q) \<and> idle_thread k' \<noteq> Some t"
    using queuesD(2,3) [OF assms(1) t] assms(2,4) by simp
  show "q = q'" if "t \<in> set (qof k' q')" for q'
    using queuesD(4) [OF assms(1) t] that assms(6) by blast
next
  show "t = current k'" if "stat k' t = Some THREAD_RUNNING" for t
    using queuesD(5) [OF assms(1)] that assms(2,3) by simp
qed

lemma queues_same:
  assumes "queues_ok k" "stat k' = stat k" "current k' = current k" "idle_thread k' = idle_thread k"
    and "qof k' = qof k"
  shows "queues_ok k'"
  using queues_shrink [OF assms(1-4)] queuesD(1) [OF assms(1)] assms(5) by simp

text \<open>\<open>schedule_tail\<close> after the switch: the new thread runs and a dying predecessor is freed.\<close>

lemma schedule_tail_stat:
  assumes "schedule_tail prev k = Some k'" "stat k (current k) \<noteq> None"
  shows "\<exists>D. (\<forall>t. stat k' t = (if t = current k then Some THREAD_RUNNING else if t \<in> D then None else stat k t)) \<and>
      (\<forall>t\<in>D. stat k t = Some THREAD_DYING) \<and> D \<subseteq> set_option prev \<and>
      (\<forall>t. threads k' t \<noteq> None \<longrightarrow> frs k' t = frs k t) \<and>
      current k' = current k \<and> idle_thread k' = idle_thread k \<and> qof k' = qof k \<and> holder k' = holder k \<and>
      semas k' = semas k \<and> in_external_intr k' = in_external_intr k \<and> conds k' = conds k"
proof -
  have q: "qof k1 = qof k2" if "ready_list k1 = ready_list k2" "waiting_list k1 = waiting_list k2" "semas k1 = semas k2"
    for k1 k2 by (rule ext, case_tac x) (use that in simp_all)
  obtain th where th: "threads k (current k) = Some th" using assms(2) by (auto simp: stat_def)
  let ?k = "(set_status (current k) THREAD_RUNNING k)\<lparr>thread_ticks := 0, active_pd := pagedir th\<rparr>"
  have pa: "process_activate ((set_status (current k) THREAD_RUNNING k)\<lparr>thread_ticks := 0\<rparr>) = Some ?k"
    using th by (simp add: process_activate_def thread_current_def set_status_def upd_thread_def)
  have st: "schedule_tail prev k = (case prev of None \<Rightarrow> Some ?k
      | Some p \<Rightarrow> do {
          t \<leftarrow> threads ?k p;
          if status t = THREAD_DYING \<and> p \<noteq> initial_thread ?k then do {
            ASSERT (p \<noteq> current k);
            Some (?k\<lparr>threads := (threads ?k)(p := None)\<rparr>)
          }
          else Some ?k
        })"
    by (simp add: schedule_tail_def Let_def pa)
  have s: "stat ?k t = (if t = current k then Some THREAD_RUNNING else stat k t)" for t
    using th by (auto simp: stat_def set_status_def upd_thread_def)
  have f: "frs ?k t = frs k t" for t
    by (auto simp: frs_def set_status_def upd_thread_def split: option.splits)
  show ?thesis
  proof (cases "\<exists>p. prev = Some p \<and> stat ?k p = Some THREAD_DYING \<and> p \<noteq> initial_thread ?k")
    case True
    then obtain p where p: "prev = Some p" "stat ?k p = Some THREAD_DYING" "p \<noteq> initial_thread ?k" by blast
    then have "p \<noteq> current k" using s by auto
    then have k': "k' = ?k\<lparr>threads := (threads ?k)(p := None)\<rparr>"
      using assms(1) p unfolding st by (auto simp: stat_def)
    have "stat k' t = (if t = current k then Some THREAD_RUNNING else if t \<in> {p} then None else stat k t)" for t
      using s [of t] \<open>p \<noteq> current k\<close> by (auto simp: k' stat_def)
    moreover have "threads k' t \<noteq> None \<longrightarrow> frs k' t = frs k t" for t
      using f [of t] by (auto simp: k' frs_def)
    moreover have "stat k p = Some THREAD_DYING" using p(2) s [of p] \<open>p \<noteq> current k\<close> by simp
    ultimately show ?thesis
      using p by (intro exI [of _ "{p}"]) (auto simp: k' set_status_def intro!: q)
  next
    case False
    then have k': "k' = ?k"
      using assms(1) unfolding st by (auto simp: stat_def bind_eq_Some_conv split: option.splits if_splits)
    show ?thesis using s f by (intro exI [of _ "{}"]) (auto simp: k' set_status_def intro!: q)
  qed
qed

lemma schedule_tail_cases:
  assumes "schedule_tail prev k = Some k'" "stat k (current k) \<noteq> None"
  obtains D where
    "\<And>t. stat k' t = (if t = current k then Some THREAD_RUNNING else if t \<in> D then None else stat k t)"
    "\<And>t. t \<in> D \<Longrightarrow> stat k t = Some THREAD_DYING" "\<And>t. threads k' t \<noteq> None \<Longrightarrow> frs k' t = frs k t"
    "current k' = current k" "idle_thread k' = idle_thread k" "qof k' = qof k" "holder k' = holder k"
    "semas k' = semas k" "in_external_intr k' = in_external_intr k" "conds k' = conds k"
  using schedule_tail_stat [OF assms] by blast

definition unqueued :: "kernel \<Rightarrow> tptr \<Rightarrow> bool" where
  "unqueued k t \<longleftrightarrow> (\<forall>q. t \<notin> set (qof k q)) \<and> idle_thread k \<noteq> Some t"

text \<open>A parked thread: blocked outside every queue, such as one that is still being created.\<close>

definition parked :: "kernel \<Rightarrow> tptr \<Rightarrow> bool" where
  "parked k t \<longleftrightarrow> stat k t = Some THREAD_BLOCKED \<and> unqueued k t"

text \<open>What a context switch leaves alone.\<close>

definition same_rest :: "kernel \<Rightarrow> kernel \<Rightarrow> bool" where
  "same_rest k k' \<longleftrightarrow>
     (\<forall>t. threads k' t \<noteq> None \<longrightarrow> threads k t \<noteq> None \<and> frs k' t = frs k t) \<and>
     (\<forall>t. threads k t \<noteq> None \<longrightarrow> threads k' t = None \<longrightarrow> stat k t = Some THREAD_DYING) \<and>
     (\<forall>t. stat k' t = Some THREAD_DYING \<longrightarrow> stat k t = Some THREAD_DYING) \<and>
     holder k' = holder k \<and> conds k' = conds k \<and> idle_thread k' = idle_thread k \<and>
     in_external_intr k' = in_external_intr k \<and> (\<forall>s. sema_value (semas k' s) = sema_value (semas k s))"

lemma same_restI:
  assumes "\<And>t. threads k' t \<noteq> None \<Longrightarrow> threads k t \<noteq> None" "\<And>t. threads k' t \<noteq> None \<Longrightarrow> frs k' t = frs k t"
    "\<And>t. threads k t \<noteq> None \<Longrightarrow> threads k' t = None \<Longrightarrow> stat k t = Some THREAD_DYING"
    "holder k' = holder k" "conds k' = conds k" "idle_thread k' = idle_thread k"
    "in_external_intr k' = in_external_intr k" "\<And>s. sema_value (semas k' s) = sema_value (semas k s)"
    "\<And>t. stat k' t = Some THREAD_DYING \<Longrightarrow> stat k t = Some THREAD_DYING"
  shows "same_rest k k'"
  using assms unfolding same_rest_def by blast

lemma stat_None: "stat k t = None \<longleftrightarrow> threads k t = None"
  by (simp add: stat_def)

lemma schedule_spec:
  assumes "queues_ok k" "stat k (current k) \<noteq> Some THREAD_RUNNING" "schedule k = Some k'"
  shows "running_ok k' \<and> same_rest k k' \<and> (\<forall>t. parked k t \<longrightarrow> parked k' t)"
proof -
  define nx k1 where "nx = fst (next_thread_to_run k)" and "k1 = snd (next_thread_to_run k)"
  have k1: "stat k1 = stat k" "current k1 = current k" "idle_thread k1 = idle_thread k" "frs k1 = frs k"
    "threads k1 = threads k" "semas k1 = semas k" "holder k1 = holder k" "conds k1 = conds k"
    "in_external_intr k1 = in_external_intr k" "waiting_list k1 = waiting_list k"
    "ready_list k1 = butlast (ready_list k)"
    by (simp_all add: k1_def next_thread_to_run_def stat_def frs_def fun_eq_iff)
  obtain n where n: "nx = Some n" "stat k n \<noteq> None"
      "schedule_tail (if current k \<noteq> n then Some (current k) else None) (k1\<lparr>current := n\<rparr>) = Some k'"
    using assms(3) k1(5)
    by (auto simp: schedule_def nx_def k1_def Let_def is_thread_def stat_def bind_eq_Some_conv split: prod.splits if_splits)
  let ?k = "k1\<lparr>current := n\<rparr>"
  have st: "stat ?k = stat k" "frs ?k = frs k" using k1 by (simp_all add: stat_def frs_def fun_eq_iff)
  have q: "qof ?k = (qof k)(Q_ready := butlast (ready_list k))"
    by (rule ext, case_tac x) (simp_all add: k1)
  have nq: "n \<notin> set (qof ?k q)" for q
  proof (cases "ready_list k = []")
    case True
    then have "idle_thread k = Some n" using n(1) by (simp add: nx_def next_thread_to_run_def)
    then show ?thesis using queuesD(3) [OF assms(1), of n q] q True by auto
  next
    case False
    then have l: "n = last (ready_list k)" using n(1) by (simp add: nx_def next_thread_to_run_def)
    have d: "distinct (butlast (ready_list k) @ [n])" using queuesD(1) [OF assms(1), of Q_ready] False l by simp
    have "n \<in> set (qof k Q_ready)" using False l by simp
    then have "q \<noteq> Q_ready \<Longrightarrow> n \<notin> set (qof k q)" using queuesD(4) [OF assms(1)] by blast
    then show ?thesis using d q by auto
  qed
  define k2 where "k2 = ?k"
  have k2: "stat k2 = stat k" "current k2 = n" "idle_thread k2 = idle_thread k" "frs k2 = frs k"
      "semas k2 = semas k" "holder k2 = holder k" "conds k2 = conds k" "in_external_intr k2 = in_external_intr k"
    using k1 st by (simp_all add: k2_def)
  have a: "schedule_tail (if current k \<noteq> n then Some (current k) else None) k2 = Some k'" "stat k2 (current k2) \<noteq> None"
    using n k2 by (simp_all add: k2_def)
  obtain D where D:
      "\<And>t. stat k' t = (if t = n then Some THREAD_RUNNING else if t \<in> D then None else stat k t)"
      "\<And>t. t \<in> D \<Longrightarrow> stat k t = Some THREAD_DYING" "\<And>t. threads k' t \<noteq> None \<Longrightarrow> frs k' t = frs k t"
      "current k' = n" "idle_thread k' = idle_thread k" "qof k' = qof ?k" "holder k' = holder k" "semas k' = semas k"
      "in_external_intr k' = in_external_intr k" "conds k' = conds k"
    by (rule schedule_tail_cases [OF a, unfolded k2]) (rule that; simp add: k2_def)
  have sub: "set (qof ?k q) \<subseteq> set (qof k q)" for q using q by (auto dest: in_set_butlastD)
  have "queues_ok k'"
  proof (rule queuesI)
    show "distinct (qof k' q)" for q
      using queuesD(1) [OF assms(1), of q] queuesD(1) [OF assms(1), of Q_ready]
      by (simp add: D(6) q distinct_butlast)
  next
    fix q t assume "t \<in> set (qof k' q)"
    then have t: "t \<in> set (qof k q)" "t \<noteq> n" using sub nq D(6) by auto
    have "t \<notin> D" using queuesD(2) [OF assms(1) t(1)] D(2) by auto
    then show "stat k' t = Some (queue_status q) \<and> idle_thread k' \<noteq> Some t"
      using queuesD(2,3) [OF assms(1) t(1)] D(1,5) t(2) by simp
    show "q = q'" if "t \<in> set (qof k' q')" for q'
      using queuesD(4) [OF assms(1) t(1)] that sub D(6) by auto
  next
    show "t = current k'" if "stat k' t = Some THREAD_RUNNING" for t
      using queuesD(5) [OF assms(1), of t] that D(1,4) assms(2) by (auto split: if_splits)
  qed
  moreover have "same_rest k k'"
  proof (rule same_restI)
    show "threads k t \<noteq> None" if "threads k' t \<noteq> None" for t
      using D(1) [of t] n(2) that unfolding stat_None [symmetric] by (auto split: if_splits)
    show "stat k t = Some THREAD_DYING" if "threads k t \<noteq> None" "threads k' t = None" for t
      using D(1) [of t] D(2) [of t] that unfolding stat_None [symmetric] by (auto split: if_splits)
    show "stat k t = Some THREAD_DYING" if "stat k' t = Some THREAD_DYING" for t
      using that D(1) [of t] by (auto split: if_splits)
  qed (use D in simp_all)
  moreover have "parked k' t" if "parked k t" for t
  proof -
    have t: "\<And>q. t \<notin> set (qof k q)" "idle_thread k \<noteq> Some t" "stat k t = Some THREAD_BLOCKED"
      using that by (simp_all add: parked_def unqueued_def)
    have "t \<noteq> n"
      using t(1) [of Q_ready] t(2) n(1) by (auto simp: nx_def next_thread_to_run_def split: if_splits)
    moreover have "t \<notin> D" using D(2) t(3) by auto
    moreover have "t \<notin> set (qof k' q)" for q using t(1) sub D(6) by auto
    ultimately show ?thesis using t D(1,5) by (simp add: parked_def unqueued_def)
  qed
  ultimately show ?thesis using D(1) D(4) by (simp add: running_ok_def)
qed

section \<open>Blocking, yielding, unblocking\<close>

lemma unqueued_current: "running_ok k \<Longrightarrow> t \<in> set (qof k q) \<Longrightarrow> t \<noteq> current k"
  using queuesD(2) [of k t q] by (auto simp: running_ok_def)

lemma current_unqueued: "running_ok k \<Longrightarrow> idle_thread k \<noteq> Some (current k) \<Longrightarrow> unqueued k (current k)"
  using unqueued_current [of k "current k"] by (auto simp: unqueued_def)

text \<open>Entering a queue with the matching status; leaving one; changing the status outside the queues.\<close>

lemma queues_enqueue:
  assumes "queues_ok k" "unqueued k t"
    and "stat k' = (stat k)(t \<mapsto> queue_status q)" "qof k' = (qof k)(q := xs)"
    and "distinct xs" "set xs = insert t (set (qof k q))"
    and "current k' = current k" "idle_thread k' = idle_thread k"
  shows "queues_ok k'"
proof (rule queuesI)
  show "distinct (qof k' r)" for r using queuesD(1) [OF assms(1)] assms(4,5) by simp
next
  fix r u assume u: "u \<in> set (qof k' r)"
  have t: "t \<notin> set (qof k r)" for r using assms(2) by (simp add: unqueued_def)
  have *: "u = t \<and> r = q \<or> u \<noteq> t \<and> u \<in> set (qof k r)" if "u \<in> set (qof k' r)" for r u
    using that t assms(4,6) by (auto split: if_splits)
  show "stat k' u = Some (queue_status r) \<and> idle_thread k' \<noteq> Some u"
    using * [OF u] queuesD(2,3) [OF assms(1), of u r] assms(2,3,8) by (auto simp: unqueued_def)
  show "r = r'" if "u \<in> set (qof k' r')" for r'
    using * [OF u] * [OF that] queuesD(4) [OF assms(1)] by blast
next
  show "u = current k'" if "stat k' u = Some THREAD_RUNNING" for u
    using queuesD(5) [OF assms(1), of u] that assms(3,7) by (auto split: if_splits)
qed

lemma parked_enqueue:
  assumes "parked k u" "u \<noteq> t" "stat k' = (stat k)(t \<mapsto> st)" "idle_thread k' = idle_thread k"
    and "\<And>q. set (qof k' q) \<subseteq> insert t (set (qof k q))"
  shows "parked k' u"
  using assms unfolding parked_def unqueued_def by (metis fun_upd_other insert_iff subsetD)

lemma queues_status:
  assumes "queues_ok k" "\<And>q. t \<notin> set (qof k q)" "st \<noteq> THREAD_RUNNING"
    and "stat k' = (stat k)(t \<mapsto> st)" "qof k' = qof k" "current k' = current k" "idle_thread k' = idle_thread k"
  shows "queues_ok k'"
proof (rule queuesI)
  fix q u assume "u \<in> set (qof k' q)"
  then show "stat k' u = Some (queue_status q) \<and> idle_thread k' \<noteq> Some u"
    using queuesD(2,3) [OF assms(1), of u q] assms(2,4,5,7) by auto
next
  show "u = current k'" if "stat k' u = Some THREAD_RUNNING" for u
    using queuesD(5) [OF assms(1), of u] that assms(3,4,6) by (auto split: if_splits)
qed (use queuesD(1,4) [OF assms(1)] assms(5) in auto)

lemma stat_set_status_fun: "stat k t \<noteq> None \<Longrightarrow> stat (set_status t s k) = (stat k)(t \<mapsto> s)"
  by (simp add: fun_eq_iff stat_set_status)

lemma frs_set_status [simp]: "frs (set_status t s k) = frs k"
  by (auto simp: frs_def set_status_def upd_thread_def fun_eq_iff split: option.splits)

lemma frs_insert_ready [simp]: "frs (insert_ready t k) = frs k"
  by (simp add: frs_def insert_ready_def fun_eq_iff)

lemma threads_set_status_None [simp]: "threads (set_status t s k) u = None \<longleftrightarrow> threads k u = None"
  by (simp add: set_status_def upd_thread_def)

lemma same_restD:
  assumes "same_rest k k'"
  shows "threads k' t \<noteq> None \<Longrightarrow> threads k t \<noteq> None" "threads k' t \<noteq> None \<Longrightarrow> frs k' t = frs k t"
    "threads k t \<noteq> None \<Longrightarrow> threads k' t = None \<Longrightarrow> stat k t = Some THREAD_DYING"
    "holder k' = holder k" "conds k' = conds k" "idle_thread k' = idle_thread k"
    "in_external_intr k' = in_external_intr k" "sema_value (semas k' s) = sema_value (semas k s)"
    "stat k' t = Some THREAD_DYING \<Longrightarrow> stat k t = Some THREAD_DYING"
  using assms unfolding same_rest_def by blast+

lemma same_rest_easy:
  assumes "\<And>t. threads k' t = None \<longleftrightarrow> threads k t = None" "frs k' = frs k" "holder k' = holder k" "conds k' = conds k"
    "idle_thread k' = idle_thread k" "in_external_intr k' = in_external_intr k"
    "\<And>s. sema_value (semas k' s) = sema_value (semas k s)"
    "\<And>t. stat k' t = Some THREAD_DYING \<Longrightarrow> stat k t = Some THREAD_DYING"
  shows "same_rest k k'"
  by (rule same_restI) (use assms in auto)

lemma same_rest_trans:
  assumes "same_rest k1 k2" "same_rest k2 k3"
  shows "same_rest k1 k3"
proof (rule same_restI)
  fix t
  show "threads k1 t \<noteq> None" "frs k3 t = frs k1 t" if "threads k3 t \<noteq> None"
    using same_restD(1,2) [OF assms(2) that] same_restD(1,2) [OF assms(1), of t] by auto
  show "stat k1 t = Some THREAD_DYING" if "threads k1 t \<noteq> None" "threads k3 t = None"
    using same_restD(3) [OF assms(2) _ that(2)] same_restD(3) [OF assms(1) that(1)] same_restD(9) [OF assms(1)] by auto
  show "stat k1 t = Some THREAD_DYING" if "stat k3 t = Some THREAD_DYING"
    using same_restD(9) [OF assms(1)] same_restD(9) [OF assms(2) that] by blast
qed (simp_all add: same_restD(4-8) [OF assms(1)] same_restD(4-8) [OF assms(2)])

lemma qof_insert_ready: "qof (insert_ready t k) = (qof k)(Q_ready := insert_ordered (less_priority k) t (ready_list k))"
  by (rule ext, case_tac x) simp_all

lemma thread_yield_spec:
  assumes "running_ok k" "thread_yield k = Some k'"
  shows "running_ok k' \<and> same_rest k k' \<and> (\<forall>t. parked k t \<longrightarrow> parked k' t)"
proof -
  let ?c = "current k"
  let ?k1 = "if Some ?c \<noteq> idle_thread k then insert_ready ?c k else k"
  let ?k2 = "set_status ?c THREAD_READY ?k1"
  have run: "queues_ok k" "stat k ?c = Some THREAD_RUNNING" using assms(1) by (simp_all add: running_ok_def)
  have s: "schedule ?k2 = Some k'"
    using assms(2) run(2) by (auto simp: thread_yield_def Let_def thread_current_eq bind_eq_Some_conv split: if_splits)
  have st: "stat ?k2 = (stat k)(?c \<mapsto> THREAD_READY)" using run(2) by (auto simp: stat_set_status_fun)
  have "queues_ok ?k2"
  proof (cases "Some ?c = idle_thread k")
    case True
    then show ?thesis
      using st unqueued_current [OF assms(1)] by (intro queues_status [OF run(1), of ?c THREAD_READY]) auto
  next
    case False
    then have u: "unqueued k ?c" using current_unqueued [OF assms(1)] by auto
    then show ?thesis
      using st False queuesD(1) [OF run(1), of Q_ready]
      by (intro queues_enqueue [OF run(1) u, of ?k2 Q_ready "insert_ordered (less_priority k) ?c (ready_list k)"])
        (auto simp: qof_insert_ready unqueued_def dest: spec [of _ Q_ready])
  qed
  then have *: "running_ok k' \<and> same_rest ?k2 k' \<and> (\<forall>t. parked ?k2 t \<longrightarrow> parked k' t)"
    using schedule_spec [OF _ _ s] st by (simp add: fun_eq_iff)
  moreover have "parked ?k2 t" if "parked k t" for t
  proof (rule parked_enqueue [OF that _ st])
    show "t \<noteq> ?c" using that run(2) by (auto simp: parked_def)
    show "set (qof ?k2 q) \<subseteq> insert ?c (set (qof k q))" for q by (auto simp: qof_insert_ready split: if_splits)
  qed simp
  moreover have "stat k t = Some THREAD_DYING" if "stat ?k2 t = Some THREAD_DYING" for t
    using that unfolding st by (auto split: if_splits)
  then have "same_rest k ?k2" by (intro same_rest_easy) simp_all
  ultimately show ?thesis using same_rest_trans by blast
qed

lemma thread_block_spec:
  assumes "stat k (current k) = Some THREAD_RUNNING" "queues_ok (set_status (current k) THREAD_BLOCKED k)"
    and "thread_block k = Some k'"
  shows "running_ok k' \<and> same_rest k k' \<and> (\<forall>t. parked k t \<longrightarrow> parked k' t)"
proof -
  let ?k = "set_status (current k) THREAD_BLOCKED k"
  have s: "schedule ?k = Some k'"
    using assms(1,3) by (auto simp: thread_block_def thread_current_eq bind_eq_Some_conv split: if_splits)
  have st: "stat ?k = (stat k)(current k \<mapsto> THREAD_BLOCKED)" using assms(1) by (simp add: stat_set_status_fun)
  then have *: "running_ok k'" "same_rest ?k k'" "\<And>t. parked ?k t \<Longrightarrow> parked k' t"
    using schedule_spec [OF assms(2) _ s] by simp_all
  moreover have "parked ?k t" if "parked k t" for t
    by (rule parked_enqueue [OF that _ st]) (use that assms(1) in \<open>auto simp: parked_def\<close>)
  moreover have "stat k t = Some THREAD_DYING" if "stat ?k t = Some THREAD_DYING" for t
    using that unfolding st by (auto split: if_splits)
  then have "same_rest k ?k" by (intro same_rest_easy) simp_all
  ultimately show ?thesis using same_rest_trans by blast
qed

lemma thread_unblock_spec:
  assumes "running_ok k" "unqueued k t" "thread_unblock t k = Some k'"
  shows "running_ok k' \<and> same_rest k k' \<and> (\<forall>u. parked k u \<longrightarrow> u \<noteq> t \<longrightarrow> parked k' u)"
proof -
  let ?k = "set_status t THREAD_READY (insert_ready t k)"
  have run: "queues_ok k" "stat k (current k) = Some THREAD_RUNNING" using assms(1) by (simp_all add: running_ok_def)
  have b: "stat k t = Some THREAD_BLOCKED"
    using assms(3) by (auto simp: thread_unblock_def stat_def bind_eq_Some_conv split: if_splits)
  then have st: "stat ?k = (stat k)(t \<mapsto> THREAD_READY)" by (simp add: stat_set_status_fun)
  have tc: "thread_current ?k = Some (current k)" using st b run(2) by (auto simp: thread_current_eq)
  have "queues_ok ?k"
    using st queuesD(1) [OF run(1), of Q_ready] assms(2)
    by (intro queues_enqueue [OF run(1) assms(2), of ?k Q_ready "insert_ordered (less_priority k) t (ready_list k)"])
      (auto simp: qof_insert_ready unqueued_def dest: spec [of _ Q_ready])
  then have r: "running_ok ?k" using st b run(2) by (auto simp: running_ok_def)
  have "stat k u = Some THREAD_DYING" if "stat ?k u = Some THREAD_DYING" for u
    using that unfolding st by (auto split: if_splits)
  then have sr: "same_rest k ?k" by (intro same_rest_easy) simp_all
  have "k' = ?k \<or> thread_yield ?k = Some k'"
    using assms(3) tc by (auto simp: thread_unblock_def Let_def bind_eq_Some_conv split: if_splits)
  moreover have "parked ?k u" if "parked k u" "u \<noteq> t" for u
    by (rule parked_enqueue [OF that st]) (auto simp: qof_insert_ready)
  ultimately show ?thesis
    using r sr thread_yield_spec [OF r] same_rest_trans [OF sr] by blast
qed

lemma dequeue:
  assumes "running_ok k" "t \<in> set (qof k q)"
    and "qof k1 = (qof k)(q := xs)" "distinct xs" "set xs = set (qof k q) - {t}"
    and "stat k1 = stat k" "current k1 = current k" "idle_thread k1 = idle_thread k"
  shows "running_ok k1" "unqueued k1 t"
proof -
  have q: "queues_ok k" using assms(1) by (simp add: running_ok_def)
  have "queues_ok k1"
    using queues_shrink [OF q assms(6-8)] queuesD(1) [OF q] assms(3-5) by auto
  then show "running_ok k1" using assms(1,6,7) by (simp add: running_ok_def)
  have "t \<notin> set (qof k1 r)" for r
    using queuesD(4) [OF q assms(2), of r] assms(3,5) by auto
  then show "unqueued k1 t" using queuesD(3) [OF q assms(2)] assms(8) by (simp add: unqueued_def)
qed

section \<open>The timer interrupt\<close>

lemma wake_one:
  assumes "running_ok k" "waiting_list k = t # ws"
    and "k2 = set_status t THREAD_READY (insert_ready t (k\<lparr>waiting_list := ws\<rparr>))"
  shows "running_ok k2 \<and> same_rest k k2 \<and> current k2 = current k \<and> (\<forall>u. parked k u \<longrightarrow> parked k2 u)"
proof -
  let ?k1 = "k\<lparr>waiting_list := ws\<rparr>"
  have q: "queues_ok k" using assms(1) by (simp add: running_ok_def)
  have d: "distinct (t # ws)" using queuesD(1) [OF q, of Q_sleep] assms(2) by simp
  have "running_ok ?k1" by (rule dequeue(1) [OF assms(1), of t Q_sleep ?k1 ws]) (use assms(2) d in simp_all)
  moreover have "unqueued ?k1 t" by (rule dequeue(2) [OF assms(1), of t Q_sleep ?k1 ws]) (use assms(2) d in simp_all)
  ultimately have k1: "running_ok ?k1" "unqueued ?k1 t" .
  have b: "stat k t = Some THREAD_BLOCKED" using queuesD(2) [OF q, of t Q_sleep] assms(2) by simp
  then have st: "stat k2 = (stat k)(t \<mapsto> THREAD_READY)" by (simp add: assms(3) stat_set_status_fun)
  have q1: "queues_ok ?k1" using k1 by (simp add: running_ok_def)
  have "queues_ok k2"
    using st k1(2) queuesD(1) [OF q1, of Q_ready]
    by (intro queues_enqueue [OF q1 k1(2), of k2 Q_ready "insert_ordered (less_priority ?k1) t (ready_list k)"])
      (auto simp: assms(3) qof_insert_ready unqueued_def dest: spec [of _ Q_ready])
  then have "running_ok k2" using st b assms(1) by (auto simp: running_ok_def assms(3))
  moreover have "stat k u = Some THREAD_DYING" if "stat k2 u = Some THREAD_DYING" for u
    using that unfolding st by (auto split: if_splits)
  then have "same_rest k k2" by (intro same_rest_easy) (simp_all add: assms(3))
  moreover have "parked k2 u" if "parked k u" for u
    by (rule parked_enqueue [OF that _ st])
      (use that assms(2) in \<open>auto simp: assms(3) qof_insert_ready parked_def unqueued_def dest: spec [of _ Q_sleep]\<close>)
  ultimately show ?thesis by (simp add: assms(3))
qed

lemma wake_loop_spec:
  assumes "running_ok k" "wake_loop now ts k = Some k'"
  shows "running_ok k' \<and> same_rest k k' \<and> current k' = current k \<and> (\<forall>u. parked k u \<longrightarrow> parked k' u)"
  using assms
proof (induction now ts k rule: wake_loop.induct)
  case (1 now k)
  then show ?case by (auto intro!: same_rest_easy)
next
  case (2 now t ts k)
  then obtain th where th: "threads k t = Some th" by (auto simp: bind_eq_Some_conv)
  show ?case
  proof (cases "waking_time th \<le> now \<and> status th = THREAD_BLOCKED")
    case True
    then have w: "waiting_list k = t # tl (waiting_list k)"
      using 2(4) th by (cases "waiting_list k") (auto split: if_splits)
    then have w': "waiting_list k \<noteq> [] \<and> hd (waiting_list k) = t" by (metis list.discI list.sel(1))
    define k2 where "k2 = set_status t THREAD_READY (insert_ready t (k\<lparr>waiting_list := tl (waiting_list k)\<rparr>))"
    have k2: "running_ok k2" "same_rest k k2" "current k2 = current k" "\<And>u. parked k u \<Longrightarrow> parked k2 u"
      using wake_one [OF 2(3) w k2_def] by auto
    have l: "wake_loop now ts k2 = Some k'"
      using 2(4) th True w by (auto simp: k2_def Let_def split: if_splits)
    have "running_ok k' \<and> same_rest k2 k' \<and> current k' = current k2 \<and> (\<forall>u. parked k2 u \<longrightarrow> parked k' u)"
      using 2(1) [OF th True _ refl refl, of "()"] k2(1) l w' by (simp add: k2_def)
    then show ?thesis using same_rest_trans [OF k2(2)] k2(3,4) by auto
  next
    case False
    then have "wake_loop now ts k = Some k'" using 2(4) th by (auto split: if_splits)
    then show ?thesis using 2(2) [OF th False] 2(3) by simp
  qed
qed

end
