(* ===== verification/Kernel_Steps.thy ===== *)
theory Kernel_Steps
  imports Kernel_Inv
begin

text \<open>
  Every step of the threading system keeps the scheduler invariant and the lock
  invariant. A lock has at every moment exactly one \<open>claim\<close>: it is free (its semaphore is
  1), held, about to be marked as held by the thread that got the semaphore, or about
  to be freed by the thread that released it. This is mutual exclusion, for all
  interleavings of kernel calls and timer interrupts.
\<close>

section \<open>The shape of a thread's remaining work\<close>

fun plain_frame :: "frame \<Rightarrow> bool" where
  "plain_frame (F_sema_down (LockSema l)) = False"
| "plain_frame (F_sema_up (LockSema l)) = False"
| "plain_frame (F_set_holder l) = False"
| "plain_frame F_die = False"
| "plain_frame (F_idle_start s) = False"
| "plain_frame F_idle_loop = False"
| "plain_frame _ = True"

abbreviation plain :: "frame list \<Rightarrow> bool" where
  "plain fs \<equiv> list_all plain_frame fs"

inductive wf_frames :: "frame list \<Rightarrow> bool" where
  wf_plain: "plain fs \<Longrightarrow> wf_frames fs"
| wf_down: "plain fs \<Longrightarrow> wf_frames (F_sema_down (LockSema l) # F_set_holder l # fs)"
| wf_holder: "plain fs \<Longrightarrow> wf_frames (F_set_holder l # fs)"
| wf_up: "plain fs \<Longrightarrow> wf_frames (F_sema_up (LockSema l) # fs)"
| wf_die: "wf_frames [F_die]"
| wf_idle_start: "wf_frames [F_idle_start (Sema n)]"
| wf_idle_loop: "wf_frames [F_idle_loop]"

inductive_simps wf_frames_sema_down: "wf_frames (F_sema_down s # fs)"
inductive_simps wf_frames_sema_up: "wf_frames (F_sema_up s # fs)"
inductive_simps wf_frames_special: "wf_frames (F_set_holder l # fs)" "wf_frames (F_die # fs)"
  "wf_frames (F_idle_start s # fs)" "wf_frames (F_idle_loop # fs)"
inductive_simps wf_frames_other: "wf_frames (F_lock_acquire l # fs)" "wf_frames (F_lock_release l # fs)"
  "wf_frames (F_cond_signal c l # fs)" "wf_frames (F_cond_broadcast c l # fs)"
  "wf_frames (F_take_tid t # fs)" "wf_frames (F_create t # fs)"

lemmas wf_frames_simps = wf_frames_sema_down wf_frames_sema_up wf_frames_special wf_frames_other

datatype claim = Free | Held | Taking tptr | Releasing tptr

inductive_set claims :: "kernel \<Rightarrow> lptr \<Rightarrow> claim set" for k :: kernel and l :: lptr where
  free: "sema_value (semas k (LockSema l)) \<noteq> 0 \<Longrightarrow> Free \<in> claims k l"
| held: "holder k l \<noteq> None \<Longrightarrow> Held \<in> claims k l"
| taking: "frs k t = F_set_holder l # fs \<Longrightarrow> Taking t \<in> claims k l"
| releasing: "frs k t = F_sema_up (LockSema l) # fs \<Longrightarrow> Releasing t \<in> claims k l"

inductive_simps in_claims [simp]: "Free \<in> claims k l" "Held \<in> claims k l" "Taking t \<in> claims k l"
  "Releasing t \<in> claims k l"

definition lock_ok :: "kernel \<Rightarrow> lptr \<Rightarrow> bool" where
  "lock_ok k l \<longleftrightarrow> sema_value (semas k (LockSema l)) \<le> 1 \<and> (\<exists>c. claims k l = {c})"

definition targets :: "frame list \<Rightarrow> tptr list" where
  "targets fs = List.map_filter (\<lambda>f. case f of F_create t \<Rightarrow> Some t | _ \<Rightarrow> None) fs"

definition creating :: "kernel \<Rightarrow> tptr \<Rightarrow> tptr list" where
  "creating k u = targets (frs k u)"

lemma targets_simps [simp]:
  "targets [] = []" "targets (f # fs) = (case f of F_create t \<Rightarrow> t # targets fs | _ \<Rightarrow> targets fs)"
  by (auto simp: targets_def map_filter_simps split: frame.splits)

lemma targets_append [simp]: "targets (fs @ gs) = targets fs @ targets gs"
  by (induction fs) (auto split: frame.splits)

definition work_ok :: "kernel \<Rightarrow> bool" where
  "work_ok k \<longleftrightarrow>
     (\<forall>t. wf_frames (frs k t)) \<and>
     (\<forall>t. idle_thread k = Some t \<longrightarrow> frs k t = [F_idle_loop]) \<and>
     (\<forall>t. stat k t = Some THREAD_DYING \<longrightarrow> frs k t = []) \<and>
     (\<forall>u. distinct (creating k u) \<and> (\<forall>t\<in>set (creating k u). parked k t)) \<and>
     (\<forall>u v t. t \<in> set (creating k u) \<longrightarrow> t \<in> set (creating k v) \<longrightarrow> u = v) \<and>
     (\<forall>l. lock_ok k l)"

definition kernel_ok :: "kernel \<Rightarrow> bool" where
  "kernel_ok k \<longleftrightarrow> running_ok k \<and> work_ok k"

lemma claims_cong:
  assumes "frs k' = frs k" "holder k' = holder k"
    "sema_value (semas k' (LockSema l)) = sema_value (semas k (LockSema l))"
  shows "claims k' l = claims k l"
  using assms by (auto simp: set_eq_iff elim!: claims.cases)

lemma work_okI:
  assumes "\<And>t. wf_frames (frs k t)"
    and "\<And>t. idle_thread k = Some t \<Longrightarrow> frs k t = [F_idle_loop]"
    and "\<And>t. stat k t = Some THREAD_DYING \<Longrightarrow> frs k t = []"
    and "\<And>u. distinct (creating k u)"
    and "\<And>u t. t \<in> set (creating k u) \<Longrightarrow> parked k t"
    and "\<And>u v t. t \<in> set (creating k u) \<Longrightarrow> t \<in> set (creating k v) \<Longrightarrow> u = v"
    and "\<And>l. lock_ok k l"
  shows "work_ok k"
  using assms unfolding work_ok_def by blast

lemma work_okD:
  assumes "work_ok k"
  shows "wf_frames (frs k t)" "idle_thread k = Some t \<Longrightarrow> frs k t = [F_idle_loop]"
    "stat k t = Some THREAD_DYING \<Longrightarrow> frs k t = []" "distinct (creating k u)"
    "t \<in> set (creating k u) \<Longrightarrow> parked k t"
    "t \<in> set (creating k u) \<Longrightarrow> t \<in> set (creating k v) \<Longrightarrow> u = v" "lock_ok k l"
  using assms unfolding work_ok_def by blast+

lemma frs_None: "threads k t = None \<Longrightarrow> frs k t = []"
  by (simp add: frs_def)

text \<open>A context switch keeps all of it.\<close>

lemma switch_frs:
  assumes "work_ok k" "same_rest k k'"
  shows "frs k' = frs k"
proof
  fix t
  show "frs k' t = frs k t"
  proof (cases "threads k' t")
    case None
    then have "frs k t = []"
      using same_restD(3) [OF assms(2), of t] work_okD(3) [OF assms(1), of t] frs_None by (cases "threads k t") auto
    then show ?thesis using frs_None [OF None] by simp
  next
    case Some
    then show ?thesis using same_restD(2) [OF assms(2), of t] by simp
  qed
qed

lemma work_ok_switch:
  assumes "work_ok k" "same_rest k k'" "\<And>t u. t \<in> set (creating k u) \<Longrightarrow> parked k t \<Longrightarrow> parked k' t"
  shows "work_ok k'"
proof -
  have f: "frs k' = frs k" using switch_frs [OF assms(1,2)] .
  then have c: "creating k' = creating k" by (simp add: creating_def fun_eq_iff)
  have l: "claims k' l = claims k l" for l
    using claims_cong [OF f] same_restD(4,8) [OF assms(2)] by simp
  show ?thesis
    by (rule work_okI; unfold f c lock_ok_def l same_restD(6,8) [OF assms(2)])
      (use work_okD [OF assms(1)] assms(3) same_restD(9) [OF assms(2)] in \<open>auto simp: lock_ok_def\<close>)
qed

section \<open>Changing the work of the running thread\<close>

fun token :: "frame list \<Rightarrow> bool" where
  "token (F_set_holder l # fs) = True"
| "token (F_sema_up (LockSema l) # fs) = True"
| "token fs = False"

lemma plain_not_token: "plain fs \<Longrightarrow> \<not> token fs"
  by (cases fs rule: token.cases) auto

lemma claims_not_token:
  assumes "frs k' = (frs k)(c := gs)" "\<not> token gs" "\<not> token (frs k c)"
    and "holder k' l = holder k l" "sema_value (semas k' (LockSema l)) = sema_value (semas k (LockSema l))"
  shows "claims k' l = claims k l"
proof (rule set_eqI)
  fix x
  have "gs \<noteq> F_set_holder l # fs" "gs \<noteq> F_sema_up (LockSema l) # fs"
    "frs k c \<noteq> F_set_holder l # fs" "frs k c \<noteq> F_sema_up (LockSema l) # fs" for fs
    using assms(2,3) by auto
  then show "x \<in> claims k' l \<longleftrightarrow> x \<in> claims k l"
    using assms(1,4,5) by (cases x) auto
qed

lemma work_ok_frames:
  assumes "work_ok k" "frs k' = (frs k)(c := gs)" "wf_frames gs"
    and "idle_thread k' = idle_thread k" "idle_thread k \<noteq> Some c" "stat k' c \<noteq> Some THREAD_DYING"
    and "\<And>t. stat k' t = Some THREAD_DYING \<Longrightarrow> stat k t = Some THREAD_DYING"
    and "distinct (targets gs)" "set (targets gs) \<subseteq> set (creating k c)"
    and "\<And>t u. t \<in> set (creating k' u) \<Longrightarrow> parked k t \<Longrightarrow> parked k' t" "\<And>l. lock_ok k' l"
  shows "work_ok k'"
proof (rule work_okI)
  have cr: "creating k' = (creating k)(c := targets gs)" using assms(2) by (auto simp: creating_def)
  then have sub: "set (creating k' u) \<subseteq> set (creating k u)" for u using assms(9) by auto
  show "wf_frames (frs k' t)" for t using work_okD(1) [OF assms(1)] assms(2,3) by simp
  show "frs k' t = [F_idle_loop]" if "idle_thread k' = Some t" for t
    using work_okD(2) [OF assms(1), of t] that assms(2,4,5) by auto
  show "frs k' t = []" if "stat k' t = Some THREAD_DYING" for t
    using work_okD(3) [OF assms(1) assms(7) [OF that]] that assms(2,6) by auto
  show "distinct (creating k' u)" for u using cr assms(8) work_okD(4) [OF assms(1)] by simp
  show "parked k' t" if "t \<in> set (creating k' u)" for t u
    using assms(10) [OF that] work_okD(5) [OF assms(1), of t u] that sub by blast
  show "u = v" if "t \<in> set (creating k' u)" "t \<in> set (creating k' v)" for t u v
    using that sub work_okD(6) [OF assms(1), of t u v] by blast
qed (rule assms(11))

text \<open>The running thread may execute an operation: it is not the idle thread and owes no lock transition.\<close>

definition ready_to_call :: "kernel \<Rightarrow> bool" where
  "ready_to_call k \<longleftrightarrow> kernel_ok k \<and> idle_thread k \<noteq> Some (current k) \<and> plain (frs k (current k))"

definition neutral :: "kernel \<Rightarrow> kernel \<Rightarrow> bool" where
  "neutral k k' \<longleftrightarrow> stat k' = stat k \<and> frs k' = frs k \<and> qof k' = qof k \<and> current k' = current k \<and>
     idle_thread k' = idle_thread k \<and> holder k' = holder k \<and> conds k' = conds k \<and> semas k' = semas k \<and>
     in_external_intr k' = in_external_intr k"

lemma neutral_refl [simp]: "neutral k k"
  by (simp add: neutral_def)

lemma neutral_trans: "neutral k1 k2 \<Longrightarrow> neutral k2 k3 \<Longrightarrow> neutral k1 k3"
  by (simp add: neutral_def)

lemma parked_cong: "stat k' = stat k \<Longrightarrow> qof k' = qof k \<Longrightarrow> idle_thread k' = idle_thread k \<Longrightarrow> parked k' t = parked k t"
  by (simp add: parked_def unqueued_def)

lemma running_ok_cong:
  assumes "stat k' = stat k" "qof k' = qof k" "current k' = current k" "idle_thread k' = idle_thread k"
  shows "running_ok k' = running_ok k"
  using assms by (simp add: running_ok_def queues_ok_def)

lemma neutral_same_rest: "neutral k k' \<Longrightarrow> same_rest k k'"
  unfolding neutral_def
  by (intro same_rest_easy) (auto simp: stat_None [symmetric])

lemma kernel_ok_neutral: "neutral k k' \<Longrightarrow> kernel_ok k \<Longrightarrow> kernel_ok k'"
  unfolding kernel_ok_def
proof (elim conjE, intro conjI)
  assume n: "neutral k k'" and k: "running_ok k" "work_ok k"
  show "running_ok k'" using n k(1) running_ok_cong [of k' k] by (simp add: neutral_def)
  show "work_ok k'"
    using n by (intro work_ok_switch [OF k(2) neutral_same_rest [OF n]]) (simp add: neutral_def parked_cong [of k' k])
qed

lemma ready_neutral: "neutral k k' \<Longrightarrow> ready_to_call k \<Longrightarrow> ready_to_call k'"
  using kernel_ok_neutral by (auto simp: ready_to_call_def neutral_def)

lemma kernel_ok_switch:
  assumes "work_ok k" "running_ok k' \<and> same_rest k k' \<and> (\<forall>t. parked k t \<longrightarrow> parked k' t)"
  shows "kernel_ok k'"
  using assms work_ok_switch [of k k'] by (simp add: kernel_ok_def)

lemma frs_upd_thread [simp]:
  "(\<And>th. frames (f th) = frames th) \<Longrightarrow> frs (upd_thread t f k) = frs k"
  by (auto simp: frs_def upd_thread_def fun_eq_iff split: option.splits)

lemma neutral_upd_thread:
  "(\<And>th. status (f th) = status th) \<Longrightarrow> (\<And>th. frames (f th) = frames th) \<Longrightarrow> neutral k (upd_thread t f k)"
  by (simp add: neutral_def)

lemma neutral_after_upd:
  "(\<And>th. status (f th) = status th) \<Longrightarrow> (\<And>th. frames (f th) = frames th) \<Longrightarrow>
    neutral (upd_thread t f k) k' \<longleftrightarrow> neutral k k'"
  by (simp add: neutral_def)

lemma push_frames_sel [simp]:
  "stat (push_frames fs k) = stat k" "qof (push_frames fs k) = qof k" "current (push_frames fs k) = current k"
  "idle_thread (push_frames fs k) = idle_thread k" "holder (push_frames fs k) = holder k"
  "conds (push_frames fs k) = conds k" "semas (push_frames fs k) = semas k"
  "in_external_intr (push_frames fs k) = in_external_intr k"
  by (simp_all add: push_frames_def)

lemma frs_push: "stat k (current k) \<noteq> None \<Longrightarrow> frs (push_frames fs k) = (frs k)(current k := fs @ frs k (current k))"
  by (auto simp: push_frames_def frs_def upd_thread_def stat_def fun_eq_iff)

lemma ready_push:
  assumes "ready_to_call k" "\<not> token (fs @ frs k (current k))" "wf_frames (fs @ frs k (current k))" "targets fs = []"
  shows "kernel_ok (push_frames fs k)"
proof -
  have k: "running_ok k" "work_ok k" "idle_thread k \<noteq> Some (current k)" "plain (frs k (current k))"
    using assms(1) by (simp_all add: ready_to_call_def kernel_ok_def)
  have st: "stat k (current k) = Some THREAD_RUNNING" using k(1) by (simp add: running_ok_def)
  have f: "frs (push_frames fs k) = (frs k)(current k := fs @ frs k (current k))" using st by (simp add: frs_push)
  have "lock_ok (push_frames fs k) l" for l
    using claims_not_token [OF f assms(2) plain_not_token [OF k(4)], of l] work_okD(7) [OF k(2), of l]
    by (simp add: lock_ok_def)
  then have "work_ok (push_frames fs k)"
    using st k(3) assms(3,4) work_okD(4) [OF k(2), of "current k"]
    by (intro work_ok_frames [OF k(2) f]) (auto simp: creating_def parked_cong [of "push_frames fs k" k])
  then show ?thesis using k(1) running_ok_cong [of "push_frames fs k" k] by (simp add: kernel_ok_def)
qed

section \<open>Operations that touch only priorities and statistics\<close>

lemma neutral_nested_donation:
  assumes "nested_donation high medium k = Some k'"
  shows "neutral k k'"
proof (rule nested_donation.raw_induct [OF _ assms])
  fix nd high medium k k'
  assume 1: "\<And>high medium k k'. nd high medium k = Some k' \<Longrightarrow> neutral k k'"
    "do {
       m \<leftarrow> threads k medium;
       case holded_by m of
         None \<Rightarrow> Some k
       | Some l \<Rightarrow> do {
           low \<leftarrow> holder k l;
           _ \<leftarrow> threads k low;
           h \<leftarrow> threads k high;
           nd medium low (upd_thread low (\<lambda>t. t\<lparr>priority := priority h\<rparr>) k)
         }
     } = Some k'"
  show "neutral k k'"
  proof (cases "threads k medium")
    case None
    then show ?thesis using 1(2) by simp
  next
    case (Some m)
    show ?thesis
    proof (cases "holded_by m")
      case None
      then show ?thesis using 1(2) Some by simp
    next
      case (Some l)
      obtain low h where lh: "holder k l = Some low" "threads k high = Some h"
        using 1(2) Some \<open>threads k medium = Some m\<close> by (auto simp: bind_eq_Some_conv)
      then have "nd medium low (upd_thread low (\<lambda>t. t\<lparr>priority := priority h\<rparr>) k) = Some k'"
        using 1(2) Some \<open>threads k medium = Some m\<close> by (auto simp: bind_eq_Some_conv)
      then show ?thesis using 1(1) neutral_after_upd [of "\<lambda>t. t\<lparr>priority := priority h\<rparr>" low k k'] by simp
    qed
  qed
qed

lemma neutral_priority_donation: "priority_donation high low l k = Some k' \<Longrightarrow> neutral k k'"
  unfolding priority_donation_def Let_def
  by (auto simp: bind_eq_Some_conv neutral_after_upd dest!: neutral_nested_donation)

lemma neutral_clear_holded: "clear_holded ms k = Some k' \<Longrightarrow> neutral k k'"
proof (induction ms k rule: clear_holded.induct)
  case (2 m ms k)
  then show ?case by (auto simp: bind_eq_Some_conv neutral_after_upd)
qed simp

lemma neutral_priority_rollback: "priority_rollback t l k = Some k' \<Longrightarrow> neutral k k'"
  unfolding priority_rollback_def Let_def
  by (auto simp: bind_eq_Some_conv dest!: neutral_clear_holded intro: neutral_trans [OF _ neutral_upd_thread] split: if_splits)

lemma neutral_calc_recent_cpu: "calc_recent_cpu t k = Some k' \<Longrightarrow> neutral k k'"
  by (auto simp: calc_recent_cpu_def Let_def bind_eq_Some_conv intro: neutral_upd_thread split: if_splits)

lemma neutral_for_all_threads:
  assumes "\<And>t k k'. f t k = Some k' \<Longrightarrow> neutral k k'" "for_all_threads f ts k = Some k'"
  shows "neutral k k'"
  using assms(2)
proof (induction ts arbitrary: k)
  case (Cons t ts)
  then obtain k1 where "(if Some t \<noteq> idle_thread k then f t k else Some k) = Some k1" "for_all_threads f ts k1 = Some k'"
    by (auto simp: bind_eq_Some_conv)
  then show ?case using Cons.IH assms(1) neutral_trans by (fastforce split: if_splits)
qed simp

lemma neutral_calc_load_avg: "calc_load_avg k = Some k' \<Longrightarrow> neutral k k'"
proof -
  have "neutral k (k\<lparr>load_avg := n\<rparr>)" for n by (simp add: neutral_def)
  then show "calc_load_avg k = Some k' \<Longrightarrow> ?thesis"
    by (cases "thread_current k") (auto simp: calc_load_avg_def Let_def)
qed

lemma neutral_mlfqs:
  assumes "mlfqs_tick_change n k = Some k'"
  shows "neutral k k'"
proof -
  obtain c where c: "thread_current k = Some c"
    using assms by (auto simp: mlfqs_tick_change_def bind_eq_Some_conv)
  define k1 where k1: "k1 = (if Some c \<noteq> idle_thread k
      then upd_thread c (\<lambda>t. t\<lparr>recent_cpu := ADD_X_N (recent_cpu t) 1\<rparr>) k else k)"
  define m where "m = (if n smod 100 = 0 then do {
             k \<leftarrow> calc_load_avg k1;
             for_all_threads calc_recent_cpu (all_list k) k
           } else Some k1)"
  have "(m \<bind> (\<lambda>k2. if n smod 4 = 0 then
        for_all_threads (\<lambda>t k. Some (upd_thread t (\<lambda>th. th\<lparr>priority := calc_priority (recent_cpu th) (nice th)\<rparr>) k))
          (all_list k2) k2
      else Some k2)) = Some k'"
    using assms unfolding mlfqs_tick_change_def c Let_def m_def k1 by simp
  then obtain k2 where k2: "m = Some k2"
    and k': "(if n smod 4 = 0 then
        for_all_threads (\<lambda>t k. Some (upd_thread t (\<lambda>th. th\<lparr>priority := calc_priority (recent_cpu th) (nice th)\<rparr>) k))
          (all_list k2) k2
      else Some k2) = Some k'"
    unfolding bind_eq_Some_conv by blast
  have "neutral k k1" using k1 neutral_upd_thread by auto
  moreover have "neutral k1 k2"
  proof (cases "n smod 100 = 0")
    case True
    then obtain k3 where k3: "calc_load_avg k1 = Some k3" "for_all_threads calc_recent_cpu (all_list k3) k3 = Some k2"
      using k2 by (auto simp: m_def bind_eq_Some_conv)
    have "neutral k3 k2" by (rule neutral_for_all_threads [OF _ k3(2)]) (rule neutral_calc_recent_cpu)
    then show ?thesis using neutral_calc_load_avg [OF k3(1)] neutral_trans by blast
  qed (use k2 in \<open>simp add: m_def\<close>)
  moreover have "neutral k2 k'"
  proof (cases "n smod 4 = 0")
    case True
    then have "for_all_threads (\<lambda>t k. Some (upd_thread t (\<lambda>th. th\<lparr>priority := calc_priority (recent_cpu th) (nice th)\<rparr>) k))
        (all_list k2) k2 = Some k'" using k' by simp
    then show ?thesis by (rule neutral_for_all_threads [rotated]) (auto intro: neutral_upd_thread)
  qed (use k' in simp)
  ultimately show ?thesis using neutral_trans by blast
qed

lemma neutral_statistics:
  "neutral k (k\<lparr>idle_ticks := n\<rparr>)" "neutral k (k\<lparr>user_ticks := n\<rparr>)" "neutral k (k\<lparr>kernel_ticks := n\<rparr>)"
  "neutral k (k\<lparr>thread_ticks := m\<rparr>)" "neutral k (k\<lparr>yield_on_return := b\<rparr>)" "neutral k (k\<lparr>ticks := n\<rparr>)"
  by (simp_all add: neutral_def)

lemma neutral_thread_tick:
  assumes "thread_tick k = Some k'"
  shows "neutral k k'"
proof -
  obtain c t where c: "thread_current k = Some c" "threads k c = Some t"
    using assms by (auto simp: thread_tick_def bind_eq_Some_conv)
  define k1 where "k1 = (if Some c = idle_thread k then k\<lparr>idle_ticks := idle_ticks k + 1\<rparr>
              else if pagedir t \<noteq> None then k\<lparr>user_ticks := user_ticks k + 1\<rparr>
              else k\<lparr>kernel_ticks := kernel_ticks k + 1\<rparr>)"
  define k2 where "k2 = k1\<lparr>thread_ticks := thread_ticks k1 + 1\<rparr>"
  have n: "neutral k k1" "neutral k1 k2" by (simp_all add: k1_def k2_def neutral_statistics)
  have "(if thread_ticks k2 \<ge> TIME_SLICE then ASSERT (in_external_intr k2) \<bind> (\<lambda>_. Some (k2\<lparr>yield_on_return := True\<rparr>))
     else Some k2) = Some k'"
    using assms unfolding thread_tick_def c Let_def bind.simps k1_def [symmetric] k2_def [symmetric] .
  then have "k' = k2 \<or> k' = k2\<lparr>yield_on_return := True\<rparr>" by (auto split: if_splits)
  then have "neutral k2 k'" using neutral_statistics(5) by fastforce
  then show ?thesis using n neutral_trans by blast
qed

lemma kernel_ok_intr: "kernel_ok k \<Longrightarrow> kernel_ok (k\<lparr>in_external_intr := b\<rparr>)"
proof -
  assume k: "kernel_ok k"
  let ?k = "k\<lparr>in_external_intr := b\<rparr>"
  have "work_ok ?k"
    using k by (intro work_okI) (auto simp: kernel_ok_def work_ok_def creating_def parked_cong [of ?k k] lock_ok_def
      claims_cong [of ?k k])
  then show ?thesis using k running_ok_cong [of ?k k] by (simp add: kernel_ok_def)
qed

lemma kernel_ok_yield:
  assumes "kernel_ok k" "thread_yield k = Some k'"
  shows "kernel_ok k'"
  using kernel_ok_switch [OF _ thread_yield_spec] assms by (auto simp: kernel_ok_def)

lemma kernel_ok_timer:
  assumes "kernel_ok k" "timer_interrupt k = Some k'"
  shows "kernel_ok k'"
proof -
  obtain k1 k2 where k1: "thread_tick (k\<lparr>ticks := s64 (ticks k + 1)\<rparr>) = Some k1"
    and k2: "(if thread_mlfqs k1 then mlfqs_tick_change (ticks k1) k1 else Some k1) = Some k2"
    and k': "wake_waiting_list (ticks k2) k2 = Some k'"
    using assms(2) unfolding timer_interrupt_def Let_def by (auto simp: bind_eq_Some_conv)
  have "neutral k (k\<lparr>ticks := s64 (ticks k + 1)\<rparr>)" by (simp add: neutral_def)
  then have "neutral k k2"
    using neutral_thread_tick [OF k1] k2 neutral_mlfqs neutral_trans by (metis option.inject)
  then have "kernel_ok k2" using kernel_ok_neutral assms(1) by blast
  then show ?thesis
    using kernel_ok_switch [of k2 k'] wake_loop_spec [of k2 _ _ k'] k' by (simp add: kernel_ok_def wake_waiting_list_def)
qed

lemma kernel_ok_tick:
  assumes "kernel_ok k" "intr_handler timer_interrupt k = Some k'"
  shows "kernel_ok k'"
proof -
  let ?k = "k\<lparr>in_external_intr := True, yield_on_return := False\<rparr>"
  obtain k1 where k1: "timer_interrupt ?k = Some k1"
    and k': "(if yield_on_return k1 then thread_yield (k1\<lparr>in_external_intr := False\<rparr>)
      else Some (k1\<lparr>in_external_intr := False\<rparr>)) = Some k'"
    using assms(2) unfolding intr_handler_def Let_def by (auto simp: bind_eq_Some_conv split: if_splits)
  have "neutral (k\<lparr>in_external_intr := True\<rparr>) ?k" by (simp add: neutral_def)
  then have "kernel_ok k1" using kernel_ok_neutral kernel_ok_intr [OF assms(1)] kernel_ok_timer [OF _ k1] by blast
  then show ?thesis using kernel_ok_intr [of k1 False] kernel_ok_yield k' by (auto split: if_splits)
qed

section \<open>Semaphores\<close>

lemma kernel_ok_cong:
  assumes "kernel_ok k" "stat k' = stat k" "frs k' = frs k" "qof k' = qof k" "current k' = current k"
    and "idle_thread k' = idle_thread k" "holder k' = holder k"
    and "\<And>l. sema_value (semas k' (LockSema l)) = sema_value (semas k (LockSema l))"
  shows "kernel_ok k'"
proof -
  have "claims k' l = claims k l" for l using assms(3,7,8) by (intro claims_cong) simp_all
  then have "work_ok k'"
    using assms(1) by (simp add: kernel_ok_def work_ok_def assms(2-8) creating_def parked_cong [of k' k] lock_ok_def)
  then show ?thesis using assms(1) running_ok_cong [OF assms(2,4,5,6)] by (simp add: kernel_ok_def)
qed

lemma ready_cong:
  assumes "ready_to_call k" "stat k' = stat k" "frs k' = frs k" "qof k' = qof k" "current k' = current k"
    and "idle_thread k' = idle_thread k" "holder k' = holder k"
    and "\<And>l. sema_value (semas k' (LockSema l)) = sema_value (semas k (LockSema l))"
  shows "ready_to_call k'"
  using kernel_ok_cong [OF _ assms(2-8)] assms by (simp add: ready_to_call_def)

lemma block_on_queue:
  assumes "kernel_ok k" "idle_thread k \<noteq> Some (current k)" "thread_block kb = Some k'"
    and "stat kb = stat k" "frs kb = frs k" "qof kb = (qof k)(q := xs)" "current kb = current k"
    and "idle_thread kb = idle_thread k" "holder kb = holder k" "conds kb = conds k"
    and "in_external_intr kb = in_external_intr k" "\<And>s. sema_value (semas kb s) = sema_value (semas k s)"
    and "distinct xs" "set xs = insert (current k) (set (qof k q))" "q \<noteq> Q_ready"
  shows "kernel_ok k'"
proof -
  have k: "running_ok k" "work_ok k" using assms(1) by (simp_all add: kernel_ok_def)
  have run: "queues_ok k" "stat k (current k) = Some THREAD_RUNNING" using k(1) by (simp_all add: running_ok_def)
  have "queues_ok (set_status (current kb) THREAD_BLOCKED kb)"
    by (rule queues_enqueue [OF run(1) current_unqueued [OF k(1) assms(2)], of _ q xs])
      (use assms run(2) in \<open>simp_all add: stat_set_status_fun queue_status_def\<close>)
  then have b: "running_ok k' \<and> same_rest kb k' \<and> (\<forall>t. parked kb t \<longrightarrow> parked k' t)"
    using thread_block_spec [OF _ _ assms(3)] run(2) assms(4,7) by simp
  have "parked kb t" if "parked k t" for t
    using that run(2) assms(4,6,8,14) by (auto simp: parked_def unqueued_def)
  moreover have "same_rest k kb"
    by (rule same_rest_easy) (use assms in \<open>simp_all add: stat_None [symmetric]\<close>)
  ultimately have "work_ok kb" using work_ok_switch [OF k(2)] by blast
  then show ?thesis using kernel_ok_switch b by blast
qed

lemma waiters_current:
  assumes "kernel_ok k"
  shows "distinct (waiters (semas k s))" "current k \<notin> set (waiters (semas k s))"
  using assms queuesD(1) [of k "Q_sema s"] unqueued_current [of k "current k" "Q_sema s"]
  by (auto simp: kernel_ok_def running_ok_def)

lemma parked_not_waiting: "parked k u \<Longrightarrow> u \<notin> set (waiters (semas k s))"
  using qof.simps(3) [of k s] unfolding parked_def unqueued_def by metis

text \<open>\<open>sema_down\<close> when it has to wait: the pushed frame brings the thread back to the test.\<close>

lemma sema_down_blocks:
  assumes "kernel_ok (push_frames [F_sema_down s] k)" "idle_thread k \<noteq> Some (current k)"
    and "sema_value (semas k s) = 0" "sema_down s k = Some k'"
  shows "kernel_ok k'"
proof -
  let ?kp = "push_frames [F_sema_down s] k"
  let ?ws = "insert_ordered (less_priority k) (current k) (waiters (semas k s))"
  let ?kb = "push_frames [F_sema_down s] (upd_sema s (\<lambda>x. x\<lparr>waiters := insert_ordered (less_priority k) (current k) (waiters x)\<rparr>) k)"
  have st: "stat k (current k) = Some THREAD_RUNNING" using assms(1) by (simp add: kernel_ok_def running_ok_def)
  have tb: "thread_block ?kb = Some k'"
    using assms(3,4) by (auto simp: sema_down_def Let_def thread_current_eq bind_eq_Some_conv split: if_splits)
  have w: "distinct (waiters (semas k s))" "current k \<notin> set (waiters (semas k s))"
    using waiters_current [OF assms(1), of s] by simp_all
  show ?thesis
    by (rule block_on_queue [OF assms(1) _ tb, of "Q_sema s" ?ws])
      (use assms(2) w st in \<open>auto simp: frs_push\<close>)
qed

lemma sema_down_plain:
  assumes "ready_to_call k" "\<And>l. s \<noteq> LockSema l" "sema_down s k = Some k'"
  shows "kernel_ok k'"
proof (cases "sema_value (semas k s) = 0")
  case True
  have "plain_frame (F_sema_down s)" using assms(2) by (cases s) auto
  then have p: "plain (F_sema_down s # frs k (current k))" using assms(1) by (simp add: ready_to_call_def)
  then have "kernel_ok (push_frames [F_sema_down s] k)"
    using plain_not_token [OF p] wf_plain [OF p] by (intro ready_push [OF assms(1)]) simp_all
  then show ?thesis using sema_down_blocks True assms by (simp add: ready_to_call_def)
next
  case False
  then have k': "k' = upd_sema s (\<lambda>x. x\<lparr>sema_value := sema_value x - 1\<rparr>) k"
    using assms(3) by (auto simp: sema_down_def split: if_splits)
  have ne: "LockSema l \<noteq> s" for l using assms(2) [of l] by simp
  show ?thesis
    unfolding k' by (rule kernel_ok_cong [of k]) (use assms(1) ne in \<open>simp_all add: ready_to_call_def fun_upd_idem\<close>)
qed

lemma wake_waiter:
  assumes "kernel_ok k" "ws = waiters (semas k s)"
    and "(if ws \<noteq> [] then thread_unblock (last ws) (upd_sema s (\<lambda>x. x\<lparr>waiters := butlast ws\<rparr>) k) else Some k) = Some k'"
  shows "kernel_ok k'"
proof (cases "ws = []")
  case True
  then show ?thesis using assms by simp
next
  case False
  let ?t = "last ws" and ?k1 = "upd_sema s (\<lambda>x. x\<lparr>waiters := butlast ws\<rparr>) k"
  have k: "running_ok k" "work_ok k" using assms(1) by (simp_all add: kernel_ok_def)
  have "distinct ws" using waiters_current(1) [OF assms(1), of s] assms(2) by simp
  then have x: "distinct (butlast ws)" "set (butlast ws) = set ws - {?t}"
    using False by (simp_all add: distinct_butlast set_butlast_distinct)
  have t: "?t \<in> set (qof k (Q_sema s))" using False assms(2) by simp
  have "running_ok ?k1" "unqueued ?k1 ?t"
    by (rule dequeue [OF k(1) t, of ?k1 "butlast ws"]; use x assms(2) in simp)+
  then have u: "running_ok k' \<and> same_rest ?k1 k' \<and> (\<forall>u. parked ?k1 u \<longrightarrow> u \<noteq> ?t \<longrightarrow> parked k' u)"
    using thread_unblock_spec assms(3) False by simp
  have "same_rest k ?k1" by (rule same_rest_easy) simp_all
  then have "same_rest k k'" using u same_rest_trans by blast
  moreover have "parked k' u" if "parked k u" for u
  proof -
    have "u \<noteq> ?t" using that t by (auto simp: parked_def unqueued_def simp del: qof.simps)
    moreover have "parked ?k1 u"
      using that assms(2) parked_not_waiting [OF that, of s] by (auto simp: parked_def unqueued_def dest: in_set_butlastD)
    ultimately show ?thesis using u by blast
  qed
  ultimately show ?thesis using kernel_ok_switch [OF k(2)] u by blast
qed

lemma sema_up_plain:
  assumes "kernel_ok k" "\<And>l. s \<noteq> LockSema l" "sema_up s k = Some k'"
  shows "kernel_ok k'"
proof -
  let ?k = "upd_sema s (\<lambda>x. x\<lparr>sema_value := (sema_value x + 1) mod 2 ^ 32\<rparr>) k"
  have ne: "LockSema l \<noteq> s" for l using assms(2) [of l] by simp
  have "kernel_ok ?k"
    by (rule kernel_ok_cong [of k]) (use assms(1) ne in \<open>simp_all add: fun_upd_idem\<close>)
  then show ?thesis using wake_waiter [OF _ refl, of ?k s k'] assms(3) unfolding sema_up_def Let_def by blast
qed

section \<open>Lock transitions\<close>

definition tok :: "lptr \<Rightarrow> frame list \<Rightarrow> bool" where
  "tok l fs \<longleftrightarrow> (\<exists>r. fs = F_set_holder l # r \<or> fs = F_sema_up (LockSema l) # r)"

lemma plain_tok: "plain fs \<Longrightarrow> \<not> tok l fs"
  by (auto simp: tok_def)

lemma claims_other:
  assumes "frs k' = (frs k)(c := gs)" "\<not> tok l gs" "\<not> tok l (frs k c)"
    and "holder k' l = holder k l" "sema_value (semas k' (LockSema l)) = sema_value (semas k (LockSema l))"
  shows "claims k' l = claims k l"
proof (rule set_eqI)
  fix x
  show "x \<in> claims k' l \<longleftrightarrow> x \<in> claims k l"
    using assms by (cases x) (auto simp: tok_def)
qed

lemma claims_single: "lock_ok k l \<Longrightarrow> x \<in> claims k l \<Longrightarrow> y \<in> claims k l \<longleftrightarrow> y = x"
  by (auto simp: lock_ok_def)

lemma lock_step:
  assumes "work_ok k" "frs k' = (frs k)(c := gs)" "wf_frames gs" "stat k' = stat k" "qof k' = qof k"
    and "idle_thread k' = idle_thread k" "idle_thread k \<noteq> Some c" "stat k c \<noteq> Some THREAD_DYING"
    and "distinct (targets gs)" "set (targets gs) \<subseteq> set (creating k c)"
    and "\<And>l'. l' \<noteq> l \<Longrightarrow> \<not> tok l' gs \<and> \<not> tok l' (frs k c) \<and> holder k' l' = holder k l' \<and>
      sema_value (semas k' (LockSema l')) = sema_value (semas k (LockSema l'))"
    and "sema_value (semas k' (LockSema l)) \<le> 1" "claims k' l = {x}"
  shows "work_ok k'"
proof (rule work_ok_frames [OF assms(1-3,6,7)])
  show "lock_ok k' l'" for l'
  proof (cases "l' = l")
    case False
    then show ?thesis
      using claims_other [OF assms(2), of l'] assms(11) [OF False] work_okD(7) [OF assms(1), of l'] by (simp add: lock_ok_def)
  qed (use assms(12,13) in \<open>simp add: lock_ok_def\<close>)
  show "parked k' t" if "parked k t" for t using that parked_cong [OF assms(4-6)] by simp
qed (use assms in simp_all)

lemma current_facts:
  assumes "kernel_ok k"
  shows "running_ok k" "work_ok k" "stat k (current k) = Some THREAD_RUNNING" "wf_frames (frs k (current k))"
    "distinct (creating k u)"
  using assms work_okD by (auto simp: kernel_ok_def running_ok_def)

lemma idle_frames: "kernel_ok k \<Longrightarrow> frs k (current k) \<noteq> [F_idle_loop] \<Longrightarrow> idle_thread k \<noteq> Some (current k)"
  using work_okD(2) by (auto simp: kernel_ok_def)

text \<open>The four transitions of a lock, and \<open>lock_try_acquire\<close>.\<close>

lemma lock_taken:
  assumes "kernel_ok k" "frs k (current k) = F_sema_down (LockSema l) # F_set_holder l # r"
    and "sema_value (semas k (LockSema l)) \<noteq> 0"
    and "frs k' = (frs k)(current k := F_set_holder l # r)" "stat k' = stat k" "qof k' = qof k" "current k' = current k"
    and "idle_thread k' = idle_thread k" "holder k' = holder k"
    and "\<And>s. sema_value (semas k' s) = (if s = LockSema l then sema_value (semas k s) - 1 else sema_value (semas k s))"
  shows "kernel_ok k'"
proof -
  note k = current_facts [OF assms(1)]
  have l: "lock_ok k l" using work_okD(7) [OF k(2)] .
  have p: "plain r" using k(4) assms(2) by (auto simp: wf_frames_sema_down)
  have *: "y \<in> claims k l \<longleftrightarrow> y = Free" for y using claims_single [OF l, of Free] assms(3) by simp
  have "y \<in> claims k' l \<longleftrightarrow> y = Taking (current k)" for y
    using * [of y] l assms(2,4,9,10) by (cases y) (auto simp: lock_ok_def)
  then have c: "claims k' l = {Taking (current k)}" by blast
  have "work_ok k'"
    by (rule lock_step [OF k(2) assms(4) wf_holder [OF p] assms(5,6,8) idle_frames [OF assms(1)] _ _ _ _ _ c])
      (use assms k(3) p l in \<open>auto simp: creating_def tok_def lock_ok_def k(5) [of "current k", unfolded creating_def assms(2), simplified]\<close>)
  then show ?thesis using k(1) running_ok_cong [OF assms(5-8)] by (simp add: kernel_ok_def)
qed

lemma distinct_targets: "kernel_ok k \<Longrightarrow> distinct (targets (frs k u))"
  using current_facts(5) by (simp add: creating_def)

lemma lock_marked:
  assumes "kernel_ok k" "frs k (current k) = F_set_holder l # r"
    and "frs k' = (frs k)(current k := r)" "stat k' = stat k" "qof k' = qof k" "current k' = current k"
    and "idle_thread k' = idle_thread k" "holder k' = (holder k)(l := Some (current k))" "semas k' = semas k"
  shows "kernel_ok k'"
proof -
  note k = current_facts [OF assms(1)]
  have l: "lock_ok k l" using work_okD(7) [OF k(2)] .
  have p: "plain r" using k(4) assms(2) by (auto simp: wf_frames_special)
  have *: "y \<in> claims k l \<longleftrightarrow> y = Taking (current k)" for y
    using claims_single [OF l, of "Taking (current k)"] assms(2) by simp
  have "y \<in> claims k' l \<longleftrightarrow> y = Held" for y
    using * [of y] plain_tok [OF p, of l] assms(2,3,8,9) by (cases y) (auto simp: tok_def)
  then have c: "claims k' l = {Held}" by blast
  have "work_ok k'"
    by (rule lock_step [OF k(2) assms(3) wf_plain [OF p] assms(4,5,7) idle_frames [OF assms(1)] _ _ _ _ _ c])
      (use assms k(3) plain_tok [OF p] l distinct_targets [OF assms(1), of "current k"] in
        \<open>auto simp: creating_def tok_def lock_ok_def\<close>)
  then show ?thesis using k(1) running_ok_cong [OF assms(4-7)] by (simp add: kernel_ok_def)
qed

lemma lock_given_up:
  assumes "ready_to_call k" "holder k l = Some (current k)"
    and "frs k' = (frs k)(current k := F_sema_up (LockSema l) # frs k (current k))"
    and "stat k' = stat k" "qof k' = qof k" "current k' = current k" "idle_thread k' = idle_thread k"
    and "holder k' = (holder k)(l := None)" "semas k' = semas k"
  shows "kernel_ok k'"
proof -
  have ok: "kernel_ok k" and p: "plain (frs k (current k))" and i: "idle_thread k \<noteq> Some (current k)"
    using assms(1) by (simp_all add: ready_to_call_def)
  note k = current_facts [OF ok]
  have l: "lock_ok k l" using work_okD(7) [OF k(2)] .
  have *: "y \<in> claims k l \<longleftrightarrow> y = Held" for y using claims_single [OF l, of Held] assms(2) by simp
  have "y \<in> claims k' l \<longleftrightarrow> y = Releasing (current k)" for y
    using * [of y] plain_tok [OF p, of l] assms(3,8,9) by (cases y) (auto simp: tok_def)
  then have c: "claims k' l = {Releasing (current k)}" by blast
  have "work_ok k'"
    by (rule lock_step [OF k(2) assms(3) wf_up [OF p] assms(4,5,7) i _ _ _ _ _ c])
      (use assms k(3) plain_tok [OF p] l distinct_targets [OF ok, of "current k"] in
        \<open>auto simp: creating_def tok_def lock_ok_def\<close>)
  then show ?thesis using k(1) running_ok_cong [OF assms(4-7)] by (simp add: kernel_ok_def)
qed

lemma lock_freed:
  assumes "kernel_ok k" "frs k (current k) = F_sema_up (LockSema l) # r"
    and "frs k' = (frs k)(current k := r)" "stat k' = stat k" "qof k' = qof k" "current k' = current k"
    and "idle_thread k' = idle_thread k" "holder k' = holder k"
    and "\<And>s. sema_value (semas k' s) = (if s = LockSema l then (sema_value (semas k s) + 1) mod 2 ^ 32 else sema_value (semas k s))"
  shows "kernel_ok k'"
proof -
  note k = current_facts [OF assms(1)]
  have l: "lock_ok k l" using work_okD(7) [OF k(2)] .
  have p: "plain r" using k(4) assms(2) by (auto simp: wf_frames_sema_up)
  have *: "y \<in> claims k l \<longleftrightarrow> y = Releasing (current k)" for y
    using claims_single [OF l, of "Releasing (current k)"] assms(2) by simp
  have v: "sema_value (semas k (LockSema l)) = 0" using * [of Free] by simp
  have "y \<in> claims k' l \<longleftrightarrow> y = Free" for y
    using * [of y] v plain_tok [OF p, of l] assms(2,3,8,9) by (cases y) (auto simp: tok_def)
  then have c: "claims k' l = {Free}" by blast
  have "work_ok k'"
    by (rule lock_step [OF k(2) assms(3) wf_plain [OF p] assms(4,5,7) idle_frames [OF assms(1)] _ _ _ _ _ c])
      (use assms k(3) v plain_tok [OF p] l distinct_targets [OF assms(1), of "current k"] in
        \<open>auto simp: creating_def tok_def lock_ok_def\<close>)
  then show ?thesis using k(1) running_ok_cong [OF assms(4-7)] by (simp add: kernel_ok_def)
qed

lemma lock_tried:
  assumes "ready_to_call k" "sema_value (semas k (LockSema l)) \<noteq> 0"
    and "frs k' = frs k" "stat k' = stat k" "qof k' = qof k" "current k' = current k"
    and "idle_thread k' = idle_thread k" "holder k' = (holder k)(l := Some (current k))"
    and "\<And>s. sema_value (semas k' s) = (if s = LockSema l then sema_value (semas k s) - 1 else sema_value (semas k s))"
  shows "kernel_ok k'"
proof -
  have ok: "kernel_ok k" and p: "plain (frs k (current k))" and i: "idle_thread k \<noteq> Some (current k)"
    using assms(1) by (simp_all add: ready_to_call_def)
  note k = current_facts [OF ok]
  have l: "lock_ok k l" using work_okD(7) [OF k(2)] .
  have *: "y \<in> claims k l \<longleftrightarrow> y = Free" for y using claims_single [OF l, of Free] assms(2) by simp
  have "y \<in> claims k' l \<longleftrightarrow> y = Held" for y
    using * [of y] l assms(3,8,9) by (cases y) (auto simp: lock_ok_def)
  then have c: "claims k' l = {Held}" by blast
  have f: "frs k' = (frs k)(current k := frs k (current k))" using assms(3) by simp
  have "work_ok k'"
    by (rule lock_step [OF k(2) f k(4) assms(4,5,7) i _ _ _ _ _ c])
      (use assms k(3) plain_tok [OF p] l distinct_targets [OF ok, of "current k"] in
        \<open>auto simp: creating_def lock_ok_def\<close>)
  then show ?thesis using k(1) running_ok_cong [OF assms(4-7)] by (simp add: kernel_ok_def)
qed

section \<open>Every operation\<close>

lemma pop_frame_spec:
  assumes "pop_frame k = Some (f, k1)"
  shows "\<exists>r. frs k (current k) = f # r \<and> frs k1 = (frs k)(current k := r)"
    and "stat k1 = stat k" "qof k1 = qof k" "current k1 = current k" "idle_thread k1 = idle_thread k"
    and "holder k1 = holder k" "semas k1 = semas k" "conds k1 = conds k" "in_external_intr k1 = in_external_intr k"
proof -
  obtain t r where t: "threads k (current k) = Some t" "frames t = f # r"
    and k1: "k1 = upd_thread (current k) (\<lambda>t. t\<lparr>frames := r\<rparr>) k"
    using assms by (cases "threads k (current k)"; cases "frames (the (threads k (current k)))")
      (auto simp: pop_frame_def)
  have "frs k (current k) = f # r" using t by (simp add: frs_def)
  moreover have "frs k1 = (frs k)(current k := r)" using t by (auto simp: k1 frs_def upd_thread_def fun_eq_iff)
  ultimately show "\<exists>r. frs k (current k) = f # r \<and> frs k1 = (frs k)(current k := r)" by blast
  show "stat k1 = stat k" "qof k1 = qof k" "current k1 = current k" "idle_thread k1 = idle_thread k"
    "holder k1 = holder k" "semas k1 = semas k" "conds k1 = conds k" "in_external_intr k1 = in_external_intr k"
    by (simp_all add: k1)
qed

lemma pop_plain:
  assumes "kernel_ok k" "pop_frame k = Some (f, k1)" "plain_frame f"
  shows "ready_to_call k1"
proof -
  obtain r where r: "frs k (current k) = f # r" "frs k1 = (frs k)(current k := r)"
    using pop_frame_spec(1) [OF assms(2)] by blast
  note s = pop_frame_spec(2-9) [OF assms(2)]
  note k = current_facts [OF assms(1)]
  have p: "plain (f # r)" using k(4) assms(3) r(1) by (auto elim: wf_frames.cases)
  have "f \<noteq> F_idle_loop" using assms(3) by auto
  then have i: "idle_thread k \<noteq> Some (current k)" using idle_frames [OF assms(1)] r(1) by simp
  have "lock_ok k1 l" for l
    using claims_not_token [OF r(2), of l] plain_not_token [OF p] plain_not_token [of r] p r(1) s work_okD(7) [OF k(2), of l]
    by (simp add: lock_ok_def)
  then have "work_ok k1"
    using s i k(3) p r distinct_targets [OF assms(1), of "current k"] parked_cong [OF s(1,2,4)]
    by (intro work_ok_frames [OF k(2) r(2)]) (auto simp: creating_def intro: wf_plain split: frame.splits)
  then show ?thesis
    using k(1) running_ok_cong [OF s(1-4)] i p s r(2) by (simp add: ready_to_call_def kernel_ok_def)
qed

lemma thread_current_ok: "kernel_ok k \<Longrightarrow> thread_current k = Some c \<longleftrightarrow> c = current k"
  by (auto simp: thread_current_eq kernel_ok_def running_ok_def)

lemma ready_ok: "ready_to_call k \<Longrightarrow> kernel_ok k"
  by (simp add: ready_to_call_def)

lemma lock_acquire_ok:
  assumes "ready_to_call k" "lock_acquire l k = Some k'"
  shows "kernel_ok k'"
proof -
  have "\<exists>k1. neutral k k1 \<and> k' = push_frames [F_sema_down (LockSema l), F_set_holder l] k1"
  proof (cases "holder k l")
    case None
    then show ?thesis
      using assms(2) by (intro exI [of _ k]) (auto simp: lock_acquire_def bind_eq_Some_conv split: if_splits)
  next
    case (Some h)
    then have "(\<exists>k1. priority_donation (current k) h l k = Some k1 \<and>
          k' = push_frames [F_sema_down (LockSema l), F_set_holder l] k1) \<or>
        k' = push_frames [F_sema_down (LockSema l), F_set_holder l] k"
      using assms(2) by (cases "prio k h < prio k (current k)")
        (auto simp: lock_acquire_def thread_current_eq bind_eq_Some_conv split: if_splits)
    then show ?thesis using neutral_priority_donation neutral_refl by blast
  qed
  then obtain k1 where n: "neutral k k1" and k': "k' = push_frames [F_sema_down (LockSema l), F_set_holder l] k1"
    by blast
  have r: "ready_to_call k1" using ready_neutral [OF n assms(1)] .
  then have p: "plain (frs k1 (current k1))" by (simp add: ready_to_call_def)
  show ?thesis unfolding k' by (rule ready_push [OF r]) (use wf_down [OF p] in simp_all)
qed

lemma lock_release_ok:
  assumes "ready_to_call k" "lock_release l k = Some k'"
  shows "kernel_ok k'"
proof -
  let ?k = "k\<lparr>holder := (holder k)(l := None)\<rparr>"
  have st: "stat k (current k) = Some THREAD_RUNNING" using current_facts(3) [OF ready_ok [OF assms(1)]] .
  have tc: "thread_current k = Some (current k)" "thread_current ?k = Some (current k)"
    using st by (simp_all add: thread_current_eq)
  then have h: "holder k l = Some (current k)"
    using assms(2) by (auto simp: lock_release_def lock_held_by_current_thread_def bind_eq_Some_conv split: if_splits)
  obtain t where t: "threads k (current k) = Some t" using st by (auto simp: stat_def)
  obtain k1 where "(if possessing_locks t \<noteq> [] then priority_rollback (current k) l ?k else Some ?k) = Some k1"
    and k': "k' = push_frames [F_sema_up (LockSema l)] k1"
    using assms(2) tc h t by (auto simp: lock_release_def lock_held_by_current_thread_def Let_def bind_eq_Some_conv simp del: fun_upd_apply)
  then have n: "neutral ?k k1" using neutral_priority_rollback by (auto split: if_splits)
  have k1: "stat k1 = stat k" "frs k1 = frs k" "qof k1 = qof k" "current k1 = current k" "idle_thread k1 = idle_thread k"
      "holder k1 = (holder k)(l := None)" "semas k1 = semas k"
    using n by (simp_all add: neutral_def)
  show ?thesis
    by (rule lock_given_up [OF assms(1) h]) (use k1 st in \<open>simp_all add: k' frs_push\<close>)
qed

lemma lock_try_acquire_ok:
  assumes "ready_to_call k" "lock_try_acquire l k = Some (b, k')"
  shows "kernel_ok k'"
proof (cases "sema_value (semas k (LockSema l)) = 0")
  case True
  then show ?thesis
    using assms by (auto simp: lock_try_acquire_def sema_try_down_def ready_to_call_def bind_eq_Some_conv split: if_split_asm)
next
  case False
  then have k': "k' = (upd_sema (LockSema l) (\<lambda>x. x\<lparr>sema_value := sema_value x - 1\<rparr>) k)\<lparr>holder := (holder k)(l := Some (current k))\<rparr>"
    using assms(2) by (auto simp: lock_try_acquire_def sema_try_down_def set_holder_def thread_current_eq bind_eq_Some_conv split: if_split_asm)
  show ?thesis unfolding k' by (rule lock_tried [OF assms(1) False]) (simp_all add: fun_upd_idem)
qed

lemma sema_init_ok:
  assumes "kernel_ok k" "\<And>l. s \<noteq> LockSema l"
  shows "kernel_ok (sema_init s v k)"
proof -
  let ?k1 = "upd_sema s (\<lambda>x. x\<lparr>waiters := []\<rparr>) k"
  have ne: "LockSema l \<noteq> s" for l using assms(2) [of l] by simp
  note k = current_facts [OF assms(1)]
  have q: "queues_ok k" using k(1) by (simp add: running_ok_def)
  have "queues_ok ?k1" by (rule queues_shrink [OF q]) (use queuesD(1) [OF q] in simp_all)
  then have "running_ok ?k1" using k(3) by (simp add: running_ok_def)
  moreover have "same_rest k ?k1" by (rule same_rest_easy) simp_all
  moreover have "parked ?k1 t" if "parked k t" for t using that by (simp add: parked_def unqueued_def)
  ultimately have "kernel_ok ?k1" using kernel_ok_switch [OF k(2)] by blast
  then show ?thesis
    unfolding sema_init_def by (rule kernel_ok_cong) (simp_all add: ne fun_upd_idem)
qed

lemma ready_sema_init:
  assumes "ready_to_call k" "\<And>l. s \<noteq> LockSema l"
  shows "ready_to_call (sema_init s v k)"
  using sema_init_ok [of k s v] assms by (simp add: ready_to_call_def sema_init_def)

lemma cond_wait_ok:
  assumes "ready_to_call k" "cond_wait c l k = Some k'"
  shows "kernel_ok k'"
proof -
  let ?me = "current k"
  let ?k1 = "sema_init (WaiterSema ?me) 0 k"
  obtain cs where k': "k' = push_frames [F_lock_release l, F_sema_down (WaiterSema ?me), F_lock_acquire l]
      (?k1\<lparr>conds := cs\<rparr>)"
    using assms(2) unfolding cond_wait_def Let_def
    by (auto simp: bind_eq_Some_conv thread_current_eq split: if_split_asm)
  have r: "ready_to_call (?k1\<lparr>conds := cs\<rparr>)"
    by (rule ready_cong [OF ready_sema_init [OF assms(1), of "WaiterSema ?me" 0]]) simp_all
  show ?thesis unfolding k'
    by (rule ready_push [OF r]) (use r in \<open>auto simp: ready_to_call_def intro!: wf_plain\<close>)
qed

lemma cond_signal_ok:
  assumes "ready_to_call k" "cond_signal c l k = Some k'"
  shows "kernel_ok k'"
proof (cases "conds k c = []")
  case True
  then show ?thesis
    using assms by (auto simp: cond_signal_def bind_eq_Some_conv ready_to_call_def split: if_splits)
next
  case False
  let ?k1 = "k\<lparr>conds := (conds k)(c := butlast (conds k c))\<rparr>"
  have "sema_up (WaiterSema (se_thread (last (conds k c)))) ?k1 = Some k'"
    using False assms(2) by (auto simp: cond_signal_def Let_def bind_eq_Some_conv split: if_splits)
  moreover have "ready_to_call ?k1" by (rule ready_cong [OF assms(1)]) simp_all
  ultimately show ?thesis using sema_up_plain ready_ok by blast
qed

lemma cond_broadcast_ok:
  assumes "ready_to_call k" "cond_broadcast c l k = Some k'"
  shows "kernel_ok k'"
proof (cases "conds k c = []")
  case True
  then show ?thesis using assms by (simp add: cond_broadcast_def ready_to_call_def)
next
  case False
  let ?k1 = "push_frames [F_cond_broadcast c l] k"
  have p: "plain (F_cond_broadcast c l # frs k (current k))" using assms(1) by (simp add: ready_to_call_def)
  have "kernel_ok ?k1" by (rule ready_push [OF assms(1)]) (use wf_plain [OF p] in simp_all)
  then have "ready_to_call ?k1"
    using assms(1) current_facts(3) [OF ready_ok [OF assms(1)]] by (simp add: ready_to_call_def frs_push)
  then show ?thesis using cond_signal_ok assms(2) False by (simp add: cond_broadcast_def)
qed

lemma take_tid_ok:
  assumes "kernel_ok k" "take_tid t k = Some k'"
  shows "kernel_ok k'"
proof -
  have "neutral k k'"
    using assms(2) by (auto simp: take_tid_def Let_def bind_eq_Some_conv neutral_def)
  then show ?thesis using kernel_ok_neutral assms(1) by blast
qed

lemma thread_set_priority_ok:
  assumes "kernel_ok k" "thread_set_priority p k = Some k'"
  shows "kernel_ok k'"
proof (cases "thread_mlfqs k")
  case True
  then show ?thesis using assms by (simp add: thread_set_priority_def)
next
  case False
  obtain t where t: "threads k (current k) = Some t"
    using current_facts(3) [OF assms(1)] by (auto simp: stat_def)
  define k1 where "k1 = (if possessing_locks t \<noteq> []
      then upd_thread (current k) (\<lambda>t. t\<lparr>original_priority := p\<rparr>) k
      else upd_thread (current k) (\<lambda>t. t\<lparr>priority := p, original_priority := p\<rparr>) k)"
  have "neutral k k1" by (simp add: k1_def neutral_upd_thread)
  then have k1: "kernel_ok k1" using kernel_ok_neutral assms(1) by blast
  have tc: "thread_current k = Some (current k)" using thread_current_ok [OF assms(1)] by simp
  have "(if ready_list k1 \<noteq> [] then do {
          l \<leftarrow> threads k1 (last (ready_list k1));
          if p \<le> priority l then thread_yield k1 else Some k1
        } else Some k1) = Some k'"
    using assms(2) False unfolding thread_set_priority_def tc bind.simps t Let_def k1_def by simp
  then have "k' = k1 \<or> thread_yield k1 = Some k'" by (auto simp: bind_eq_Some_conv split: if_splits)
  then show ?thesis using k1 kernel_ok_yield by blast
qed

lemma thread_set_nice_ok:
  assumes "kernel_ok k" "thread_set_nice n k = Some k'"
  shows "kernel_ok k'"
proof -
  obtain c m k1 where k1: "calc_recent_cpu c (upd_thread c (\<lambda>t. t\<lparr>nice := m\<rparr>) k) = Some k1"
    and k': "thread_yield (upd_thread c (\<lambda>t. t\<lparr>priority := calc_priority (recent_cpu t) (nice t)\<rparr>) k1) = Some k'"
    using assms(2) by (auto simp: thread_set_nice_def Let_def bind_eq_Some_conv)
  have "neutral k k1" using neutral_calc_recent_cpu [OF k1] by (simp add: neutral_after_upd)
  moreover have "neutral k1 (upd_thread c (\<lambda>t. t\<lparr>priority := calc_priority (recent_cpu t) (nice t)\<rparr>) k1)"
    by (rule neutral_upd_thread) simp_all
  ultimately show ?thesis using kernel_ok_yield k' kernel_ok_neutral assms(1) by blast
qed

lemma timer_sleep_ok:
  assumes "ready_to_call k" "timer_sleep n k = Some k'"
  shows "kernel_ok k'"
proof (cases "n \<le> 0")
  case True
  then show ?thesis using assms by (simp add: timer_sleep_def ready_to_call_def)
next
  case False
  note ok = ready_ok [OF assms(1)]
  define k1 where "k1 = upd_thread (current k) (\<lambda>th. th\<lparr>waking_time := s64 (ticks k + n)\<rparr>) k"
  let ?ws = "insert_ordered (less_waking_time k1) (current k) (waiting_list k1)"
  have k1: "kernel_ok k1" using kernel_ok_neutral [OF neutral_upd_thread ok] by (simp add: k1_def)
  have "thread_block (waiting_list_push_back (current k) k1) = Some k'"
    using assms(2) False ok by (auto simp: timer_sleep_def Let_def k1_def thread_current_ok bind_eq_Some_conv)
  moreover have "waiting_list_push_back (current k) k1 = k1\<lparr>waiting_list := ?ws\<rparr>" by (simp add: waiting_list_push_back_def)
  ultimately have tb: "thread_block (k1\<lparr>waiting_list := ?ws\<rparr>) = Some k'" by simp
  have w: "distinct (waiting_list k1)" "current k \<notin> set (waiting_list k1)"
    using queuesD(1) [of k1 Q_sleep] unqueued_current [of k1 "current k" Q_sleep] k1
    by (auto simp: kernel_ok_def running_ok_def k1_def)
  have i: "idle_thread k1 \<noteq> Some (current k1)" using assms(1) by (simp add: k1_def ready_to_call_def)
  show ?thesis
    by (rule block_on_queue [OF k1 i tb, of Q_sleep ?ws]) (use w in \<open>auto simp: k1_def\<close>)
qed

section \<open>Creation and exit of threads\<close>

lemma create_rest_ok:
  assumes "ready_to_call k" "parked k t" "\<And>u. t \<notin> set (creating k u)" "create_rest t k = Some k'"
  shows "kernel_ok k'"
proof -
  obtain k1 where n: "neutral k k1" and u: "thread_unblock t k1 = Some k'"
  proof -
    obtain c th where c: "thread_current k = Some c" "threads k t = Some th"
      using assms(4) by (auto simp: create_rest_def bind_eq_Some_conv)
    let ?k1 = "upd_thread t (\<lambda>th. th\<lparr>parent_thread := Some c\<rparr>) k"
    let ?k2 = "if th_name th \<noteq> ''idle'' then
        upd_thread c (\<lambda>p. p\<lparr>children_thread_list := children_thread_list p @ [t],
          child_info_list := child_info_list p @
            [\<lparr>ci_tid = tid th, ci_exit_status = 0, ci_exited = False, ci_waited = False\<rparr>]\<rparr>) ?k1
      else ?k1"
    have "thread_unblock t ?k2 = Some k'"
      using assms(4) unfolding create_rest_def c bind.simps Let_def .
    moreover have "neutral k ?k2"
      by (simp add: neutral_upd_thread neutral_trans [OF neutral_upd_thread neutral_upd_thread])
    ultimately show ?thesis using that by blast
  qed
  have k1: "running_ok k1" "work_ok k1"
    using kernel_ok_neutral [OF n] assms(1) by (simp_all add: ready_to_call_def kernel_ok_def)
  have pc: "parked k1 u = parked k u" for u using n by (intro parked_cong) (simp_all add: neutral_def)
  have "parked k1 t" using assms(2) pc by simp
  then have "unqueued k1 t" by (simp add: parked_def)
  then have s: "running_ok k' \<and> same_rest k1 k' \<and> (\<forall>u. parked k1 u \<longrightarrow> u \<noteq> t \<longrightarrow> parked k' u)"
    using thread_unblock_spec [OF k1(1) _ u] by blast
  have "creating k1 = creating k" using n by (simp add: creating_def neutral_def fun_eq_iff)
  then have "work_ok k'" using work_ok_switch [OF k1(2), of k'] s assms(3) by metis
  then show ?thesis using s by (simp add: kernel_ok_def)
qed

lemma pop_create:
  assumes "kernel_ok k" "pop_frame k = Some (F_create t, k1)"
  shows "ready_to_call k1" "parked k1 t" "\<And>u. t \<notin> set (creating k1 u)"
proof -
  show "ready_to_call k1" using pop_plain [OF assms] by simp
  obtain r where r: "frs k (current k) = F_create t # r" "frs k1 = (frs k)(current k := r)"
    using pop_frame_spec(1) [OF assms(2)] by blast
  note w = current_facts(2) [OF assms(1)]
  have t: "t \<in> set (creating k (current k))" using r(1) by (simp add: creating_def)
  then have "parked k t" using work_okD(5) [OF w] by blast
  then show "parked k1 t" using parked_cong [OF pop_frame_spec(2,3,5) [OF assms(2)]] by simp
  fix u
  show "t \<notin> set (creating k1 u)"
    using distinct_targets [OF assms(1), of "current k"] work_okD(6) [OF w t, of u] r by (auto simp: creating_def)
qed

lemma push_create:
  assumes "ready_to_call k" "parked k t" "\<And>u. t \<notin> set (creating k u)"
  shows "kernel_ok (push_frames [F_lock_acquire tid_lock, F_take_tid t, F_lock_release tid_lock, F_create t] k)"
    (is "kernel_ok (push_frames ?fs k)")
proof -
  have ok: "kernel_ok k" and p: "plain (frs k (current k))" and i: "idle_thread k \<noteq> Some (current k)"
    using assms(1) by (simp_all add: ready_to_call_def)
  note k = current_facts [OF ok]
  have f: "frs (push_frames ?fs k) = (frs k)(current k := ?fs @ frs k (current k))" using k(3) by (simp add: frs_push)
  have c: "creating (push_frames ?fs k) = (creating k)(current k := t # creating k (current k))"
    unfolding creating_def f by (auto simp: fun_eq_iff)
  have l: "lock_ok (push_frames ?fs k) l" for l
    using claims_not_token [OF f _ plain_not_token [OF p], of l] work_okD(7) [OF k(2), of l] by (simp add: lock_ok_def)
  have wf: "wf_frames (?fs @ frs k (current k))" using p by (intro wf_plain) simp
  have "work_ok (push_frames ?fs k)"
  proof (rule work_okI)
    show "wf_frames (frs (push_frames ?fs k) u)" for u using wf work_okD(1) [OF k(2), of u] f by simp
    show "frs (push_frames ?fs k) u = [F_idle_loop]" if "idle_thread (push_frames ?fs k) = Some u" for u
      using that i work_okD(2) [OF k(2), of u] f by auto
    show "frs (push_frames ?fs k) u = []" if "stat (push_frames ?fs k) u = Some THREAD_DYING" for u
      using that k(3) work_okD(3) [OF k(2), of u] f by auto
    show "distinct (creating (push_frames ?fs k) u)" for u using k(5) assms(3) c by simp
    show "parked (push_frames ?fs k) v" if "v \<in> set (creating (push_frames ?fs k) u)" for u v
      using that assms(2) work_okD(5) [OF k(2)] c by (auto simp: parked_cong [of "push_frames ?fs k" k] split: if_splits)
    show "u = v" if "x \<in> set (creating (push_frames ?fs k) u)" "x \<in> set (creating (push_frames ?fs k) v)" for u v x
      using that assms(3) work_okD(6) [OF k(2), of x u v] c by (auto split: if_splits)
  qed (rule l)
  then show ?thesis using k(1) running_ok_cong [of "push_frames ?fs k" k] by (simp add: kernel_ok_def)
qed

lemma queue_live: "running_ok k \<Longrightarrow> t \<in> set (qof k q) \<Longrightarrow> threads k t \<noteq> None"
  using queuesD(2) [of k t q] by (auto simp: running_ok_def stat_def)

lemma init_thread_ok:
  assumes "ready_to_call k" "threads k t = None" "init_thread t name p k = Some k'"
  shows "ready_to_call k'" "parked k' t" "frs k' = frs k"
proof -
  note ok = ready_ok [OF assms(1)]
  note k = current_facts [OF ok]
  let ?th = "empty_thread\<lparr>status := THREAD_BLOCKED, th_name := take 15 name, priority := p, original_priority := p\<rparr>"
  let ?k1 = "k\<lparr>threads := (threads k)(t \<mapsto> ?th)\<rparr>"
  let ?k2 = "sema_init (WaitSema t) 0 (sema_init (ChildSync t) 0 ?k1)"
  have k': "k' = ?k2\<lparr>all_list := all_list ?k2 @ [t]\<rparr>"
    using assms(3) by (auto simp: init_thread_def Let_def bind_eq_Some_conv split: if_splits)
  have st: "stat ?k1 = (stat k)(t \<mapsto> THREAD_BLOCKED)" by (simp add: stat_def fun_eq_iff empty_thread_def)
  have fr: "frs ?k1 = frs k" using assms(2) by (auto simp: frs_def fun_eq_iff empty_thread_def)
  have nq: "t \<notin> set (qof k q)" for q using queue_live [OF k(1)] assms(2) by blast
  have tc: "t \<noteq> current k" using k(3) assms(2) by (auto simp: stat_def)
  have "idle_thread k \<noteq> Some t" using work_okD(2) [OF k(2), of t] assms(2) by (auto simp: frs_def)
  then have pk: "parked ?k1 t" using nq st by (simp add: parked_def unqueued_def)
  have "queues_ok ?k1"
    by (rule queues_status [of k t THREAD_BLOCKED]) (use k(1) nq st in \<open>simp_all add: running_ok_def\<close>)
  then have r1: "running_ok ?k1" using k(3) st tc by (simp add: running_ok_def)
  have "claims ?k1 l = claims k l" for l by (rule claims_cong) (simp_all add: fr)
  moreover have "parked ?k1 u" if "parked k u" for u
    using that nq st by (auto simp: parked_def unqueued_def)
  ultimately have "work_ok ?k1"
    using work_okD [OF k(2)] st fr
    by (intro work_okI) (auto simp: creating_def lock_ok_def split: if_splits)
  then have k1: "ready_to_call ?k1" using r1 assms(1) fr by (simp add: ready_to_call_def kernel_ok_def)
  then have "ready_to_call ?k2" by (intro ready_sema_init) simp_all
  then show "ready_to_call k'" by (rule ready_cong) (simp_all add: k')
  show "frs k' = frs k" using fr by (simp add: k' sema_init_def)
  show "parked k' t" using pk by (simp add: k' sema_init_def parked_def unqueued_def)
qed

lemma thread_create_ok:
  assumes "ready_to_call k" "threads k t = None" "wf_frames body" "\<not> token body" "targets body = []"
    and "thread_create (Some t) name p body k = Some k'"
  shows "kernel_ok k'"
proof -
  obtain k1 where k1: "init_thread t name p k = Some k1"
    using assms(6) by (auto simp: thread_create_def bind_eq_Some_conv)
  note i = init_thread_ok [OF assms(1,2) k1]
  define m where "m = (if thread_mlfqs k1 then do {
                  n \<leftarrow> thread_get_nice k1;
                  r \<leftarrow> thread_get_recent_cpu k1;
                  Some (upd_thread t (\<lambda>th. th\<lparr>nice := n, recent_cpu := r, priority := calc_priority r n\<rparr>) k1)
                } else Some k1)"
  have "(m \<bind> (\<lambda>k. Some (push_frames [F_lock_acquire tid_lock, F_take_tid t, F_lock_release tid_lock, F_create t]
      (upd_thread t (\<lambda>th. th\<lparr>frames := body\<rparr>) k)))) = Some k'"
    using assms(6) k1 by (simp add: thread_create_def Let_def m_def)
  then obtain k2 where k2: "m = Some k2" and k': "k' = push_frames [F_lock_acquire tid_lock, F_take_tid t,
      F_lock_release tid_lock, F_create t] (upd_thread t (\<lambda>th. th\<lparr>frames := body\<rparr>) k2)"
    by (auto simp: bind_eq_Some_conv)
  have n: "neutral k1 k2" using k2 by (auto simp: m_def bind_eq_Some_conv intro: neutral_upd_thread split: if_splits)
  have r2: "ready_to_call k2" using ready_neutral [OF n i(1)] .
  note k = current_facts [OF ready_ok [OF r2]]
  have e: "stat k2 = stat k1" "frs k2 = frs k" "idle_thread k2 = idle_thread k1" "qof k2 = qof k1"
    using n i(3) by (simp_all add: neutral_def)
  have p2: "parked k2 t" using i(2) parked_cong [OF e(1,4,3)] by simp
  let ?k3 = "upd_thread t (\<lambda>th. th\<lparr>frames := body\<rparr>) k2"
  have s3: "stat ?k3 = stat k2" "qof ?k3 = qof k2" by simp_all
  have "threads k2 t \<noteq> None" using p2 by (auto simp: parked_def stat_def)
  then have f3: "frs ?k3 = (frs k2)(t := body)" by (auto simp: frs_def upd_thread_def fun_eq_iff)
  have ft: "frs k2 t = []" using e(2) assms(2) by (simp add: frs_def)
  have tc: "t \<noteq> current k2" using p2 k(3) by (auto simp: parked_def)
  have "lock_ok ?k3 l" for l
    using claims_not_token [OF f3 assms(4), of l] ft work_okD(7) [OF k(2), of l] by (simp add: lock_ok_def)
  then have "work_ok ?k3"
    using p2 assms(3,5) by (intro work_ok_frames [OF k(2) f3])
      (auto simp: parked_cong [of ?k3 k2] parked_def unqueued_def)
  then have r3: "ready_to_call ?k3"
    using r2 k(1) running_ok_cong [of ?k3 k2] f3 tc by (simp add: ready_to_call_def kernel_ok_def)
  have cr: "creating ?k3 = creating k" using f3 e(2) assms(2,5) by (auto simp: creating_def fun_eq_iff frs_def)
  have "t \<notin> set (creating k u)" for u
    using work_okD(5) [of k t u] assms(1,2) by (auto simp: ready_to_call_def kernel_ok_def parked_def stat_def)
  then show ?thesis
    unfolding k' using push_create [OF r3] p2 cr parked_cong [of ?k3 k2] by simp
qed

lemma thread_exit_ok:
  assumes "ready_to_call k" "frs k (current k) = []" "thread_exit k = Some k'"
  shows "kernel_ok k'"
proof -
  note ok = ready_ok [OF assms(1)]
  obtain k1 where k1: "process_exit k = Some k1"
    using assms(3) by (cases "process_exit k") (simp_all add: thread_exit_def)
  have n1: "neutral k k1"
    using k1 by (auto simp: process_exit_def bind_eq_Some_conv neutral_def split: if_splits)
  have c1: "thread_current k1 = Some (current k)"
    using thread_current_ok [OF kernel_ok_neutral [OF n1 ok]] n1 by (simp add: neutral_def)
  let ?c = "current k"
  let ?k2 = "k1\<lparr>all_list := filter (\<lambda>t. t \<noteq> ?c) (all_list k1)\<rparr>"
  let ?k4 = "\<lambda>k3. (upd_thread ?c (\<lambda>t. t\<lparr>possessing_locks := [], child_info_list := []\<rparr>) k3)\<lparr>frame_table :=
        filter (\<lambda>(f, owner). owner \<noteq> ?c) (frame_table (upd_thread ?c (\<lambda>t. t\<lparr>possessing_locks := [], child_info_list := []\<rparr>) k3))\<rparr>"
  define m where "m = (if ?c \<noteq> initial_thread ?k2 then do {
             t \<leftarrow> threads ?k2 ?c;
             p \<leftarrow> parent_thread t;
             pt \<leftarrow> threads ?k2 p;
             ASSERT (?c \<in> set (children_thread_list pt));
             Some (upd_thread p (\<lambda>pt. pt\<lparr>children_thread_list :=
               filter (\<lambda>t. t \<noteq> ?c) (children_thread_list pt)\<rparr>) ?k2)
           } else Some ?k2)"
  have ne: "\<not> in_external_intr k" using assms(3) by (auto simp: thread_exit_def)
  have "(m \<bind> (\<lambda>k. sema_up (WaitSema ?c) (push_frames [F_die] (?k4 k)))) = Some k'"
    using assms(3) ne unfolding thread_exit_def k1 bind.simps c1 Let_def m_def by simp
  then obtain k3 where k3: "m = Some k3" and k': "sema_up (WaitSema ?c) (push_frames [F_die] (?k4 k3)) = Some k'"
    unfolding bind_eq_Some_conv by blast
  have "neutral ?k2 k3"
    using k3 by (auto simp: m_def bind_eq_Some_conv neutral_upd_thread split: if_splits)
  then have n3: "neutral k k3" using n1 by (simp add: neutral_def)
  have n4: "neutral k (?k4 k3)" using n3 by (simp add: neutral_def)
  have r4: "ready_to_call (?k4 k3)" using ready_neutral [OF n4 assms(1)] .
  have f4: "frs (?k4 k3) (current (?k4 k3)) = []" using n4 assms(2) by (simp add: neutral_def)
  have "kernel_ok (push_frames [F_die] (?k4 k3))"
    by (rule ready_push [OF r4]) (use f4 wf_die in simp_all)
  then show ?thesis using sema_up_plain k' by blast
qed

lemma thread_die_ok:
  assumes "kernel_ok k" "pop_frame k = Some (F_die, k1)" "thread_die k1 = Some k'"
  shows "kernel_ok k'"
proof -
  note k = current_facts [OF assms(1)]
  note s = pop_frame_spec(2-9) [OF assms(2)]
  obtain r where r: "frs k (current k) = F_die # r" "frs k1 = (frs k)(current k := r)"
    using pop_frame_spec(1) [OF assms(2)] by blast
  then have r0: "r = []" using k(4) by (auto simp: wf_frames_special)
  have i: "idle_thread k \<noteq> Some (current k)" using idle_frames [OF assms(1)] r(1) by simp
  let ?k2 = "set_status (current k) THREAD_DYING k1"
  have st: "stat ?k2 = (stat k)(current k \<mapsto> THREAD_DYING)" using s(1) k(3) by (simp add: stat_set_status_fun)
  have sc: "schedule ?k2 = Some k'"
    using assms(3) s k(3) by (auto simp: thread_die_def thread_current_eq bind_eq_Some_conv)
  have q: "queues_ok ?k2"
    by (rule queues_status [of k "current k" THREAD_DYING])
      (use k(1) unqueued_current [OF k(1)] st s in \<open>auto simp: running_ok_def\<close>)
  have f: "frs ?k2 = (frs k)(current k := [])" using r(2) r0 by simp
  have lk: "lock_ok ?k2 l" for l
    using claims_not_token [OF f, of l] r(1) s work_okD(7) [OF k(2), of l] by (simp add: lock_ok_def)
  have pk: "parked ?k2 u" if "parked k u" for u
    using that st s k(3) by (auto simp: parked_def unqueued_def)
  have cr: "creating ?k2 u = (if u = current k then [] else creating k u)" for u using f by (simp add: creating_def)
  have "work_ok ?k2"
  proof (rule work_okI)
    show "wf_frames (frs ?k2 t)" for t using work_okD(1) [OF k(2), of t] f by (auto intro: wf_plain)
    show "frs ?k2 t = [F_idle_loop]" if "idle_thread ?k2 = Some t" for t
      using that i s work_okD(2) [OF k(2), of t] f by auto
    show "frs ?k2 t = []" if "stat ?k2 t = Some THREAD_DYING" for t
      using that st work_okD(3) [OF k(2), of t] f by (auto split: if_splits)
    show "distinct (creating ?k2 u)" for u using k(5) cr by simp
    show "parked ?k2 t" if "t \<in> set (creating ?k2 u)" for t u
      using that cr pk work_okD(5) [OF k(2)] by (auto split: if_splits)
    show "u = v" if "t \<in> set (creating ?k2 u)" "t \<in> set (creating ?k2 v)" for t u v
      using that cr work_okD(6) [OF k(2), of t u v] by (auto split: if_splits)
  qed (rule lk)
  then show ?thesis
    using kernel_ok_switch schedule_spec [OF q _ sc] st s(3) by simp
qed

lemma idle_start_ok:
  assumes "kernel_ok k" "pop_frame k = Some (F_idle_start x, k1)" "idle_start x k1 = Some k'"
  shows "kernel_ok k'"
proof -
  note k = current_facts [OF assms(1)]
  note s = pop_frame_spec(2-9) [OF assms(2)]
  obtain r where r: "frs k (current k) = F_idle_start x # r" "frs k1 = (frs k)(current k := r)"
    using pop_frame_spec(1) [OF assms(2)] by blast
  then obtain n where r0: "r = []" "x = Sema n" using k(4) by (auto simp: wf_frames_special)
  let ?k2 = "push_frames [F_idle_loop] (k1\<lparr>idle_thread := Some (current k)\<rparr>)"
  have up: "sema_up x ?k2 = Some k'"
    using assms(3) s k(3) by (auto simp: idle_start_def thread_current_eq bind_eq_Some_conv)
  have f: "frs ?k2 = (frs k)(current k := [F_idle_loop])" using r(2) r0 s k(3) by (simp add: frs_push)
  have cr: "creating ?k2 u = (if u = current k then [] else creating k u)" for u using f by (simp add: creating_def)
  have lk: "lock_ok ?k2 l" for l
    using claims_not_token [OF f, of l] r(1) s work_okD(7) [OF k(2), of l] by (simp add: lock_ok_def)
  have nc: "t \<noteq> current k" if "t \<in> set (qof k q)" for t q using unqueued_current [OF k(1) that] .
  have q: "queues_ok k" using k(1) by (simp add: running_ok_def)
  have qs: "qof ?k2 = qof k" "stat ?k2 = stat k" "current ?k2 = current k" "idle_thread ?k2 = Some (current k)"
    using s by simp_all
  have "queues_ok ?k2"
    by (rule queuesI; unfold qs) (use queuesD [OF q] nc in blast)+
  then have "running_ok ?k2" using k(3) s by (simp add: running_ok_def)
  moreover have "parked ?k2 u" if "parked k u" for u
    using that s k(3) by (auto simp: parked_def unqueued_def)
  then have "work_ok ?k2"
    using f lk cr work_okD(1-6) [OF k(2)] s k(3)
    by (intro work_okI) (auto intro: wf_frames.intros split: if_splits)
  ultimately have "kernel_ok ?k2" by (simp add: kernel_ok_def)
  then show ?thesis using sema_up_plain [OF _ _ up] r0 by simp
qed

lemma idle_loop_ok:
  assumes "kernel_ok k" "pop_frame k = Some (F_idle_loop, k1)" "idle_loop k1 = Some k'"
  shows "kernel_ok k'"
proof -
  note k = current_facts [OF assms(1)]
  note s = pop_frame_spec(2-9) [OF assms(2)]
  obtain r where r: "frs k (current k) = F_idle_loop # r" "frs k1 = (frs k)(current k := r)"
    using pop_frame_spec(1) [OF assms(2)] by blast
  let ?kb = "push_frames [F_idle_loop] k1"
  have f: "frs ?kb = frs k" using r s k(3) by (auto simp: frs_push)
  have ok: "kernel_ok ?kb" by (rule kernel_ok_cong [OF assms(1)]) (use s f in simp_all)
  have "queues_ok (set_status (current k) THREAD_BLOCKED ?kb)"
    by (rule queues_status [of k "current k" THREAD_BLOCKED])
      (use k(1,3) unqueued_current [OF k(1)] s in \<open>auto simp: running_ok_def stat_set_status_fun\<close>)
  then show ?thesis
    using kernel_ok_switch [OF current_facts(2) [OF ok]] thread_block_spec [of ?kb k'] s k(3) assms(3)
    by (simp add: idle_loop_def)
qed

section \<open>All steps, all reachable states\<close>

lemma set_holder_ok:
  assumes "kernel_ok k" "pop_frame k = Some (F_set_holder l, k1)" "set_holder l k1 = Some k'"
  shows "kernel_ok k'"
proof -
  note s = pop_frame_spec(2-9) [OF assms(2)]
  obtain r where r: "frs k (current k) = F_set_holder l # r" "frs k1 = (frs k)(current k := r)"
    using pop_frame_spec(1) [OF assms(2)] by blast
  have k': "k' = k1\<lparr>holder := (holder k)(l := Some (current k))\<rparr>"
    using assms(3) s by (auto simp: set_holder_def thread_current_eq bind_eq_Some_conv)
  show ?thesis unfolding k' by (rule lock_marked [OF assms(1) r(1)]) (use r(2) s in simp_all)
qed

lemma lock_down_ok:
  assumes "kernel_ok k" "pop_frame k = Some (F_sema_down (LockSema l), k1)" "sema_down (LockSema l) k1 = Some k'"
  shows "kernel_ok k'"
proof -
  note k = current_facts [OF assms(1)]
  note s = pop_frame_spec(2-9) [OF assms(2)]
  obtain r where r: "frs k (current k) = F_sema_down (LockSema l) # r" "frs k1 = (frs k)(current k := r)"
    using pop_frame_spec(1) [OF assms(2)] by blast
  then obtain r' where r': "r = F_set_holder l # r'" using k(4) by (auto simp: wf_frames_sema_down)
  have i: "idle_thread k1 \<noteq> Some (current k1)" using idle_frames [OF assms(1)] r(1) s by simp
  show ?thesis
  proof (cases "sema_value (semas k1 (LockSema l)) = 0")
    case True
    have "frs (push_frames [F_sema_down (LockSema l)] k1) = frs k"
      using r s k(3) by (auto simp: frs_push)
    then have "kernel_ok (push_frames [F_sema_down (LockSema l)] k1)"
      by (intro kernel_ok_cong [OF assms(1)]) (use s in simp_all)
    then show ?thesis using sema_down_blocks i True assms(3) by blast
  next
    case False
    then have k': "k' = upd_sema (LockSema l) (\<lambda>x. x\<lparr>sema_value := sema_value x - 1\<rparr>) k1"
      using assms(3) by (auto simp: sema_down_def split: if_splits)
    show ?thesis unfolding k'
      by (rule lock_taken [OF assms(1) r(1) [unfolded r']]) (use False r(2) r' s in \<open>simp_all add: fun_upd_idem\<close>)
  qed
qed

lemma lock_up_ok:
  assumes "kernel_ok k" "pop_frame k = Some (F_sema_up (LockSema l), k1)" "sema_up (LockSema l) k1 = Some k'"
  shows "kernel_ok k'"
proof -
  note s = pop_frame_spec(2-9) [OF assms(2)]
  obtain r where r: "frs k (current k) = F_sema_up (LockSema l) # r" "frs k1 = (frs k)(current k := r)"
    using pop_frame_spec(1) [OF assms(2)] by blast
  let ?k = "upd_sema (LockSema l) (\<lambda>x. x\<lparr>sema_value := (sema_value x + 1) mod 2 ^ 32\<rparr>) k1"
  have "kernel_ok ?k"
    by (rule lock_freed [OF assms(1) r(1)]) (use r(2) s in \<open>simp_all add: fun_upd_idem\<close>)
  then show ?thesis using wake_waiter [OF _ refl, of ?k "LockSema l" k'] assms(3) unfolding sema_up_def Let_def by blast
qed

lemma run_ok:
  assumes "kernel_ok k" "run k = Some k'"
  shows "kernel_ok k'"
proof -
  obtain f k1 where p: "pop_frame k = Some (f, k1)" and e: "run_frame f k1 = Some k'"
    using assms(2) by (auto simp: run_def bind_eq_Some_conv)
  have pl: "plain_frame f \<Longrightarrow> ready_to_call k1" using pop_plain [OF assms(1) p] .
  show ?thesis
  proof (cases f)
    case (F_sema_down s)
    then show ?thesis using lock_down_ok [OF assms(1)] sema_down_plain [OF pl] p e by (cases s) auto
  next
    case (F_sema_up s)
    then show ?thesis using lock_up_ok [OF assms(1)] sema_up_plain [OF ready_ok [OF pl]] p e by (cases s) auto
  next
    case (F_create t)
    then show ?thesis using create_rest_ok [OF pop_create [OF assms(1)]] p e by simp
  next
    case F_lock_acquire then show ?thesis using lock_acquire_ok [OF pl] e by simp
  next
    case F_lock_release then show ?thesis using lock_release_ok [OF pl] e by simp
  next
    case F_cond_signal then show ?thesis using cond_signal_ok [OF pl] e by simp
  next
    case F_cond_broadcast then show ?thesis using cond_broadcast_ok [OF pl] e by simp
  next
    case F_take_tid then show ?thesis using take_tid_ok [OF ready_ok [OF pl]] e by simp
  qed (use p e set_holder_ok [OF assms(1)] thread_die_ok [OF assms(1)] idle_start_ok [OF assms(1)]
        idle_loop_ok [OF assms(1)] in auto)
qed

lemma sema_try_down_ok:
  assumes "kernel_ok k" "\<And>l. s \<noteq> LockSema l"
  shows "kernel_ok (snd (sema_try_down s k))"
proof (cases "sema_value (semas k s) > 0")
  case True
  have ne: "LockSema l \<noteq> s" for l using assms(2) [of l] by simp
  show ?thesis unfolding sema_try_down_def using True
    by simp (rule kernel_ok_cong [OF assms(1)]; simp add: ne fun_upd_idem)
qed (use assms in \<open>simp add: sema_try_down_def\<close>)

lemma do_call_ok:
  assumes "kernel_ok k" "frs k (current k) = []" "call_ok c k" "do_call c k = Some k'"
  shows "kernel_ok k'"
proof -
  have r: "ready_to_call k" using idle_frames [OF assms(1)] assms(1,2) by (simp add: ready_to_call_def)
  note ops = lock_acquire_ok [OF r] lock_try_acquire_ok [OF r] lock_release_ok [OF r] cond_wait_ok [OF r] cond_signal_ok [OF r]
    cond_broadcast_ok [OF r] thread_exit_ok [OF r assms(2)] kernel_ok_yield [OF assms(1)] timer_sleep_ok [OF r]
    thread_set_priority_ok [OF assms(1)] thread_set_nice_ok [OF assms(1)]
  show ?thesis
  proof (cases c)
    case (Create page name p)
    show ?thesis
    proof (cases page)
      case None
      then show ?thesis using Create assms(1,4) by (simp add: thread_create_def)
    next
      case (Some t)
      then show ?thesis
        using Create assms(3,4) thread_create_ok [OF r, of t "[]" name p k'] wf_plain [of "[]"] by simp
    qed
  next
    case (Sema_down s) then show ?thesis using sema_down_plain [OF r, of "Sema s"] assms(4) by simp
  next
    case (Sema_up s) then show ?thesis using sema_up_plain [OF assms(1), of "Sema s"] assms(4) by simp
  next
    case (Sema_try_down s) then show ?thesis using sema_try_down_ok [OF assms(1), of "Sema s"] assms(4) by auto
  qed (use ops assms(4) in auto)
qed

lemma step_ok: "step k k' \<Longrightarrow> kernel_ok k \<Longrightarrow> kernel_ok k'"
proof (induction rule: step.induct)
  case (call k t c k')
  then show ?case using do_call_ok [of k c k'] by (simp add: frs_def)
qed (use run_ok kernel_ok_tick in blast)+

text \<open>The states that can be reached after \<open>thread_init\<close> and \<open>thread_start\<close>.\<close>

inductive reach :: "tptr \<Rightarrow> tptr \<Rightarrow> bool \<Rightarrow> kernel \<Rightarrow> bool" for main idle :: tptr and mlfqs :: bool where
  boot: "\<lbrakk>main \<noteq> idle; thread_start idle (thread_init main mlfqs) = Some k\<rbrakk> \<Longrightarrow> reach main idle mlfqs k"
| next': "\<lbrakk>reach main idle mlfqs k; step k k'\<rbrakk> \<Longrightarrow> reach main idle mlfqs k'"

lemma thread_init_ok: "ready_to_call (thread_init t mlfqs)"
proof -
  let ?k = "thread_init t mlfqs"
  have q: "qof ?k q = []" for q by (cases q) (auto simp: thread_init_def split: sema_id.splits)
  have s: "stat ?k u = (if u = t then Some THREAD_RUNNING else None)" for u
    by (simp add: stat_def thread_init_def empty_thread_def)
  have f: "frs ?k u = []" for u by (simp add: frs_def thread_init_def empty_thread_def)
  have e: "current ?k = t" "idle_thread ?k = None" "holder ?k l = None" "sema_value (semas ?k (LockSema l)) = 1" for l
    by (simp_all add: thread_init_def)
  have "claims ?k l = {Free}" for l
    using e f by (auto elim!: claims.cases intro: claims.free)
  then have "work_ok ?k" by (intro work_okI) (auto simp: f e s creating_def lock_ok_def intro: wf_plain split: if_splits)
  moreover have "running_ok ?k" by (auto simp: running_ok_def queues_ok_def q s e)
  ultimately show ?thesis by (simp add: ready_to_call_def kernel_ok_def e f)
qed

lemma thread_start_ok:
  assumes "t \<noteq> idle" "thread_start idle (thread_init t mlfqs) = Some k'"
  shows "kernel_ok k'"
proof -
  let ?k = "sema_init (Sema 0) 0 (thread_init t mlfqs)"
  have r: "ready_to_call ?k" using ready_sema_init [OF thread_init_ok] by simp
  have f: "frs ?k (current ?k) = []" by (simp add: frs_def sema_init_def thread_init_def empty_thread_def)
  have "kernel_ok (push_frames [F_sema_down (Sema 0)] ?k)"
    by (rule ready_push [OF r]) (use f in \<open>auto intro: wf_plain\<close>)
  then have r2: "ready_to_call (push_frames [F_sema_down (Sema 0)] ?k)"
    using r f current_facts(3) [OF ready_ok [OF r]] by (simp add: ready_to_call_def frs_push)
  have n: "threads (push_frames [F_sema_down (Sema 0)] ?k) idle = None"
    using assms(1) by (simp add: push_frames_def upd_thread_def sema_init_def thread_init_def)
  show ?thesis
    by (rule thread_create_ok [OF r2 n, of "[F_idle_start (Sema 0)]"])
      (use assms(2) in \<open>auto simp: thread_start_def Let_def intro: wf_idle_start\<close>)
qed

lemma reach_ok: "reach main idle mlfqs k \<Longrightarrow> kernel_ok k"
  by (induction rule: reach.induct) (use thread_start_ok step_ok in blast)+

end
