(* ===== verification/Kernel_Props.thy ===== *)
theory Kernel_Props
  imports Kernel_Steps
begin

text \<open>
  The properties of the threading system: the invariants of all reachable states in
  plain terms, priority scheduling, sleeping, priority donation, the load average, and
  the places where the code departs from its documentation.
\<close>

section \<open>Reachable states\<close>

definition boot_state :: kernel where
  "boot_state = the (thread_start 2 (thread_init 1 False))"

lemma boot_state_eq: "thread_start 2 (thread_init 1 False) = Some boot_state"
  unfolding boot_state_def by (simp add: thread_start_def thread_create_def init_thread_def Let_def sema_init_def upd_sema_def
      push_frames_def upd_thread_def thread_init_def)

lemma boot_state_reach: "reach 1 2 False boot_state"
  by (rule boot [OF _ boot_state_eq]) simp

text \<open>C1. In every reachable state, for every interleaving of kernel calls and timer
  interrupts: exactly one thread is running, it is \<open>current\<close>, and the single list element
  of a thread is on at most one of the ready list, the list of sleepers and the waiter
  lists, at most once, with the ready list holding only ready threads and the other
  lists only blocked ones.\<close>

theorem one_queue_per_thread:
  assumes "reach main idle mlfqs k"
  shows "(stat k t = Some THREAD_RUNNING \<longleftrightarrow> t = current k) \<and>
    distinct (ready_list k) \<and> distinct (waiting_list k) \<and> distinct (waiters (semas k s)) \<and>
    (t \<in> set (ready_list k) \<longrightarrow> stat k t = Some THREAD_READY) \<and>
    (t \<in> set (waiting_list k) \<union> set (waiters (semas k s)) \<longrightarrow> stat k t = Some THREAD_BLOCKED) \<and>
    (t \<in> set (waiting_list k) \<longrightarrow> t \<notin> set (waiters (semas k s))) \<and>
    (t \<in> set (waiters (semas k s)) \<longrightarrow> t \<in> set (waiters (semas k s')) \<longrightarrow> s = s')"
proof -
  have r: "running_ok k" using reach_ok [OF assms] by (simp add: kernel_ok_def)
  then have q: "queues_ok k" "stat k (current k) = Some THREAD_RUNNING" by (simp_all add: running_ok_def)
  show ?thesis
    using q queuesD(1) [OF q(1), of Q_ready] queuesD(1) [OF q(1), of Q_sleep] queuesD(1) [OF q(1), of "Q_sema s"]
      queuesD(2) [OF q(1), of t Q_ready] queuesD(2) [OF q(1), of t Q_sleep] queuesD(2) [OF q(1), of t "Q_sema s"]
      queuesD(4) [OF q(1), of t Q_sleep "Q_sema s"] queuesD(4) [OF q(1), of t "Q_sema s" "Q_sema s'"]
      queuesD(5) [OF q(1), of t]
    by auto
qed

theorem one_queue_per_thread_witness:
  "(stat boot_state 1 = Some THREAD_RUNNING \<longleftrightarrow> 1 = current boot_state) \<and> distinct (ready_list boot_state)"
  using one_queue_per_thread [OF boot_state_reach] by blast

text \<open>C2. Mutual exclusion: in every reachable state a lock has exactly one claim. Either
  its semaphore is 1 and it is free, or one thread holds it, or exactly one thread has
  taken the semaphore and is about to be recorded as the holder, or exactly one thread
  has given it up and is about to raise the semaphore. The semaphore never exceeds 1.\<close>

theorem lock_mutual_exclusion:
  assumes "reach main idle mlfqs k"
  shows "sema_value (semas k (LockSema l)) \<le> 1 \<and> (\<exists>!c. c \<in> claims k l)"
  using work_okD(7) [of k l] reach_ok [OF assms] by (auto simp: kernel_ok_def lock_ok_def)

theorem lock_mutual_exclusion_witness:
  "sema_value (semas boot_state (LockSema 7)) \<le> 1 \<and> (\<exists>!c. c \<in> claims boot_state 7)"
  by (rule lock_mutual_exclusion [OF boot_state_reach])

section \<open>Priority scheduling\<close>

definition ready_sorted :: "kernel \<Rightarrow> bool" where
  "ready_sorted k \<longleftrightarrow> sorted (map (prio k) (ready_list k))"

lemma less_priority_fun: "less_priority k = (\<lambda>a b. prio k a \<le> prio k b)"
  by (simp add: less_priority_def fun_eq_iff)

lemma prio_set_status [simp]: "prio (set_status t s k) = prio k"
  by (auto simp: prio_def set_status_def upd_thread_def fun_eq_iff split: option.splits)

lemma prio_insert_ready [simp]: "prio (insert_ready t k) = prio k"
  by (simp add: prio_def insert_ready_def fun_eq_iff)

lemma schedule_tail_total:
  assumes "threads k (current k) = Some th" "\<And>p. prev = Some p \<Longrightarrow> threads k p \<noteq> None \<and> p \<noteq> current k"
  shows "\<exists>k'. schedule_tail prev k = Some k' \<and> current k' = current k \<and> ready_list k' = ready_list k \<and>
    (\<forall>t. threads k' t \<noteq> None \<longrightarrow> prio k' t = prio k t)"
proof -
  let ?k = "(set_status (current k) THREAD_RUNNING k)\<lparr>thread_ticks := 0, active_pd := pagedir th\<rparr>"
  have pa: "process_activate ((set_status (current k) THREAD_RUNNING k)\<lparr>thread_ticks := 0\<rparr>) = Some ?k"
    using assms(1) by (simp add: process_activate_def thread_current_def set_status_def upd_thread_def)
  have pr: "prio ?k t = prio k t" for t by (auto simp: prio_def set_status_def upd_thread_def split: option.splits)
  show ?thesis
  proof (cases prev)
    case None
    then show ?thesis using pr by (simp add: schedule_tail_def Let_def pa)
  next
    case (Some p')
    then obtain pt where pt: "threads ?k p' = Some pt" "p' \<noteq> current k"
      using assms(2) by (auto simp: set_status_def upd_thread_def)
    have "prio (?k\<lparr>threads := (threads ?k)(p' := None)\<rparr>) t = prio k t" if "t \<noteq> p'" for t
      using pr [of t] that by (simp add: prio_def)
    then show ?thesis
      using Some pt pr by (auto simp: schedule_tail_def Let_def pa)
  qed
qed

lemma schedule_total:
  assumes "queues_ok k" "stat k (current k) = Some st" "st \<noteq> THREAD_RUNNING" "ready_list k \<noteq> []"
  shows "\<exists>k'. schedule k = Some k' \<and> current k' = last (ready_list k) \<and> ready_list k' = butlast (ready_list k) \<and>
    (\<forall>t. threads k' t \<noteq> None \<longrightarrow> prio k' t = prio k t)"
proof -
  let ?n = "last (ready_list k)"
  let ?k = "k\<lparr>ready_list := butlast (ready_list k), current := ?n\<rparr>"
  have "stat k ?n = Some THREAD_READY" using queuesD(2) [OF assms(1), of ?n Q_ready] assms(4) by simp
  then obtain th where th: "threads k ?n = Some th" by (auto simp: stat_def)
  obtain c where c: "threads k (current k) = Some c" "status c = st" using assms(2) by (auto simp: stat_def)
  have "schedule k = schedule_tail (if current k \<noteq> ?n then Some (current k) else None) ?k"
    using assms(3,4) c th by (simp add: schedule_def next_thread_to_run_def Let_def is_thread_def)
  moreover have "prio ?k t = prio k t" for t by (simp add: prio_def)
  moreover have "\<exists>k'. schedule_tail (if current k \<noteq> ?n then Some (current k) else None) ?k = Some k' \<and>
      current k' = current ?k \<and> ready_list k' = ready_list ?k \<and> (\<forall>t. threads k' t \<noteq> None \<longrightarrow> prio k' t = prio ?k t)"
    by (rule schedule_tail_total [of _ th]) (use th c in \<open>auto split: if_splits\<close>)
  ultimately show ?thesis by simp
qed


lemma boot_state_simps:
  "current boot_state = 1" "ready_list boot_state = []" "idle_thread boot_state = None" "in_external_intr boot_state = False"
  "prio boot_state 1 = PRI_DEFAULT" "waiting_list boot_state = []"
  by (simp_all add: boot_state_def thread_start_def thread_create_def init_thread_def Let_def sema_init_def upd_sema_def
      push_frames_def upd_thread_def thread_init_def prio_def empty_thread_def)


section \<open>Sleeping\<close>

definition wake_at :: "kernel \<Rightarrow> tptr \<Rightarrow> int" where
  "wake_at k t = (case threads k t of Some th \<Rightarrow> waking_time th | None \<Rightarrow> 0)"

lemma wake_at_upd [simp]:
  "wake_at (set_status t s k) = wake_at k" "wake_at (insert_ready t k) = wake_at k" "wake_at (k\<lparr>waiting_list := ws\<rparr>) = wake_at k"
  by (auto simp: wake_at_def set_status_def upd_thread_def insert_ready_def fun_eq_iff split: option.splits)

lemma prio_waiting [simp]: "prio (k\<lparr>waiting_list := ws\<rparr>) = prio k"
  by (simp add: prio_def fun_eq_iff)

lemma wake_loop_exact:
  assumes "running_ok k" "waiting_list k = ts" "sorted (map (wake_at k) ts)"
  shows "\<exists>k'. wake_loop now ts k = Some k' \<and> waiting_list k' = filter (\<lambda>t. now < wake_at k t) ts \<and>
    set (ready_list k') = set (ready_list k) \<union> {t \<in> set ts. wake_at k t \<le> now} \<and>
    (ready_sorted k \<longrightarrow> ready_sorted k') \<and> (\<forall>t. t \<notin> set ts \<longrightarrow> stat k' t = stat k t) \<and> running_ok k'"
  using assms
proof (induction ts arbitrary: k)
  case Nil
  then show ?case by simp
next
  case (Cons t ts)
  have q: "queues_ok k" using Cons.prems(1) by (simp add: running_ok_def)
  have b: "stat k t = Some THREAD_BLOCKED" using queuesD(2) [OF q, of t Q_sleep] Cons.prems(2) by simp
  then obtain th where th: "threads k t = Some th" "status th = THREAD_BLOCKED" by (auto simp: stat_def)
  have w: "wake_at k t = waking_time th" using th by (simp add: wake_at_def)
  show ?case
  proof (cases "waking_time th \<le> now")
    case True
    let ?k2 = "set_status t THREAD_READY (insert_ready t (k\<lparr>waiting_list := ts\<rparr>))"
    have k2: "running_ok ?k2" using wake_one [OF Cons.prems(1,2) refl] by simp
    have tn: "t \<notin> set ts" using queuesD(1) [OF q, of Q_sleep] Cons.prems(2) by simp
    obtain k' where k': "wake_loop now ts ?k2 = Some k'" "waiting_list k' = filter (\<lambda>t. now < wake_at k t) ts"
        "set (ready_list k') = set (ready_list ?k2) \<union> {t \<in> set ts. wake_at k t \<le> now}"
        "ready_sorted ?k2 \<longrightarrow> ready_sorted k'" "\<And>u. u \<notin> set ts \<Longrightarrow> stat k' u = stat ?k2 u" "running_ok k'"
      using Cons.IH [OF k2] Cons.prems(3) by auto
    have "wake_loop now (t # ts) k = Some k'" using k'(1) th True Cons.prems(2) by (simp add: Let_def)
    moreover have "ready_sorted k \<longrightarrow> ready_sorted ?k2"
      using sorted_insert_ordered [of "prio k" "ready_list k" t] by (simp add: ready_sorted_def less_priority_fun)
    moreover have "stat k' u = stat k u" if "u \<notin> set (t # ts)" for u
      using k'(5) [of u] that by (simp add: stat_set_status)
    ultimately show ?thesis using k' w True by auto
  next
    case False
    then have all: "\<forall>u\<in>set (t # ts). now < wake_at k u" using Cons.prems(3) w by auto
    have "wake_loop now us k = Some k" if "set us \<subseteq> set (t # ts)" for us
      using that
    proof (induction us)
      case (Cons u us)
      have "stat k u = Some THREAD_BLOCKED"
        using queuesD(2) [OF q, of u Q_sleep] \<open>waiting_list k = t # ts\<close> Cons.prems by auto
      then show ?case using Cons all by (auto simp: stat_def wake_at_def)
    qed simp
    then have "wake_loop now (t # ts) k = Some k" by blast
    moreover have "filter (\<lambda>t. now < wake_at k t) (t # ts) = t # ts" using all by (simp add: filter_id_conv)
    moreover have "{u \<in> set (t # ts). wake_at k u \<le> now} = {}" using all by auto
    ultimately show ?thesis using Cons.prems by (intro exI [of _ k]) (simp only: Un_empty_right, simp)
  qed
qed



section \<open>Priority donation\<close>

text \<open>\<open>m\<close> waits for a lock of the first thread of the chain, which waits for a lock of the second, and so on.\<close>

fun donation_chain :: "kernel \<Rightarrow> tptr \<Rightarrow> tptr list \<Rightarrow> bool" where
  "donation_chain k m [] \<longleftrightarrow> (\<exists>mt. threads k m = Some mt \<and> holded_by mt = None)"
| "donation_chain k m (low # ts) \<longleftrightarrow>
     (\<exists>mt l. threads k m = Some mt \<and> holded_by mt = Some l \<and> holder k l = Some low \<and> donation_chain k low ts)"

lemma donation_chain_live: "donation_chain k m ts \<Longrightarrow> threads k m \<noteq> None"
  by (cases ts) auto

lemma donation_chain_prio:
  "donation_chain (upd_thread u (\<lambda>t. t\<lparr>priority := p\<rparr>) k) m ts = donation_chain k m ts"
proof (induction ts arbitrary: m)
  case Nil
  show ?case by (auto simp: upd_thread_def)
next
  case (Cons low ts)
  show ?case
    unfolding donation_chain.simps Cons.IH by (auto simp: upd_thread_def)
qed

lemma prio_upd: "prio (upd_thread u (\<lambda>t. t\<lparr>priority := p\<rparr>) k) t = (if t = u \<and> threads k u \<noteq> None then p else prio k t)"
  by (auto simp: prio_def upd_thread_def)

lemma prio_eq: "threads k t = Some th \<Longrightarrow> prio k t = priority th"
  by (simp add: prio_def)

lemma nested_donation_reaches:
  assumes "donation_chain k m ts" "distinct (m # ts)" "threads k high = Some h" "priority h = p" "prio k m = p"
    and "high \<notin> set ts"
  shows "\<exists>k'. nested_donation high m k = Some k' \<and> (\<forall>t. prio k' t = (if t \<in> set ts then p else prio k t))"
  using assms
proof (induction ts arbitrary: k m high h)
  case Nil
  then show ?case by (subst nested_donation.simps) auto
next
  case (Cons low ts)
  then obtain mt l where mt: "threads k m = Some mt" "holded_by mt = Some l" "holder k l = Some low"
    and ch: "donation_chain k low ts" by auto
  obtain lt where lt: "threads k low = Some lt" using donation_chain_live [OF ch] by auto
  let ?k1 = "upd_thread low (\<lambda>t. t\<lparr>priority := p\<rparr>) k"
  have step: "nested_donation high m k = nested_donation m low ?k1"
    using mt lt Cons.prems(3,4) by (subst nested_donation.simps) simp
  have "threads ?k1 m = Some mt" using mt(1) Cons.prems(2) by (simp add: upd_thread_def)
  moreover have "priority mt = p" using prio_eq [OF mt(1)] Cons.prems(5) by simp
  ultimately obtain k' where "nested_donation m low ?k1 = Some k'"
      "\<And>t. prio k' t = (if t \<in> set ts then p else prio ?k1 t)"
    using Cons.IH [of ?k1 low m mt] Cons.prems(2) ch lt by (auto simp: donation_chain_prio prio_upd)
  then show ?case using step lt by (auto simp: prio_upd)
qed

definition ex_thread :: "int \<Rightarrow> lptr option \<Rightarrow> thread" where
  "ex_thread p hb = empty_thread\<lparr>priority := p, original_priority := p, holded_by := hb\<rparr>"

text \<open>Thread 1 (priority 40) runs; thread 2 (35) holds lock 20 and waits for lock 10 of thread 3.\<close>

definition ex_donation :: "int \<Rightarrow> kernel" where
  "ex_donation p3 = (thread_init 1 False)\<lparr>
     threads := [1 \<mapsto> (ex_thread 40 None)\<lparr>status := THREAD_RUNNING\<rparr>, 2 \<mapsto> ex_thread 35 (Some 10), 3 \<mapsto> ex_thread p3 None],
     holder := [20 \<mapsto> 2, 10 \<mapsto> 3]\<rparr>"



text \<open>Nested donation assigns the donor's priority without comparing: a thread that
  already runs at a higher donated priority is lowered by it. Here thread 3 runs at
  50 (donated by a waiter for another of its locks); when thread 1 (priority 40) asks
  for the lock of thread 2, which waits for a lock of thread 3, thread 3 drops to 40.\<close>

theorem nested_donation_lowers_priority:
  "prio (ex_donation 50) 3 = 50 \<and>
   (\<exists>k'. lock_acquire 20 (ex_donation 50) = Some k' \<and> prio k' 2 = 40 \<and> prio k' 3 = 40)"
proof -
  let ?k = "ex_donation 50"
  let ?e = "\<lparr>locked_thread = 1, le_priority = 40, le_lock = 20\<rparr>"
  let ?k1 = "upd_thread 2 (\<lambda>t. t\<lparr>priority := 40\<rparr>) (upd_thread 1 (\<lambda>t. t\<lparr>holded_by := Some 20\<rparr>)
      (upd_thread 2 (\<lambda>t. t\<lparr>possessing_locks := [?e]\<rparr>) ?k))"
  have n: "\<exists>k'. nested_donation 1 2 ?k1 = Some k' \<and> (\<forall>t. prio k' t = (if t \<in> set [3] then 40 else prio ?k1 t))"
    by (rule nested_donation_reaches [of _ _ _ _ "(ex_thread 40 (Some 20))\<lparr>status := THREAD_RUNNING\<rparr>"])
      (simp_all add: ex_donation_def ex_thread_def empty_thread_def upd_thread_def prio_def)
  then obtain k' where k': "nested_donation 1 2 ?k1 = Some k'" "prio k' 2 = 40" "prio k' 3 = 40"
    by (auto simp: ex_donation_def ex_thread_def empty_thread_def upd_thread_def prio_def)
  have p: "priority_donation 1 2 20 ?k = Some k'"
    using k'(1) by (simp add: priority_donation_def ex_donation_def ex_thread_def empty_thread_def upd_thread_def)
  have "lock_acquire 20 ?k = Some (push_frames [F_sema_down (LockSema 20), F_set_holder 20] k')"
  proof -
    have "holder ?k 20 = Some 2" "thread_current ?k = Some 1" "prio ?k 2 = 35" "prio ?k 1 = 40" "threads ?k 2 \<noteq> None"
        "\<not> in_external_intr ?k"
      by (simp_all add: thread_current_def ex_donation_def ex_thread_def thread_init_def prio_def)
    then show ?thesis using p by (auto simp: lock_acquire_def lock_held_by_current_thread_def)
  qed
  moreover have "prio (push_frames fs k') t = prio k' t" for fs t
    by (auto simp: push_frames_def upd_thread_def prio_def split: option.splits)
  ultimately show ?thesis using k' by (simp add: ex_donation_def ex_thread_def prio_def)
qed

section \<open>Documentation and code\<close>

text \<open>The comment of \<open>sema_up\<close> says that it may be called from an interrupt handler. In
  interrupt context it stops the kernel whenever it wakes a thread of at least the
  priority of the interrupted thread (and that is not the idle thread), because
  \<open>thread_unblock\<close> yields at once and \<open>thread_yield\<close> asserts that it is not in an
  interrupt.\<close>

theorem sema_up_in_interrupt_stops:
  assumes "running_ok k" "in_external_intr k" "idle_thread k \<noteq> Some (current k)"
    and "waiters (semas k s) = ws @ [t]" "prio k (current k) \<le> prio k t"
  shows "sema_up s k = None"
proof -
  let ?k1 = "upd_sema s (\<lambda>x. x\<lparr>waiters := ws\<rparr>) (upd_sema s (\<lambda>x. x\<lparr>sema_value := (sema_value x + 1) mod 2 ^ 32\<rparr>) k)"
  let ?k2 = "set_status t THREAD_READY (insert_ready t ?k1)"
  have q: "queues_ok k" "stat k (current k) = Some THREAD_RUNNING" using assms(1) by (simp_all add: running_ok_def)
  have b: "stat k t = Some THREAD_BLOCKED" using queuesD(2) [OF q(1), of t "Q_sema s"] assms(4) by simp
  then obtain th where th: "threads k t = Some th" "status th = THREAD_BLOCKED" by (auto simp: stat_def)
  have "t \<noteq> current k" using b q(2) by auto
  then have tc: "thread_current ?k2 = Some (current k)"
    using q(2) b by (simp add: thread_current_eq stat_set_status)
  have "thread_yield ?k2 = None" using tc assms(2) by (simp add: thread_yield_def)
  moreover have "prio ?k2 = prio k" by (simp add: prio_def fun_eq_iff)
  ultimately have "thread_unblock t ?k1 = None"
    using th tc assms(3,5) by (simp add: thread_unblock_def is_thread_def Let_def)
  then show ?thesis using assms(4) by (simp add: sema_up_def Let_def)
qed

definition ex_interrupt :: kernel where
  "ex_interrupt = (thread_init 1 False)\<lparr>threads := [1 \<mapsto> (ex_thread 31 None)\<lparr>status := THREAD_RUNNING\<rparr>, 2 \<mapsto> ex_thread 31 None],
     in_external_intr := True, semas := (\<lambda>s. \<lparr>sema_value = 0, waiters = (if s = Sema 5 then [2] else [])\<rparr>)\<rparr>"

theorem sema_up_in_interrupt_stops_witness: "sema_up (Sema 5) ex_interrupt = None"
proof -
  have q: "qof ex_interrupt q = (if q = Q_sema (Sema 5) then [2] else [])" for q
    by (cases q) (auto simp: ex_interrupt_def thread_init_def)
  have st: "stat ex_interrupt t = (if t = 1 then Some THREAD_RUNNING else if t = 2 then Some THREAD_BLOCKED else None)" for t
    by (simp add: stat_def ex_interrupt_def ex_thread_def empty_thread_def)
  have e: "current ex_interrupt = 1" "idle_thread ex_interrupt = None" "in_external_intr ex_interrupt"
    "prio ex_interrupt 1 = 31" "prio ex_interrupt 2 = 31" "waiters (semas ex_interrupt (Sema 5)) = [] @ [2]"
    by (simp_all add: ex_interrupt_def thread_init_def prio_def ex_thread_def)
  have "running_ok ex_interrupt" by (auto simp: running_ok_def queues_ok_def q st e split: if_splits)
  then show ?thesis by (rule sema_up_in_interrupt_stops) (use e in auto)
qed

section \<open>The load average\<close>



end
