(* ===== verification/Kernel_Live.thy ===== *)
theory Kernel_Live
  imports Kernel_Props
begin

text \<open>
  Progress of sleeping threads under the priority scheduler: timer interrupts always return, and enough of them
  wake a sleeper.
\<close>

section \<open>What a context switch leaves to the sleepers\<close>

definition awake :: "kernel \<Rightarrow> tptr \<Rightarrow> bool" where
  "awake k t \<longleftrightarrow> stat k t = Some THREAD_READY \<or> stat k t = Some THREAD_RUNNING"

definition same_sleep :: "kernel \<Rightarrow> kernel \<Rightarrow> bool" where
  "same_sleep k k' \<longleftrightarrow> waiting_list k' = waiting_list k \<and> ticks k' = ticks k \<and> thread_mlfqs k' = thread_mlfqs k \<and>
     in_external_intr k' = in_external_intr k \<and>
     (\<forall>t. threads k' t \<noteq> None \<longrightarrow> threads k t \<noteq> None \<and> wake_at k' t = wake_at k t) \<and> (\<forall>t. awake k t \<longrightarrow> awake k' t)"

lemma same_sleep_trans: "same_sleep k k1 \<Longrightarrow> same_sleep k1 k2 \<Longrightarrow> same_sleep k k2"
  unfolding same_sleep_def by metis

lemma awake_cong: "stat k' = stat k \<Longrightarrow> awake k' = awake k"
  by (simp add: awake_def fun_eq_iff)

lemma schedule_tail_runs:
  assumes "threads k (current k) = Some th" "\<And>p. prev = Some p \<Longrightarrow> threads k p \<noteq> None \<and> p \<noteq> current k"
  shows "\<exists>k'. schedule_tail prev k = Some k' \<and> same_sleep k k'"
proof -
  let ?k = "(set_status (current k) THREAD_RUNNING k)\<lparr>thread_ticks := 0, active_pd := pagedir th\<rparr>"
  have pa: "process_activate ((set_status (current k) THREAD_RUNNING k)\<lparr>thread_ticks := 0\<rparr>) = Some ?k"
    using assms(1) by (simp add: process_activate_def thread_current_def set_status_def upd_thread_def)
  have w: "wake_at ?k t = wake_at k t" for t by (auto simp: wake_at_def set_status_def upd_thread_def split: option.splits)
  have s: "stat ?k t = (if t = current k then Some THREAD_RUNNING else stat k t)" for t
    using assms(1) by (simp add: stat_def set_status_def upd_thread_def)
  have one: "same_sleep k ?k" using w s by (auto simp: same_sleep_def awake_def set_status_def upd_thread_def)
  show ?thesis
  proof (cases prev)
    case None
    then show ?thesis using one by (simp add: schedule_tail_def Let_def pa)
  next
    case (Some p)
    then obtain pt where pt: "threads ?k p = Some pt" "p \<noteq> current k"
      using assms(2) by (auto simp: set_status_def upd_thread_def)
    let ?d = "?k\<lparr>threads := (threads ?k)(p := None)\<rparr>"
    have "same_sleep k ?d" if "status pt = THREAD_DYING"
    proof -
      have "stat k p = Some THREAD_DYING" using that pt s [of p] by (simp add: stat_def)
      moreover have "stat ?d t = (if t = p then None else stat ?k t)" for t by (simp add: stat_def)
      moreover have "wake_at ?d t = wake_at k t" if "t \<noteq> p" for t using that w [of t] by (simp add: wake_at_def)
      ultimately show ?thesis using s by (auto simp: same_sleep_def awake_def set_status_def upd_thread_def split: if_splits)
    qed
    then show ?thesis using Some pt one by (auto simp: schedule_tail_def Let_def pa)
  qed
qed

lemma schedule_runs:
  assumes "queues_ok k" "stat k (current k) = Some st" "st \<noteq> THREAD_RUNNING"
    and "ready_list k = [] \<Longrightarrow> \<exists>i. idle_thread k = Some i \<and> threads k i \<noteq> None"
  shows "\<exists>k'. schedule k = Some k' \<and> same_sleep k k'"
proof -
  obtain n k1 where n: "next_thread_to_run k = (Some n, k1)" "threads k n \<noteq> None" "threads k1 = threads k" "current k1 = current k"
    "same_sleep k k1"
  proof (cases "ready_list k = []")
    case True
    then obtain i where i: "idle_thread k = Some i" "threads k i \<noteq> None" using assms(4) by auto
    show ?thesis using that [of i k] True i by (simp add: next_thread_to_run_def same_sleep_def)
  next
    case False
    then have "stat k (last (ready_list k)) = Some THREAD_READY" using queuesD(2) [OF assms(1), of "last (ready_list k)" Q_ready] by simp
    then have "threads k (last (ready_list k)) \<noteq> None" by (auto simp: stat_def)
    then show ?thesis
      using that [of "last (ready_list k)" "k\<lparr>ready_list := butlast (ready_list k)\<rparr>"] False
      by (simp add: next_thread_to_run_def same_sleep_def wake_at_def awake_def stat_def)
  qed
  obtain c th where c: "threads k (current k) = Some c" "status c = st" "threads k n = Some th"
    using assms(2) n(2) by (auto simp: stat_def)
  let ?p = "if current k \<noteq> n then Some (current k) else None"
  have s: "schedule k = schedule_tail ?p (k1\<lparr>current := n\<rparr>)"
    using assms(3) c n by (simp add: schedule_def Let_def is_thread_def)
  have "\<exists>k'. schedule_tail ?p (k1\<lparr>current := n\<rparr>) = Some k' \<and> same_sleep (k1\<lparr>current := n\<rparr>) k'"
    by (rule schedule_tail_runs [of _ th]) (use c n in \<open>auto split: if_splits\<close>)
  then obtain k' where "schedule k = Some k'" "same_sleep (k1\<lparr>current := n\<rparr>) k'" using s by auto
  moreover have "same_sleep k (k1\<lparr>current := n\<rparr>)"
    using n(5) by (simp add: same_sleep_def wake_at_def awake_def stat_def)
  ultimately show ?thesis using same_sleep_trans by blast
qed

lemma thread_yield_runs:
  assumes "kernel_ok k" "\<not> in_external_intr k"
  shows "\<exists>k'. thread_yield k = Some k' \<and> same_sleep k k'"
proof -
  let ?c = "current k"
  let ?k1 = "if Some ?c \<noteq> idle_thread k then insert_ready ?c k else k"
  let ?k2 = "set_status ?c THREAD_READY ?k1"
  note f = current_facts [OF assms(1)]
  have q: "queues_ok k" using f(1) by (simp add: running_ok_def)
  obtain c where c: "threads k ?c = Some c" using f(3) by (auto simp: stat_def)
  have st: "stat ?k2 = (stat k)(?c \<mapsto> THREAD_READY)" using f(3) by (auto simp: stat_set_status_fun)
  have "queues_ok ?k2"
  proof (cases "Some ?c = idle_thread k")
    case True
    then show ?thesis
      using st unqueued_current [OF f(1)] by (intro queues_status [OF q, of ?c THREAD_READY]) auto
  next
    case False
    then have u: "unqueued k ?c" using current_unqueued [OF f(1)] by auto
    then show ?thesis
      using st False queuesD(1) [OF q, of Q_ready]
      by (intro queues_enqueue [OF q u, of ?k2 Q_ready "insert_ordered (less_priority k) ?c (ready_list k)"])
        (auto simp: qof_insert_ready unqueued_def dest: spec [of _ Q_ready])
  qed
  moreover have "\<exists>i. idle_thread ?k2 = Some i \<and> threads ?k2 i \<noteq> None" if "ready_list ?k2 = []"
    using that c by (cases "Some ?c = idle_thread k") (auto simp: set_status_def upd_thread_def insert_ready_def)
  moreover have "stat ?k2 (current ?k2) = Some THREAD_READY" using st by auto
  ultimately obtain k' where k': "schedule ?k2 = Some k'" "same_sleep ?k2 k'"
    using schedule_runs [of ?k2 THREAD_READY] by (metis thread_status.distinct(1))
  have "thread_yield k = Some k'"
    using k'(1) assms(2) f(3) by (auto simp: thread_yield_def Let_def thread_current_eq bind_eq_Some_conv)
  moreover have "same_sleep k ?k2"
    using st by (auto simp: same_sleep_def awake_def set_status_def upd_thread_def insert_ready_def wake_at_def split: option.splits)
  ultimately show ?thesis using k'(2) same_sleep_trans by blast
qed

section \<open>Timer interrupts\<close>

lemma thread_tick_runs:
  assumes "kernel_ok k" "in_external_intr k"
  shows "\<exists>k'. thread_tick k = Some k' \<and> neutral k k' \<and> same_sleep k k'"
proof -
  obtain c where c: "threads k (current k) = Some c" using current_facts(3) [OF assms(1)] by (auto simp: stat_def)
  have "\<exists>k'. thread_tick k = Some k' \<and> threads k' = threads k \<and> same_sleep k k'"
    using c assms thread_current_ok [OF assms(1), of "current k"]
    by (simp add: thread_tick_def Let_def same_sleep_def wake_at_def awake_def stat_def)
  then show ?thesis using neutral_thread_tick by blast
qed

lemma wake_loop_same:
  "wake_loop now ts k = Some k' \<Longrightarrow> ticks k' = ticks k \<and> thread_mlfqs k' = thread_mlfqs k \<and>
    in_external_intr k' = in_external_intr k \<and> wake_at k' = wake_at k \<and> (\<forall>t. threads k' t \<noteq> None \<longrightarrow> threads k t \<noteq> None)"
proof (induction ts arbitrary: k)
  case (Cons t ts)
  obtain th where th: "threads k t = Some th" using Cons.prems by (auto simp: bind_eq_Some_conv)
  show ?case
  proof (cases "waking_time th \<le> now \<and> status th = THREAD_BLOCKED")
    case True
    let ?k = "set_status t THREAD_READY (insert_ready t (k\<lparr>waiting_list := tl (waiting_list k)\<rparr>))"
    have "wake_loop now ts ?k = Some k'" using Cons.prems th True by (auto simp: Let_def bind_eq_Some_conv split: if_splits)
    moreover have "ticks ?k = ticks k" "thread_mlfqs ?k = thread_mlfqs k" "in_external_intr ?k = in_external_intr k"
        "\<And>u. threads ?k u \<noteq> None \<Longrightarrow> threads k u \<noteq> None"
      by (auto simp: set_status_def upd_thread_def insert_ready_def split: if_splits)
    ultimately show ?thesis using Cons.IH [of ?k] by (metis wake_at_upd)
  next
    case False
    then show ?thesis using Cons th by auto
  qed
qed simp

lemma timer_interrupt_runs:
  assumes "kernel_ok k" "in_external_intr k" "\<not> thread_mlfqs k" "sorted (map (wake_at k) (waiting_list k))"
    and "ticks k < 2 ^ 63 - 1" "0 \<le> ticks k"
  shows "\<exists>k'. timer_interrupt k = Some k' \<and> ticks k' = ticks k + 1 \<and> in_external_intr k' \<and> \<not> thread_mlfqs k' \<and>
    waiting_list k' = filter (\<lambda>t. ticks k + 1 < wake_at k t) (waiting_list k) \<and>
    (\<forall>t. threads k' t \<noteq> None \<longrightarrow> wake_at k' t = wake_at k t) \<and>
    (\<forall>t. awake k t \<or> t \<in> set (waiting_list k) \<and> wake_at k t \<le> ticks k + 1 \<longrightarrow> awake k' t)"
proof -
  define k0 where "k0 = k\<lparr>ticks := ticks k + 1\<rparr>"
  have s: "s64 (ticks k + 1) = ticks k + 1" using assms(5,6) by (intro s64_id) auto
  have 0: "kernel_ok k0" "in_external_intr k0" "\<not> thread_mlfqs k0" "waiting_list k0 = waiting_list k" "wake_at k0 = wake_at k"
      "stat k0 = stat k" "ticks k0 = ticks k + 1"
    using assms by (simp_all add: k0_def neutral_def kernel_ok_neutral [of k] wake_at_def stat_def fun_eq_iff)
  obtain k1 where k1: "thread_tick k0 = Some k1" "neutral k0 k1" "same_sleep k0 k1" using thread_tick_runs [OF 0(1,2)] by blast
  have ok: "kernel_ok k1" using kernel_ok_neutral [OF k1(2) 0(1)] .
  have 1: "waiting_list k1 = waiting_list k" "ticks k1 = ticks k + 1" "\<not> thread_mlfqs k1" "in_external_intr k1"
      "\<And>t. threads k1 t \<noteq> None \<Longrightarrow> wake_at k1 t = wake_at k t" "stat k1 = stat k"
    using k1(2,3) 0 by (simp_all add: same_sleep_def neutral_def)
  have live: "threads k1 t \<noteq> None" if "t \<in> set (waiting_list k)" for t
    using queue_live [OF current_facts(1) [OF ok], of t Q_sleep] that 1(1) by simp
  have w: "map (wake_at k1) (waiting_list k) = map (wake_at k) (waiting_list k)" using live 1(5) by simp
  obtain k2 where k2: "wake_loop (ticks k1) (waiting_list k1) k1 = Some k2"
      "waiting_list k2 = filter (\<lambda>t. ticks k1 < wake_at k1 t) (waiting_list k1)"
      "set (ready_list k2) = set (ready_list k1) \<union> {t \<in> set (waiting_list k1). wake_at k1 t \<le> ticks k1}"
      "\<And>t. t \<notin> set (waiting_list k1) \<Longrightarrow> stat k2 t = stat k1 t" "running_ok k2"
    using wake_loop_exact [OF current_facts(1) [OF ok] refl, of "ticks k1"] assms(4) 1(1) w by auto
  note same = wake_loop_same [OF k2(1)]
  have t: "timer_interrupt k = Some k2"
    using k1(1) k2(1) 1(3) s by (simp add: timer_interrupt_def Let_def k0_def [symmetric] wake_waiting_list_def)
  have "waiting_list k2 = filter (\<lambda>t. ticks k + 1 < wake_at k t) (waiting_list k)"
    using k2(2) 1(1,2,5) live by (auto intro: filter_cong)
  moreover have "awake k2 t" if "t \<in> set (waiting_list k)" "wake_at k t \<le> ticks k + 1" for t
    using queuesD(2) [of k2 t Q_ready] k2(3,5) that live [OF that(1)] 1(1,2,5) by (auto simp: running_ok_def awake_def)
  moreover have "awake k2 t" if "awake k t" for t
  proof -
    have "t \<notin> set (waiting_list k1)"
      using that 1(6) queuesD(2) [of k1 t Q_sleep] current_facts(1) [OF ok] by (auto simp: awake_def running_ok_def)
    then show ?thesis using that k2(4) [of t] 1(6) by (simp add: awake_def)
  qed
  moreover have "wake_at k2 t = wake_at k t" if "threads k2 t \<noteq> None" for t
    using that same 1(5) [of t] by auto
  ultimately show ?thesis using t same 1 by (intro exI [of _ k2]) auto
qed

text \<open>\<open>n\<close> timer interrupts, each with the context switch it asks for.\<close>

fun timer_ticks_pass :: "nat \<Rightarrow> kernel \<Rightarrow> kernel option" where
  "timer_ticks_pass 0 k = Some k"
| "timer_ticks_pass (Suc n) k = do { k \<leftarrow> intr_handler timer_interrupt k; timer_ticks_pass n k }"

text \<open>Between interrupts, with the sleepers in order and the clock in range for \<open>n\<close> more ticks.\<close>

definition clock_ok :: "nat \<Rightarrow> kernel \<Rightarrow> bool" where
  "clock_ok n k \<longleftrightarrow> kernel_ok k \<and> \<not> in_external_intr k \<and> \<not> thread_mlfqs k \<and> sorted (map (wake_at k) (waiting_list k)) \<and>
     0 \<le> ticks k \<and> ticks k + int n < 2 ^ 63"

lemma timer_tick_runs:
  assumes "clock_ok (Suc n) k"
  shows "\<exists>k'. intr_handler timer_interrupt k = Some k' \<and> clock_ok n k' \<and> ticks k' = ticks k + 1 \<and>
    waiting_list k' = filter (\<lambda>t. ticks k + 1 < wake_at k t) (waiting_list k) \<and>
    (\<forall>t \<in> set (waiting_list k'). wake_at k' t = wake_at k t) \<and>
    (\<forall>t. awake k t \<or> t \<in> set (waiting_list k) \<and> wake_at k t \<le> ticks k + 1 \<longrightarrow> awake k' t)"
proof -
  define k0 where "k0 = k\<lparr>in_external_intr := True, yield_on_return := False\<rparr>"
  have c: "kernel_ok k" "\<not> in_external_intr k" "\<not> thread_mlfqs k" "sorted (map (wake_at k) (waiting_list k))"
      "0 \<le> ticks k" "ticks k + 1 + int n < 2 ^ 63"
    using assms by (simp_all add: clock_ok_def)
  have "neutral (k\<lparr>in_external_intr := True\<rparr>) k0" by (simp add: neutral_def k0_def)
  then have ok: "kernel_ok k0" using kernel_ok_neutral kernel_ok_intr [OF c(1)] by blast
  have 0: "in_external_intr k0" "\<not> thread_mlfqs k0" "waiting_list k0 = waiting_list k" "wake_at k0 = wake_at k" "ticks k0 = ticks k"
      "awake k0 = awake k"
    using c(3) by (simp_all add: k0_def wake_at_def awake_def stat_def fun_eq_iff)
  obtain k1 where k1: "timer_interrupt k0 = Some k1" "ticks k1 = ticks k + 1" "in_external_intr k1" "\<not> thread_mlfqs k1"
      "waiting_list k1 = filter (\<lambda>t. ticks k + 1 < wake_at k t) (waiting_list k)"
      "\<And>t. threads k1 t \<noteq> None \<Longrightarrow> wake_at k1 t = wake_at k t"
      "\<And>t. awake k t \<or> t \<in> set (waiting_list k) \<and> wake_at k t \<le> ticks k + 1 \<Longrightarrow> awake k1 t"
    using timer_interrupt_runs [OF ok] 0 c(4-6) by auto
  define k2 where "k2 = k1\<lparr>in_external_intr := False\<rparr>"
  have ok2: "kernel_ok k2" using kernel_ok_intr [OF kernel_ok_timer [OF ok k1(1)], of False] by (simp add: k2_def)
  have "\<exists>k'. (if yield_on_return k2 then thread_yield k2 else Some k2) = Some k' \<and> same_sleep k2 k'"
    using thread_yield_runs [OF ok2] by (simp add: k2_def same_sleep_def)
  then obtain k' where k': "(if yield_on_return k2 then thread_yield k2 else Some k2) = Some k'" "same_sleep k2 k'" by blast
  have run: "intr_handler timer_interrupt k = Some k'"
    using k1(1,3) k'(1) c(2) unfolding k2_def by (simp add: intr_handler_def Let_def k0_def [symmetric])
  have ok': "kernel_ok k'" by (rule kernel_ok_tick [OF c(1) run])
  have 2: "waiting_list k' = waiting_list k1" "ticks k' = ticks k + 1" "\<not> thread_mlfqs k'" "\<not> in_external_intr k'"
      "\<And>t. threads k' t \<noteq> None \<Longrightarrow> wake_at k' t = wake_at k t"
    using k'(2) k1(2,4,6) by (auto simp: same_sleep_def k2_def wake_at_def)
  have aw: "awake k' t" if "awake k1 t" for t
    using k'(2) that awake_cong [of k2 k1] by (simp add: same_sleep_def k2_def stat_record)
  have w: "wake_at k' t = wake_at k t" if "t \<in> set (waiting_list k')" for t
    using 2(5) queue_live [OF current_facts(1) [OF ok'], of t Q_sleep] that by simp
  have "sorted (map (wake_at k) (waiting_list k1))" unfolding k1(5) by (rule sorted_filter [OF c(4)])
  then have "sorted (map (wake_at k') (waiting_list k'))" using w 2(1) by (metis (no_types, lifting) map_eq_conv)
  then have "clock_ok n k'" using ok' 2 c(5,6) by (simp add: clock_ok_def)
  then show ?thesis using run 2(1,2) k1(5,7) w aw by auto
qed

lemma timer_ticks_wake:
  assumes "clock_ok (Suc n) k"
  shows "\<exists>k'. timer_ticks_pass (Suc n) k = Some k' \<and> ticks k' = ticks k + int (Suc n) \<and>
    waiting_list k' = filter (\<lambda>t. ticks k + int (Suc n) < wake_at k t) (waiting_list k) \<and>
    (\<forall>t. awake k t \<or> t \<in> set (waiting_list k) \<and> wake_at k t \<le> ticks k + int (Suc n) \<longrightarrow> awake k' t)"
  using assms
proof (induction n arbitrary: k)
  case 0
  then show ?case using timer_tick_runs [of 0 k] by auto
next
  case (Suc n)
  obtain k1 where k1: "intr_handler timer_interrupt k = Some k1" "clock_ok (Suc n) k1" "ticks k1 = ticks k + 1"
      "waiting_list k1 = filter (\<lambda>t. ticks k + 1 < wake_at k t) (waiting_list k)"
      "\<And>t. t \<in> set (waiting_list k1) \<Longrightarrow> wake_at k1 t = wake_at k t"
      "\<And>t. awake k t \<or> t \<in> set (waiting_list k) \<and> wake_at k t \<le> ticks k + 1 \<Longrightarrow> awake k1 t"
    using timer_tick_runs [OF Suc.prems] by blast
  obtain k' where k': "timer_ticks_pass (Suc n) k1 = Some k'" "ticks k' = ticks k + 1 + int (Suc n)"
      "waiting_list k' = filter (\<lambda>t. ticks k + 1 + int (Suc n) < wake_at k1 t) (waiting_list k1)"
      "\<And>t. awake k1 t \<or> t \<in> set (waiting_list k1) \<and> wake_at k1 t \<le> ticks k + 1 + int (Suc n) \<Longrightarrow> awake k' t"
    using Suc.IH [OF k1(2)] k1(3) by auto
  have "waiting_list k' = filter (\<lambda>t. ticks k + 1 + int (Suc n) < wake_at k t) (waiting_list k1)"
    using k'(3) k1(5) by (simp cong: filter_cong)
  then have "waiting_list k' = filter (\<lambda>t. ticks k + int (Suc (Suc n)) < wake_at k t) (waiting_list k)"
    unfolding k1(4) filter_filter by (auto intro!: filter_cong)
  moreover have "awake k' t" if "awake k t \<or> t \<in> set (waiting_list k) \<and> wake_at k t \<le> ticks k + int (Suc (Suc n))" for t
    using k'(4) [of t] k1(4) k1(5) [of t] k1(6) [of t] that by (cases "ticks k + 1 < wake_at k t") auto
  ultimately show ?case using k1(1) k'(1,2) by (intro exI [of _ k']) auto
qed

section \<open>Sleeping\<close>

lemma insert_ordered_cong:
  "(\<And>x. x \<in> set xs \<Longrightarrow> f e x = g e x) \<Longrightarrow> insert_ordered f e xs = insert_ordered g e xs"
  by (induction xs) auto

lemma timer_sleep_runs:
  assumes "ready_to_call k" "clock_ok (nat m) k" "0 < m" "idle_thread k = Some i" "threads k i \<noteq> None"
  shows "\<exists>k'. timer_sleep m k = Some k' \<and> clock_ok (nat m) k' \<and> ticks k' = ticks k \<and>
    current k \<in> set (waiting_list k') \<and> wake_at k' (current k) = ticks k + m"
proof -
  let ?c = "current k"
  note ok = ready_ok [OF assms(1)]
  note f = current_facts [OF ok]
  have c: "\<not> in_external_intr k" "\<not> thread_mlfqs k" "sorted (map (wake_at k) (waiting_list k))" "0 \<le> ticks k" "ticks k + m < 2 ^ 63"
    using assms(2,3) by (simp_all add: clock_ok_def)
  define k1 where "k1 = upd_thread ?c (\<lambda>th. th\<lparr>waking_time := ticks k + m\<rparr>) k"
  define ws where "ws = insert_ordered (less_waking_time k1) ?c (waiting_list k)"
  define k2 where "k2 = set_status ?c THREAD_BLOCKED (k1\<lparr>waiting_list := ws\<rparr>)"
  obtain th where th: "threads k ?c = Some th" using f(3) by (auto simp: stat_def)
  have w1: "wake_at k1 t = (if t = ?c then ticks k + m else wake_at k t)" for t using th by (simp add: k1_def wake_at_def upd_thread_def)
  have u: "unqueued k ?c" using current_unqueued [OF f(1)] assms(1) by (simp add: ready_to_call_def)
  have q: "queues_ok k" using f(1) by (simp add: running_ok_def)
  have cn: "?c \<notin> set (waiting_list k)" "distinct (waiting_list k)"
    using u queuesD(1) [OF q, of Q_sleep] by (auto simp: unqueued_def dest: spec [of _ Q_sleep])
  have live: "threads k1 t \<noteq> None" if "t \<in> set (waiting_list k)" for t
    using queue_live [OF f(1), of t Q_sleep] that by (auto simp: k1_def upd_thread_def)
  have "less_waking_time k1 ?c t = (wake_at k1 ?c \<le> wake_at k1 t)" if "t \<in> set (waiting_list k)" for t
    using live [OF that] th by (auto simp: less_waking_time_def wake_at_def k1_def upd_thread_def split: option.splits)
  then have ws: "ws = insert_ordered (\<lambda>a b. wake_at k1 a \<le> wake_at k1 b) ?c (waiting_list k)"
    unfolding ws_def by (rule insert_ordered_cong)
  have "map (wake_at k1) (waiting_list k) = map (wake_at k) (waiting_list k)" using w1 cn(1) by auto
  then have "sorted (map (wake_at k1) (waiting_list k))" using c(3) by (simp only:)
  then have srt: "sorted (map (wake_at k1) ws)" unfolding ws by (rule sorted_insert_ordered)
  have st: "stat k2 = (stat k)(?c \<mapsto> THREAD_BLOCKED)"
    using f(3) by (simp add: k2_def k1_def stat_set_status_fun stat_record)
  have q2: "queues_ok k2"
    by (rule queues_enqueue [OF q u, of k2 Q_sleep ws])
      (use st cn in \<open>auto simp: k2_def k1_def queue_status_def ws_def qof_record\<close>)
  have sel: "current k2 = ?c" "idle_thread k2 = Some i" "threads k2 i \<noteq> None" "ticks k2 = ticks k" "waiting_list k2 = ws"
      "\<not> in_external_intr k2" "\<not> thread_mlfqs k2" "wake_at k2 = wake_at k1"
    using assms(4,5) c by (auto simp: k2_def k1_def set_status_def upd_thread_def wake_at_def fun_eq_iff split: option.splits)
  obtain k' where k': "schedule k2 = Some k'" "same_sleep k2 k'"
    using schedule_runs [OF q2, of THREAD_BLOCKED] st sel by auto
  have s64: "s64 (ticks k + m) = ticks k + m" using c(4,5) assms(3) by (intro s64_id) auto
  have run: "timer_sleep m k = Some k'"
    using assms(3) k'(1) c(1) th f(3) unfolding k2_def k1_def ws_def
    by (simp add: timer_sleep_def thread_block_def thread_current_def waiting_list_push_back_def stat_def s64 upd_thread_def Let_def)
  have ok': "kernel_ok k'" by (rule timer_sleep_ok [OF assms(1) run])
  have 3: "ticks k' = ticks k" "waiting_list k' = ws" "\<not> in_external_intr k'" "\<not> thread_mlfqs k'"
      "\<And>t. threads k' t \<noteq> None \<Longrightarrow> wake_at k' t = wake_at k1 t"
    using k'(2) sel by (simp_all add: same_sleep_def)
  have w: "wake_at k' t = wake_at k1 t" if "t \<in> set ws" for t
    using 3(2,5) queue_live [OF current_facts(1) [OF ok'], of t Q_sleep] that by simp
  then have "sorted (map (wake_at k') ws)" using srt by (metis (no_types, lifting) map_eq_conv)
  then have "clock_ok (nat m) k'" using ok' 3 c(4,5) assms(3) by (simp add: clock_ok_def)
  moreover have "?c \<in> set ws" by (simp add: ws_def)
  ultimately show ?thesis using run 3(1,2) w [of ?c] w1 by auto
qed

text \<open>C11. A thread that sleeps wakes up, and not too early. Let a thread call \<open>timer_sleep\<close> for \<open>m > 0\<close> ticks under the
  priority scheduler, when the idle thread exists. The call returns control to another thread, and then every
  timer interrupt returns; after each of the next \<open>m - 1\<close> of them the thread still sleeps, and after \<open>m\<close> of them
  it is ready or running again, whatever the other threads and sleepers are.\<close>

theorem sleeper_wakes_in_time:
  assumes "ready_to_call k" "clock_ok (nat m) k" "0 < m" "idle_thread k = Some i" "threads k i \<noteq> None"
  shows "\<exists>k'. timer_sleep m k = Some k' \<and> stat k' (current k) = Some THREAD_BLOCKED \<and>
    (\<forall>n. 0 < n \<and> n \<le> nat m \<longrightarrow> (\<exists>k''. timer_ticks_pass n k' = Some k'' \<and> ticks k'' = ticks k + int n \<and>
       (if int n < m then current k \<in> set (waiting_list k'') else awake k'' (current k))))"
proof -
  obtain k' where k': "timer_sleep m k = Some k'" "clock_ok (nat m) k'" "ticks k' = ticks k"
      "current k \<in> set (waiting_list k')" "wake_at k' (current k) = ticks k + m"
    using timer_sleep_runs [OF assms] by blast
  have "stat k' (current k) = Some THREAD_BLOCKED"
    using queuesD(2) [of k' "current k" Q_sleep] k'(2,4) by (simp add: clock_ok_def kernel_ok_def running_ok_def)
  moreover have "\<exists>k''. timer_ticks_pass n k' = Some k'' \<and> ticks k'' = ticks k + int n \<and>
      (if int n < m then current k \<in> set (waiting_list k'') else awake k'' (current k))" if n: "0 < n" "n \<le> nat m" for n
  proof -
    obtain j where j: "n = Suc j" using n(1) by (cases n) auto
    have "int (Suc j) \<le> m" using n(2) j assms(3) by linarith
    then have "clock_ok (Suc j) k'" using k'(2) assms(3) by (simp add: clock_ok_def)
    then show ?thesis using timer_ticks_wake [of j k'] k'(3-5) n(2) j by auto
  qed
  ultimately show ?thesis using k'(1) by blast
qed

text \<open>The main thread of a kernel in which the idle thread waits and a third thread sleeps until tick 9.\<close>

definition ex_sleep :: kernel where
  "ex_sleep = (thread_init 1 False)\<lparr>threads := [1 \<mapsto> empty_thread\<lparr>status := THREAD_RUNNING\<rparr>,
       2 \<mapsto> empty_thread\<lparr>status := THREAD_BLOCKED, frames := [F_idle_loop]\<rparr>,
       3 \<mapsto> empty_thread\<lparr>status := THREAD_BLOCKED, waking_time := 9\<rparr>],
     idle_thread := Some 2, waiting_list := [3], all_list := [1, 2, 3]\<rparr>"

lemma ex_sleep_sel:
  "current ex_sleep = 1" "idle_thread ex_sleep = Some 2" "waiting_list ex_sleep = [3]" "ticks ex_sleep = 0"
  "threads ex_sleep 2 \<noteq> None" "\<not> in_external_intr ex_sleep" "\<not> thread_mlfqs ex_sleep"
  "stat ex_sleep = [1 \<mapsto> THREAD_RUNNING, 2 \<mapsto> THREAD_BLOCKED, 3 \<mapsto> THREAD_BLOCKED]"
  "frs ex_sleep t = (if t = 2 then [F_idle_loop] else [])"
  "qof ex_sleep q = (if q = Q_sleep then [3] else [])"
  "holder ex_sleep l = None" "sema_value (semas ex_sleep (LockSema l)) = 1"
  by (auto simp: ex_sleep_def thread_init_def stat_def frs_def empty_thread_def fun_eq_iff split: queue_id.splits sema_id.splits)
    (cases q; auto split: sema_id.splits)+

lemma ex_sleep_ready: "ready_to_call ex_sleep"
proof -
  have "claims ex_sleep l = {Free}" for l
    by (auto simp: ex_sleep_sel elim!: claims.cases intro: claims.free split: if_splits)
  then have "work_ok ex_sleep"
    by (intro work_okI) (auto simp: ex_sleep_sel creating_def lock_ok_def intro: wf_plain wf_idle_loop split: if_splits)
  moreover have "running_ok ex_sleep" by (auto simp: running_ok_def queues_ok_def queue_status_def ex_sleep_sel split: if_splits)
  ultimately show ?thesis by (simp add: ready_to_call_def kernel_ok_def ex_sleep_sel)
qed

theorem sleeper_wakes_in_time_witness:
  "\<exists>k' k''. timer_sleep 5 ex_sleep = Some k' \<and> timer_ticks_pass 5 k' = Some k'' \<and> awake k'' 1"
proof -
  have "clock_ok (nat 5) ex_sleep"
    using ready_ok [OF ex_sleep_ready] by (simp add: clock_ok_def ex_sleep_sel)
  from sleeper_wakes_in_time [OF ex_sleep_ready this, of 2] show ?thesis
    by (auto simp: ex_sleep_sel dest!: spec [of _ 5])
qed

end
