(* ===== verification/Hash.thy ===== *)
theory Hash
  imports Prelude
begin

text \<open>
  The hash table of \<open>lib/kernel/hash.c\<close>: chained buckets, a power-of-two number of them,
  resized by \<open>rehash\<close> after every change. A bucket is the sequence of its elements (front
  first). The hash and comparison functions are fields of the table, as in the code.
  \<open>rehash\<close> asks \<open>malloc\<close> for the new array; whether it gets it is the argument \<open>mem_ok\<close>.
\<close>

unbundle bit_operations_syntax

section \<open>The table\<close>

record 'a hash =
  hash_cnt :: nat
  bucket_cnt :: "32 word"
  buckets :: "'a list list"
  hash_func :: "'a \<Rightarrow> 32 word"
  less_func :: "'a \<Rightarrow> 'a \<Rightarrow> bool"

definition find_bucket :: "'a hash \<Rightarrow> 'a \<Rightarrow> nat" where
  "find_bucket h e = unat (hash_func h e AND (bucket_cnt h - 1))"

definition find_elem :: "'a hash \<Rightarrow> 'a list \<Rightarrow> 'a \<Rightarrow> 'a option" where
  "find_elem h bucket e = find (\<lambda>hi. \<not> less_func h hi e \<and> \<not> less_func h e hi) bucket"

definition turn_off_least_1bit :: "32 word \<Rightarrow> 32 word" where
  "turn_off_least_1bit x = x AND (x - 1)"

definition is_power_of_2 :: "32 word \<Rightarrow> bool" where
  "is_power_of_2 x \<longleftrightarrow> x \<noteq> 0 \<and> turn_off_least_1bit x = 0"

lemma turn_off_less: "x \<noteq> 0 \<Longrightarrow> turn_off_least_1bit x < x"
proof -
  assume x: "x \<noteq> 0"
  have "turn_off_least_1bit x \<le> x" "turn_off_least_1bit x \<le> x - 1"
    by (simp_all add: turn_off_least_1bit_def word_and_le1 word_and_le2)
  moreover have "x - 1 < x" using x by (simp add: word_less_nat_alt unat_minus_one unat_gt_0)
  ultimately show ?thesis by simp
qed

function reduce_to_power :: "32 word \<Rightarrow> 32 word" where
  "reduce_to_power n = (if n = 0 \<or> is_power_of_2 n then n else reduce_to_power (turn_off_least_1bit n))"
  by auto
termination
  by (relation "measure unat") (use turn_off_less in \<open>auto simp: word_less_nat_alt\<close>)

abbreviation (input) BEST_ELEMS_PER_BUCKET :: nat where "BEST_ELEMS_PER_BUCKET \<equiv> 2"

definition ideal_bucket_cnt :: "nat \<Rightarrow> 32 word" where
  "ideal_bucket_cnt n =
     (let new_bucket_cnt = of_nat (n div BEST_ELEMS_PER_BUCKET);
          new_bucket_cnt = (if new_bucket_cnt < 4 then 4 else new_bucket_cnt) in
      reduce_to_power new_bucket_cnt)"

definition push_bucket :: "'a hash \<Rightarrow> nat \<Rightarrow> 'a \<Rightarrow> 'a hash" where
  "push_bucket h i e = h\<lparr>buckets := (buckets h)[i := e # buckets h ! i]\<rparr>"

fun move_elems :: "'a list \<Rightarrow> 'a hash \<Rightarrow> 'a hash" where
  "move_elems [] h = h"
| "move_elems (e # es) h = move_elems es (push_bucket h (find_bucket h e) e)"

definition rehash :: "bool \<Rightarrow> 'a hash \<Rightarrow> 'a hash" where
  "rehash mem_ok h =
     (let old_buckets = buckets h;
          new_bucket_cnt = ideal_bucket_cnt (hash_cnt h) in
      if new_bucket_cnt = bucket_cnt h then h
      else if \<not> mem_ok then h
      else move_elems (concat old_buckets)
             (h\<lparr>buckets := replicate (unat new_bucket_cnt) [], bucket_cnt := new_bucket_cnt\<rparr>))"

definition hash_clear :: "'a hash \<Rightarrow> 'a hash" where
  "hash_clear h = h\<lparr>buckets := replicate (unat (bucket_cnt h)) [], hash_cnt := 0\<rparr>"

text \<open>The elements that \<open>hash_clear\<close> and \<open>hash_destroy\<close> give to the destructor, in order.\<close>

definition hash_clear_destructs :: "'a hash \<Rightarrow> 'a list" where
  "hash_clear_destructs h = concat (buckets h)"

definition hash_init :: "bool \<Rightarrow> ('a \<Rightarrow> 32 word) \<Rightarrow> ('a \<Rightarrow> 'a \<Rightarrow> bool) \<Rightarrow> 'a hash option" where
  "hash_init mem_ok hash lessf =
     (let h = \<lparr>hash_cnt = 0, bucket_cnt = 4, buckets = [], hash_func = hash, less_func = lessf\<rparr> in
      if mem_ok then Some (hash_clear h) else None)"

definition insert_elem :: "'a hash \<Rightarrow> nat \<Rightarrow> 'a \<Rightarrow> 'a hash" where
  "insert_elem h bucket e = push_bucket (h\<lparr>hash_cnt := hash_cnt h + 1\<rparr>) bucket e"

definition remove_elem :: "'a hash \<Rightarrow> 'a \<Rightarrow> 'a hash" where
  "remove_elem h e = h\<lparr>hash_cnt := hash_cnt h - 1, buckets := map (remove1 e) (buckets h)\<rparr>"

definition hash_insert :: "bool \<Rightarrow> 'a hash \<Rightarrow> 'a \<Rightarrow> 'a option \<times> 'a hash" where
  "hash_insert mem_ok h new =
     (let bucket = find_bucket h new;
          old = find_elem h (buckets h ! bucket) new;
          h = (if old = None then insert_elem h bucket new else h) in
      (old, rehash mem_ok h))"

definition hash_replace :: "bool \<Rightarrow> 'a hash \<Rightarrow> 'a \<Rightarrow> 'a option \<times> 'a hash" where
  "hash_replace mem_ok h new =
     (let bucket = find_bucket h new;
          old = find_elem h (buckets h ! bucket) new;
          h = (case old of None \<Rightarrow> h | Some e \<Rightarrow> remove_elem h e);
          h = insert_elem h bucket new in
      (old, rehash mem_ok h))"

definition hash_find :: "'a hash \<Rightarrow> 'a \<Rightarrow> 'a option" where
  "hash_find h e = find_elem h (buckets h ! find_bucket h e) e"

definition hash_delete :: "bool \<Rightarrow> 'a hash \<Rightarrow> 'a \<Rightarrow> 'a option \<times> 'a hash" where
  "hash_delete mem_ok h e =
     (let found = find_elem h (buckets h ! find_bucket h e) e in
      (found, case found of None \<Rightarrow> h | Some f \<Rightarrow> rehash mem_ok (remove_elem h f)))"

definition hash_apply :: "('a \<Rightarrow> 's \<Rightarrow> 's) \<Rightarrow> 'a hash \<Rightarrow> 's \<Rightarrow> 's" where
  "hash_apply action h s = fold (\<lambda>bucket. fold action bucket) (buckets h) s"

definition hash_size :: "'a hash \<Rightarrow> nat" where
  "hash_size h = hash_cnt h"

definition hash_empty :: "'a hash \<Rightarrow> bool" where
  "hash_empty h \<longleftrightarrow> hash_cnt h = 0"

text \<open>
  The iterator: the current bucket and the elements of it that are still ahead (the
  code keeps the current element and follows its \<open>next\<close> link). \<open>hash_first\<close> stands before
  the first element of the first bucket.
\<close>

record 'a hash_iterator =
  it_bucket :: nat
  it_elem :: "'a option"
  it_rest :: "'a list"

definition hash_first :: "'a hash \<Rightarrow> 'a hash_iterator" where
  "hash_first h = \<lparr>it_bucket = 0, it_elem = None, it_rest = buckets h ! 0\<rparr>"

function next_bucket :: "'a hash \<Rightarrow> nat \<Rightarrow> 'a list \<Rightarrow> 'a hash_iterator" where
  "next_bucket h b (e # es) = \<lparr>it_bucket = b, it_elem = Some e, it_rest = es\<rparr>"
| "next_bucket h b [] =
     (if b + 1 \<ge> length (buckets h) then \<lparr>it_bucket = b + 1, it_elem = None, it_rest = []\<rparr>
      else next_bucket h (b + 1) (buckets h ! (b + 1)))"
  by pat_completeness auto
termination by (relation "measure (\<lambda>(h, b, es). length (buckets h) - b)") auto

definition hash_next :: "'a hash \<Rightarrow> 'a hash_iterator \<Rightarrow> 'a hash_iterator" where
  "hash_next h i = next_bucket h (it_bucket i) (it_rest i)"

definition hash_cur :: "'a hash_iterator \<Rightarrow> 'a option" where
  "hash_cur i = it_elem i"

section \<open>Hash functions\<close>

abbreviation (input) FNV_32_PRIME :: "32 word" where "FNV_32_PRIME \<equiv> 16777619"
abbreviation (input) FNV_32_BASIS :: "32 word" where "FNV_32_BASIS \<equiv> 2166136261"

definition hash_bytes :: "8 word list \<Rightarrow> 32 word" where
  "hash_bytes buf = fold (\<lambda>b hash. (hash * FNV_32_PRIME) XOR ucast b) buf FNV_32_BASIS"

definition hash_string :: "8 word list \<Rightarrow> 32 word" where
  "hash_string s = fold (\<lambda>b hash. (hash * FNV_32_PRIME) XOR ucast b) (takeWhile (\<lambda>b. b \<noteq> 0) s) FNV_32_BASIS"

definition word_bytes :: "32 word \<Rightarrow> 8 word list" where
  "word_bytes w = map (\<lambda>k. ucast (drop_bit (8 * k) w)) [0, 1, 2, 3]"

definition hash_int :: "32 word \<Rightarrow> 32 word" where
  "hash_int i = hash_bytes (word_bytes i)"

end
