(* ===== verification/Hash_Refine.thy ===== *)
theory Hash_Refine
  imports Hash
begin

text \<open>
  Correctness of the hash table. The locale \<open>hash_key\<close> states what the table relies on in
  its client: the comparison identifies elements with the same key, and the hash
  depends on the key only. Under this contract every operation refines the operation
  of the same name on a partial map from keys to elements, whatever resizing does.
\<close>

unbundle bit_operations_syntax

section \<open>The number of buckets\<close>

declare reduce_to_power.simps [simp del]

lemma unat_two_power: "n < 32 \<Longrightarrow> unat (2 ^ n :: 32 word) = 2 ^ n"
proof -
  assume "n < 32"
  then have "(2 :: nat) ^ n < 2 ^ 32" by (intro power_strict_increasing) auto
  then have "unat (of_nat (2 ^ n) :: 32 word) = 2 ^ n" unfolding unat_of_nat by simp
  then show ?thesis by simp
qed

lemma power_of_2_word:
  fixes x :: "32 word"
  assumes "is_power_of_2 x"
  obtains n where "n < 32" "x = 2 ^ n" "unat x = 2 ^ n"
proof -
  have x: "x \<noteq> 0" "x AND (x - 1) = 0" using assms by (auto simp: is_power_of_2_def turn_off_least_1bit_def)
  obtain n where n: "bit x n" "\<And>m. m < n \<Longrightarrow> \<not> bit x m"
  proof -
    obtain m where "bit x m" using x(1) by (metis bit_0_eq bit_eq_iff bot_fun_def bot_bool_def)
    then show thesis using that [of "LEAST m. bit x m"] LeastI [of "bit x"] not_less_Least [of _ "bit x"] by blast
  qed
  have n32: "n < 32" using bit_imp_le_length [OF n(1)] by simp
  have tb: "take_bit n x = 0" by (rule bit_word_eqI) (use n(2) in \<open>auto simp: bit_take_bit_iff\<close>)
  define q where "q = drop_bit n x"
  have xq: "x = push_bit n q" unfolding q_def using bits_ident [of n x] tb by simp
  have "q = 1"
  proof (rule ccontr)
    assume "q \<noteq> 1"
    have "bit q 0" using n(1) by (simp add: q_def bit_drop_bit_eq)
    then have "odd q" by (simp add: bit_0)
    obtain m where m: "0 < m" "bit q m"
    proof -
      have "\<exists>m>0. bit q m"
      proof (rule ccontr)
        assume no: "\<not> (\<exists>m>0. bit q m)"
        have "q = 1" by (rule bit_word_eqI) (use no \<open>bit q 0\<close> in \<open>auto simp: bit_1_iff neq0_conv intro: gr0I\<close>)
        then show False using \<open>q \<noteq> 1\<close> by simp
      qed
      then show thesis using that by blast
    qed
    have x1: "x - 1 = push_bit n (q - 1) OR mask n"
    proof -
      have "push_bit n q = push_bit n (q - 1) + 2 ^ n" by (simp add: push_bit_eq_mult algebra_simps)
      then have "x - 1 = push_bit n (q - 1) + mask n" by (simp add: xq mask_eq_exp_minus_1)
      also have "\<dots> = push_bit n (q - 1) OR mask n"
        by (rule disjunctive_add) (auto simp: bit_push_bit_iff bit_mask_iff)
      finally show ?thesis .
    qed
    have "bit (q - 1) m"
    proof -
      have "q = (q - 1) OR 1"
      proof -
        have "\<not> bit (q - 1) 0" using \<open>odd q\<close> by (simp add: bit_0)
        then have "(q - 1) + 1 = (q - 1) OR 1"
          by (intro disjunctive_add) (metis bit_1_iff)
        then show ?thesis by simp
      qed
      then show ?thesis using m by (metis bit_1_iff bit_or_iff gr_implies_not0)
    qed
    moreover have "bit x (n + m)" using m(2) by (simp add: q_def bit_drop_bit_eq)
    moreover have "n + m < 32" using bit_imp_le_length [OF calculation(2)] by simp
    ultimately have "bit (x AND (x - 1)) (n + m)"
      by (simp add: bit_and_iff x1 bit_or_iff bit_push_bit_iff)
    then show False using x(2) by simp
  qed
  then have "x = 2 ^ n" using xq by simp
  moreover have "unat (2 ^ n :: 32 word) = 2 ^ n" using n32 by (intro unat_two_power)
  ultimately show thesis using that n32 by metis
qed

lemma reduce_to_power_spec:
  "n \<noteq> 0 \<Longrightarrow> is_power_of_2 (reduce_to_power n) \<and> reduce_to_power n \<le> n"
proof (induction n rule: reduce_to_power.induct)
  case (1 n)
  show ?case
  proof (cases "is_power_of_2 n")
    case True
    then have "reduce_to_power n = n" by (subst reduce_to_power.simps) simp
    then show ?thesis using True by simp
  next
    case False
    then have "turn_off_least_1bit n \<noteq> 0" using 1(2) by (simp add: is_power_of_2_def)
    then have "is_power_of_2 (reduce_to_power (turn_off_least_1bit n)) \<and>
        reduce_to_power (turn_off_least_1bit n) \<le> turn_off_least_1bit n"
      using 1(1) False \<open>n \<noteq> 0\<close> by blast
    moreover have "reduce_to_power n = reduce_to_power (turn_off_least_1bit n)"
      using False \<open>n \<noteq> 0\<close> by (subst reduce_to_power.simps) simp
    ultimately show ?thesis using turn_off_less [OF 1(2)] by auto
  qed
qed

lemma ideal_bucket_power: "is_power_of_2 (ideal_bucket_cnt n)"
proof -
  have "(if of_nat (n div 2) < (4 :: 32 word) then 4 else of_nat (n div 2)) \<noteq> (0 :: 32 word)" by auto
  then show ?thesis using reduce_to_power_spec by (simp add: ideal_bucket_cnt_def Let_def)
qed

section \<open>Well-formed tables\<close>

definition elems :: "'a hash \<Rightarrow> 'a list" where
  "elems h = concat (buckets h)"

definition placed :: "'a hash \<Rightarrow> bool" where
  "placed h \<longleftrightarrow> (\<forall>i < length (buckets h). \<forall>e \<in> set (buckets h ! i). find_bucket h e = i)"

definition shape_ok :: "'a hash \<Rightarrow> bool" where
  "shape_ok h \<longleftrightarrow> is_power_of_2 (bucket_cnt h) \<and> length (buckets h) = unat (bucket_cnt h)"

lemma find_bucket_less: "shape_ok h \<Longrightarrow> find_bucket h e < length (buckets h)"
proof -
  assume h: "shape_ok h"
  then obtain n where n: "n < 32" "bucket_cnt h = 2 ^ n" "unat (bucket_cnt h) = 2 ^ n"
    by (auto simp: shape_ok_def elim: power_of_2_word)
  have "bucket_cnt h - 1 = mask n" using n(2) by (simp add: mask_eq_exp_minus_1)
  then have "find_bucket h e = unat (take_bit n (hash_func h e))" by (simp add: find_bucket_def take_bit_eq_mask)
  also have "\<dots> < 2 ^ n" by (simp add: unsigned_take_bit_eq)
  finally show ?thesis using h n(3) by (simp add: shape_ok_def)
qed

lemma mset_concat_update:
  "i < length xss \<Longrightarrow> mset (concat (xss[i := ys])) + mset (xss ! i) = mset (concat xss) + mset ys"
proof (induction xss arbitrary: i)
  case (Cons xs xss)
  then show ?case by (cases i) (auto simp: ac_simps)
qed simp

lemma find_bucket_push [simp]: "find_bucket (push_bucket h i e) = find_bucket h"
  by (simp add: find_bucket_def push_bucket_def fun_eq_iff)

lemma push_bucket_spec:
  assumes "shape_ok h" "i = find_bucket h e"
  shows "shape_ok (push_bucket h i e)" "mset (elems (push_bucket h i e)) = add_mset e (mset (elems h))"
    "placed h \<Longrightarrow> placed (push_bucket h i e)"
    "hash_func (push_bucket h i e) = hash_func h" "less_func (push_bucket h i e) = less_func h"
    "hash_cnt (push_bucket h i e) = hash_cnt h" "bucket_cnt (push_bucket h i e) = bucket_cnt h"
proof -
  have i: "i < length (buckets h)" using find_bucket_less [OF assms(1)] assms(2) by simp
  show "shape_ok (push_bucket h i e)" using assms by (simp add: shape_ok_def push_bucket_def)
  have "mset (concat ((buckets h)[i := e # buckets h ! i])) + mset (buckets h ! i) =
      add_mset e (mset (concat (buckets h))) + mset (buckets h ! i)"
    using mset_concat_update [OF i, of "e # buckets h ! i"] by simp
  then show "mset (elems (push_bucket h i e)) = add_mset e (mset (elems h))"
    unfolding add_right_cancel by (simp add: elems_def push_bucket_def)
  show "placed (push_bucket h i e)" if "placed h"
    using that assms(2) i unfolding placed_def find_bucket_push
    by (auto simp: push_bucket_def nth_list_update)
qed (simp_all add: push_bucket_def)

lemma move_elems_spec:
  "shape_ok h \<Longrightarrow> placed h \<Longrightarrow>
    shape_ok (move_elems es h) \<and> placed (move_elems es h) \<and> mset (elems (move_elems es h)) = mset es + mset (elems h) \<and>
    hash_func (move_elems es h) = hash_func h \<and> less_func (move_elems es h) = less_func h \<and>
    hash_cnt (move_elems es h) = hash_cnt h"
proof (induction es arbitrary: h)
  case (Cons e es)
  note p = push_bucket_spec [OF Cons.prems(1) refl]
  show ?case using Cons.IH [OF p(1) p(3) [OF Cons.prems(2)]] p by simp
qed simp

lemma rehash_spec:
  assumes "shape_ok h" "placed h"
  shows "shape_ok (rehash m h)" "placed (rehash m h)" "mset (elems (rehash m h)) = mset (elems h)"
    "hash_func (rehash m h) = hash_func h" "less_func (rehash m h) = less_func h" "hash_cnt (rehash m h) = hash_cnt h"
proof -
  let ?h = "h\<lparr>buckets := replicate (unat (ideal_bucket_cnt (hash_cnt h))) [], bucket_cnt := ideal_bucket_cnt (hash_cnt h)\<rparr>"
  have "shape_ok ?h" "placed ?h" using ideal_bucket_power by (simp_all add: shape_ok_def placed_def)
  moreover have "elems ?h = []" by (simp add: elems_def)
  ultimately have m: "shape_ok (move_elems (elems h) ?h) \<and> placed (move_elems (elems h) ?h) \<and>
      mset (elems (move_elems (elems h) ?h)) = mset (elems h) \<and> hash_func (move_elems (elems h) ?h) = hash_func h \<and>
      less_func (move_elems (elems h) ?h) = less_func h \<and> hash_cnt (move_elems (elems h) ?h) = hash_cnt h"
    using move_elems_spec [of ?h "elems h"] by simp
  show "shape_ok (rehash m h)" "placed (rehash m h)" "mset (elems (rehash m h)) = mset (elems h)"
    "hash_func (rehash m h) = hash_func h" "less_func (rehash m h) = less_func h" "hash_cnt (rehash m h) = hash_cnt h"
    using m assms by (simp_all add: rehash_def Let_def elems_def [symmetric])
qed

section \<open>The contract with the client\<close>

locale hash_key =
  fixes key :: "'a \<Rightarrow> 'k" and hash :: "'a \<Rightarrow> 32 word" and lessf :: "'a \<Rightarrow> 'a \<Rightarrow> bool"
  assumes equal_iff_key: "\<not> lessf a b \<and> \<not> lessf b a \<longleftrightarrow> key a = key b"
    and hash_by_key: "key a = key b \<Longrightarrow> hash a = hash b"
begin

definition table_ok :: "'a hash \<Rightarrow> bool" where
  "table_ok h \<longleftrightarrow> shape_ok h \<and> placed h \<and> hash_func h = hash \<and> less_func h = lessf \<and>
     hash_cnt h = length (elems h) \<and> distinct (map key (elems h))"

definition lookup :: "'a hash \<Rightarrow> 'k \<Rightarrow> 'a option" where
  "lookup h k = find (\<lambda>e. key e = k) (elems h)"

lemma lookup_Some: "table_ok h \<Longrightarrow> lookup h k = Some e \<longleftrightarrow> e \<in> set (elems h) \<and> key e = k"
proof -
  assume h: "table_ok h"
  then have i: "inj_on key (set (elems h))" by (simp add: table_ok_def distinct_map)
  show ?thesis
  proof
    assume "lookup h k = Some e"
    then show "e \<in> set (elems h) \<and> key e = k" by (auto simp: lookup_def find_Some_iff)
  next
    assume *: "e \<in> set (elems h) \<and> key e = k"
    then have "lookup h k \<noteq> None" by (auto simp: lookup_def find_None_iff)
    then obtain e' where e': "lookup h k = Some e'" by auto
    then have "e' \<in> set (elems h)" "key e' = k" by (auto simp: lookup_def find_Some_iff)
    then show "lookup h k = Some e" using e' * i by (auto dest: inj_onD)
  qed
qed

lemma lookup_cong:
  assumes "table_ok h" "table_ok h'" "set (elems h') = set (elems h)"
  shows "lookup h' = lookup h"
proof
  fix k
  have "lookup h' k = Some e \<longleftrightarrow> lookup h k = Some e" for e
    using lookup_Some [OF assms(1)] lookup_Some [OF assms(2)] assms(3) by simp
  then show "lookup h' k = lookup h k" by (metis not_None_eq)
qed

lemma hash_find_lookup:
  assumes "table_ok h"
  shows "hash_find h e = lookup h (key e)"
proof -
  let ?i = "find_bucket h e"
  have h: "shape_ok h" "placed h" "hash_func h = hash" "less_func h = lessf" using assms by (simp_all add: table_ok_def)
  have i: "?i < length (buckets h)" using find_bucket_less [OF h(1)] .
  have f: "find_elem h b e = find (\<lambda>x. key x = key e) b" for b
    unfolding find_elem_def h(4) using equal_iff_key [of _ e] by simp
  have in_bucket: "x \<in> set (elems h) \<and> key x = key e \<longleftrightarrow> x \<in> set (buckets h ! ?i) \<and> key x = key e" for x
  proof
    assume *: "x \<in> set (elems h) \<and> key x = key e"
    then obtain b where "b \<in> set (buckets h)" "x \<in> set b" by (auto simp: elems_def)
    then obtain j where j: "j < length (buckets h)" "x \<in> set (buckets h ! j)" by (metis in_set_conv_nth)
    then have "find_bucket h x = j" using h(2) by (simp add: placed_def)
    moreover have "find_bucket h x = ?i" using hash_by_key [of x e] * h(3) by (simp add: find_bucket_def)
    ultimately show "x \<in> set (buckets h ! ?i) \<and> key x = key e" using j * by simp
  qed (use i in \<open>auto simp: elems_def\<close>)
  show ?thesis
  proof (cases "hash_find h e")
    case None
    then have "\<forall>x \<in> set (buckets h ! ?i). key x \<noteq> key e" by (auto simp: hash_find_def f find_None_iff)
    then have "lookup h (key e) = None" using in_bucket by (auto simp: lookup_def find_None_iff)
    then show ?thesis using None by simp
  next
    case (Some x)
    then have "x \<in> set (buckets h ! ?i)" "key x = key e" by (auto simp: hash_find_def f find_Some_iff)
    then have "lookup h (key e) = Some x" using in_bucket lookup_Some [OF assms, of "key e" x] by blast
    then show ?thesis using Some by simp
  qed
qed

lemma lookup_key_absent: "table_ok h \<Longrightarrow> lookup h k = None \<longleftrightarrow> k \<notin> key ` set (elems h)"
  by (auto simp: lookup_def find_None_iff)

lemma lookup_add:
  assumes "table_ok h" "table_ok h'" "set (elems h') = insert e (set (elems h))" "lookup h (key e) = None"
  shows "lookup h' = (lookup h)(key e \<mapsto> e)"
proof
  fix k
  have "key x \<noteq> key e" if "x \<in> set (elems h)" for x
    using lookup_key_absent [OF assms(1)] assms(4) that by (metis imageI)
  then have "lookup h' k = Some x \<longleftrightarrow> ((lookup h)(key e \<mapsto> e)) k = Some x" for x
    using lookup_Some [OF assms(2)] lookup_Some [OF assms(1)] assms(3) by auto
  then show "lookup h' k = ((lookup h)(key e \<mapsto> e)) k" by (metis not_None_eq)
qed

lemma lookup_drop:
  assumes "table_ok h" "table_ok h'" "set (elems h') = set (elems h) - {e}" "lookup h (key e) = Some e"
  shows "lookup h' = (lookup h)(key e := None)"
proof
  fix k
  have "inj_on key (set (elems h))" "e \<in> set (elems h)"
    using assms(1) lookup_Some [OF assms(1)] assms(4) by (simp_all add: table_ok_def distinct_map)
  then have "lookup h' k = Some x \<longleftrightarrow> ((lookup h)(key e := None)) k = Some x" for x
    using lookup_Some [OF assms(2)] lookup_Some [OF assms(1)] assms(3) by (auto dest: inj_onD)
  then show "lookup h' k = ((lookup h)(key e := None)) k" by (metis not_None_eq)
qed

lemma rehash_table:
  assumes "table_ok h"
  shows "table_ok (rehash m h)" "lookup (rehash m h) = lookup h"
proof -
  note r = rehash_spec [of h m]
  have h: "shape_ok h" "placed h" using assms by (simp_all add: table_ok_def)
  have ms: "mset (elems (rehash m h)) = mset (elems h)" using r(3) h by simp
  have "distinct (map key (elems (rehash m h)))"
    using assms ms by (metis table_ok_def mset_eq_imp_distinct_iff mset_map)
  then show ok: "table_ok (rehash m h)"
    using assms r h mset_eq_length [OF ms] by (simp add: table_ok_def)
  show "lookup (rehash m h) = lookup h" by (rule lookup_cong [OF assms ok mset_eq_setD [OF ms]])
qed

lemma insert_elem_table:
  assumes "table_ok h" "lookup h (key e) = None"
  shows "table_ok (insert_elem h (find_bucket h e) e)"
    "lookup (insert_elem h (find_bucket h e) e) = (lookup h)(key e \<mapsto> e)"
proof -
  let ?h = "h\<lparr>hash_cnt := hash_cnt h + 1\<rparr>" and ?r = "insert_elem h (find_bucket h e) e"
  have fb: "find_bucket ?h = find_bucket h" by (simp add: fun_eq_iff find_bucket_def)
  then have h: "shape_ok ?h" "placed ?h" "find_bucket ?h e = find_bucket h e" "elems ?h = elems h"
    using assms(1) by (simp_all add: table_ok_def shape_ok_def placed_def elems_def)
  note p = push_bucket_spec [OF h(1) refl, of e, unfolded h(3), folded insert_elem_def]
  have ms: "mset (elems ?r) = mset (e # elems h)" using p(2) h(4) by simp
  have "key e \<notin> key ` set (elems h)" using assms lookup_key_absent by blast
  then have "distinct (map key (e # elems h))" using assms(1) by (simp add: table_ok_def)
  then have "distinct (map key (elems ?r))" using ms by (metis mset_eq_imp_distinct_iff mset_map)
  then show ok: "table_ok ?r"
    using assms(1) p h mset_eq_length [OF ms] by (simp add: table_ok_def)
  show "lookup ?r = (lookup h)(key e \<mapsto> e)"
    using lookup_add [OF assms(1) ok _ assms(2)] mset_eq_setD [OF ms] by simp
qed

lemma remove_elem_table:
  assumes "table_ok h" "lookup h (key e) = Some e"
  shows "table_ok (remove_elem h e)" "lookup (remove_elem h e) = (lookup h)(key e := None)"
    "find_bucket (remove_elem h e) = find_bucket h"
proof -
  have d: "distinct (elems h)" and e: "e \<in> set (elems h)"
    using assms(1) lookup_Some [OF assms(1)] assms(2) by (auto simp: table_ok_def distinct_map)
  have "distinct b" if "b \<in> set (buckets h)" for b
    using d that by (auto simp: elems_def distinct_concat_iff)
  then have bk: "buckets (remove_elem h e) = map (filter (\<lambda>x. e \<noteq> x)) (buckets h)" unfolding remove_elem_def
    by (simp add: distinct_remove1_removeAll removeAll_filter_not_eq)
  then have el: "elems (remove_elem h e) = filter (\<lambda>x. e \<noteq> x) (elems h)"
    by (simp only: elems_def bk filter_concat)
  also have "\<dots> = remove1 e (elems h)" using d by (simp add: distinct_remove1_removeAll removeAll_filter_not_eq)
  finally have len: "length (elems (remove_elem h e)) = length (elems h) - 1" using e by (simp add: length_remove1)
  show fb: "find_bucket (remove_elem h e) = find_bucket h"
    by (simp add: fun_eq_iff find_bucket_def remove_elem_def)
  have "placed (remove_elem h e)"
    using assms(1) notin_set_remove1 unfolding placed_def fb table_ok_def by (fastforce simp: remove_elem_def)
  moreover have "distinct (map key (elems (remove_elem h e)))"
    using assms(1) el by (simp add: table_ok_def distinct_map_filter)
  ultimately show ok: "table_ok (remove_elem h e)"
    using assms(1) len by (simp add: table_ok_def shape_ok_def remove_elem_def)
  show "lookup (remove_elem h e) = (lookup h)(key e := None)"
    by (rule lookup_drop [OF assms(1) ok _ assms(2)]) (use el in auto)
qed

lemma find_bucket_key: "table_ok h \<Longrightarrow> key a = key b \<Longrightarrow> find_bucket h a = find_bucket h b"
  using hash_by_key [of a b] by (simp add: table_ok_def find_bucket_def)

lemma lookup_Some_key: "table_ok h \<Longrightarrow> lookup h k = Some x \<Longrightarrow> key x = k"
  using lookup_Some by blast

lemma hash_insert_refines:
  assumes "table_ok h"
  shows "fst (hash_insert m h e) = lookup h (key e)" "table_ok (snd (hash_insert m h e))"
    "lookup (snd (hash_insert m h e)) = (if lookup h (key e) = None then (lookup h)(key e \<mapsto> e) else lookup h)"
  using hash_find_lookup [OF assms, of e] rehash_table [OF assms, of m]
    insert_elem_table [OF assms, of e] rehash_table [of "insert_elem h (find_bucket h e) e" m]
  by (simp_all add: hash_insert_def Let_def hash_find_def)

lemma hash_replace_refines:
  assumes "table_ok h"
  shows "fst (hash_replace m h e) = lookup h (key e) \<and> table_ok (snd (hash_replace m h e)) \<and>
    lookup (snd (hash_replace m h e)) = (lookup h)(key e \<mapsto> e)"
proof (cases "lookup h (key e)")
  case None
  then show ?thesis
    using hash_find_lookup [OF assms, of e] insert_elem_table [OF assms, of e]
      rehash_table [of "insert_elem h (find_bucket h e) e" m]
    by (simp add: hash_replace_def Let_def hash_find_def)
next
  case (Some x)
  then have k: "key x = key e" using lookup_Some_key [OF assms] by blast
  then have x: "lookup h (key x) = Some x" using Some by simp
  let ?h = "remove_elem h x"
  note r = remove_elem_table [OF assms x]
  have n: "lookup ?h (key e) = None" using r(2) k by simp
  note i = insert_elem_table [OF r(1) n, unfolded r(3)]
  have "lookup (insert_elem ?h (find_bucket h e) e) = (lookup h)(key e \<mapsto> e)" using i(2) r(2) k by simp
  then show ?thesis
    using hash_find_lookup [OF assms, of e] Some rehash_table [OF i(1), of m]
    by (simp add: hash_replace_def Let_def hash_find_def)
qed

lemma hash_delete_refines:
  assumes "table_ok h"
  shows "fst (hash_delete m h e) = lookup h (key e) \<and> table_ok (snd (hash_delete m h e)) \<and>
    lookup (snd (hash_delete m h e)) = (lookup h)(key e := None)"
proof (cases "lookup h (key e)")
  case None
  then show ?thesis
    using hash_find_lookup [OF assms, of e] assms by (simp add: hash_delete_def Let_def hash_find_def fun_upd_idem)
next
  case (Some x)
  then have k: "key x = key e" using lookup_Some_key [OF assms] by blast
  then have x: "lookup h (key x) = Some x" using Some by simp
  note r = remove_elem_table [OF assms x]
  show ?thesis using hash_find_lookup [OF assms, of e] Some rehash_table [OF r(1), of m] r(2) k
    by (simp add: hash_delete_def Let_def hash_find_def)
qed

lemma hash_clear_refines:
  assumes "shape_ok h" "hash_func h = hash" "less_func h = lessf"
  shows "table_ok (hash_clear h)" "lookup (hash_clear h) = (\<lambda>k. None)"
proof -
  have e: "elems (hash_clear h) = []" by (simp add: elems_def hash_clear_def)
  then show "lookup (hash_clear h) = (\<lambda>k. None)" by (simp add: lookup_def fun_eq_iff)
  show "table_ok (hash_clear h)"
    using assms e by (simp add: table_ok_def shape_ok_def placed_def hash_clear_def)
qed

lemma hash_init_refines:
  "\<exists>h. hash_init True hash lessf = Some h \<and> table_ok h \<and> lookup h = (\<lambda>k. None)"
proof -
  let ?b = "replicate (unat (4 :: 32 word)) []"
  let ?h = "\<lparr>hash_cnt = 0, bucket_cnt = 4, buckets = ?b, hash_func = hash, less_func = lessf\<rparr>"
  have i: "hash_init True hash lessf = Some (hash_clear ?h)"
    by (simp add: hash_init_def hash_clear_def)
  have "shape_ok ?h" by (simp add: shape_ok_def is_power_of_2_def turn_off_least_1bit_def)
  then show ?thesis using hash_clear_refines [of ?h] i by simp
qed

lemma hash_size_refines:
  assumes "table_ok h"
  shows "hash_size h = card (dom (lookup h))" "hash_empty h \<longleftrightarrow> lookup h = (\<lambda>k. None)"
proof -
  have dom: "dom (lookup h) = key ` set (elems h)"
    using lookup_key_absent [OF assms] by (auto simp: dom_def)
  have "card (key ` set (elems h)) = length (elems h)"
    using assms by (metis table_ok_def distinct_card length_map set_map)
  then show c: "hash_size h = card (dom (lookup h))" using assms dom by (simp add: hash_size_def table_ok_def)
  show "hash_empty h \<longleftrightarrow> lookup h = (\<lambda>k. None)"
  proof -
    have "hash_empty h \<longleftrightarrow> elems h = []" using assms by (simp add: hash_empty_def table_ok_def)
    also have "\<dots> \<longleftrightarrow> dom (lookup h) = {}" using dom by simp
    finally show ?thesis by simp
  qed
qed

end

section \<open>Iteration\<close>

text \<open>The elements that an iterator still has ahead of it.\<close>

definition ahead :: "'a hash \<Rightarrow> 'a hash_iterator \<Rightarrow> 'a list" where
  "ahead h i = it_rest i @ concat (drop (it_bucket i + 1) (buckets h))"

lemma next_bucket_ahead:
  "hash_cur (next_bucket h b r) = (case r @ concat (drop (b + 1) (buckets h)) of [] \<Rightarrow> None | x # xs \<Rightarrow> Some x) \<and>
   ahead h (next_bucket h b r) = tl (r @ concat (drop (b + 1) (buckets h)))"
proof (induction h b r rule: next_bucket.induct)
  case (2 h b)
  show ?case
  proof (cases "b + 1 \<ge> length (buckets h)")
    case True
    then show ?thesis by (simp add: hash_cur_def ahead_def)
  next
    case False
    then have "drop (b + 1) (buckets h) = buckets h ! (b + 1) # drop (b + 2) (buckets h)"
      using Cons_nth_drop_Suc [of "b + 1" "buckets h"] by simp
    then show ?thesis using 2 False by simp
  qed
qed (simp add: hash_cur_def ahead_def)

text \<open>The loop of every client: \<open>hash_first\<close>, then \<open>hash_next\<close> until it returns no element.\<close>

fun traverse :: "nat \<Rightarrow> 'a hash \<Rightarrow> 'a hash_iterator \<Rightarrow> 'a list option" where
  "traverse 0 h i = None"
| "traverse (Suc n) h i =
     (let i = hash_next h i in
      case hash_cur i of None \<Rightarrow> Some [] | Some e \<Rightarrow> map_option ((#) e) (traverse n h i))"

lemma traverse_ahead: "length (ahead h i) < n \<Longrightarrow> traverse n h i = Some (ahead h i)"
proof (induction n arbitrary: i)
  case (Suc n)
  have nx: "hash_cur (hash_next h i) = (case ahead h i of [] \<Rightarrow> None | x # xs \<Rightarrow> Some x)"
    "ahead h (hash_next h i) = tl (ahead h i)"
    using next_bucket_ahead [of h "it_bucket i" "it_rest i"] by (simp_all add: hash_next_def ahead_def)
  show ?case
  proof (cases "ahead h i")
    case (Cons x xs)
    then show ?thesis using Suc nx by (simp add: Let_def)
  qed (use nx in \<open>simp add: Let_def\<close>)
qed simp

lemma ahead_first: "buckets h \<noteq> [] \<Longrightarrow> ahead h (hash_first h) = elems h"
  by (cases "buckets h") (simp_all add: ahead_def hash_first_def elems_def)

lemma hash_apply_elems: "hash_apply action h s = fold action (elems h) s"
proof -
  have "fold (\<lambda>b. fold action b) bs t = fold action (concat bs) t" for bs t
    by (induction bs arbitrary: t) simp_all
  then show ?thesis by (simp add: hash_apply_def elems_def)
qed

end
