(* ===== verification/Sup_Page.thy ===== *)
theory Sup_Page
  imports Hash_Refine
begin

text \<open>
  The supplementary page table of \<open>vm/page.c\<close>: a hash table of entries keyed by the user
  address. The interpretation \<open>pt\<close> discharges the contract of \<open>hash_key\<close> for the code's
  own \<open>page_hash\<close> and \<open>page_less\<close>; the theorems state over whole sequences of table
  operations that the resizing chained table is a finite map.
  The stack frame of \<open>page_lookup\<close> and the block \<open>malloc\<close> returns hold arbitrary bytes in
  the fields the code does not assign; they are arguments.
\<close>

section \<open>Entries and operations\<close>

record sup_page_table_entry =
  user_vaddr :: "32 word"
  access_time :: "64 word"
  swapped :: bool
  spte_dirty :: bool
  spte_accessed :: bool
  disk_sector_idx :: "32 word"
  load_executable :: bool
  loaded :: bool
  page_read_bytes :: "32 word"
  file_ofs :: "32 word"
  spte_writable :: bool
  mmapped :: bool
  mid :: "32 word"
  spte_fd :: "32 word"
  file_ptr :: "32 word"
  page_cnt :: "32 word"

definition page_hash :: "sup_page_table_entry \<Rightarrow> 32 word" where
  "page_hash p = hash_bytes (word_bytes (user_vaddr p))"

definition page_less :: "sup_page_table_entry \<Rightarrow> sup_page_table_entry \<Rightarrow> bool" where
  "page_less a b \<longleftrightarrow> user_vaddr a < user_vaddr b"

definition page_init :: "bool \<Rightarrow> sup_page_table_entry hash option" where
  "page_init mem_ok = hash_init mem_ok page_hash page_less"

definition page_lookup ::
  "sup_page_table_entry \<Rightarrow> sup_page_table_entry hash \<Rightarrow> 32 word \<Rightarrow> sup_page_table_entry option" where
  "page_lookup frame h address = hash_find h (frame\<lparr>user_vaddr := address\<rparr>)"

text \<open>\<open>None\<close>: \<open>malloc\<close> failed and the code writes through the null pointer.\<close>

definition allocate_page ::
  "sup_page_table_entry option \<Rightarrow> bool \<Rightarrow> 32 word \<Rightarrow> sup_page_table_entry hash \<Rightarrow> sup_page_table_entry hash option" where
  "allocate_page new_entry mem_ok addr h = do {
     block \<leftarrow> new_entry;
     Some (snd (hash_insert mem_ok h (block\<lparr>
       user_vaddr := addr, access_time := 0,
       swapped := False, spte_dirty := False, spte_accessed := False,
       load_executable := False, mmapped := False\<rparr>)))
   }"

interpretation pt: hash_key user_vaddr page_hash page_less
proof
  show "\<not> page_less a b \<and> \<not> page_less b a \<longleftrightarrow> user_vaddr a = user_vaddr b" for a b
    by (auto simp: page_less_def)
  show "user_vaddr a = user_vaddr b \<Longrightarrow> page_hash a = page_hash b" for a b
    by (simp add: page_hash_def)
qed

lemma page_lookup_refines: "pt.table_ok h \<Longrightarrow> page_lookup frame h a = pt.lookup h a"
  by (simp add: page_lookup_def pt.hash_find_lookup)

section \<open>Sequences of operations\<close>

datatype table_op = Insert sup_page_table_entry | Replace sup_page_table_entry | Delete sup_page_table_entry | Clear

text \<open>One call on the table, with its result; \<open>mem_ok\<close> is whether \<open>rehash\<close> gets memory.\<close>

fun table_step :: "bool \<Rightarrow> table_op \<Rightarrow> sup_page_table_entry hash \<Rightarrow> sup_page_table_entry option \<times> sup_page_table_entry hash" where
  "table_step m (Insert e) h = hash_insert m h e"
| "table_step m (Replace e) h = hash_replace m h e"
| "table_step m (Delete e) h = hash_delete m h e"
| "table_step m Clear h = (None, hash_clear h)"

text \<open>The same call on a partial map from addresses to entries.\<close>

fun map_step ::
  "table_op \<Rightarrow> (32 word \<rightharpoonup> sup_page_table_entry) \<Rightarrow> sup_page_table_entry option \<times> (32 word \<rightharpoonup> sup_page_table_entry)" where
  "map_step (Insert e) t = (t (user_vaddr e), if t (user_vaddr e) = None then t(user_vaddr e \<mapsto> e) else t)"
| "map_step (Replace e) t = (t (user_vaddr e), t(user_vaddr e \<mapsto> e))"
| "map_step (Delete e) t = (t (user_vaddr e), t(user_vaddr e := None))"
| "map_step Clear t = (None, \<lambda>a. None)"

fun run_table ::
  "(bool \<times> table_op) list \<Rightarrow> sup_page_table_entry hash \<Rightarrow> sup_page_table_entry option list \<times> sup_page_table_entry hash" where
  "run_table [] h = ([], h)"
| "run_table ((m, x) # xs) h = (let (r, h) = table_step m x h; (rs, h) = run_table xs h in (r # rs, h))"

fun run_map ::
  "table_op list \<Rightarrow> (32 word \<rightharpoonup> sup_page_table_entry) \<Rightarrow>
    sup_page_table_entry option list \<times> (32 word \<rightharpoonup> sup_page_table_entry)" where
  "run_map [] t = ([], t)"
| "run_map (x # xs) t = (let (r, t) = map_step x t; (rs, t) = run_map xs t in (r # rs, t))"

lemma table_step_refines:
  "pt.table_ok h \<Longrightarrow> fst (table_step m x h) = fst (map_step x (pt.lookup h)) \<and>
    pt.table_ok (snd (table_step m x h)) \<and> pt.lookup (snd (table_step m x h)) = snd (map_step x (pt.lookup h))"
proof (cases x)
  case Clear
  assume "pt.table_ok h"
  then have "pt.table_ok (hash_clear h)" "pt.lookup (hash_clear h) = (\<lambda>a. None)"
    using pt.hash_clear_refines [of h] by (auto simp: pt.table_ok_def)
  then show ?thesis using Clear by simp
qed (simp_all add: pt.hash_insert_refines pt.hash_replace_refines pt.hash_delete_refines)

lemma run_table_refines:
  "pt.table_ok h \<Longrightarrow> fst (run_table xs h) = fst (run_map (map snd xs) (pt.lookup h)) \<and>
    pt.table_ok (snd (run_table xs h)) \<and> pt.lookup (snd (run_table xs h)) = snd (run_map (map snd xs) (pt.lookup h))"
proof (induction xs arbitrary: h)
  case (Cons x xs)
  obtain m y where x: "x = (m, y)" by (cases x)
  note s = table_step_refines [OF Cons.prems, of m y]
  show ?case using Cons.IH [of "snd (table_step m y h)"] s
    by (simp add: x Let_def case_prod_beta)
qed simp

lemma page_init_ok: "page_init m = Some h \<Longrightarrow> pt.table_ok h \<and> pt.lookup h = (\<lambda>a. None)"
  using pt.hash_init_refines by (cases m) (auto simp: page_init_def hash_init_def)

section \<open>Properties\<close>

text \<open>An entry for the witnesses, every other field zero.\<close>

definition blank_entry :: "32 word \<Rightarrow> sup_page_table_entry" where
  "blank_entry a = \<lparr>user_vaddr = a, access_time = 0, swapped = False, spte_dirty = False, spte_accessed = False,
     disk_sector_idx = 0, load_executable = False, loaded = False, page_read_bytes = 0, file_ofs = 0,
     spte_writable = False, mmapped = False, mid = 0, spte_fd = 0, file_ptr = 0, page_cnt = 0\<rparr>"

text \<open>C15. The supplementary page table is a finite map. Start from \<open>page_init\<close> and make any
  sequence of \<open>hash_insert\<close>, \<open>hash_replace\<close>, \<open>hash_delete\<close> and \<open>hash_clear\<close> calls, whatever
  memory \<open>rehash\<close> gets or fails to get on the way: every call returns what the same call
  on a partial map from user addresses to entries returns, \<open>page_lookup\<close> afterwards finds
  exactly the entries of that map, and \<open>hash_size\<close> is their number.\<close>

theorem page_table_is_map:
  assumes "page_init m = Some h" and "run_table xs h = (rs, h')" and "run_map (map snd xs) (\<lambda>a. None) = (rs', t)"
  shows "rs = rs' \<and> page_lookup frame h' a = t a \<and> hash_size h' = card (dom t)"
proof -
  have h: "pt.table_ok h" "pt.lookup h = (\<lambda>a. None)" using page_init_ok assms(1) by auto
  have r: "rs = rs'" "pt.table_ok h'" "pt.lookup h' = t"
    using run_table_refines [OF h(1), of xs] assms(2, 3) h(2) by simp_all
  then show ?thesis using page_lookup_refines pt.hash_size_refines(1) by simp
qed

theorem page_table_is_map_witness:
  "\<exists>h rs h'. page_init True = Some h \<and>
     run_table [(True, Insert (blank_entry 4096)), (False, Insert ((blank_entry 4096)\<lparr>swapped := True\<rparr>))] h = (rs, h') \<and>
     rs = [None, Some (blank_entry 4096)] \<and> page_lookup (blank_entry 0) h' 4096 = Some (blank_entry 4096) \<and> hash_size h' = 1"
proof -
  let ?xs = "[(True, Insert (blank_entry 4096)), (False, Insert ((blank_entry 4096)\<lparr>swapped := True\<rparr>))]"
  obtain h where h: "page_init True = Some h" by (simp add: page_init_def hash_init_def)
  obtain rs h' where r: "run_table ?xs h = (rs, h')" by fastforce
  have t: "run_map (map snd ?xs) (\<lambda>a. None) = ([None, Some (blank_entry 4096)], [4096 \<mapsto> blank_entry 4096])"
    by (simp add: blank_entry_def)
  show ?thesis using page_table_is_map [OF h r t, of "blank_entry 0" 4096] h r by auto
qed

text \<open>Iterating over the supplementary page table with \<open>hash_first\<close> and \<open>hash_next\<close> ends
  and visits every entry of the table exactly once, after any sequence of calls.\<close>

theorem page_table_traversal:
  assumes "page_init m = Some h" and "run_table xs h = (rs, h')" and "run_map (map snd xs) (\<lambda>a. None) = (rs', t)"
  shows "\<exists>es. traverse (hash_size h' + 1) h' (hash_first h') = Some es \<and> distinct es \<and> set es = ran t"
proof -
  have h: "pt.table_ok h" "pt.lookup h = (\<lambda>a. None)" using page_init_ok assms(1) by auto
  have r: "pt.table_ok h'" "pt.lookup h' = t"
    using run_table_refines [OF h(1), of xs] assms(2, 3) h(2) by simp_all
  have "buckets h' \<noteq> []" using r(1) find_bucket_less [of h'] by (auto simp: pt.table_ok_def)
  then have a: "ahead h' (hash_first h') = elems h'" by (rule ahead_first)
  have n: "length (elems h') < hash_size h' + 1" using r(1) by (simp add: pt.table_ok_def hash_size_def)
  have "set (elems h') = ran t" using pt.lookup_Some [OF r(1)] r(2) by (auto simp: ran_def)
  moreover have "distinct (elems h')" using r(1) by (auto simp: pt.table_ok_def distinct_map)
  moreover have "traverse (hash_size h' + 1) h' (hash_first h') = Some (elems h')"
    using traverse_ahead [of h' "hash_first h'"] a n by metis
  ultimately show ?thesis by blast
qed

theorem page_table_traversal_witness:
  "\<exists>h rs h' es. page_init True = Some h \<and>
     run_table [(True, Insert (blank_entry 4096)), (False, Insert (blank_entry 8192)), (True, Delete (blank_entry 4096))] h = (rs, h') \<and>
     traverse (hash_size h' + 1) h' (hash_first h') = Some es \<and> distinct es \<and> set es = {blank_entry 8192}"
proof -
  let ?xs = "[(True, Insert (blank_entry 4096)), (False, Insert (blank_entry 8192)), (True, Delete (blank_entry 4096))]"
  obtain h where h: "page_init True = Some h" by (simp add: page_init_def hash_init_def)
  obtain rs h' where r: "run_table ?xs h = (rs, h')" by fastforce
  have t: "run_map (map snd ?xs) (\<lambda>a. None) = ([None, None, Some (blank_entry 4096)], [8192 \<mapsto> blank_entry 8192])"
    by (simp add: blank_entry_def fun_eq_iff)
  show ?thesis using page_table_traversal [OF h r t] h r by auto
qed

end
