(* ===== verification/Arith64.thy ===== *)
theory Arith64
  imports Prelude "HOL-Library.Signed_Division"
begin

text \<open>
  The 64-bit division routines of \<open>lib/arithmetic.c\<close>, at their widths. \<open>divl\<close> is the x86
  instruction: it traps (\<open>None\<close>) on a zero divisor and on a quotient of more than 32 bits.
  The lemmas follow the two proofs that the comments of \<open>udiv64\<close> sketch or cite.
\<close>

unbundle bit_operations_syntax

section \<open>The routines\<close>

definition divl :: "64 word \<Rightarrow> 32 word \<Rightarrow> 32 word option" where
  "divl n d = (if d = 0 \<or> n div ucast d \<ge> 2 ^ 32 then None else Some (ucast (n div ucast d)))"

definition nlz :: "32 word \<Rightarrow> nat" where
  "nlz x =
     (let n = 0;
          (n, x) = (if x \<le> 0x0000FFFF then (n + 16, push_bit 16 x) else (n, x));
          (n, x) = (if x \<le> 0x00FFFFFF then (n + 8, push_bit 8 x) else (n, x));
          (n, x) = (if x \<le> 0x0FFFFFFF then (n + 4, push_bit 4 x) else (n, x));
          (n, x) = (if x \<le> 0x3FFFFFFF then (n + 2, push_bit 2 x) else (n, x)) in
      if x \<le> 0x7FFFFFFF then n + 1 else n)"

definition udiv64 :: "64 word \<Rightarrow> 64 word \<Rightarrow> 64 word option" where
  "udiv64 n d =
     (if drop_bit 32 d = 0 then
        let b = push_bit 32 1 :: 64 word;
            n1 = ucast (drop_bit 32 n) :: 32 word;
            n0 = ucast n :: 32 word;
            d0 = ucast d :: 32 word in
        if d0 = 0 then None
        else do {
          q \<leftarrow> divl (b * ucast (n1 mod d0) + ucast n0) d0;
          Some (ucast q + b * ucast (n1 div d0))
        }
      else if n < d then Some 0
      else
        let d1 = ucast (drop_bit 32 d) :: 32 word;
            s = nlz d1 in do {
          q \<leftarrow> divl (drop_bit 1 n) (ucast (drop_bit 32 (push_bit s d)));
          let q = ucast (drop_bit (31 - s) q) :: 64 word in
          Some (if n - (q - 1) * d < d then q - 1 else q)
        })"

definition umod64 :: "64 word \<Rightarrow> 64 word \<Rightarrow> 32 word option" where
  "umod64 n d = do { q \<leftarrow> udiv64 n d; Some (ucast (n - d * q)) }"

definition sdiv64 :: "64 word \<Rightarrow> 64 word \<Rightarrow> 64 word option" where
  "sdiv64 n d =
     (let n_abs = (if 0 \<le>s n then n else - n);
          d_abs = (if 0 \<le>s d then d else - d) in do {
        q_abs \<leftarrow> udiv64 n_abs d_abs;
        Some (if (n <s 0) = (d <s 0) then q_abs else - q_abs)
      })"

definition smod64 :: "64 word \<Rightarrow> 64 word \<Rightarrow> 32 word option" where
  "smod64 n d = do { q \<leftarrow> sdiv64 n d; Some (ucast (n - d * q)) }"

definition divdi3 :: "64 word \<Rightarrow> 64 word \<Rightarrow> 64 word option" where
  "divdi3 n d = sdiv64 n d"

definition moddi3 :: "64 word \<Rightarrow> 64 word \<Rightarrow> 64 word option" where
  "moddi3 n d = map_option scast (smod64 n d)"

definition udivdi3 :: "64 word \<Rightarrow> 64 word \<Rightarrow> 64 word option" where
  "udivdi3 n d = udiv64 n d"

definition umoddi3 :: "64 word \<Rightarrow> 64 word \<Rightarrow> 64 word option" where
  "umoddi3 n d = map_option ucast (umod64 n d)"

section \<open>Leading zeros\<close>

text \<open>One halving step of the search: \<open>x\<close> has lost \<open>n\<close> leading zeros and has fewer than \<open>2 * k\<close> left.\<close>

definition nlz_inv :: "32 word \<Rightarrow> nat \<Rightarrow> nat \<times> 32 word \<Rightarrow> bool" where
  "nlz_inv x0 k p \<longleftrightarrow> unat (snd p) = unat x0 * 2 ^ fst p \<and> 2 ^ (32 - k) \<le> unat (snd p)"

lemma nlz_step:
  assumes "nlz_inv x0 (2 * k) (n, x)" "k \<le> 16" "unat m = 2 ^ (32 - k) - 1"
  shows "nlz_inv x0 k (if x \<le> m then (n + k, push_bit k x) else (n, x))"
proof (cases "x \<le> m")
  case True
  have "unat m < 2 ^ (32 - k)" using assms(3) by (simp add: less_eq_Suc_le)
  then have lt: "unat x < 2 ^ (32 - k)" using True by (simp add: word_le_nat_alt)
  have split: "(2::nat) ^ (32 - k) * 2 ^ k = 2 ^ 32" using assms(2) by (simp flip: power_add)
  have "unat x * 2 ^ k < 2 ^ (32 - k) * 2 ^ k" by (rule mult_strict_right_mono [OF lt]) simp
  then have p: "unat (push_bit k x) = unat x * 2 ^ k" by (intro unat_push_bit) (simp only: split, simp)
  have "(2::nat) ^ (32 - 2 * k) * 2 ^ k = 2 ^ (32 - k)" using assms(2) by (simp flip: power_add)
  then have "2 ^ (32 - k) \<le> unat x * 2 ^ k"
    using assms(1) by (metis mult_le_mono1 nlz_inv_def snd_conv)
  then show ?thesis using assms(1) p True by (simp add: nlz_inv_def power_add)
next
  case False
  then have "unat m < unat x" by (simp add: word_le_nat_alt)
  then show ?thesis using assms False by (auto simp: nlz_inv_def)
qed

lemma nlz_spec:
  assumes "x \<noteq> 0"
  shows "nlz x \<le> 31" "2 ^ 31 \<le> unat x * 2 ^ nlz x" "unat x * 2 ^ nlz x < 2 ^ 32"
proof -
  have "nlz_inv x (2 * 16) (0, x)" using assms by (simp add: nlz_inv_def unat_gt_0 Suc_leI)
  from nlz_step [OF this, of "0x0000FFFF"] obtain n1 x1
    where 1: "nlz_inv x (2 * 8) (n1, x1)" "(if x \<le> 0x0000FFFF then (0 + 16, push_bit 16 x) else (0, x)) = (n1, x1)"
    by (cases "(if x \<le> 0x0000FFFF then (0 + 16, push_bit 16 x) else (0, x)) :: nat \<times> 32 word") auto
  from nlz_step [OF 1(1), of "0x00FFFFFF"] obtain n2 x2
    where 2: "nlz_inv x (2 * 4) (n2, x2)" "(if x1 \<le> 0x00FFFFFF then (n1 + 8, push_bit 8 x1) else (n1, x1)) = (n2, x2)"
    by (cases "(if x1 \<le> 0x00FFFFFF then (n1 + 8, push_bit 8 x1) else (n1, x1)) :: nat \<times> 32 word") auto
  from nlz_step [OF 2(1), of "0x0FFFFFFF"] obtain n3 x3
    where 3: "nlz_inv x (2 * 2) (n3, x3)" "(if x2 \<le> 0x0FFFFFFF then (n2 + 4, push_bit 4 x2) else (n2, x2)) = (n3, x3)"
    by (cases "(if x2 \<le> 0x0FFFFFFF then (n2 + 4, push_bit 4 x2) else (n2, x2)) :: nat \<times> 32 word") auto
  from nlz_step [OF 3(1), of "0x3FFFFFFF"] obtain n4 x4
    where 4: "nlz_inv x (2 * 1) (n4, x4)" "(if x3 \<le> 0x3FFFFFFF then (n3 + 2, push_bit 2 x3) else (n3, x3)) = (n4, x4)"
    by (cases "(if x3 \<le> 0x3FFFFFFF then (n3 + 2, push_bit 2 x3) else (n3, x3)) :: nat \<times> 32 word") auto
  from nlz_step [OF 4(1), of "0x7FFFFFFF"]
  have 5: "nlz_inv x 1 (if x4 \<le> 0x7FFFFFFF then (n4 + 1, push_bit 1 x4) else (n4, x4))" by simp
  have n: "nlz x = fst (if x4 \<le> 0x7FFFFFFF then (n4 + 1, push_bit 1 x4) else (n4, x4))"
    using 1(2) 2(2) 3(2) 4(2) by (simp add: nlz_def Let_def)
  define y where "y = snd (if x4 \<le> 0x7FFFFFFF then (n4 + 1, push_bit 1 x4) else (n4, x4))"
  have y: "unat y = unat x * 2 ^ nlz x" "2 ^ 31 \<le> unat y"
    using 5 unfolding nlz_inv_def n y_def by simp_all
  have lt: "unat y < 2 ^ 32" using unat_less_width [of y] by simp
  show "2 ^ 31 \<le> unat x * 2 ^ nlz x" "unat x * 2 ^ nlz x < 2 ^ 32" using y lt by simp_all
  show "nlz x \<le> 31"
  proof (rule ccontr)
    assume "\<not> nlz x \<le> 31"
    then have "(2::nat) ^ 32 \<le> 2 ^ nlz x" by (intro power_increasing) auto
    moreover have "1 \<le> unat x" using assms by (simp add: unat_gt_0 Suc_leI)
    ultimately have "2 ^ 32 \<le> unat x * 2 ^ nlz x" by (metis mult_le_mono mult_1)
    then show False using y(1) lt by simp
  qed
qed

section \<open>Unsigned division\<close>

lemma divl_Some:
  assumes "unat d \<noteq> 0" "unat n div unat d < 2 ^ 32"
  shows "\<exists>q. divl n d = Some q \<and> unat q = unat n div unat d"
proof -
  have u: "unat (n div ucast d) = unat n div unat d"
    by (simp add: unat_div_distrib unat_ucast_up)
  have "\<not> n div ucast d \<ge> 2 ^ 32" using assms(2) u by (simp add: word_le_nat_alt)
  moreover have "unat (ucast (n div ucast d :: 64 word) :: 32 word) = unat n div unat d"
    using assms(2) u by (simp add: unat_ucast_less)
  ultimately show ?thesis using assms(1) by (simp add: divl_def unat_eq_zero)
qed

text \<open>The first branch: long division of two 32-bit digits by one.\<close>

lemma two_digit_div:
  fixes n d b :: nat
  assumes "0 < d"
  shows "(b * (n div b mod d) + n mod b) div d + b * (n div b div d) = n div d"
proof -
  have "n = b * (n div b) + n mod b" by simp
  also have "b * (n div b) = b * (n div b mod d) + b * (n div b div d) * d"
    by (metis add.commute distrib_left mult.assoc mult.commute div_mult_mod_eq)
  finally have "n = (b * (n div b mod d) + n mod b) + b * (n div b div d) * d" by simp
  then show ?thesis using assms by (metis div_mult_self1 add.commute less_not_refl)
qed

lemma two_digit_fits:
  fixes n d b :: nat
  assumes "0 < d" "0 < b"
  shows "(b * (n div b mod d) + n mod b) div d < b"
proof -
  have "b * (n div b mod d) + n mod b < b * (n div b mod d) + b" using assms(2) by simp
  also have "\<dots> = b * Suc (n div b mod d)" by simp
  also have "\<dots> \<le> b * d" using assms(1) by (intro mult_le_mono) (simp_all add: Suc_leI)
  finally show ?thesis by (simp add: less_mult_imp_div_less)
qed

text \<open>
  The second branch (Hacker's Delight, section 9-5): dividing by the leading digits
  \<open>D\<close> of the divisor overestimates the quotient by at most one.
\<close>

lemma leading_digits_quotient:
  fixes n d K A :: nat
  assumes n: "n < 2 ^ 64" and K: "K = 2 \<or> 4 \<le> K" "A * K = 2 ^ 33" and d: "2 ^ 31 * K \<le> d div K * K"
  shows "n div d \<le> n div (d div K * K)" "n div (d div K * K) \<le> n div d + 1"
proof -
  define D where "D = d div K * K"
  have D: "D \<le> d" "2 ^ 31 * K \<le> D" "0 < D" using d K by (auto simp: D_def)
  have "d - D = d mod K" by (simp add: D_def modulo_nat_def)
  then have r: "d - D \<le> K - 1" using K by (metis Suc_pred' gr0I less_Suc_eq_le mod_less_divisor mult_0_right numeral_neq_zero power_not_zero)
  show "n div d \<le> n div (d div K * K)" using D unfolding D_def by (intro div_le_mono2) auto
  define q where "q = n div D"
  have qD: "q * D \<le> n" by (simp add: q_def)
  have "q * (2 ^ 31 * K) < 2 ^ 64" using qD D(2) n by (meson le_less_trans le_trans mult_le_mono2)
  then have "q * K < A * K" using K(2) by (simp add: mult.commute)
  then have qA: "q < A" using mult_less_cancel2 by blast
  have bound: "(q - 1) * (d - D) \<le> D"
  proof (cases "K = 2")
    case True
    then have "A = 2 ^ 32" "d - D \<le> 1" "2 ^ 32 \<le> D" using K(2) r D(2) by simp_all
    then have "(q - 1) * (d - D) \<le> (q - 1) * 1" by (intro mult_le_mono2) simp
    also have "\<dots> \<le> D" using qA \<open>A = 2 ^ 32\<close> \<open>2 ^ 32 \<le> D\<close> by linarith
    finally show ?thesis .
  next
    case False
    then have "4 \<le> K" using K(1) by simp
    have "(q - 1) * (d - D) \<le> A * K" using qA r by (intro mult_le_mono) simp_all
    then show ?thesis using K(2) D(2) \<open>4 \<le> K\<close> by simp
  qed
  show "n div (d div K * K) \<le> n div d + 1"
  proof (cases "q = 0")
    case False
    have "(q - 1) * d = (q - 1) * D + (q - 1) * (d - D)" using D(1) by (simp flip: distrib_left)
    also have "\<dots> \<le> (q - 1) * D + D" using bound by simp
    also have "\<dots> = q * D" using False by (simp add: mult_eq_if add.commute)
    finally have "(q - 1) * d \<le> n" using qD by simp
    then have "q - 1 \<le> n div d" using D by (simp add: less_eq_div_iff_mult_less_eq)
    then show ?thesis by (simp add: q_def D_def)
  qed (simp add: q_def D_def)
qed

lemma udiv64_small:
  assumes "drop_bit 32 d = 0" "d \<noteq> 0"
  shows "udiv64 n d = Some (n div d)"
proof -
  have "unat d div 2 ^ 32 = 0" using assms(1) by (metis unat_drop_bit unat_0)
  then have d: "unat d < 2 ^ 32" by (simp add: div_eq_0_iff)
  define n1 where "n1 = (ucast (drop_bit 32 n) :: 32 word)"
  define n0 where "n0 = (ucast n :: 32 word)"
  define d0 where "d0 = (ucast d :: 32 word)"
  define b where "b = (push_bit 32 1 :: 64 word)"
  have b: "unat b = 2 ^ 32" by (simp add: b_def)
  have d0: "unat d0 = unat d" using d by (simp add: d0_def unat_ucast_less)
  have dpos: "0 < unat d" using assms(2) by (simp add: unat_gt_0)
  have n1: "unat n1 = unat n div 2 ^ 32"
    using unat_less_width [of n] by (simp add: n1_def unat_ucast_less unat_drop_bit less_mult_imp_div_less)
  have n0: "unat n0 = unat n mod 2 ^ 32" by (simp add: n0_def unat_ucast_down)
  have rem: "unat (ucast (n1 mod d0) :: 64 word) = unat n div 2 ^ 32 mod unat d"
    by (simp add: unat_ucast_up unat_mod_distrib n1 d0)
  have quo: "unat (ucast (n1 div d0) :: 64 word) = unat n div 2 ^ 32 div unat d"
    by (simp add: unat_ucast_up unat_div_distrib n1 d0)
  have fits: "(2 ^ 32 * (unat n div 2 ^ 32 mod unat d) + unat n mod 2 ^ 32) div unat d < 2 ^ 32"
    using two_digit_fits [OF dpos, of "2 ^ 32"] by simp
  have rem_le: "unat n div 2 ^ 32 mod unat d \<le> 2 ^ 32 - 1"
    using mod_less_divisor [OF dpos, of "unat n div 2 ^ 32"] d by linarith
  then have "2 ^ 32 * (unat n div 2 ^ 32 mod unat d) \<le> 2 ^ 32 * (2 ^ 32 - 1)" by (rule mult_le_mono2)
  moreover have "unat n mod 2 ^ 32 < 2 ^ 32" by simp
  ultimately have sum_lt: "2 ^ 32 * (unat n div 2 ^ 32 mod unat d) + unat n mod 2 ^ 32 < 2 ^ 64" by simp
  have prod: "unat (b * ucast (n1 mod d0)) = 2 ^ 32 * (unat n div 2 ^ 32 mod unat d)"
    using sum_lt by (subst unat_mult_less) (simp_all add: b rem)
  have arg: "unat (b * ucast (n1 mod d0) + ucast n0) = 2 ^ 32 * (unat n div 2 ^ 32 mod unat d) + unat n mod 2 ^ 32"
    using sum_lt by (subst unat_plus_less) (simp_all add: prod unat_ucast_up n0)
  obtain q where q: "divl (b * ucast (n1 mod d0) + ucast n0) d0 = Some q"
    "unat q = (2 ^ 32 * (unat n div 2 ^ 32 mod unat d) + unat n mod 2 ^ 32) div unat d"
    using divl_Some [of d0 "b * ucast (n1 mod d0) + ucast n0"] fits dpos by (auto simp: arg d0)
  have total: "unat q + 2 ^ 32 * (unat n div 2 ^ 32 div unat d) = unat n div unat d"
    unfolding q(2) by (rule two_digit_div [OF dpos])
  have lt: "unat n div unat d < 2 ^ 64" using unat_less_width [of n] le_less_trans [OF div_le_dividend] by simp
  have "unat (b * ucast (n1 div d0)) = 2 ^ 32 * (unat n div 2 ^ 32 div unat d)"
    using total lt by (subst unat_mult_less) (simp_all add: b quo)
  then have "unat (ucast q + b * ucast (n1 div d0)) = unat n div unat d"
    using total lt by (subst unat_plus_less) (simp_all add: unat_ucast_up)
  then have "ucast q + b * ucast (n1 div d0) = n div d" by (simp add: word_unat_eq_iff unat_div_distrib)
  moreover have "d0 \<noteq> 0" using d0 dpos by auto
  ultimately show ?thesis
    using assms(1) q(1) unfolding b_def n1_def n0_def d0_def by (simp add: udiv64_def Let_def)
qed

lemma udiv64_large:
  assumes "drop_bit 32 d \<noteq> 0" "d \<le> n"
  shows "udiv64 n d = Some (n div d)"
proof -
  define d1 where "d1 = (ucast (drop_bit 32 d) :: 32 word)"
  define s where "s = nlz d1"
  define K where "K = (2::nat) ^ (32 - s)"
  have d1: "unat d1 = unat d div 2 ^ 32"
    using unat_less_width [of d] by (simp add: d1_def unat_ucast_less unat_drop_bit less_mult_imp_div_less)
  have "d1 \<noteq> 0" using assms(1) d1 unat_drop_bit [of 32 d] by (metis unat_eq_zero)
  note s = nlz_spec [OF this, folded s_def]
  have Ks: "K * 2 ^ s = 2 ^ 32" "2 ^ (s + 1) * K = 2 ^ 33" "K = 2 * 2 ^ (31 - s)"
    using s(1) by (simp_all add: K_def Suc_diff_le flip: power_add power_Suc)
  have "unat d1 * 2 ^ s < K * 2 ^ s" using s(3) Ks(1) by simp
  then have "unat d1 + 1 \<le> K" by simp
  then have "(unat d1 + 1) * 2 ^ s \<le> 2 ^ 32" using Ks(1) by (metis mult_le_mono1)
  moreover have "unat d < (unat d1 + 1) * 2 ^ 32" unfolding d1 using div_mult_mod_eq [of "unat d" "2 ^ 32"]
      mod_less_divisor [of "2 ^ 32" "unat d"] by simp
  ultimately have dlt: "unat d * 2 ^ s < 2 ^ 64"
    using mult_strict_right_mono [of "unat d" "(unat d1 + 1) * 2 ^ 32" "2 ^ s"] by (simp add: algebra_simps)
  define v where "v = (ucast (drop_bit 32 (push_bit s d)) :: 32 word)"
  have v: "unat v = unat d div K"
  proof -
    have "unat (drop_bit 32 (push_bit s d)) = unat d * 2 ^ s div (K * 2 ^ s)"
      using dlt Ks(1) by (simp add: unat_drop_bit unat_push_bit)
    also have "\<dots> = unat d div K" by simp
    finally have "unat (drop_bit 32 (push_bit s d)) = unat d div K" .
    moreover have "unat d div K < 2 ^ 32"
    proof (rule less_mult_imp_div_less)
      have "unat d * 2 ^ s < 2 ^ 32 * K * 2 ^ s" using dlt by (simp add: mult.assoc Ks(1))
      then show "unat d < 2 ^ 32 * K" using mult_less_cancel2 by blast
    qed
    ultimately show ?thesis by (simp add: v_def unat_ucast_less)
  qed
  have v31: "2 ^ 31 \<le> unat v"
  proof -
    have "2 ^ 31 * (K * 2 ^ s) \<le> unat d1 * 2 ^ s * 2 ^ 32" using s(2) Ks(1) by simp
    also have "\<dots> \<le> unat d * 2 ^ s" using d1 div_times_less_eq_dividend [of "unat d" "2 ^ 32"] by simp
    finally have "2 ^ 31 * K \<le> unat d" by simp
    then show ?thesis unfolding v by (subst less_eq_div_iff_mult_less_eq) (simp_all add: K_def)
  qed
  have "unat (drop_bit 1 n) div unat v < 2 ^ 32"
  proof (rule less_mult_imp_div_less)
    have "unat (drop_bit 1 n) < 2 ^ 32 * 2 ^ 31" using unat_less_width [of n] by (simp add: unat_drop_bit less_mult_imp_div_less)
    also have "\<dots> \<le> 2 ^ 32 * unat v" using v31 by simp
    finally show "unat (drop_bit 1 n) < 2 ^ 32 * unat v" .
  qed
  then obtain q1 where q1: "divl (drop_bit 1 n) v = Some q1" "unat q1 = unat n div 2 div unat v"
    using divl_Some [of v "drop_bit 1 n"] v31 by (auto simp: unat_drop_bit)
  define q where "q = (ucast (drop_bit (31 - s) q1) :: 64 word)"
  have q: "unat q = unat n div (unat d div K * K)"
    by (simp add: q_def unat_ucast_up unat_drop_bit q1(2) v Ks(3) div_mult2_eq [symmetric] mult.assoc mult.left_commute mult.commute)
  have K24: "K = 2 \<or> 4 \<le> K"
  proof (cases "s = 31")
    case False
    then have "(2::nat) ^ 2 \<le> K" unfolding K_def using s(1) by (intro power_increasing) auto
    then show ?thesis by simp
  qed (simp add: K_def)
  have "2 ^ 31 * K \<le> unat d div K * K" using v31 v by simp
  note est = leading_digits_quotient [OF _ K24 Ks(2) this, of "unat n", folded q]
  have Q: "unat n div unat d \<le> unat q" "unat q \<le> unat n div unat d + 1"
    using est unat_less_width [of n] by simp_all
  have dpos: "0 < unat d" using v31 v by (cases "unat d = 0") simp_all
  have "1 \<le> unat n div unat d" using assms(2) dpos by (simp add: word_le_nat_alt less_eq_div_iff_mult_less_eq)
  then have q0: "1 \<le> unat q" using Q(1) by linarith
  have qm: "unat (q - 1) = unat q - 1" using q0 by (subst unat_minus_le) (simp_all add: word_le_nat_alt)
  have le: "(unat q - 1) * unat d \<le> unat n"
    using Q(2) dpos by (metis le_diff_conv less_eq_div_iff_mult_less_eq)
  then have m: "unat ((q - 1) * d) = (unat q - 1) * unat d"
    using unat_less_width [of n] by (subst unat_mult_less) (simp_all add: qm)
  then have diff: "unat (n - (q - 1) * d) = unat n - (unat q - 1) * unat d"
    using le by (subst unat_minus_le) (simp_all add: word_le_nat_alt)
  have "unat (if n - (q - 1) * d < d then q - 1 else q) = unat n div unat d"
  proof (cases "unat q = unat n div unat d")
    case True
    have "(unat q - 1) * unat d + unat d \<le> unat n"
      using True q0 by (metis add.commute div_times_less_eq_dividend le_add_diff_inverse mult_Suc plus_1_eq_Suc)
    then have "\<not> n - (q - 1) * d < d" unfolding word_less_nat_alt diff by linarith
    then show ?thesis using True by simp
  next
    case False
    then have e: "unat q - 1 = unat n div unat d" using Q by simp
    have "unat n - unat n div unat d * unat d < unat d"
      using dpos by (simp add: minus_div_mult_eq_mod)
    then show ?thesis using e by (simp add: word_less_nat_alt diff qm)
  qed
  then have "(if n - (q - 1) * d < d then q - 1 else q) = n div d"
    by (simp add: word_unat_eq_iff unat_div_distrib)
  moreover have "\<not> n < d" using assms(2) by simp
  ultimately show ?thesis
    using assms q1(1) unfolding q_def v_def s_def d1_def by (simp add: udiv64_def Let_def)
qed

lemma udiv64_div: "udiv64 n d = (if d = 0 then None else Some (n div d))"
proof -
  have "udiv64 n 0 = None" by (simp add: udiv64_def Let_def)
  moreover have "udiv64 n d = Some (n div d)" if "drop_bit 32 d \<noteq> 0" "n < d"
  proof -
    have "n div d = 0" using that(2) by (simp add: word_unat_eq_iff unat_div_distrib word_less_nat_alt)
    then show ?thesis using that by (simp add: udiv64_def)
  qed
  ultimately show ?thesis using udiv64_small udiv64_large by (metis not_le)
qed

section \<open>Signed division\<close>

lemma sint_range_64: "- (2 ^ 63) \<le> sint (x :: 64 word)" "sint (x :: 64 word) < 2 ^ 63"
  using sint_ge [of x] sint_lt [of x] by simp_all

lemma uint_abs_64: "uint (if 0 \<le>s x then x else - x) = \<bar>sint (x :: 64 word)\<bar>"
proof -
  have "(if 0 \<le>s x then x else - x) = word_of_int \<bar>sint x\<bar>"
    by (simp add: word_sle_eq abs_if wi_hom_neg)
  moreover have "\<bar>sint x\<bar> < 2 ^ 64" using sint_range_64 [of x] by (simp add: abs_less_iff)
  ultimately show ?thesis by (simp add: unsigned_of_int take_bit_int_eq_self)
qed

lemma signed_divide_by_sign:
  "a sdiv b = (if (a < 0) = (b < 0) then \<bar>a\<bar> div \<bar>b\<bar> else - (\<bar>a\<bar> div \<bar>b\<bar>))" for a b :: int
  unfolding signed_divide_int_def by (auto simp: sgn_if)

lemma ucast_down_up: "ucast (ucast x :: 32 word) = take_bit 32 (x :: 64 word)"
  by (rule bit_word_eqI) (auto simp: bit_simps)

lemma scast_down_up: "scast (ucast (word_of_int k :: 64 word) :: 32 word) = (word_of_int (signed_take_bit 31 k) :: 64 word)"
  by (rule bit_word_eqI) (auto simp: bit_simps min_def)

lemma sdiv64_sdiv: "sdiv64 n d = (if d = 0 then None else Some (word_of_int (sint n sdiv sint d)))"
proof -
  let ?n = "if 0 \<le>s n then n else - n" and ?d = "if 0 \<le>s d then d else - d"
  have q: "?n div ?d = word_of_int (\<bar>sint n\<bar> div \<bar>sint d\<bar>)"
    unfolding word_div_def uint_abs_64 ..
  have s: "(n <s 0) = (sint n < 0)" "(d <s 0) = (sint d < 0)" by (simp_all add: word_sless_alt)
  have "(if (n <s 0) = (d <s 0) then ?n div ?d else - (?n div ?d)) = word_of_int (sint n sdiv sint d)"
    unfolding q s signed_divide_by_sign
    by (cases "(sint n < 0) = (sint d < 0)") (simp_all only: wi_hom_neg if_True if_False simp_thms)
  then show ?thesis by (auto simp: sdiv64_def Let_def udiv64_div)
qed

section \<open>Properties\<close>

text \<open>C30. The 64-bit unsigned division routine computes the quotient for every pair of operands
  and traps only on division by zero: in neither branch does the DIVL instruction overflow, and
  the estimate of the second branch is corrected in every case.\<close>

theorem udivdi3_correct: "udivdi3 n d = (if d = 0 then None else Some (n div d))"
  by (simp add: udivdi3_def udiv64_div)

text \<open>The 64-bit signed division routine computes the quotient truncated toward zero, wrapped to
  64 bits (the most negative number divided by -1 is itself), and traps only on zero.\<close>

theorem divdi3_correct:
  "divdi3 n d = (if d = 0 then None else Some (word_of_int (sint n sdiv sint d)))"
  by (simp add: divdi3_def sdiv64_sdiv)

text \<open>The 64-bit remainder routines return the remainder cut to 32 bits, because \<open>umod64\<close> and
  \<open>smod64\<close> are declared with 32-bit results: the unsigned one is right exactly when the true
  remainder is below 2^32, and the signed one when it is a 32-bit signed number.\<close>

theorem remainder_cut_to_32_bits:
  "umoddi3 n d = (if d = 0 then None else Some (take_bit 32 (n mod d))) \<and>
   (umoddi3 n d = Some (n mod d) \<longleftrightarrow> d \<noteq> 0 \<and> n mod d < 2 ^ 32) \<and>
   moddi3 n d = (if d = 0 then None else Some (word_of_int (signed_take_bit 31 (sint n smod sint d))))"
proof (intro conjI)
  have "n - d * (n div d) = n mod d" by (simp add: minus_mult_div_eq_mod)
  then show um: "umoddi3 n d = (if d = 0 then None else Some (take_bit 32 (n mod d)))"
    by (auto simp: umoddi3_def umod64_def udiv64_div ucast_down_up)
  have "take_bit 32 x = x \<longleftrightarrow> x < 2 ^ 32" for x :: "64 word"
    by (simp add: word_less_nat_alt word_unat_eq_iff unsigned_take_bit_eq take_bit_nat_eq_self_iff)
  then show "umoddi3 n d = Some (n mod d) \<longleftrightarrow> d \<noteq> 0 \<and> n mod d < 2 ^ 32" unfolding um by auto
  have "n - d * word_of_int (sint n sdiv sint d) = word_of_int (sint n smod sint d)"
    using arg_cong [OF minus_mult_sdiv_eq_smod [of "sint n" "sint d"], of "word_of_int :: int \<Rightarrow> 64 word"] by simp
  then show "moddi3 n d = (if d = 0 then None else Some (word_of_int (signed_take_bit 31 (sint n smod sint d))))"
    by (auto simp: moddi3_def smod64_def sdiv64_sdiv scast_down_up)
qed

end
