(* ===== verification/Cstring.thy ===== *)
theory Cstring
  imports Prelude
begin

text \<open>
  The memory and string functions of \<open>lib/string.c\<close>. Memory is a list of bytes and a pointer
  an index into it; address 0 is the null pointer. Reading or writing past the end of
  memory is a fault (\<open>None\<close>), so a string without a terminator makes its readers fault
  instead of running on. Functions that write return the new memory with their result.
\<close>

section \<open>Memory\<close>

type_synonym byte = "8 word"
type_synonym memory = "byte list"
type_synonym ptr = nat

abbreviation (input) NULL :: ptr where "NULL \<equiv> 0"

definition load :: "memory \<Rightarrow> ptr \<Rightarrow> byte option" where
  "load m p = (if p < length m then Some (m ! p) else None)"

definition store :: "memory \<Rightarrow> ptr \<Rightarrow> byte \<Rightarrow> memory option" where
  "store m p b = (if p < length m then Some (m[p := b]) else None)"

section \<open>Blocks\<close>

fun copy_up :: "memory \<Rightarrow> ptr \<Rightarrow> ptr \<Rightarrow> nat \<Rightarrow> memory option" where
  "copy_up m dst src 0 = Some m"
| "copy_up m dst src (Suc n) = do {
     b \<leftarrow> load m src;
     m \<leftarrow> store m dst b;
     copy_up m (dst + 1) (src + 1) n
   }"

text \<open>The downward loop starts behind the blocks and decrements first.\<close>

fun copy_down :: "memory \<Rightarrow> ptr \<Rightarrow> ptr \<Rightarrow> nat \<Rightarrow> memory option" where
  "copy_down m dst src 0 = Some m"
| "copy_down m dst src (Suc n) = do {
     b \<leftarrow> load m (src - 1);
     m \<leftarrow> store m (dst - 1) b;
     copy_down m (dst - 1) (src - 1) n
   }"

definition memcpy :: "memory \<Rightarrow> ptr \<Rightarrow> ptr \<Rightarrow> nat \<Rightarrow> (memory \<times> ptr) option" where
  "memcpy m dst src sz = do {
     ASSERT (dst \<noteq> NULL \<or> sz = 0);
     ASSERT (src \<noteq> NULL \<or> sz = 0);
     m \<leftarrow> copy_up m dst src sz;
     Some (m, dst)
   }"

text \<open>The result is the pointer after the loop has moved it, as in the code.\<close>

definition memmove :: "memory \<Rightarrow> ptr \<Rightarrow> ptr \<Rightarrow> nat \<Rightarrow> (memory \<times> ptr) option" where
  "memmove m dst src sz = do {
     ASSERT (dst \<noteq> NULL \<or> sz = 0);
     ASSERT (src \<noteq> NULL \<or> sz = 0);
     if dst < src then do {
       m \<leftarrow> copy_up m dst src sz;
       Some (m, dst + sz)
     } else do {
       m \<leftarrow> copy_down m (dst + sz) (src + sz) sz;
       Some (m, dst)
     }
   }"

fun memcmp_loop :: "memory \<Rightarrow> ptr \<Rightarrow> ptr \<Rightarrow> nat \<Rightarrow> int option" where
  "memcmp_loop m a b 0 = Some 0"
| "memcmp_loop m a b (Suc n) = do {
     x \<leftarrow> load m a;
     y \<leftarrow> load m b;
     if x \<noteq> y then Some (if x > y then 1 else -1) else memcmp_loop m (a + 1) (b + 1) n
   }"

definition memcmp :: "memory \<Rightarrow> ptr \<Rightarrow> ptr \<Rightarrow> nat \<Rightarrow> int option" where
  "memcmp m a b sz = do {
     ASSERT (a \<noteq> NULL \<or> sz = 0);
     ASSERT (b \<noteq> NULL \<or> sz = 0);
     memcmp_loop m a b sz
   }"

function strcmp_loop :: "memory \<Rightarrow> ptr \<Rightarrow> ptr \<Rightarrow> int option" where
  "strcmp_loop m a b =
     (if a < length m \<and> b < length m then
        let x = m ! a; y = m ! b in
        if x \<noteq> 0 \<and> x = y then strcmp_loop m (a + 1) (b + 1)
        else Some (if x < y then -1 else if x > y then 1 else 0)
      else None)"
  by auto
termination by (relation "measure (\<lambda>(m, a, b). length m - a)") auto

definition strcmp :: "memory \<Rightarrow> ptr \<Rightarrow> ptr \<Rightarrow> int option" where
  "strcmp m a b = do {
     ASSERT (a \<noteq> NULL);
     ASSERT (b \<noteq> NULL);
     strcmp_loop m a b
   }"

fun memchr_loop :: "memory \<Rightarrow> ptr \<Rightarrow> byte \<Rightarrow> nat \<Rightarrow> ptr option" where
  "memchr_loop m block ch 0 = Some NULL"
| "memchr_loop m block ch (Suc n) = do {
     x \<leftarrow> load m block;
     if x = ch then Some block else memchr_loop m (block + 1) ch n
   }"

definition memchr :: "memory \<Rightarrow> ptr \<Rightarrow> 32 word \<Rightarrow> nat \<Rightarrow> ptr option" where
  "memchr m block ch sz = do {
     ASSERT (block \<noteq> NULL \<or> sz = 0);
     memchr_loop m block (ucast ch) sz
   }"

fun memset_loop :: "memory \<Rightarrow> ptr \<Rightarrow> byte \<Rightarrow> nat \<Rightarrow> memory option" where
  "memset_loop m dst v 0 = Some m"
| "memset_loop m dst v (Suc n) = do {
     m \<leftarrow> store m dst v;
     memset_loop m (dst + 1) v n
   }"

definition memset :: "memory \<Rightarrow> ptr \<Rightarrow> 32 word \<Rightarrow> nat \<Rightarrow> (memory \<times> ptr) option" where
  "memset m dst v sz = do {
     ASSERT (dst \<noteq> NULL \<or> sz = 0);
     m \<leftarrow> memset_loop m dst (ucast v) sz;
     Some (m, dst)
   }"

section \<open>Searching strings\<close>

function strchr_loop :: "memory \<Rightarrow> ptr \<Rightarrow> byte \<Rightarrow> ptr option" where
  "strchr_loop m s c =
     (if s < length m then
        if m ! s = c then Some s
        else if m ! s = 0 then Some NULL
        else strchr_loop m (s + 1) c
      else None)"
  by auto
termination by (relation "measure (\<lambda>(m, s, c). length m - s)") auto

definition strchr :: "memory \<Rightarrow> ptr \<Rightarrow> byte \<Rightarrow> ptr option" where
  "strchr m s c = do { ASSERT (s \<noteq> NULL); strchr_loop m s c }"

function strlen_loop :: "memory \<Rightarrow> ptr \<Rightarrow> ptr option" where
  "strlen_loop m p = (if p < length m then if m ! p \<noteq> 0 then strlen_loop m (p + 1) else Some p else None)"
  by auto
termination by (relation "measure (\<lambda>(m, p). length m - p)") auto

definition strlen :: "memory \<Rightarrow> ptr \<Rightarrow> nat option" where
  "strlen m s = do { ASSERT (s \<noteq> NULL); p \<leftarrow> strlen_loop m s; Some (p - s) }"

text \<open>The loop that \<open>strspn\<close> and \<open>strcspn\<close> share: the length of the prefix whose characters are
  (\<open>want\<close>) or are not (\<open>\<not> want\<close>) in the other string.\<close>

function span_loop :: "bool \<Rightarrow> memory \<Rightarrow> ptr \<Rightarrow> ptr \<Rightarrow> nat \<Rightarrow> nat option" where
  "span_loop want m s st len =
     (if s + len < length m then
        if m ! (s + len) \<noteq> 0 then do {
          r \<leftarrow> strchr m st (m ! (s + len));
          if (r \<noteq> NULL) \<noteq> want then Some len else span_loop want m s st (len + 1)
        } else Some len
      else None)"
  by auto
termination by (relation "measure (\<lambda>(w, m, s, st, len). length m - (s + len))") auto

definition strcspn :: "memory \<Rightarrow> ptr \<Rightarrow> ptr \<Rightarrow> nat option" where
  "strcspn m s stop = span_loop False m s stop 0"

definition strspn :: "memory \<Rightarrow> ptr \<Rightarrow> ptr \<Rightarrow> nat option" where
  "strspn m s skip = span_loop True m s skip 0"

function strpbrk :: "memory \<Rightarrow> ptr \<Rightarrow> ptr \<Rightarrow> ptr option" where
  "strpbrk m s stop =
     (if s < length m then
        if m ! s \<noteq> 0 then do {
          r \<leftarrow> strchr m stop (m ! s);
          if r \<noteq> NULL then Some s else strpbrk m (s + 1) stop
        } else Some NULL
      else None)"
  by auto
termination by (relation "measure (\<lambda>(m, s, stop). length m - s)") auto

function strrchr_loop :: "memory \<Rightarrow> ptr \<Rightarrow> byte \<Rightarrow> ptr \<Rightarrow> ptr option" where
  "strrchr_loop m s c p =
     (if s < length m then
        if m ! s \<noteq> 0 then strrchr_loop m (s + 1) c (if m ! s = c then s else p) else Some p
      else None)"
  by auto
termination by (relation "measure (\<lambda>(m, s, c, p). length m - s)") auto

definition strrchr :: "memory \<Rightarrow> ptr \<Rightarrow> byte \<Rightarrow> ptr option" where
  "strrchr m s c = strrchr_loop m s c NULL"

fun strstr_loop :: "memory \<Rightarrow> ptr \<Rightarrow> ptr \<Rightarrow> nat \<Rightarrow> nat list \<Rightarrow> ptr option" where
  "strstr_loop m hay needle n [] = Some NULL"
| "strstr_loop m hay needle n (i # is) = do {
     c \<leftarrow> memcmp m (hay + i) needle n;
     if c = 0 then Some (hay + i) else strstr_loop m hay needle n is
   }"

definition strstr :: "memory \<Rightarrow> ptr \<Rightarrow> ptr \<Rightarrow> ptr option" where
  "strstr m haystack needle = do {
     haystack_len \<leftarrow> strlen m haystack;
     needle_len \<leftarrow> strlen m needle;
     if haystack_len \<ge> needle_len
     then strstr_loop m haystack needle needle_len [0..<haystack_len - needle_len + 1]
     else Some NULL
   }"

function strnlen_loop :: "memory \<Rightarrow> ptr \<Rightarrow> nat \<Rightarrow> nat \<Rightarrow> nat option" where
  "strnlen_loop m s maxlen len =
     (if s + len < length m then
        if m ! (s + len) \<noteq> 0 \<and> len < maxlen then strnlen_loop m s maxlen (len + 1) else Some len
      else None)"
  by auto
termination by (relation "measure (\<lambda>(m, s, mx, len). length m - (s + len))") auto

definition strnlen :: "memory \<Rightarrow> ptr \<Rightarrow> nat \<Rightarrow> nat option" where
  "strnlen m s maxlen = strnlen_loop m s maxlen 0"

declare strcmp_loop.simps [simp del] strchr_loop.simps [simp del] strlen_loop.simps [simp del]
  span_loop.simps [simp del] strpbrk.simps [simp del] strrchr_loop.simps [simp del] strnlen_loop.simps [simp del]

section \<open>Tokens\<close>

text \<open>Skipping delimiters: the first byte that is not one (\<open>Inr\<close>), or the terminator (\<open>Inl\<close>).\<close>

function skip_delims :: "memory \<Rightarrow> ptr \<Rightarrow> ptr \<Rightarrow> (ptr + ptr) option" where
  "skip_delims m delims s =
     (if s < length m then do {
        r \<leftarrow> strchr m delims (m ! s);
        if r \<noteq> NULL then if m ! s = 0 then Some (Inl s) else skip_delims m delims (s + 1)
        else Some (Inr s)
      } else None)"
  by auto
termination by (relation "measure (\<lambda>(m, d, s). length m - s)") auto

function skip_token :: "memory \<Rightarrow> ptr \<Rightarrow> ptr \<Rightarrow> ptr option" where
  "skip_token m delims s =
     (if s < length m then do {
        r \<leftarrow> strchr m delims (m ! s);
        if r = NULL then skip_token m delims (s + 1) else Some s
      } else None)"
  by auto
termination by (relation "measure (\<lambda>(m, d, s). length m - s)") auto

declare skip_delims.simps [simp del] skip_token.simps [simp del]

text \<open>The result is the memory, the new \<open>*save_ptr\<close> and the token.\<close>

definition strtok_r :: "memory \<Rightarrow> ptr \<Rightarrow> ptr \<Rightarrow> ptr \<Rightarrow> (memory \<times> ptr \<times> ptr) option" where
  "strtok_r m s delimiters save = do {
     ASSERT (delimiters \<noteq> NULL);
     let s = (if s = NULL then save else s);
     ASSERT (s \<noteq> NULL);
     r \<leftarrow> skip_delims m delimiters s;
     case r of
       Inl s \<Rightarrow> Some (m, s, NULL)
     | Inr token \<Rightarrow> do {
         s \<leftarrow> skip_token m delimiters token;
         c \<leftarrow> load m s;
         if c \<noteq> 0 then do { m \<leftarrow> store m s 0; Some (m, s + 1, token) }
         else Some (m, s, token)
       }
   }"

section \<open>Bounded copies\<close>

definition strlcpy :: "memory \<Rightarrow> ptr \<Rightarrow> ptr \<Rightarrow> nat \<Rightarrow> (memory \<times> nat) option" where
  "strlcpy m dst src sz = do {
     ASSERT (dst \<noteq> NULL);
     ASSERT (src \<noteq> NULL);
     src_len \<leftarrow> strlen m src;
     if sz > 0 then do {
       let dst_len = (if src_len < sz - 1 then src_len else sz - 1);
       (m, _) \<leftarrow> memcpy m dst src dst_len;
       m \<leftarrow> store m (dst + dst_len) 0;
       Some (m, src_len)
     } else Some (m, src_len)
   }"

definition strlcat :: "memory \<Rightarrow> ptr \<Rightarrow> ptr \<Rightarrow> nat \<Rightarrow> (memory \<times> nat) option" where
  "strlcat m dst src sz = do {
     ASSERT (dst \<noteq> NULL);
     ASSERT (src \<noteq> NULL);
     src_len \<leftarrow> strlen m src;
     dst_len \<leftarrow> strlen m dst;
     if sz > 0 \<and> dst_len < sz then do {
       let copy_cnt = (if src_len < sz - dst_len - 1 then src_len else sz - dst_len - 1);
       (m, _) \<leftarrow> memcpy m (dst + dst_len) src copy_cnt;
       m \<leftarrow> store m (dst + dst_len + copy_cnt) 0;
       Some (m, src_len + dst_len)
     } else Some (m, src_len + dst_len)
   }"

end
