(* ===== verification/Cstring_Props.thy ===== *)
theory Cstring_Props
  imports Cstring
begin

text \<open>
  Correctness of the memory and string functions: \<open>memmove\<close> under overlap, the bounded
  copies, and the tokeniser, whose loop is compared with a reference definition on
  lists of characters.
\<close>

section \<open>Blocks of memory\<close>

definition block :: "memory \<Rightarrow> ptr \<Rightarrow> nat \<Rightarrow> byte list" where
  "block m p n = take n (drop p m)"

definition put :: "memory \<Rightarrow> ptr \<Rightarrow> byte list \<Rightarrow> memory" where
  "put m p bs = take p m @ bs @ drop (p + length bs) m"

lemma length_block [simp]: "p + n \<le> length m \<Longrightarrow> length (block m p n) = n"
  by (simp add: block_def)

lemma length_put [simp]: "p + length bs \<le> length m \<Longrightarrow> length (put m p bs) = length m"
  by (simp add: put_def)

lemma nth_block [simp]: "p + n \<le> length m \<Longrightarrow> i < n \<Longrightarrow> block m p n ! i = m ! (p + i)"
  by (simp add: block_def)

lemma nth_put:
  "p + length bs \<le> length m \<Longrightarrow> i < length m \<Longrightarrow>
    put m p bs ! i = (if p \<le> i \<and> i < p + length bs then bs ! (i - p) else m ! i)"
  by (auto simp: put_def nth_append)

lemma put_block_eqI:
  assumes "length m' = length m" "dst + n \<le> length m" "src + n \<le> length m"
    "\<And>i. i < length m \<Longrightarrow> m' ! i = (if dst \<le> i \<and> i < dst + n then m ! (src + (i - dst)) else m ! i)"
  shows "m' = put m dst (block m src n)"
proof (rule nth_equalityI)
  show "length m' = length (put m dst (block m src n))" using assms by simp
  show "m' ! i = put m dst (block m src n) ! i" if "i < length m'" for i
    using assms that by (auto simp: nth_put)
qed

lemma copy_up_spec:
  assumes "dst + n \<le> length m" "src + n \<le> length m" "dst \<le> src \<or> src + n \<le> dst"
  shows "copy_up m dst src n = Some (put m dst (block m src n))"
proof -
  have "\<exists>m'. copy_up m dst src n = Some m' \<and> length m' = length m \<and>
      (\<forall>i < length m. m' ! i = (if dst \<le> i \<and> i < dst + n then m ! (src + (i - dst)) else m ! i))"
    using assms
  proof (induction n arbitrary: m dst src)
    case (Suc n)
    let ?m = "m[dst := m ! src]"
    obtain m' where m': "copy_up ?m (dst + 1) (src + 1) n = Some m'" "length m' = length ?m"
      "\<forall>i < length ?m. m' ! i = (if dst + 1 \<le> i \<and> i < dst + 1 + n then ?m ! (src + 1 + (i - (dst + 1))) else ?m ! i)"
      using Suc.IH [of "dst + 1" ?m "src + 1"] Suc.prems by auto
    have shift: "src + 1 + (i - (dst + 1)) = src + (i - dst)" if "dst + 1 \<le> i" for i using that by simp
    have "m' ! i = (if dst \<le> i \<and> i < dst + Suc n then m ! (src + (i - dst)) else m ! i)" if "i < length m" for i
    proof (cases "dst + 1 \<le> i \<and> i < dst + 1 + n")
      case True
      then have "m' ! i = ?m ! (src + (i - dst))" using m'(3) that shift by simp
      then show ?thesis using True Suc.prems by (auto simp: nth_list_update)
    next
      case False
      then have "m' ! i = ?m ! i" using m'(3) that by (simp only: length_list_update if_False)
      then show ?thesis using False that by (cases "i = dst") auto
    qed
    then show ?case using m' Suc.prems by (simp add: load_def store_def)
  qed auto
  then show ?thesis using put_block_eqI assms by blast
qed

lemma copy_down_spec:
  assumes "dst + n \<le> length m" "src + n \<le> length m" "src \<le> dst"
  shows "copy_down m (dst + n) (src + n) n = Some (put m dst (block m src n))"
proof -
  have "\<exists>m'. copy_down m (dst + n) (src + n) n = Some m' \<and> length m' = length m \<and>
      (\<forall>i < length m. m' ! i = (if dst \<le> i \<and> i < dst + n then m ! (src + (i - dst)) else m ! i))"
    using assms
  proof (induction n arbitrary: m)
    case (Suc n)
    let ?m = "m[dst + n := m ! (src + n)]"
    obtain m' where m': "copy_down ?m (dst + n) (src + n) n = Some m'" "length m' = length ?m"
      "\<forall>i < length ?m. m' ! i = (if dst \<le> i \<and> i < dst + n then ?m ! (src + (i - dst)) else ?m ! i)"
      using Suc.IH [of ?m] Suc.prems by auto
    have "m' ! i = (if dst \<le> i \<and> i < dst + Suc n then m ! (src + (i - dst)) else m ! i)" if "i < length m" for i
      using m'(3) that Suc.prems by (auto simp: nth_list_update less_Suc_eq)
    then show ?case using m' Suc.prems by (simp add: load_def store_def)
  qed auto
  then show ?thesis using put_block_eqI assms by blast
qed

lemma memcpy_spec:
  assumes "dst + n \<le> length m" "src + n \<le> length m" "dst \<noteq> 0" "src \<noteq> 0" "dst \<le> src \<or> src + n \<le> dst"
  shows "memcpy m dst src n = Some (put m dst (block m src n), dst)"
  using copy_up_spec [OF assms(1, 2, 5)] assms by (simp add: memcpy_def)

section \<open>Strings\<close>

text \<open>The string \<open>s\<close> (without its terminator) is stored at \<open>p\<close>.\<close>

definition cstr :: "memory \<Rightarrow> ptr \<Rightarrow> byte list \<Rightarrow> bool" where
  "cstr m p s \<longleftrightarrow> p + length s < length m \<and> block m p (length s) = s \<and> m ! (p + length s) = 0 \<and> 0 \<notin> set s"

lemma cstr_Nil: "cstr m p [] \<longleftrightarrow> p < length m \<and> m ! p = 0"
  by (auto simp: cstr_def block_def)

lemma cstr_Cons: "cstr m p (c # s) \<longleftrightarrow> p < length m \<and> m ! p = c \<and> c \<noteq> 0 \<and> cstr m (p + 1) s"
proof (cases "p + length (c # s) < length m")
  case True
  then have "drop p m = m ! p # drop (p + 1) m" by (simp add: Cons_nth_drop_Suc)
  then show ?thesis using True by (auto simp: cstr_def block_def)
qed (auto simp: cstr_def)

lemma cstr_append: "cstr m p (s @ t) \<longleftrightarrow> cstr m (p + length s) t \<and> block m p (length s) = s \<and> 0 \<notin> set s \<and> p + length s < length m"
proof (induction s arbitrary: p)
  case Nil
  then show ?case by (cases t) (auto simp: block_def cstr_Nil cstr_Cons)
next
  case (Cons c s)
  show ?case
  proof (cases "p < length m")
    case True
    then have "drop p m = m ! p # drop (p + 1) m" by (simp add: Cons_nth_drop_Suc)
    then show ?thesis using Cons [of "p + 1"] True by (auto simp: cstr_Cons block_def)
  qed (auto simp: cstr_Cons)
qed

lemma strlen_cstr: "cstr m p s \<Longrightarrow> strlen_loop m p = Some (p + length s)"
  by (induction s arbitrary: p) (subst strlen_loop.simps, auto simp: cstr_Nil cstr_Cons)+

lemma strlen_spec: "cstr m p s \<Longrightarrow> p \<noteq> 0 \<Longrightarrow> strlen m p = Some (length s)"
  by (simp add: strlen_def strlen_cstr)

lemma strchr_loop_cstr:
  "cstr m p s \<Longrightarrow> p \<noteq> 0 \<Longrightarrow> \<exists>r. strchr_loop m p c = Some r \<and> (r \<noteq> 0 \<longleftrightarrow> c = 0 \<or> c \<in> set s)"
proof (induction s arbitrary: p)
  case Nil
  then show ?case by (subst strchr_loop.simps) (auto simp: cstr_Nil)
next
  case (Cons a s)
  then have p: "p < length m" "m ! p = a" "a \<noteq> 0" "cstr m (p + 1) s" by (simp_all add: cstr_Cons)
  show ?case
  proof (cases "a = c")
    case True
    then show ?thesis using p Cons.prems by (subst strchr_loop.simps) auto
  next
    case False
    then have "strchr_loop m p c = strchr_loop m (p + 1) c" using p by (subst strchr_loop.simps) auto
    then show ?thesis using Cons.IH [OF p(4)] False by auto
  qed
qed

lemma strchr_cstr:
  "cstr m p s \<Longrightarrow> p \<noteq> 0 \<Longrightarrow> \<exists>r. strchr m p c = Some r \<and> (r \<noteq> 0 \<longleftrightarrow> c = 0 \<or> c \<in> set s)"
  using strchr_loop_cstr by (simp add: strchr_def)

section \<open>The tokeniser\<close>

text \<open>The reference: the maximal runs of characters outside \<open>D\<close>.\<close>

function tokens :: "byte set \<Rightarrow> byte list \<Rightarrow> byte list list" where
  "tokens D s = (case dropWhile (\<lambda>c. c \<in> D) s of [] \<Rightarrow> []
     | c # t \<Rightarrow> (c # takeWhile (\<lambda>c. c \<notin> D) t) # tokens D (dropWhile (\<lambda>c. c \<notin> D) t))"
  by auto
termination
proof (relation "measure (\<lambda>(D, s). length s)")
  fix D :: "byte set" and s c t
  assume "dropWhile (\<lambda>c. c \<in> D) s = c # t"
  then have "length t < length s" using length_dropWhile_le [of "\<lambda>c. c \<in> D" s] by simp
  then show "((D, dropWhile (\<lambda>c. c \<notin> D) t), D, s) \<in> measure (\<lambda>(D, s). length s)"
    using length_dropWhile_le [of "\<lambda>c. c \<notin> D" t] by simp
qed simp

declare tokens.simps [simp del]

lemma tokens_Nil [simp]: "tokens D [] = []"
  by (subst tokens.simps) simp

lemma tokens_delim: "c \<in> D \<Longrightarrow> tokens D (c # s) = tokens D s"
  by (subst (1 2) tokens.simps) simp

lemma tokens_char:
  "c \<notin> D \<Longrightarrow> tokens D (c # s) = (c # takeWhile (\<lambda>c. c \<notin> D) s) # tokens D (dropWhile (\<lambda>c. c \<notin> D) s)"
  by (subst tokens.simps) simp

lemma skip_delims_cstr:
  assumes d: "cstr m d ds" "d \<noteq> 0"
  shows "cstr m p s \<Longrightarrow> skip_delims m d p =
    Some (if dropWhile (\<lambda>c. c \<in> set ds) s = [] then Inl (p + length s) else Inr (p + length (takeWhile (\<lambda>c. c \<in> set ds) s)))"
proof (induction s arbitrary: p)
  case Nil
  then show ?case using strchr_cstr [OF d, of 0] by (subst skip_delims.simps) (auto simp: cstr_Nil)
next
  case (Cons c s)
  then have p: "p < length m" "m ! p = c" "c \<noteq> 0" "cstr m (p + 1) s" by (simp_all add: cstr_Cons)
  obtain r where r: "strchr m d c = Some r" "r \<noteq> 0 \<longleftrightarrow> c = 0 \<or> c \<in> set ds" using strchr_cstr [OF d] by blast
  show ?case
    by (subst skip_delims.simps) (use p r Cons.IH [OF p(4)] in \<open>auto split: if_splits\<close>)
qed

lemma skip_token_cstr:
  assumes d: "cstr m d ds" "d \<noteq> 0"
  shows "cstr m p s \<Longrightarrow> skip_token m d p = Some (p + length (takeWhile (\<lambda>c. c \<notin> set ds) s))"
proof (induction s arbitrary: p)
  case Nil
  then show ?case using strchr_cstr [OF d, of 0] by (subst skip_token.simps) (auto simp: cstr_Nil)
next
  case (Cons c s)
  then have p: "p < length m" "m ! p = c" "c \<noteq> 0" "cstr m (p + 1) s" by (simp_all add: cstr_Cons)
  obtain r where r: "strchr m d c = Some r" "r \<noteq> 0 \<longleftrightarrow> c = 0 \<or> c \<in> set ds" using strchr_cstr [OF d] by blast
  show ?case by (subst skip_token.simps) (use p r Cons.IH [OF p(4)] in auto)
qed

text \<open>The client's loop: the first call passes the string, the others pass null. The result is
  the final memory and the token pointers in order; \<open>None\<close> also when the calls do not stop
  within the fuel.\<close>

fun tokenize :: "nat \<Rightarrow> memory \<Rightarrow> ptr \<Rightarrow> ptr \<Rightarrow> ptr \<Rightarrow> (memory \<times> ptr list) option" where
  "tokenize 0 m s d save = None"
| "tokenize (Suc n) m s d save = do {
     (m, save, token) \<leftarrow> strtok_r m s d save;
     if token = NULL then Some (m, [])
     else do { (m, ts) \<leftarrow> tokenize n m NULL d save; Some (m, token # ts) }
   }"

lemma cstr_frame:
  assumes "cstr m p s" "length m' = length m" "\<And>i. p \<le> i \<Longrightarrow> i \<le> p + length s \<Longrightarrow> m' ! i = m ! i"
  shows "cstr m' p s"
  using assms
proof (induction s arbitrary: p)
  case Nil
  then show ?case using Nil.prems(3) [of p] by (simp add: cstr_Nil)
next
  case (Cons c s)
  have "cstr m' (p + 1) s" by (rule Cons.IH) (use Cons.prems in \<open>simp_all add: cstr_Cons\<close>)
  then show ?case using Cons.prems(1, 2) Cons.prems(3) [of p] by (simp add: cstr_Cons)
qed

declare tokenize.simps [simp del]

lemma strtok_r_none:
  assumes "cstr m d ds" "d \<noteq> 0" "cstr m p s" "p \<noteq> 0" "p = (if a = 0 then save else a)"
    "dropWhile (\<lambda>c. c \<in> set ds) s = []"
  shows "strtok_r m a d save = Some (m, p + length s, 0)"
  using skip_delims_cstr [OF assms(1-3)] assms by (simp add: strtok_r_def Let_def del: dropWhile_eq_Nil_conv)

lemma strtok_r_some:
  assumes d: "cstr m d ds" "d \<noteq> 0" and p: "cstr m p (pre @ tok @ rest)" "p \<noteq> 0" "p = (if a = 0 then save else a)"
    and split: "\<forall>c \<in> set pre. c \<in> set ds" "\<forall>c \<in> set tok. c \<notin> set ds" "tok \<noteq> []" "rest \<noteq> [] \<Longrightarrow> hd rest \<in> set ds"
    and e: "e = p + length pre + length tok"
  shows "strtok_r m a d save = Some (if rest = [] then (m, e, p + length pre) else (m[e := 0], e + 1, p + length pre))"
proof -
  have t: "cstr m (p + length pre) (tok @ rest)" and r: "cstr m e rest"
    using p(1) by (auto simp: cstr_append e add.assoc)
  have tw: "takeWhile (\<lambda>c. c \<in> set ds) (pre @ tok @ rest) = pre" "dropWhile (\<lambda>c. c \<in> set ds) (pre @ tok @ rest) = tok @ rest"
    using split(1-3) by (cases tok; simp)+
  have sd: "skip_delims m d p = Some (Inr (p + length pre))"
    using skip_delims_cstr [OF d p(1)] tw split(3) by (simp del: dropWhile_eq_Nil_conv)
  have "takeWhile (\<lambda>c. c \<notin> set ds) (tok @ rest) = tok"
    using split(2, 4) by (cases rest) (simp_all add: takeWhile_append2)
  then have st: "skip_token m d (p + length pre) = Some e"
    using skip_token_cstr [OF d t] by (simp add: e)
  have el: "e < length m" using r by (simp add: cstr_def)
  have "m ! e \<noteq> 0 \<longleftrightarrow> rest \<noteq> []" using r by (cases rest) (simp_all add: cstr_Nil cstr_Cons)
  then show ?thesis using sd st el d(2) p(2, 3)
    by (simp add: strtok_r_def Let_def load_def store_def)
qed

lemma token_split:
  assumes "dropWhile (\<lambda>c. c \<in> D) s \<noteq> []"
  obtains pre tok rest where "s = pre @ tok @ rest" "\<forall>c \<in> set pre. c \<in> D" "\<forall>c \<in> set tok. c \<notin> D" "tok \<noteq> []"
    "rest \<noteq> [] \<Longrightarrow> hd rest \<in> D" "tokens D s = tok # tokens D (tl rest)"
proof -
  obtain c t where ct: "dropWhile (\<lambda>c. c \<in> D) s = c # t" using assms by (cases "dropWhile (\<lambda>c. c \<in> D) s") auto
  then have c: "c \<notin> D" by (metis hd_dropWhile list.discI list.sel(1))
  let ?rest = "dropWhile (\<lambda>c. c \<notin> D) t"
  have hd: "?rest \<noteq> [] \<Longrightarrow> hd ?rest \<in> D" using hd_dropWhile [of "\<lambda>c. c \<notin> D" t] by auto
  then have "tokens D ?rest = tokens D (tl ?rest)" by (cases ?rest) (auto simp: tokens_delim simp del: dropWhile_eq_Nil_conv)
  then have "tokens D s = (c # takeWhile (\<lambda>c. c \<notin> D) t) # tokens D (tl ?rest)"
    using ct by (subst tokens.simps) simp
  moreover have "s = takeWhile (\<lambda>c. c \<in> D) s @ (c # takeWhile (\<lambda>c. c \<notin> D) t) @ ?rest"
    using ct takeWhile_dropWhile_id [of "\<lambda>c. c \<in> D" s] by simp
  ultimately show thesis
    using that [of "takeWhile (\<lambda>c. c \<in> D) s" "c # takeWhile (\<lambda>c. c \<notin> D) t" ?rest] hd c set_takeWhileD by fastforce
qed

lemma tokenize_spec:
  assumes "cstr m d ds" "d \<noteq> 0" "cstr m p s" "p \<noteq> 0" "p = (if a = 0 then save else a)"
    "d + length ds < p \<or> p + length s < d" "length s < n"
  shows "\<exists>m' ts. tokenize n m a d save = Some (m', ts) \<and> length m' = length m \<and>
    (\<forall>i. i < p \<or> p + length s \<le> i \<longrightarrow> m' ! i = m ! i) \<and> list_all2 (cstr m') ts (tokens (set ds) s)"
  using assms
proof (induction n arbitrary: m p s a save)
  case (Suc n)
  show ?case
  proof (cases "dropWhile (\<lambda>c. c \<in> set ds) s = []")
    case True
    then have "tokens (set ds) s = []" by (subst tokens.simps) (simp del: dropWhile_eq_Nil_conv)
    then show ?thesis using strtok_r_none [OF Suc.prems(1-5) True] by (simp add: tokenize.simps)
  next
    case False
    then obtain pre tok rest where s: "s = pre @ tok @ rest" and sp: "\<forall>c \<in> set pre. c \<in> set ds" "\<forall>c \<in> set tok. c \<notin> set ds" "tok \<noteq> []"
      "rest \<noteq> [] \<Longrightarrow> hd rest \<in> set ds" and tk: "tokens (set ds) s = tok # tokens (set ds) (tl rest)"
      by (rule token_split) blast
    define e where "e = p + length pre + length tok"
    define m1 where "m1 = (if rest = [] then m else m[e := 0])"
    define p1 where "p1 = (if rest = [] then e else e + 1)"
    have call: "strtok_r m a d save = Some (m1, p1, p + length pre)"
      using strtok_r_some [OF Suc.prems(1, 2) Suc.prems(3) [unfolded s] Suc.prems(4, 5) sp e_def]
      by (simp add: m1_def p1_def)
    have r: "cstr m e rest" and tokb: "block m (p + length pre) (length tok) = tok" "0 \<notin> set tok" and em: "e < length m"
      using Suc.prems(3) by (auto simp: s cstr_append e_def add.assoc)
    have len: "length m1 = length m" by (simp add: m1_def)
    have out: "m1 ! i = m ! i" if "i \<noteq> e" for i using that by (auto simp: m1_def)
    have e0: "m1 ! e = 0" using r em by (auto simp: m1_def cstr_Nil)
    have plen: "p1 + length (tl rest) = p + length s" "e < p1 \<or> rest = []" "e \<le> p1"
      by (cases rest; simp add: p1_def s e_def)+
    have elt: "p \<le> e" "rest \<noteq> [] \<Longrightarrow> e < p + length s" by (auto simp: e_def s)
    have d1: "cstr m1 d ds"
    proof (cases "rest = []")
      case False
      then show ?thesis using Suc.prems(6) elt by (intro cstr_frame [OF Suc.prems(1) len out]) auto
    qed (use Suc.prems(1) in \<open>simp add: m1_def\<close>)
    have c1: "cstr m1 p1 (tl rest)"
    proof (cases rest)
      case (Cons x xs)
      then have "cstr m (e + 1) xs" using r by (simp add: cstr_Cons)
      then show ?thesis using Cons len out by (simp add: p1_def cstr_frame)
    qed (use r in \<open>simp add: m1_def p1_def\<close>)
    have sep: "d + length ds < p1 \<or> p1 + length (tl rest) < d" using Suc.prems(6) plen elt by auto
    have fuel: "length (tl rest) < n" using Suc.prems(7) sp(3) by (cases tok) (auto simp: s)
    have nz: "p1 \<noteq> 0" "p + length pre \<noteq> 0" using Suc.prems(4) elt plen by auto
    obtain m' ts where m': "tokenize n m1 0 d p1 = Some (m', ts)" "length m' = length m1"
      "\<forall>i. i < p1 \<or> p1 + length (tl rest) \<le> i \<longrightarrow> m' ! i = m1 ! i" "list_all2 (cstr m') ts (tokens (set ds) (tl rest))"
      using Suc.IH [OF d1 Suc.prems(2) c1 nz(1) _ sep fuel, of 0 p1] by auto
    have tail: "m' ! i = m1 ! i" if "i \<le> e" for i
      using m'(3) plen that by (cases "rest = []") (auto simp: p1_def)
    have "cstr m1 (p + length pre) (tok @ [])"
      unfolding cstr_append
    proof (intro conjI)
      show "cstr m1 (p + length pre + length tok) []" using e0 em len by (simp add: cstr_Nil e_def [symmetric])
      show "block m1 (p + length pre) (length tok) = tok"
        using tokb(1) em by (simp add: m1_def block_def e_def drop_update_swap)
    qed (use tokb em len e_def in auto)
    then have t1: "cstr m1 (p + length pre) tok" by simp
    have "cstr m' (p + length pre) tok"
      by (rule cstr_frame [OF t1]) (use m'(2) tail e_def in auto)
    moreover have "m' ! i = m ! i" if "i < p \<or> p + length s \<le> i" for i
    proof -
      have "i \<noteq> e \<or> m1 = m" using that elt by (auto simp: m1_def)
      then have "m1 ! i = m ! i" using out by auto
      moreover have "i < p1 \<or> p1 + length (tl rest) \<le> i" using that plen(1, 3) elt(1) by linarith
      ultimately show ?thesis using m'(3) by metis
    qed
    ultimately show ?thesis using call m'(1, 2, 4) nz(2) len tk by (auto simp: tokenize.simps)
  qed
qed simp

section \<open>Bounded copies\<close>

lemma block_take: "n \<le> k \<Longrightarrow> block m p n = take n (block m p k)"
  by (simp add: block_def min_def)

lemma put_terminate:
  assumes "p + length bs < length m" "0 \<notin> set bs"
  shows "cstr ((put m p bs)[p + length bs := 0]) p bs"
    "\<And>i. i < length m \<Longrightarrow> i < p \<or> p + length bs < i \<Longrightarrow> (put m p bs)[p + length bs := 0] ! i = m ! i"
    "length ((put m p bs)[p + length bs := 0]) = length m"
proof -
  have "block (put m p bs) p (length bs) = bs" using assms(1) by (simp add: block_def put_def)
  then show "cstr ((put m p bs)[p + length bs := 0]) p bs"
    using assms by (simp add: cstr_def block_def drop_update_swap)
  show "(put m p bs)[p + length bs := 0] ! i = m ! i" if "i < length m" "i < p \<or> p + length bs < i" for i
    using assms(1) that by (auto simp: nth_put)
  show "length ((put m p bs)[p + length bs := 0]) = length m" using assms(1) by simp
qed

lemma strlcpy_spec:
  assumes "cstr m src s" "src \<noteq> 0" "dst \<noteq> 0" "0 < sz" "dst + sz \<le> length m" "src + length s < dst \<or> dst + sz \<le> src"
  shows "strlcpy m dst src sz =
    Some ((put m dst (take (sz - 1) s))[dst + length (take (sz - 1) s) := 0], length s)"
proof -
  define n where "n = (if length s < sz - 1 then length s else sz - 1)"
  have n: "n = length (take (sz - 1) s)" "n \<le> length s" "n < sz" using assms(4) by (auto simp: n_def)
  have sl: "src + length s < length m" "block m src (length s) = s" using assms(1) by (simp_all add: cstr_def)
  then have b: "block m src n = take (sz - 1) s" using block_take [OF n(2), of m src] by (auto simp: n_def)
  have mc: "memcpy m dst src n = Some (put m dst (take (sz - 1) s), dst)"
    using memcpy_spec [of dst n m src] assms n(2, 3) sl(1) b by auto
  have lt: "dst + n < length m" using n(3) assms(5) by simp
  have "strlcpy m dst src sz = do { (m, _) \<leftarrow> memcpy m dst src n; m \<leftarrow> store m (dst + n) 0; Some (m, length s) }"
    using assms(2-4) strlen_spec [OF assms(1, 2)] by (simp add: strlcpy_def n_def Let_def)
  then show ?thesis using mc lt n(1) by (simp add: store_def)
qed

lemma strlcat_spec:
  assumes "cstr m src s" "src \<noteq> 0" "cstr m dst t" "dst \<noteq> 0" "length t < sz" "dst + sz \<le> length m"
    "src + length s < dst \<or> dst + sz \<le> src"
  shows "strlcat m dst src sz =
    Some ((put m (dst + length t) (take (sz - length t - 1) s))[dst + length t + length (take (sz - length t - 1) s) := 0],
      length s + length t)"
proof -
  define n where "n = (if length s < sz - length t - 1 then length s else sz - length t - 1)"
  have n: "n = length (take (sz - length t - 1) s)" "n \<le> length s" "length t + n < sz" using assms(5) by (auto simp: n_def)
  have sl: "src + length s < length m" "block m src (length s) = s" using assms(1) by (simp_all add: cstr_def)
  then have b: "block m src n = take (sz - length t - 1) s" using block_take [OF n(2), of m src] by (auto simp: n_def)
  have mc: "memcpy m (dst + length t) src n = Some (put m (dst + length t) (take (sz - length t - 1) s), dst + length t)"
    using memcpy_spec [of "dst + length t" n m src] assms n(2, 3) sl(1) b by auto
  have lt: "dst + length t + n < length m" using n(3) assms(6) by simp
  have "strlcat m dst src sz =
      do { (m, _) \<leftarrow> memcpy m (dst + length t) src n; m \<leftarrow> store m (dst + length t + n) 0; Some (m, length s + length t) }"
    using assms(2, 4, 5) strlen_spec [OF assms(1, 2)] strlen_spec [OF assms(3, 4)] by (simp add: strlcat_def n_def Let_def)
  then show ?thesis using mc lt n(1) by (simp add: store_def)
qed

lemma strlcat_result:
  assumes "cstr m dst t" "length t < sz" "dst + sz \<le> length m" "0 \<notin> set s"
    and m': "m' = (put m (dst + length t) (take (sz - length t - 1) s))[dst + length t + length (take (sz - length t - 1) s) := 0]"
  shows "cstr m' dst (take (sz - 1) (t @ s))" "\<And>i. i < length m \<Longrightarrow> i < dst \<or> dst + sz \<le> i \<Longrightarrow> m' ! i = m ! i"
proof -
  let ?u = "take (sz - length t - 1) s"
  have b: "dst + length t + length ?u < length m" "0 \<notin> set ?u" using assms by (auto dest: in_set_takeD)
  note p = put_terminate [OF b]
  have tb: "block m dst (length t) = t" "0 \<notin> set t" using assms(1) by (auto simp: cstr_def)
  have "block m' dst (length t) = t"
  proof (rule nth_equalityI)
    show "length (block m' dst (length t)) = length t" using p(3) b by (simp add: m')
    show "block m' dst (length t) ! i = t ! i" if "i < length (block m' dst (length t))" for i
    proof -
      have i: "i < length t" using that p(3) b by (simp add: m')
      then have "m' ! (dst + i) = m ! (dst + i)" using p(2) [of "dst + i"] b by (simp add: m')
      moreover have "m ! (dst + i) = t ! i" using tb(1) i b by (metis nth_block add_leD1 less_imp_le)
      ultimately show ?thesis using i p(3) b by (simp add: m')
    qed
  qed
  then have "cstr m' dst (t @ ?u)" using p(1, 3) tb(2) b unfolding cstr_append by (simp add: m')
  moreover have "take (sz - 1) (t @ s) = t @ ?u" using assms(2) by (simp add: diff_commute)
  ultimately show "cstr m' dst (take (sz - 1) (t @ s))" by simp
  show "m' ! i = m ! i" if "i < length m" "i < dst \<or> dst + sz \<le> i" for i
    using p(2) [OF that(1)] that(2) assms(2) by (auto simp: m')
qed

section \<open>Properties\<close>

text \<open>C31. \<open>memmove\<close> copies a block to another place of memory although the two may overlap: the
  destination holds what the source held before the call and no other byte changes. The
  pointer it returns is the destination only when it copied downward; after an upward
  copy it is the end of the destination.\<close>

theorem memmove_correct:
  assumes "dst + n \<le> length m" "src + n \<le> length m" "dst \<noteq> NULL" "src \<noteq> NULL"
  shows "memmove m dst src n = Some (put m dst (block m src n), if dst < src then dst + n else dst)"
  using copy_up_spec [of dst n m src] copy_down_spec [of dst n m src] assms by (auto simp: memmove_def)

theorem memmove_correct_witness:
  "memmove [7, 1, 2, 3, 4, 5] 2 1 3 = Some ([7, 1, 1, 2, 3, 5], 2) \<and>
   memmove [7, 1, 2, 3, 4, 5] 1 2 3 = Some ([7, 2, 3, 4, 4, 5], 4)"
  using memmove_correct [of 2 3 "[7, 1, 2, 3, 4, 5]" 1] memmove_correct [of 1 3 "[7, 1, 2, 3, 4, 5]" 2]
  by (simp add: put_def block_def)

text \<open>C29. Calling \<open>strtok_r\<close> until it returns a null pointer splits a string into its tokens: the
  loop ends after at most one call per character and one more, the pointers it returns are, in
  order, strings equal to the maximal runs of characters that are not delimiters, and bytes
  outside the string (the delimiters, if they are stored elsewhere, among them) do not change.\<close>

theorem strtok_r_tokenizes:
  assumes "cstr m d ds" "d \<noteq> NULL" "cstr m p s" "p \<noteq> NULL" "d + length ds < p \<or> p + length s < d"
  shows "\<exists>m' ts. tokenize (length s + 1) m p d save = Some (m', ts) \<and> list_all2 (cstr m') ts (tokens (set ds) s) \<and>
    length m' = length m \<and> (\<forall>i. i < p \<or> p + length s \<le> i \<longrightarrow> m' ! i = m ! i)"
  using tokenize_spec [OF assms(1-4) _ assms(5), of p save "length s + 1"] assms(4) by auto

theorem strtok_r_tokenizes_witness:
  "\<exists>m' ts. tokenize 6 [9, 32, 0, 32, 108, 115, 32, 97, 0] 3 1 0 = Some (m', ts) \<and>
     list_all2 (cstr m') ts [[108, 115], [97]]"
proof -
  let ?m = "[9, 32, 0, 32, 108, 115, 32, 97, 0] :: memory" and ?s = "[32, 108, 115, 32, 97] :: byte list"
  have t: "tokens (set [32]) ?s = [[108, 115], [97]]" by (simp add: tokens_delim tokens_char)
  have n: "length ?s + 1 = 6" by simp
  have "cstr ?m 1 [32]" "cstr ?m 3 ?s" by (simp_all add: cstr_def block_def)
  from strtok_r_tokenizes [OF this(1) _ this(2), of 0, unfolded n t]
  show ?thesis by auto
qed

text \<open>\<open>strlcpy\<close> and \<open>strlcat\<close> never overrun a destination buffer of \<open>sz\<close> bytes: the buffer ends up
  holding the source (or the concatenation) cut to \<open>sz - 1\<close> characters and terminated, nothing
  outside it changes, and the result is the length the full string would have had.\<close>

theorem bounded_copies:
  assumes "cstr m src s" "src \<noteq> NULL" "cstr m dst t" "dst \<noteq> NULL" "length t < sz" "dst + sz \<le> length m"
    "src + length s < dst \<or> dst + sz \<le> src"
  shows "\<exists>m1 m2. strlcpy m dst src sz = Some (m1, length s) \<and> cstr m1 dst (take (sz - 1) s) \<and>
    strlcat m dst src sz = Some (m2, length s + length t) \<and> cstr m2 dst (take (sz - 1) (t @ s)) \<and>
    (\<forall>i < length m. i < dst \<or> dst + sz \<le> i \<longrightarrow> m1 ! i = m ! i \<and> m2 ! i = m ! i)"
proof -
  let ?m1 = "(put m dst (take (sz - 1) s))[dst + length (take (sz - 1) s) := 0]"
  have s0: "0 \<notin> set s" "0 \<notin> set (take (sz - 1) s)" using assms(1) by (auto simp: cstr_def dest: in_set_takeD)
  have fit: "dst + length (take (sz - 1) s) < length m" using assms(5, 6) by simp
  note 1 = put_terminate [OF fit s0(2)]
  have "strlcpy m dst src sz = Some (?m1, length s)"
    using strlcpy_spec [OF assms(1, 2, 4) _ assms(6, 7)] assms(5) by simp
  moreover have "?m1 ! i = m ! i" if "i < length m" "i < dst \<or> dst + sz \<le> i" for i
    using 1(2) [OF that(1)] that(2) assms(5) by auto
  ultimately show ?thesis
    using 1(1) strlcat_spec [OF assms] strlcat_result [OF assms(3, 5, 6) s0(1) refl] by blast
qed

theorem bounded_copies_witness:
  "\<exists>m1 m2. strlcpy [9, 97, 98, 99, 0, 120, 0, 1, 1, 5] 5 1 4 = Some (m1, 3) \<and> cstr m1 5 [97, 98, 99] \<and>
     strlcat [9, 97, 98, 99, 0, 120, 0, 1, 1, 5] 5 1 4 = Some (m2, 4) \<and> cstr m2 5 [120, 97, 98] \<and> m1 ! 9 = 5 \<and> m2 ! 9 = 5"
proof -
  let ?m = "[9, 97, 98, 99, 0, 120, 0, 1, 1, 5] :: memory"
  have "cstr ?m 1 [97, 98, 99]" "cstr ?m 5 [120]" by (simp_all add: cstr_def block_def)
  from bounded_copies [OF this(1) _ this(2), of 4]
  obtain m1 m2 where "strlcpy ?m 5 1 4 = Some (m1, 3)" "cstr m1 5 [97, 98, 99]" "strlcat ?m 5 1 4 = Some (m2, 4)"
    "cstr m2 5 [120, 97, 98]" "\<forall>i < 10. i < 5 \<or> 9 \<le> i \<longrightarrow> m1 ! i = ?m ! i \<and> m2 ! i = ?m ! i"
    by auto
  then show ?thesis by (intro exI conjI) (assumption | simp)+
qed

end
