(* ===== verification/Stdlib.thy ===== *)
theory Stdlib
  imports Prelude
begin

text \<open>
  Heapsort, binary search and \<open>atoi\<close> of \<open>lib/stdlib.c\<close>. An array is the list of its
  elements, each the list of its \<open>sz\<close> bytes; indexes are counted in elements and from 1, as
  in the code. Indexes are natural numbers: arrays have fewer than \<open>2^31\<close> elements, so
  \<open>2 * i + 1\<close> does not wrap. The null checks of pointers that are always passed hold.
\<close>

section \<open>Sorting and searching\<close>

type_synonym 'b array = "'b list list"
type_synonym 'b compare = "'b list \<Rightarrow> 'b list \<Rightarrow> int"

fun swap_loop :: "'b array \<Rightarrow> nat \<Rightarrow> nat \<Rightarrow> nat \<Rightarrow> nat \<Rightarrow> 'b array" where
  "swap_loop arr a b i 0 = arr"
| "swap_loop arr a b i (Suc n) =
     (let t = arr ! a ! i;
          arr = arr[a := (arr ! a)[i := arr ! b ! i]];
          arr = arr[b := (arr ! b)[i := t]] in
      swap_loop arr a b (i + 1) n)"

definition do_swap :: "'b array \<Rightarrow> nat \<Rightarrow> nat \<Rightarrow> nat \<Rightarrow> 'b array" where
  "do_swap arr a_idx b_idx sz = swap_loop arr (a_idx - 1) (b_idx - 1) 0 sz"

definition do_compare :: "'b array \<Rightarrow> nat \<Rightarrow> nat \<Rightarrow> 'b compare \<Rightarrow> int" where
  "do_compare arr a_idx b_idx compare = compare (arr ! (a_idx - 1)) (arr ! (b_idx - 1))"

definition max_child :: "'b array \<Rightarrow> nat \<Rightarrow> nat \<Rightarrow> 'b compare \<Rightarrow> nat" where
  "max_child arr i cnt compare =
     (let left = 2 * i; right = 2 * i + 1; m = i;
          m = (if left \<le> cnt \<and> do_compare arr left m compare > 0 then left else m);
          m = (if right \<le> cnt \<and> do_compare arr right m compare > 0 then right else m) in m)"

lemma max_child_cases:
  "max_child arr i cnt compare = i \<or> (i < max_child arr i cnt compare \<and> max_child arr i cnt compare \<le> cnt \<and>
     max_child arr i cnt compare div 2 = i)"
  by (auto simp: max_child_def Let_def)

function heapify :: "'b array \<Rightarrow> nat \<Rightarrow> nat \<Rightarrow> nat \<Rightarrow> 'b compare \<Rightarrow> 'b array" where
  "heapify arr i cnt sz compare =
     (let m = max_child arr i cnt compare in
      if m = i then arr else heapify (do_swap arr i m sz) m cnt sz compare)"
  by auto
termination
  by (relation "measure (\<lambda>(arr, i, cnt, sz, compare). cnt - i)")
    (use max_child_cases in \<open>fastforce simp: diff_less_mono2\<close>)+

declare heapify.simps [simp del]

fun build_heap :: "'b array \<Rightarrow> nat \<Rightarrow> nat \<Rightarrow> nat \<Rightarrow> 'b compare \<Rightarrow> 'b array" where
  "build_heap arr 0 cnt sz compare = arr"
| "build_heap arr (Suc i) cnt sz compare = build_heap (heapify arr (Suc i) cnt sz compare) i cnt sz compare"

fun sort_heap :: "'b array \<Rightarrow> nat \<Rightarrow> nat \<Rightarrow> 'b compare \<Rightarrow> 'b array" where
  "sort_heap arr i sz compare =
     (if i > 1 then sort_heap (heapify (do_swap arr 1 i sz) 1 (i - 1) sz compare) (i - 1) sz compare else arr)"

declare sort_heap.simps [simp del]

definition sort :: "'b array \<Rightarrow> nat \<Rightarrow> nat \<Rightarrow> 'b compare \<Rightarrow> 'b array option" where
  "sort arr cnt sz compare = do {
     ASSERT (sz > 0);
     let arr = build_heap arr (cnt div 2) cnt sz compare;
     Some (sort_heap arr cnt sz compare)
   }"

definition compare_thunk :: "'b list \<Rightarrow> 'b list \<Rightarrow> 'b compare \<Rightarrow> int" where
  "compare_thunk a b aux = aux a b"

definition qsort :: "'b array \<Rightarrow> nat \<Rightarrow> nat \<Rightarrow> 'b compare \<Rightarrow> 'b array option" where
  "qsort arr cnt sz compare = sort arr cnt sz (\<lambda>a b. compare_thunk a b compare)"

text \<open>The result is the index of the match; \<open>None\<close> is the null pointer.\<close>

function search_loop :: "'b list \<Rightarrow> 'b array \<Rightarrow> nat \<Rightarrow> nat \<Rightarrow> 'b compare \<Rightarrow> nat option" where
  "search_loop key arr first lim compare =
     (if first < lim then
        let range = lim - first;
            middle = first + range div 2;
            cmp = compare key (arr ! middle) in
        if cmp < 0 then search_loop key arr first middle compare
        else if cmp > 0 then search_loop key arr (middle + 1) lim compare
        else Some middle
      else None)"
  by auto
termination by (relation "measure (\<lambda>(key, arr, first, lim, compare). lim - first)") auto

declare search_loop.simps [simp del]

definition binary_search :: "'b list \<Rightarrow> 'b array \<Rightarrow> nat \<Rightarrow> 'b compare \<Rightarrow> nat option" where
  "binary_search key arr cnt compare = search_loop key arr 0 cnt compare"

definition bsearch :: "'b list \<Rightarrow> 'b array \<Rightarrow> nat \<Rightarrow> 'b compare \<Rightarrow> nat option" where
  "bsearch key arr cnt compare = binary_search key arr cnt (\<lambda>a b. compare_thunk a b compare)"

text \<open>The comparison of the internal test, on integers of four bytes, least significant first.\<close>

definition int_of_bytes :: "8 word list \<Rightarrow> 32 word" where
  "int_of_bytes bs = foldr (\<lambda>b w. ucast b + 256 * w) bs 0"

definition compare_ints :: "8 word compare" where
  "compare_ints a b = (if int_of_bytes a <s int_of_bytes b then -1 else if int_of_bytes b <s int_of_bytes a then 1 else 0)"

section \<open>Swapping\<close>

definition swapped :: "'a list \<Rightarrow> nat \<Rightarrow> nat \<Rightarrow> 'a list" where
  "swapped xs a b = xs[a := xs ! b, b := xs ! a]"

lemma take_drop_update:
  "i < length xs \<Longrightarrow> i < length ys \<Longrightarrow>
    take (Suc i) (xs[i := ys ! i]) @ drop (Suc i) ys = take i xs @ drop i ys"
  by (simp add: take_Suc_conv_app_nth Cons_nth_drop_Suc)

lemma swap_loop_spec:
  "a < length arr \<Longrightarrow> b < length arr \<Longrightarrow> a \<noteq> b \<Longrightarrow> length (arr ! a) = i + n \<Longrightarrow> length (arr ! b) = i + n \<Longrightarrow>
    swap_loop arr a b i n = arr[a := take i (arr ! a) @ drop i (arr ! b), b := take i (arr ! b) @ drop i (arr ! a)]"
proof (induction n arbitrary: arr i)
  case (Suc n)
  let ?x = "arr ! a" and ?y = "arr ! b"
  let ?arr = "arr[a := ?x[i := ?y ! i], b := ?y[i := ?x ! i]]"
  have "swap_loop arr a b i (Suc n) = swap_loop ?arr a b (Suc i) n" using Suc.prems by (simp add: Let_def)
  also have "\<dots> = ?arr[a := take (Suc i) (?x[i := ?y ! i]) @ drop (Suc i) (?y[i := ?x ! i]),
      b := take (Suc i) (?y[i := ?x ! i]) @ drop (Suc i) (?x[i := ?y ! i])]"
    using Suc.IH [of ?arr "Suc i"] Suc.prems by simp
  also have "\<dots> = arr[a := take i ?x @ drop i ?y, b := take i ?y @ drop i ?x]"
    using take_drop_update [of i ?x ?y] take_drop_update [of i ?y ?x] Suc.prems
    by (simp add: list_update_swap [of a b])
  finally show ?case .
qed simp

lemma swap_loop_same: "a < length arr \<Longrightarrow> swap_loop arr a a i n = arr"
  by (induction n arbitrary: i) (simp_all add: Let_def)

lemma do_swap_spec:
  assumes "1 \<le> a" "a \<le> length arr" "1 \<le> b" "b \<le> length arr" "\<forall>e \<in> set arr. length e = sz"
  shows "do_swap arr a b sz = swapped arr (a - 1) (b - 1)"
proof (cases "a = b")
  case True
  then show ?thesis using assms swap_loop_same [of "a - 1" arr] by (simp add: do_swap_def swapped_def)
next
  case False
  then show ?thesis using assms swap_loop_spec [of "a - 1" arr "b - 1" 0 sz]
    by (simp add: do_swap_def swapped_def)
qed

lemma mset_swapped [simp]: "a < length xs \<Longrightarrow> b < length xs \<Longrightarrow> mset (swapped xs a b) = mset xs"
  by (simp add: swapped_def mset_swap)

lemma length_swapped [simp]: "length (swapped xs a b) = length xs"
  by (simp add: swapped_def)

lemma nth_swapped:
  "a < length xs \<Longrightarrow> b < length xs \<Longrightarrow> i < length xs \<Longrightarrow>
    swapped xs a b ! i = (if i = a then xs ! b else if i = b then xs ! a else xs ! i)"
  by (auto simp: swapped_def nth_list_update)

section \<open>The contract of a comparison function\<close>

locale comparison =
  fixes compare :: "'b compare"
  assumes compare_swap: "compare x y > 0 \<longleftrightarrow> compare y x < 0"
    and compare_trans: "compare x y \<le> 0 \<Longrightarrow> compare y z \<le> 0 \<Longrightarrow> compare x z \<le> 0"
begin

lemma compare_refl [simp]: "compare x x \<le> 0"
  using compare_swap [of x x] by linarith

lemma not_greater: "\<not> compare x y > 0 \<longleftrightarrow> compare x y \<le> 0"
  by auto

lemma greater_le: "compare x y > 0 \<Longrightarrow> compare y x \<le> 0"
  using compare_swap [of x y] by linarith

text \<open>Element \<open>j\<close>, counted from 1, is not above its parent.\<close>

definition below :: "'b array \<Rightarrow> nat \<Rightarrow> nat \<Rightarrow> bool" where
  "below arr j p \<longleftrightarrow> compare (arr ! (j - 1)) (arr ! (p - 1)) \<le> 0"

definition heap_from :: "nat \<Rightarrow> nat \<Rightarrow> 'b array \<Rightarrow> bool" where
  "heap_from lo cnt arr \<longleftrightarrow> (\<forall>j. 2 \<le> j \<longrightarrow> j \<le> cnt \<longrightarrow> lo \<le> j div 2 \<longrightarrow> below arr j (j div 2))"

text \<open>The same with a hole at \<open>i\<close>, whose children are below its parent.\<close>

definition heap_hole :: "nat \<Rightarrow> nat \<Rightarrow> nat \<Rightarrow> 'b array \<Rightarrow> bool" where
  "heap_hole lo i cnt arr \<longleftrightarrow>
     (\<forall>j. 2 \<le> j \<longrightarrow> j \<le> cnt \<longrightarrow> lo \<le> j div 2 \<longrightarrow> j div 2 \<noteq> i \<longrightarrow> below arr j (j div 2)) \<and>
     (2 \<le> i \<longrightarrow> lo \<le> i div 2 \<longrightarrow> (\<forall>c. c \<le> cnt \<longrightarrow> c div 2 = i \<longrightarrow> below arr c (i div 2)))"

lemma below_trans: "below arr a b \<Longrightarrow> below arr b c \<Longrightarrow> below arr a c"
  unfolding below_def by (rule compare_trans)

lemma max_child_above:
  "(\<forall>c. c \<le> cnt \<longrightarrow> c div 2 = i \<longrightarrow> below arr c (max_child arr i cnt compare)) \<and> below arr i (max_child arr i cnt compare)"
proof -
  define l where "l = (if 2 * i \<le> cnt \<and> do_compare arr (2 * i) i compare > 0 then 2 * i else i)"
  have l: "below arr i l" "2 * i \<le> cnt \<Longrightarrow> below arr (2 * i) l"
    using greater_le by (auto simp: l_def below_def do_compare_def not_greater)
  have m: "max_child arr i cnt compare = (if 2 * i + 1 \<le> cnt \<and> do_compare arr (2 * i + 1) l compare > 0 then 2 * i + 1 else l)"
    by (simp add: max_child_def Let_def l_def)
  have lm: "below arr l (max_child arr i cnt compare)" "2 * i + 1 \<le> cnt \<Longrightarrow> below arr (2 * i + 1) (max_child arr i cnt compare)"
    unfolding m using greater_le by (auto simp: below_def do_compare_def not_greater)
  have "below arr c (max_child arr i cnt compare)" if c: "c \<le> cnt" "c div 2 = i" for c
  proof -
    have "c = 2 * i \<or> c = 2 * i + 1" using c(2) by presburger
    then show ?thesis using c(1) lm(2) below_trans [OF l(2) lm(1)] by auto
  qed
  then show ?thesis using below_trans [OF l(1) lm(1)] by simp
qed

lemma hole_closed:
  assumes "heap_hole lo i cnt arr" "max_child arr i cnt compare = i"
  shows "heap_from lo cnt arr"
  using assms max_child_above [of cnt i arr] by (auto simp: heap_from_def heap_hole_def)

lemma below_swapped:
  assumes "1 \<le> i" "i \<le> length arr" "1 \<le> m" "m \<le> length arr" "1 \<le> a" "a \<le> length arr" "1 \<le> b" "b \<le> length arr"
  shows "below (swapped arr (i - 1) (m - 1)) a b \<longleftrightarrow>
    below arr (if a = i then m else if a = m then i else a) (if b = i then m else if b = m then i else b)"
  using assms by (auto simp: below_def nth_swapped)

lemma hole_moves:
  assumes h: "heap_hole lo i cnt arr" and i: "1 \<le> i" "lo \<le> i" and cnt: "cnt \<le> length arr"
    and m: "m = max_child arr i cnt compare" "m \<noteq> i"
  shows "heap_hole lo m cnt (swapped arr (i - 1) (m - 1))"
proof -
  have mi: "i < m" "m \<le> cnt" "m div 2 = i" using max_child_cases [of arr i cnt compare] m by auto
  note ab = max_child_above [of cnt i arr, folded m(1)]
  have bs: "below (swapped arr (i - 1) (m - 1)) a b \<longleftrightarrow>
      below arr (if a = i then m else if a = m then i else a) (if b = i then m else if b = m then i else b)"
    if "1 \<le> a" "a \<le> cnt" "1 \<le> b" "b \<le> cnt" for a b using below_swapped [of i arr m a b] i mi cnt that by simp
  have "below (swapped arr (i - 1) (m - 1)) j (j div 2)" if j: "2 \<le> j" "j \<le> cnt" "lo \<le> j div 2" "j div 2 \<noteq> m" for j
  proof -
    have r: "1 \<le> j" "1 \<le> j div 2" "j div 2 \<le> cnt" using j by auto
    consider "j div 2 = i" | "j = i" "j div 2 \<noteq> i" | "j div 2 \<noteq> i" "j \<noteq> i" by blast
    then show ?thesis
    proof cases
      case 1
      then show ?thesis using bs [of j i] ab j i mi by auto
    next
      case 2
      then have "below arr m (i div 2)" using h j mi by (auto simp: heap_hole_def)
      then show ?thesis using bs [of j "j div 2"] 2 r j by simp
    next
      case 3
      then have "below arr j (j div 2)" "j \<noteq> m" using h j mi by (auto simp: heap_hole_def)
      then show ?thesis using bs [of j "j div 2"] 3 r j by simp
    qed
  qed
  moreover have "below (swapped arr (i - 1) (m - 1)) c (m div 2)" if c: "c \<le> cnt" "c div 2 = m" for c
  proof -
    have "c \<noteq> i" "c \<noteq> m" "2 \<le> c" using c mi i by auto
    moreover have "below arr c m" using h c mi i \<open>2 \<le> c\<close> by (auto simp: heap_hole_def)
    ultimately show ?thesis using bs [of c i] c mi i by simp
  qed
  ultimately show ?thesis by (simp add: heap_hole_def)
qed

definition same_outside :: "nat \<Rightarrow> 'b array \<Rightarrow> 'b array \<Rightarrow> bool" where
  "same_outside cnt arr arr' \<longleftrightarrow> mset arr' = mset arr \<and> (\<forall>k. cnt \<le> k \<longrightarrow> k < length arr \<longrightarrow> arr' ! k = arr ! k) \<and>
     (\<forall>k < cnt. \<exists>k' < cnt. arr' ! k = arr ! k')"

lemma same_outside_refl: "same_outside cnt arr arr"
  by (auto simp: same_outside_def)

lemma same_outside_trans: "same_outside cnt a b \<Longrightarrow> same_outside cnt b c \<Longrightarrow> same_outside cnt a c"
  unfolding same_outside_def by (metis size_mset)

lemma same_outside_swapped:
  assumes "i < cnt" "m < cnt" "cnt \<le> length arr"
  shows "same_outside cnt arr (swapped arr i m)"
  using assms by (auto simp: same_outside_def nth_swapped)

lemma same_outside_length: "same_outside cnt a b \<Longrightarrow> length b = length a \<and> set b = set a"
  unfolding same_outside_def by (metis mset_eq_setD size_mset)

lemma heapify_spec:
  "heap_hole lo i cnt arr \<Longrightarrow> 1 \<le> i \<Longrightarrow> lo \<le> i \<Longrightarrow> cnt \<le> length arr \<Longrightarrow> \<forall>e \<in> set arr. length e = sz \<Longrightarrow>
    heap_from lo cnt (heapify arr i cnt sz compare) \<and> same_outside cnt arr (heapify arr i cnt sz compare)"
proof (induction "cnt - i" arbitrary: arr i rule: less_induct)
  case less
  define m where "m = max_child arr i cnt compare"
  show ?case
  proof (cases "m = i")
    case True
    then have "heapify arr i cnt sz compare = arr" by (subst heapify.simps) (simp add: m_def)
    then show ?thesis using hole_closed less.prems(1) True same_outside_refl by (simp add: m_def)
  next
    case False
    have mi: "i < m" "m \<le> cnt" using max_child_cases [of arr i cnt compare] False by (auto simp: m_def)
    let ?arr = "swapped arr (i - 1) (m - 1)"
    have sw: "do_swap arr i m sz = ?arr" using do_swap_spec [of i arr m sz] less.prems mi by simp
    have so: "same_outside cnt arr ?arr" using same_outside_swapped [of "i - 1" cnt "m - 1" arr] less.prems mi by simp
    have "heapify arr i cnt sz compare = heapify ?arr m cnt sz compare"
      using False sw by (subst heapify.simps) (simp add: m_def Let_def)
    moreover have "heap_hole lo m cnt ?arr" using hole_moves [OF less.prems(1-4) m_def False] .
    ultimately show ?thesis
      using less.hyps [of m ?arr] mi less.prems same_outside_length [OF so] same_outside_trans [OF so] by simp
  qed
qed

lemma heap_to_hole: "heap_from (Suc i) cnt arr \<Longrightarrow> 1 \<le> i \<Longrightarrow> heap_hole i i cnt arr"
  unfolding heap_from_def heap_hole_def by (auto simp: Suc_le_eq le_neq_implies_less)

lemma build_heap_spec:
  "heap_from (Suc i) cnt arr \<Longrightarrow> cnt \<le> length arr \<Longrightarrow> \<forall>e \<in> set arr. length e = sz \<Longrightarrow>
    heap_from 1 cnt (build_heap arr i cnt sz compare) \<and> same_outside cnt arr (build_heap arr i cnt sz compare)"
proof (induction i arbitrary: arr)
  case (Suc i)
  let ?arr = "heapify arr (Suc i) cnt sz compare"
  have h: "heap_from (Suc i) cnt ?arr" "same_outside cnt arr ?arr"
    using heapify_spec [OF heap_to_hole [OF Suc.prems(1)]] Suc.prems by auto
  then show ?case using Suc.IH [OF h(1)] Suc.prems same_outside_length [OF h(2)] same_outside_trans [OF h(2)] by auto
qed (simp add: same_outside_refl)

lemma heap_root: "heap_from 1 cnt arr \<Longrightarrow> 1 \<le> j \<Longrightarrow> j \<le> cnt \<Longrightarrow> below arr j 1"
proof (induction j rule: less_induct)
  case (less j)
  show ?case
  proof (cases "j = 1")
    case False
    then have "below arr (j div 2) 1" "below arr j (j div 2)"
      using less.IH [of "j div 2"] less.prems by (auto simp: heap_from_def)
    then show ?thesis using below_trans by blast
  qed (simp add: below_def)
qed

text \<open>Everything from index \<open>i\<close> on (counted from 0) is in its final place.\<close>

definition settled :: "nat \<Rightarrow> 'b array \<Rightarrow> bool" where
  "settled i arr \<longleftrightarrow> (\<forall>b. i \<le> b \<longrightarrow> b < length arr \<longrightarrow> (\<forall>a < b. compare (arr ! a) (arr ! b) \<le> 0))"

lemma sort_step:
  assumes h: "heap_from 1 i arr" and st: "settled i arr" and i: "1 < i" "i \<le> length arr"
    and so: "same_outside (i - 1) (swapped arr 0 (i - 1)) arr'"
  shows "settled (i - 1) arr'"
  unfolding settled_def
proof (intro allI impI)
  fix b a
  assume b: "i - 1 \<le> b" "b < length arr'" and a: "a < b"
  let ?s = "swapped arr 0 (i - 1)"
  have len: "length arr' = length arr" using same_outside_length [OF so] by simp
  have ab: "arr' ! b = ?s ! b" using so b len by (auto simp: same_outside_def)
  obtain a' where a': "a' < b" "arr' ! a = ?s ! a'"
  proof (cases "a < i - 1")
    case True
    then obtain k where "k < i - 1" "arr' ! a = ?s ! k" using so by (auto simp: same_outside_def)
    then show thesis using that [of k] b by simp
  next
    case False
    then show thesis using that [of a] a b so len by (auto simp: same_outside_def)
  qed
  have in_range: "0 < length arr" "i - 1 < length arr" using i by linarith+
  have n: "?s ! k = (if k = 0 then arr ! (i - 1) else if k = i - 1 then arr ! 0 else arr ! k)" if "k < length arr" for k
    by (rule nth_swapped [OF in_range that])
  show "compare (arr' ! a) (arr' ! b) \<le> 0"
  proof (cases "b = i - 1")
    case True
    have "below arr (k + 1) 1" if "k < i" for k using heap_root [OF h] that by simp
    then have "compare (arr ! k) (arr ! 0) \<le> 0" if "k < i" for k using that by (simp add: below_def)
    moreover have "?s ! b = arr ! 0" using n [of b] True i by simp
    moreover have "\<exists>k < i. ?s ! a' = arr ! k"
    proof (cases "a' = 0")
      case False
      then have "?s ! a' = arr ! a'" "a' < i" using n [of a'] a'(1) True i by auto
      then show ?thesis by blast
    qed (use n [of 0] in_range i in \<open>auto intro: exI [of _ "i - 1"]\<close>)
    ultimately show ?thesis using ab a'(2) by auto
  next
    case False
    then have "i \<le> b" using b i by simp
    then have "compare (arr ! k) (arr ! b) \<le> 0" if "k < b" for k using st that b len by (simp add: settled_def)
    moreover have "?s ! b = arr ! b" using n [of b] b len False i by simp
    moreover have "\<exists>k < b. ?s ! a' = arr ! k"
      using n [of a'] a' b len \<open>i \<le> b\<close> i by (auto intro: exI [of _ "i - 1"] exI [of _ 0])
    ultimately show ?thesis using ab a'(2) by auto
  qed
qed

lemma heap_drop_root:
  assumes "heap_from 1 i arr" "1 < i" "i \<le> length arr"
  shows "heap_hole 1 1 (i - 1) (swapped arr 0 (i - 1))"
proof -
  have "below (swapped arr 0 (i - 1)) j (j div 2)" if j: "2 \<le> j" "j \<le> i - 1" "j div 2 \<noteq> 1" for j
  proof -
    have p: "2 \<le> j div 2" "j div 2 < j" using j by linarith+
    have b: "below arr j (j div 2)" using assms(1) j by (auto simp: heap_from_def)
    have r: "0 < length arr" "i - 1 < length arr" "j - 1 < length arr" "j div 2 - 1 < length arr" "j - 1 < i - 1"
      using assms(2, 3) j p by linarith+
    have "swapped arr 0 (i - 1) ! (j - 1) = arr ! (j - 1)" "swapped arr 0 (i - 1) ! (j div 2 - 1) = arr ! (j div 2 - 1)"
      using nth_swapped [OF r(1-3)] nth_swapped [OF r(1, 2, 4)] r(5) j p by auto
    then show ?thesis using b by (simp only: below_def)
  qed
  then show ?thesis by (simp add: heap_hole_def)
qed

lemma sort_heap_spec:
  "heap_from 1 i arr \<Longrightarrow> settled i arr \<Longrightarrow> i \<le> length arr \<Longrightarrow> \<forall>e \<in> set arr. length e = sz \<Longrightarrow>
    settled 1 (sort_heap arr i sz compare) \<and> mset (sort_heap arr i sz compare) = mset arr"
proof (induction i arbitrary: arr)
  case 0
  have "sort_heap arr 0 sz compare = arr" by (subst sort_heap.simps) simp
  then show ?case using 0 by (simp add: settled_def)
next
  case (Suc i)
  show ?case
  proof (cases "i = 0")
    case True
    then have "sort_heap arr (Suc i) sz compare = arr" by (subst sort_heap.simps) simp
    then show ?thesis using Suc.prems True by simp
  next
    case False
    let ?s = "swapped arr 0 i" and ?arr = "heapify (swapped arr 0 i) 1 i sz compare"
    have i: "0 < i" "i < length arr" using False Suc.prems(3) by simp_all
    have sw: "do_swap arr 1 (Suc i) sz = ?s" using do_swap_spec [of 1 arr "Suc i" sz] Suc.prems(4) i by simp
    have "0 < length arr" using i by linarith
    then have "set ?s = set arr" using i(2) mset_eq_setD [OF mset_swapped] by blast
    then have els: "\<forall>e \<in> set ?s. length e = sz" using Suc.prems(4) by simp
    have h: "heap_from 1 i ?arr" "same_outside i ?s ?arr"
      using heapify_spec [of 1 1 i ?s sz] heap_drop_root [OF Suc.prems(1)] els i by auto
    have st: "settled i ?arr" using sort_step [OF Suc.prems(1, 2)] i h(2) by simp
    have "mset ?arr = mset arr" using h(2) i(2) mset_swapped [OF \<open>0 < length arr\<close> i(2)] by (simp add: same_outside_def)
    moreover have "sort_heap arr (Suc i) sz compare = sort_heap ?arr i sz compare"
      using sw i by (subst sort_heap.simps) simp
    ultimately show ?thesis
      using Suc.IH [OF h(1) st] same_outside_length [OF h(2)] els i by simp
  qed
qed

lemma sort_spec:
  assumes "0 < sz" "\<forall>e \<in> set arr. length e = sz"
  shows "\<exists>arr'. sort arr (length arr) sz compare = Some arr' \<and> mset arr' = mset arr \<and>
    sorted_wrt (\<lambda>x y. compare x y \<le> 0) arr'"
proof -
  let ?n = "length arr"
  define b where "b = build_heap arr (?n div 2) ?n sz compare"
  have "heap_from (Suc (?n div 2)) ?n arr" using div_le_mono [of _ ?n 2] by (fastforce simp: heap_from_def)
  then have b: "heap_from 1 ?n b" "same_outside ?n arr b"
    using build_heap_spec assms(2) by (auto simp: b_def)
  have len: "length b = ?n" "set b = set arr" using same_outside_length [OF b(2)] by auto
  then have "settled ?n b" by (simp add: settled_def)
  then have s: "settled 1 (sort_heap b ?n sz compare)" "mset (sort_heap b ?n sz compare) = mset b"
    using sort_heap_spec [OF b(1)] len assms(2) by auto
  have "sorted_wrt (\<lambda>x y. compare x y \<le> 0) (sort_heap b ?n sz compare)"
    using s(1) by (auto simp: sorted_wrt_iff_nth_less settled_def)
  moreover have "mset (sort_heap b ?n sz compare) = mset arr" using s(2) b(2) by (simp add: same_outside_def)
  moreover have "sort arr ?n sz compare = Some (sort_heap b ?n sz compare)" using assms(1) by (simp add: sort_def b_def Let_def)
  ultimately show ?thesis by blast
qed

lemma search_loop_spec:
  assumes "sorted_wrt (\<lambda>x y. compare x y \<le> 0) arr"
  shows "lim \<le> length arr \<Longrightarrow>
    (case search_loop key arr first lim compare of
       None \<Rightarrow> \<forall>k. first \<le> k \<longrightarrow> k < lim \<longrightarrow> compare key (arr ! k) \<noteq> 0
     | Some k \<Rightarrow> first \<le> k \<and> k < lim \<and> compare key (arr ! k) = 0)"
proof (induction "lim - first" arbitrary: first lim rule: less_induct)
  case less
  show ?case
  proof (cases "first < lim")
    case False
    then show ?thesis by (subst search_loop.simps) simp
  next
    case True
    define mid where "mid = first + (lim - first) div 2"
    have mid: "first \<le> mid" "mid < lim" using True by (auto simp: mid_def)
    have le: "compare (arr ! a) (arr ! b) \<le> 0" if "a \<le> b" "b < length arr" for a b
      using assms that by (cases "a = b") (auto simp: sorted_wrt_iff_nth_less)
    have eq: "compare y key \<le> 0" if "compare key y = 0" for y using compare_swap [of y key] that by linarith
    consider "compare key (arr ! mid) < 0" | "compare key (arr ! mid) > 0" | "compare key (arr ! mid) = 0" by linarith
    then show ?thesis
    proof cases
      case 1
      have "compare key (arr ! k) \<noteq> 0" if "mid \<le> k" "k < lim" for k
        using compare_trans [OF le [of mid k] eq] 1 that less.prems compare_swap [of "arr ! mid" key] by force
      then show ?thesis using less.hyps [of mid first] mid less.prems 1 True
        by (subst search_loop.simps) (fastforce simp: Let_def mid_def [symmetric] split: option.splits)
    next
      case 2
      have "compare key (arr ! k) \<noteq> 0" if "first \<le> k" "k \<le> mid" for k
      proof
        assume "compare key (arr ! k) = 0"
        then show False using compare_trans [of key "arr ! k" "arr ! mid"] le [of k mid] 2 that mid less.prems by simp
      qed
      then show ?thesis using less.hyps [of lim "mid + 1"] mid less.prems 2 True
        by (subst search_loop.simps) (fastforce simp: Let_def mid_def [symmetric] split: option.splits)
    next
      case 3
      then show ?thesis using mid True by (subst search_loop.simps) (simp add: Let_def mid_def [symmetric])
    qed
  qed
qed

end

text \<open>The comparison of the test program satisfies the contract.\<close>

interpretation ci: comparison compare_ints
  by unfold_locales (auto simp: compare_ints_def word_sless_alt split: if_splits)

section \<open>Properties\<close>

lemma thunk [simp]: "(\<lambda>a b. compare_thunk a b compare) = compare"
  by (simp add: fun_eq_iff compare_thunk_def)

text \<open>C28. \<open>qsort\<close> always returns and sorts: for every comparison function that orders the elements and
  every array of elements of a positive size, the result is a permutation of the array in
  ascending order.\<close>

theorem qsort_sorts:
  assumes "comparison compare" "0 < sz" "\<forall>e \<in> set arr. length e = sz"
  shows "\<exists>arr'. qsort arr (length arr) sz compare = Some arr' \<and> mset arr' = mset arr \<and>
    sorted_wrt (\<lambda>x y. compare x y \<le> 0) arr'"
  using comparison.sort_spec [OF assms] by (simp add: qsort_def)

theorem qsort_sorts_witness:
  "\<exists>arr'. qsort [[5, 0, 0, 0], [255, 255, 255, 255], [7, 1, 0, 0]] 3 4 compare_ints = Some arr' \<and>
     mset arr' = {#[5, 0, 0, 0], [255, 255, 255, 255], [7, 1, 0, 0]#} \<and> sorted_wrt (\<lambda>x y. compare_ints x y \<le> 0) arr'"
  using qsort_sorts [OF ci.comparison_axioms, of 4 "[[5, 0, 0, 0], [255, 255, 255, 255], [7, 1, 0, 0]]"]
  by (simp add: numeral_3_eq_3)

text \<open>\<open>bsearch\<close> in an array sorted by the comparison function returns a matching element if the
  array has one, and the null pointer exactly when it has none.\<close>

theorem bsearch_finds:
  assumes "comparison compare" "sorted_wrt (\<lambda>x y. compare x y \<le> 0) arr"
  shows "case bsearch key arr (length arr) compare of
      None \<Rightarrow> \<not> (\<exists>e \<in> set arr. compare key e = 0)
    | Some k \<Rightarrow> k < length arr \<and> compare key (arr ! k) = 0"
  using comparison.search_loop_spec [OF assms, where lim = "length arr" and key = key and first = 0]
  by (auto simp: bsearch_def binary_search_def in_set_conv_nth split: option.splits)

theorem bsearch_finds_witness:
  "case bsearch [5, 0, 0, 0] [[255, 255, 255, 255], [5, 0, 0, 0], [7, 1, 0, 0]] 3 compare_ints of
     None \<Rightarrow> False | Some k \<Rightarrow> [[255, 255, 255, 255], [5, 0, 0, 0], [7, 1, 0, 0]] ! k = ([5, 0, 0, 0] :: 8 word list)"
proof -
  let ?a = "[[255, 255, 255, 255], [5, 0, 0, 0], [7, 1, 0, 0]] :: 8 word array"
  have s: "sorted_wrt (\<lambda>x y. compare_ints x y \<le> 0) ?a" by (simp add: compare_ints_def int_of_bytes_def word_sless_alt)
  have f: "compare_ints [5, 0, 0, 0] [5, 0, 0, 0] = 0" "compare_ints [5, 0, 0, 0] [255, 255, 255, 255] \<noteq> 0"
    "compare_ints [5, 0, 0, 0] [7, 1, 0, 0] \<noteq> 0" by (simp_all add: compare_ints_def int_of_bytes_def word_sless_alt)
  have n: "length ?a = 3" by simp
  note b = bsearch_finds [OF ci.comparison_axioms s, of "[5, 0, 0, 0]", unfolded n]
  show ?thesis
  proof (cases "bsearch [5, 0, 0, 0] ?a 3 compare_ints")
    case (Some k)
    then have "k < 3" "compare_ints [5, 0, 0, 0] (?a ! k) = 0" using b by simp_all
    moreover have "k = 0 \<or> k = 1 \<or> k = 2" using \<open>k < 3\<close> by arith
    ultimately show ?thesis using f Some by auto
  qed (use b f in simp)
qed

end
