(* ===== verification/Stdio.thy ===== *)
theory Stdio
  imports Cstring Fixed_Point
begin

text \<open>
  Formatted output, \<open>lib/stdio.c\<close>, and \<open>atoi\<close> of \<open>lib/stdlib.c\<close>. The format string is in memory
  and \<open>format\<close> is a pointer to it, so reading on behind its terminator is visible. A
  \<open>va_list\<close> is the list of the 32-bit argument slots still to be read; a 64-bit argument
  takes two of them, the low half first. Characters handed to \<open>output\<close> are returned as a
  list, in the order of the calls.
\<close>

section \<open>Characters\<close>

definition chr :: "char \<Rightarrow> byte" where
  "chr c = of_char c"

definition str :: "string \<Rightarrow> byte list" where
  "str s = map chr s"

text \<open>\<open>char\<close> is signed; the tests of \<open>ctype.h\<close> take the promoted character.\<close>

definition isdigit :: "byte \<Rightarrow> bool" where
  "isdigit c \<longleftrightarrow> sint c \<ge> 48 \<and> sint c \<le> 57"

definition isspace :: "byte \<Rightarrow> bool" where
  "isspace c \<longleftrightarrow> c = 32 \<or> c = 12 \<or> c = 10 \<or> c = 13 \<or> c = 9 \<or> c = 11"

section \<open>Reading an integer\<close>

function skip_space :: "memory \<Rightarrow> ptr \<Rightarrow> ptr option" where
  "skip_space m s = (if s < length m then if isspace (m ! s) then skip_space m (s + 1) else Some s else None)"
  by auto
termination by (relation "measure (\<lambda>(m, s). length m - s)") auto

function atoi_digits :: "memory \<Rightarrow> ptr \<Rightarrow> 32 word \<Rightarrow> 32 word option" where
  "atoi_digits m s v =
     (if s < length m then
        if isdigit (m ! s) then atoi_digits m (s + 1) (v * 10 - (scast (m ! s) - 48)) else Some v
      else None)"
  by auto
termination by (relation "measure (\<lambda>(m, s, v). length m - s)") auto

declare skip_space.simps [simp del] atoi_digits.simps [simp del]

definition atoi :: "memory \<Rightarrow> ptr \<Rightarrow> 32 word option" where
  "atoi m s = do {
     ASSERT (s \<noteq> NULL);
     s \<leftarrow> skip_space m s;
     c \<leftarrow> load m s;
     let (negative, s) = (if c = chr CHR ''+'' then (False, s + 1)
                          else if c = chr CHR ''-'' then (True, s + 1) else (False, s));
     v \<leftarrow> atoi_digits m s 0;
     Some (if \<not> negative then - v else v)
   }"

section \<open>Conversions\<close>

datatype flag = MINUS | PLUS | SPACE | POUND | ZERO | GROUP

datatype arg_type = CHAR_T | SHORT_T | INT_T | INTMAX_T | LONG_T | LONGLONG_T | PTRDIFF_T | SIZE_T

record printf_conversion =
  flags :: "flag set"
  width :: int
  precision :: int
  arg_type :: arg_type

record integer_base =
  base :: nat
  digits :: "byte list"
  base_x_char :: byte
  group :: nat

definition base_d :: integer_base where
  "base_d = \<lparr>base = 10, digits = str ''0123456789'', base_x_char = 0, group = 3\<rparr>"
definition base_o :: integer_base where
  "base_o = \<lparr>base = 8, digits = str ''01234567'', base_x_char = 0, group = 3\<rparr>"
definition base_x :: integer_base where
  "base_x = \<lparr>base = 16, digits = str ''0123456789abcdef'', base_x_char = chr CHR ''x'', group = 4\<rparr>"
definition base_X :: integer_base where
  "base_X = \<lparr>base = 16, digits = str ''0123456789ABCDEF'', base_x_char = chr CHR ''X'', group = 4\<rparr>"

definition va_arg32 :: "32 word list \<Rightarrow> (32 word \<times> 32 word list) option" where
  "va_arg32 args = (case args of [] \<Rightarrow> None | a # as \<Rightarrow> Some (a, as))"

definition va_arg64 :: "32 word list \<Rightarrow> (64 word \<times> 32 word list) option" where
  "va_arg64 args = (case args of lo # hi # as \<Rightarrow> Some (ucast lo + push_bit 32 (ucast hi), as) | _ \<Rightarrow> None)"

text \<open>\<open>parse_conversion\<close>: flags, width, precision and type, in this order.\<close>

definition flag_of :: "byte \<Rightarrow> flag option" where
  "flag_of c = (if c = chr CHR ''-'' then Some MINUS else if c = chr CHR ''+'' then Some PLUS
     else if c = chr CHR '' '' then Some SPACE else if c = chr CHR ''#'' then Some POUND
     else if c = chr CHR ''0'' then Some ZERO else if c = chr CHR 0x27 then Some GROUP else None)"

function parse_flags :: "memory \<Rightarrow> ptr \<Rightarrow> flag set \<Rightarrow> (ptr \<times> flag set) option" where
  "parse_flags m format fs =
     (if format < length m then
        case flag_of (m ! format) of Some f \<Rightarrow> parse_flags m (format + 1) (insert f fs) | None \<Rightarrow> Some (format, fs)
      else None)"
  by auto
termination by (relation "measure (\<lambda>(m, p, fs). length m - p)") auto

function parse_number :: "memory \<Rightarrow> ptr \<Rightarrow> int \<Rightarrow> (ptr \<times> int) option" where
  "parse_number m format n =
     (if format < length m then
        if isdigit (m ! format) then parse_number m (format + 1) (s32 (s32 (n * 10) + sint (m ! format) - 48))
        else Some (format, n)
      else None)"
  by auto
termination by (relation "measure (\<lambda>(m, p, n). length m - p)") auto

declare parse_flags.simps [simp del] parse_number.simps [simp del]

definition parse_type :: "memory \<Rightarrow> ptr \<Rightarrow> (ptr \<times> arg_type) option" where
  "parse_type m format = do {
     c \<leftarrow> load m format;
     if c = chr CHR ''h'' then do {
       c' \<leftarrow> load m (format + 1);
       Some (if c' = chr CHR ''h'' then (format + 2, CHAR_T) else (format + 1, SHORT_T))
     } else if c = chr CHR ''j'' then Some (format + 1, INTMAX_T)
     else if c = chr CHR ''l'' then do {
       c' \<leftarrow> load m (format + 1);
       Some (if c' = chr CHR ''l'' then (format + 2, LONGLONG_T) else (format + 1, LONG_T))
     } else if c = chr CHR ''t'' then Some (format + 1, PTRDIFF_T)
     else if c = chr CHR ''z'' then Some (format + 1, SIZE_T)
     else Some (format, INT_T)
   }"

definition parse_width :: "memory \<Rightarrow> ptr \<Rightarrow> 32 word list \<Rightarrow> (ptr \<times> int \<times> 32 word list) option" where
  "parse_width m format args = do {
     c \<leftarrow> load m format;
     if c = chr CHR ''*'' then do { (a, args) \<leftarrow> va_arg32 args; Some (format + 1, sint a, args) }
     else do { (format, n) \<leftarrow> parse_number m format 0; Some (format, n, args) }
   }"

definition parse_precision :: "memory \<Rightarrow> ptr \<Rightarrow> 32 word list \<Rightarrow> (ptr \<times> int \<times> 32 word list) option" where
  "parse_precision m format args = do {
     c \<leftarrow> load m format;
     if c = chr CHR ''.'' then do {
       (format, prec, args) \<leftarrow> parse_width m (format + 1) args;
       Some (format, if prec < 0 then -1 else prec, args)
     } else Some (format, -1, args)
   }"

definition parse_conversion ::
  "memory \<Rightarrow> ptr \<Rightarrow> 32 word list \<Rightarrow> (ptr \<times> printf_conversion \<times> 32 word list) option" where
  "parse_conversion m format args = do {
     (format, fs) \<leftarrow> parse_flags m format {};
     let fs = (if MINUS \<in> fs then fs - {ZERO} else fs);
     let fs = (if PLUS \<in> fs then fs - {SPACE} else fs);
     (format, w, args) \<leftarrow> parse_width m format args;
     let fs = (if w < 0 then insert MINUS fs else fs);
     let w = (if w < 0 then s32 (- w) else w);
     (format, prec, args) \<leftarrow> parse_precision m format args;
     let fs = (if prec \<ge> 0 then fs - {ZERO} else fs);
     (format, ty) \<leftarrow> parse_type m format;
     Some (format, \<lparr>flags = fs, width = w, precision = prec, arg_type = ty\<rparr>, args)
   }"

section \<open>Integers and strings\<close>

text \<open>\<open>output_dup\<close> takes its count as a \<open>size_t\<close>; it is called with counts that are not negative.\<close>

fun output_dup :: "byte \<Rightarrow> nat \<Rightarrow> byte list" where
  "output_dup ch 0 = []"
| "output_dup ch (Suc n) = ch # output_dup ch n"

definition put_char :: "byte list \<Rightarrow> byte \<Rightarrow> byte list option" where
  "put_char buf c = (if length buf < 64 then Some (buf @ [c]) else None)"

text \<open>The digits of \<open>value\<close>, least significant first. A base below two would not end.\<close>

function digit_loop :: "flag set \<Rightarrow> integer_base \<Rightarrow> nat \<Rightarrow> nat \<Rightarrow> byte list \<Rightarrow> byte list option" where
  "digit_loop fs b value digit_cnt buf =
     (if value > 0 then
        if base b < 2 then None else do {
          buf \<leftarrow> (if GROUP \<in> fs \<and> digit_cnt > 0 \<and> digit_cnt mod group b = 0 then put_char buf (chr CHR '','') else Some buf);
          buf \<leftarrow> put_char buf (digits b ! (value mod base b));
          digit_loop fs b (value div base b) (digit_cnt + 1) buf
        }
      else Some buf)"
  by auto
termination by (relation "measure (\<lambda>(fs, b, value, n, buf). value)") auto

function zero_loop :: "int \<Rightarrow> byte list \<Rightarrow> byte list" where
  "zero_loop prec buf = (if int (length buf) < prec \<and> length buf < 63 then zero_loop prec (buf @ [chr CHR ''0'']) else buf)"
  by auto
termination by (relation "measure (\<lambda>(prec, buf). 63 - length buf)") auto

declare digit_loop.simps [simp del] zero_loop.simps [simp del]

definition format_integer :: "nat \<Rightarrow> bool \<Rightarrow> bool \<Rightarrow> integer_base \<Rightarrow> printf_conversion \<Rightarrow> byte list option" where
  "format_integer value is_signed negative b c = do {
     let sign = (if is_signed then
                   if PLUS \<in> flags c then chr (if negative then CHR ''-'' else CHR ''+'')
                   else if SPACE \<in> flags c then chr (if negative then CHR ''-'' else CHR '' '')
                   else if negative then chr CHR ''-'' else 0
                 else 0);
     let x = (if POUND \<in> flags c \<and> value \<noteq> 0 then base_x_char b else 0);
     buf \<leftarrow> digit_loop (flags c) b value 0 [];
     let prec = (if precision c < 0 then 1 else precision c);
     let buf = zero_loop prec buf;
     buf \<leftarrow> (if POUND \<in> flags c \<and> base b = 8 \<and> (buf = [] \<or> last buf \<noteq> chr CHR ''0'')
            then put_char buf (chr CHR ''0'') else Some buf);
     let pad_cnt = s32 (width c - int (length buf) - (if x \<noteq> 0 then 2 else 0) - (if sign \<noteq> 0 then 1 else 0));
     let pad = nat pad_cnt;
     Some ((if MINUS \<notin> flags c \<and> ZERO \<notin> flags c then output_dup (chr CHR '' '') pad else []) @
       (if sign \<noteq> 0 then [sign] else []) @
       (if x \<noteq> 0 then [chr CHR ''0'', x] else []) @
       (if ZERO \<in> flags c then output_dup (chr CHR ''0'') pad else []) @
       rev buf @
       (if MINUS \<in> flags c then output_dup (chr CHR '' '') pad else []))
   }"

definition format_string :: "byte list \<Rightarrow> int \<Rightarrow> printf_conversion \<Rightarrow> byte list" where
  "format_string s len c =
     (if width c > len \<and> MINUS \<notin> flags c then output_dup (chr CHR '' '') (nat (width c - len)) else []) @
     take (nat len) s @
     (if width c > len \<and> MINUS \<in> flags c then output_dup (chr CHR '' '') (nat (width c - len)) else [])"

section \<open>Arguments\<close>

definition signed_arg :: "arg_type \<Rightarrow> 32 word list \<Rightarrow> (int \<times> 32 word list) option" where
  "signed_arg ty args =
     (case ty of
        CHAR_T \<Rightarrow> map_option (\<lambda>(a, as). (sint (ucast a :: 8 word), as)) (va_arg32 args)
      | SHORT_T \<Rightarrow> map_option (\<lambda>(a, as). (sint (ucast a :: 16 word), as)) (va_arg32 args)
      | INT_T \<Rightarrow> map_option (\<lambda>(a, as). (sint a, as)) (va_arg32 args)
      | INTMAX_T \<Rightarrow> map_option (\<lambda>(a, as). (sint a, as)) (va_arg64 args)
      | LONG_T \<Rightarrow> map_option (\<lambda>(a, as). (sint a, as)) (va_arg32 args)
      | LONGLONG_T \<Rightarrow> map_option (\<lambda>(a, as). (sint a, as)) (va_arg64 args)
      | PTRDIFF_T \<Rightarrow> map_option (\<lambda>(a, as). (sint a, as)) (va_arg32 args)
      | SIZE_T \<Rightarrow> map_option (\<lambda>(a, as). (if uint a > 2147483647 then uint a - 4294967295 - 1 else uint a, as)) (va_arg32 args))"

definition unsigned_arg :: "arg_type \<Rightarrow> 32 word list \<Rightarrow> (nat \<times> 32 word list) option" where
  "unsigned_arg ty args =
     (case ty of
        CHAR_T \<Rightarrow> map_option (\<lambda>(a, as). (unat (ucast a :: 8 word), as)) (va_arg32 args)
      | SHORT_T \<Rightarrow> map_option (\<lambda>(a, as). (unat (ucast a :: 16 word), as)) (va_arg32 args)
      | INT_T \<Rightarrow> map_option (\<lambda>(a, as). (unat a, as)) (va_arg32 args)
      | INTMAX_T \<Rightarrow> map_option (\<lambda>(a, as). (unat a, as)) (va_arg64 args)
      | LONG_T \<Rightarrow> map_option (\<lambda>(a, as). (unat a, as)) (va_arg32 args)
      | LONGLONG_T \<Rightarrow> map_option (\<lambda>(a, as). (unat a, as)) (va_arg64 args)
      | PTRDIFF_T \<Rightarrow> map_option (\<lambda>(a, as). (unat (take_bit 32 (scast a :: 64 word)), as)) (va_arg32 args)
      | SIZE_T \<Rightarrow> map_option (\<lambda>(a, as). (unat a, as)) (va_arg32 args))"

text \<open>The string of a \<open>%s\<close>: at most \<open>precision\<close> characters of it, all of it for precision -1.\<close>

definition string_arg :: "memory \<Rightarrow> ptr \<Rightarrow> int \<Rightarrow> byte list option" where
  "string_arg m s prec =
     (let maxlen = (if prec < 0 then 4294967295 else nat prec) in
      if s = NULL then Some (take maxlen (str ''(null)''))
      else do { len \<leftarrow> strnlen m s maxlen; Some (take len (drop s m)) })"

definition convert ::
  "memory \<Rightarrow> byte \<Rightarrow> printf_conversion \<Rightarrow> 32 word list \<Rightarrow> (byte list \<times> 32 word list) option" where
  "convert m k c args =
     (if k = chr CHR ''d'' \<or> k = chr CHR ''i'' then do {
        (v, args) \<leftarrow> signed_arg (arg_type c) args;
        out \<leftarrow> format_integer (nat \<bar>v\<bar>) True (v < 0) base_d c;
        Some (out, args)
      } else if k = chr CHR ''o'' \<or> k = chr CHR ''u'' \<or> k = chr CHR ''x'' \<or> k = chr CHR ''X'' then do {
        (v, args) \<leftarrow> unsigned_arg (arg_type c) args;
        out \<leftarrow> format_integer v False False
          (if k = chr CHR ''o'' then base_o else if k = chr CHR ''u'' then base_d else if k = chr CHR ''x'' then base_x else base_X) c;
        Some (out, args)
      } else if k = chr CHR ''c'' then do {
        (a, args) \<leftarrow> va_arg32 args;
        Some (format_string [ucast a] 1 c, args)
      } else if k = chr CHR ''s'' then do {
        (a, args) \<leftarrow> va_arg32 args;
        s \<leftarrow> string_arg m (unat a) (precision c);
        Some (format_string s (int (length s)) c, args)
      } else if k = chr CHR ''p'' then do {
        (a, args) \<leftarrow> va_arg32 args;
        out \<leftarrow> format_integer (unat a) False False base_x (c\<lparr>flags := {POUND}\<rparr>);
        Some (out, args)
      } else if k \<in> set (str ''feEgGn'') then Some (str ''<<no %'' @ [k] @ str '' in kernel>>'', args)
      else Some (str ''<<no %'' @ [k] @ str '' conversion>>'', args))"

section \<open>The printf loop\<close>

lemma parse_flags_mono: "parse_flags m p fs = Some (q, gs) \<Longrightarrow> p \<le> q"
proof (induction m p fs rule: parse_flags.induct)
  case (1 m p fs)
  show ?case
  proof (cases "p < length m")
    case True
    show ?thesis
    proof (cases "flag_of (m ! p)")
      case None
      then show ?thesis using 1(2) True by (subst (asm) parse_flags.simps) simp
    next
      case (Some f)
      then have "parse_flags m (p + 1) (insert f fs) = Some (q, gs)"
        using 1(2) True by (subst (asm) parse_flags.simps) simp
      then show ?thesis using 1(1) [OF True Some] by simp
    qed
  qed (use 1(2) in \<open>subst (asm) parse_flags.simps, simp\<close>)
qed

lemma parse_number_mono: "parse_number m p n = Some (q, k) \<Longrightarrow> p \<le> q"
proof (induction m p n rule: parse_number.induct)
  case (1 m p n)
  show ?case
  proof (cases "p < length m \<and> isdigit (m ! p)")
    case True
    then have "parse_number m (p + 1) (s32 (s32 (n * 10) + sint (m ! p) - 48)) = Some (q, k)"
      using 1(2) by (subst (asm) parse_number.simps) simp
    then show ?thesis using 1(1) True by simp
  qed (use 1(2) in \<open>subst (asm) parse_number.simps, auto split: if_splits\<close>)
qed

lemma parse_type_mono: "parse_type m p = Some (q, ty) \<Longrightarrow> p \<le> q"
  by (auto simp: parse_type_def bind_eq_Some_conv split: if_splits)

lemma parse_width_mono: "parse_width m p args = Some (q, w, args') \<Longrightarrow> p \<le> q"
  by (auto simp: parse_width_def bind_eq_Some_conv dest: parse_number_mono split: if_splits)

lemma parse_precision_mono: "parse_precision m p args = Some (q, w, args') \<Longrightarrow> p \<le> q"
  by (auto simp: parse_precision_def bind_eq_Some_conv dest: parse_width_mono split: if_splits)

lemma parse_conversion_mono:
  assumes "parse_conversion m p args = Some (q, c, args')"
  shows "p \<le> q"
proof -
  obtain p1 fs p2 w a2 p3 prec a3 ty where "parse_flags m p {} = Some (p1, fs)" "parse_width m p1 args = Some (p2, w, a2)"
    "parse_precision m p2 a2 = Some (p3, prec, a3)" "parse_type m p3 = Some (q, ty)"
    using assms unfolding parse_conversion_def Let_def by (auto simp: bind_eq_Some_conv)
  then show ?thesis
    using parse_flags_mono parse_width_mono parse_precision_mono parse_type_mono by (meson le_trans)
qed

text \<open>The loop body advances the pointer, then the loop does: after a conversion that stopped at the
  terminator, as for a trailing percent sign, this steps over the terminator.\<close>

function vprintf_loop :: "memory \<Rightarrow> ptr \<Rightarrow> 32 word list \<Rightarrow> byte list option" where
  "vprintf_loop m format args =
     (if format < length m then
        if m ! format = 0 then Some []
        else if m ! format \<noteq> chr CHR ''%'' then map_option ((#) (m ! format)) (vprintf_loop m (format + 1) args)
        else if load m (format + 1) = Some (chr CHR ''%'')
        then map_option ((#) (chr CHR ''%'')) (vprintf_loop m (format + 2) args)
        else (case parse_conversion m (format + 1) args of None \<Rightarrow> None | Some (format', c, args') \<Rightarrow>
          (case load m format' of None \<Rightarrow> None | Some k \<Rightarrow>
            (case convert m k c args' of None \<Rightarrow> None | Some (out, args'') \<Rightarrow>
              map_option ((@) out) (vprintf_loop m (format' + 1) args''))))
      else None)"
  by auto
termination
  by (relation "measure (\<lambda>(m, format, args). length m - format)") (auto dest!: parse_conversion_mono)

declare vprintf_loop.simps [simp del]

definition vprintf :: "memory \<Rightarrow> ptr \<Rightarrow> 32 word list \<Rightarrow> byte list option" where
  "vprintf m format args = vprintf_loop m format args"

record vsnprintf_aux =
  aux_p :: nat
  aux_length :: nat
  max_length :: nat

definition vsnprintf_helper :: "byte \<Rightarrow> vsnprintf_aux \<times> byte list \<Rightarrow> vsnprintf_aux \<times> byte list" where
  "vsnprintf_helper ch s =
     (let (aux, buffer) = s;
          fits = aux_length aux < max_length aux;
          aux = aux\<lparr>aux_length := aux_length aux + 1\<rparr> in
      if fits then (aux\<lparr>aux_p := aux_p aux + 1\<rparr>, buffer[aux_p aux := ch]) else (aux, buffer))"

text \<open>\<open>buffer\<close> has \<open>buf_size\<close> bytes and lies apart from the memory the format and arguments are read from.\<close>

definition vsnprintf :: "memory \<Rightarrow> byte list \<Rightarrow> nat \<Rightarrow> ptr \<Rightarrow> 32 word list \<Rightarrow> (byte list \<times> nat) option" where
  "vsnprintf m buffer buf_size format args = do {
     let aux = \<lparr>aux_p = 0, aux_length = 0, max_length = (if buf_size > 0 then buf_size - 1 else 0)\<rparr>;
     out \<leftarrow> vprintf_loop m format args;
     let (aux, buffer) = fold vsnprintf_helper out (aux, buffer);
     Some (if buf_size > 0 then buffer[aux_p aux := 0] else buffer, aux_length aux)
   }"

definition snprintf :: "memory \<Rightarrow> byte list \<Rightarrow> nat \<Rightarrow> ptr \<Rightarrow> 32 word list \<Rightarrow> (byte list \<times> nat) option" where
  "snprintf m buffer buf_size format args = vsnprintf m buffer buf_size format args"

end
