(* ===== verification/Stdio_Props.thy ===== *)
theory Stdio_Props
  imports Stdio Cstring_Props
begin

text \<open>
  Correctness of formatted output: the 64-byte buffer of \<open>format_integer\<close> suffices, \<open>vsnprintf\<close>
  keeps within its destination, and \<open>atoi\<close> reads back what \<open>%d\<close> prints.
\<close>

section \<open>The digit buffer\<close>

lemma digit_loop_bound:
  assumes "8 \<le> base b"
  shows "v < 8 ^ k \<Longrightarrow> length buf + 2 * k \<le> 64 \<Longrightarrow>
    \<exists>buf'. digit_loop fs b v n buf = Some buf' \<and> length buf' \<le> length buf + 2 * k"
proof (induction k arbitrary: v n buf)
  case 0
  then show ?case by (subst digit_loop.simps) simp
next
  case (Suc k)
  show ?case
  proof (cases "v = 0")
    case True
    then show ?thesis by (subst digit_loop.simps) simp
  next
    case False
    have "v div base b \<le> v div 8" using assms by (intro div_le_mono2) auto
    then have v: "v div base b < 8 ^ k" using Suc.prems(1) by (simp add: less_mult_imp_div_less le_less_trans)
    define buf1 where "buf1 = (if GROUP \<in> fs \<and> n > 0 \<and> n mod group b = 0 then buf @ [chr CHR '','']  else buf)"
    define buf2 where "buf2 = buf1 @ [digits b ! (v mod base b)]"
    have l: "length buf2 \<le> length buf + 2" "length buf1 < 64" using Suc.prems(2) by (auto simp: buf1_def buf2_def)
    have "digit_loop fs b v n buf = digit_loop fs b (v div base b) (n + 1) buf2"
      using False assms Suc.prems(2) l(2)
      by (subst digit_loop.simps) (simp add: put_char_def buf1_def buf2_def split: if_splits)
    then show ?thesis using Suc.IH [OF v, of buf2 "n + 1"] Suc.prems(2) l by fastforce
  qed
qed

lemma zero_loop_length: "length (zero_loop p buf) \<le> max (length buf) 63"
proof (induction p buf rule: zero_loop.induct)
  case (1 p buf)
  then show ?case by (subst zero_loop.simps) auto
qed

lemma format_integer_total:
  assumes "v < 2 ^ 64" "8 \<le> base b"
  shows "\<exists>out. format_integer v sg neg b c = Some out"
proof -
  have "(2::nat) ^ 64 \<le> 8 ^ 22" by simp
  then have "v < 8 ^ 22" using assms(1) by linarith
  then obtain buf where buf: "digit_loop (flags c) b v 0 [] = Some buf" "length buf \<le> 44"
    using digit_loop_bound [OF assms(2), of v 22 "[]"] by auto
  define z where "z = zero_loop (if precision c < 0 then 1 else precision c) buf"
  have "length z < 64" using zero_loop_length [of "if precision c < 0 then 1 else precision c" buf] buf(2)
    by (simp add: z_def)
  then have "\<exists>buf'. (if POUND \<in> flags c \<and> base b = 8 \<and> (z = [] \<or> last z \<noteq> chr CHR ''0'')
      then put_char z (chr CHR ''0'') else Some z) = Some buf'" by (simp add: put_char_def)
  then show ?thesis using buf(1) unfolding format_integer_def z_def Let_def by auto
qed

section \<open>Decimal numbers\<close>

fun dec :: "nat \<Rightarrow> nat list" where
  "dec n = (if n = 0 then [] else n mod 10 # dec (n div 10))"

declare dec.simps [simp del]

definition digit :: "nat \<Rightarrow> byte" where
  "digit d = of_nat (48 + d)"

lemma digit_facts:
  assumes "d < 10"
  shows "digits base_d ! d = digit d" "isdigit (digit d)" "scast (digit d) - 48 = (of_nat d :: 32 word)" "digit d \<noteq> 0"
    "\<not> isspace (digit d)" "digit d \<noteq> chr CHR ''+''" "digit d \<noteq> chr CHR ''-''"
proof -
  have "d \<in> {0, 1, 2, 3, 4, 5, 6, 7, 8, 9}" using assms by auto
  then show "digits base_d ! d = digit d" "isdigit (digit d)" "scast (digit d) - 48 = (of_nat d :: 32 word)" "digit d \<noteq> 0"
    "\<not> isspace (digit d)" "digit d \<noteq> chr CHR ''+''" "digit d \<noteq> chr CHR ''-''"
    by (auto simp: digit_def base_d_def str_def chr_def isdigit_def isspace_def)
qed

lemma dec_less_10: "d \<in> set (dec n) \<Longrightarrow> d < 10"
proof (induction n rule: dec.induct)
  case (1 n)
  then show ?case by (cases "n = 0") (auto simp: dec.simps [of n] dec.simps [of 0])
qed

lemma digit_loop_dec:
  assumes "GROUP \<notin> fs"
  shows "v < 10 ^ k \<Longrightarrow> length buf + k \<le> 64 \<Longrightarrow> digit_loop fs base_d v n buf = Some (buf @ map digit (dec v))"
proof (induction k arbitrary: v n buf)
  case 0
  then show ?case by (subst digit_loop.simps) (simp add: dec.simps)
next
  case (Suc k)
  show ?case
  proof (cases "v = 0")
    case True
    then show ?thesis by (subst digit_loop.simps) (simp add: dec.simps)
  next
    case False
    have b: "base base_d = 10" by (simp add: base_d_def)
    have "v div 10 < 10 ^ k" using Suc.prems(1) by (simp add: less_mult_imp_div_less)
    then show ?thesis
      using Suc.IH [of "v div 10" "buf @ [digit (v mod 10)]" "n + 1"] Suc.prems(2) False assms b
        digit_facts(1) [of "v mod 10"]
      by (subst digit_loop.simps) (simp add: put_char_def dec.simps [of v])
  qed
qed

text \<open>The characters \<open>%d\<close> writes for the absolute value \<open>n\<close>.\<close>

definition decimal :: "nat \<Rightarrow> byte list" where
  "decimal n = (if n = 0 then [digit 0] else rev (map digit (dec n)))"

lemma format_plain_d:
  assumes "v < 10 ^ 19"
  shows "format_integer v True neg base_d \<lparr>flags = {}, width = 0, precision = -1, arg_type = INT_T\<rparr> =
    Some ((if neg then [chr CHR ''-''] else []) @ decimal v)"
proof -
  have d: "digit_loop {} base_d v 0 [] = Some (map digit (dec v))"
    using digit_loop_dec [of "{}" v 19 "[]"] assms by simp
  have z: "rev (zero_loop 1 (map digit (dec v))) = decimal v"
  proof (cases "v = 0")
    case True
    have "zero_loop 1 [chr CHR ''0''] = [chr CHR ''0'']" by (subst zero_loop.simps) simp
    then have "zero_loop 1 [] = [chr CHR ''0'']" by (subst zero_loop.simps) simp
    then show ?thesis using True by (simp add: dec.simps decimal_def digit_def chr_def)
  next
    case False
    then show ?thesis by (subst zero_loop.simps) (simp add: decimal_def dec.simps [of v])
  qed
  have m0: "chr CHR ''-'' \<noteq> 0" by (simp add: chr_def)
  define l where "l = length (zero_loop 1 (map digit (dec v)))"
  have "l \<le> 63 + length (dec v)" using zero_loop_length [of 1 "map digit (dec v)"] by (simp add: l_def)
  moreover have "length (dec v) \<le> 64" using digit_loop_bound [of base_d v 22 "[]" "{}" 0] assms d
    by (simp add: base_d_def)
  ultimately have "nat (s32 (0 - int l - 0 - 1)) = 0" "nat (s32 (0 - int l - 0 - 0)) = 0"
    by (subst s32_id; simp)+
  then show ?thesis
    unfolding format_integer_def using d z m0 by (simp add: Let_def l_def)
qed

lemma vprintf_d:
  assumes "cstr m f (str ''%d'')"
  shows "vprintf m f [x] = Some ((if x <s 0 then [chr CHR ''-''] else []) @ decimal (nat \<bar>sint x\<bar>))"
proof -
  have m: "f + 2 < length m" "m ! f = chr CHR ''%''" "m ! (f + 1) = chr CHR ''d''" "m ! (f + 2) = 0"
    using assms by (simp_all add: str_def cstr_Cons cstr_Nil)
  have c: "chr CHR ''d'' = 100" "chr CHR ''%'' = 37" by (simp_all add: chr_def)
  have ld: "load m (f + 1) = Some (chr CHR ''d'')" using m by (simp add: load_def)
  have "parse_flags m (f + 1) {} = Some (f + 1, {})" using m c
    by (subst parse_flags.simps) (simp add: flag_of_def chr_def)
  moreover have pn: "parse_number m (f + 1) 0 = Some (f + 1, 0)" using m c
    by (subst parse_number.simps) (simp add: isdigit_def)
  ultimately have pc: "parse_conversion m (f + 1) [x] = Some (f + 1, \<lparr>flags = {}, width = 0, precision = -1, arg_type = INT_T\<rparr>, [x])"
    using ld c by (simp add: parse_conversion_def parse_width_def parse_precision_def parse_type_def chr_def)
  have "nat \<bar>sint x\<bar> < 10 ^ 19" using sint_ge [of x] sint_lt [of x] by simp
  note fi = format_plain_d [OF this]
  have cv: "convert m (chr CHR ''d'') \<lparr>flags = {}, width = 0, precision = -1, arg_type = INT_T\<rparr> [x] =
      Some ((if x <s 0 then [chr CHR ''-''] else []) @ decimal (nat \<bar>sint x\<bar>), [])"
    by (simp add: convert_def signed_arg_def va_arg32_def fi word_sless_alt)
  have e: "vprintf_loop m (f + 2) [] = Some []" using m by (subst vprintf_loop.simps) simp
  show ?thesis
    unfolding vprintf_def
    by (subst vprintf_loop.simps) (use m ld pc cv e c in \<open>simp add: add.assoc\<close>)
qed

lemma atoi_digits_cstr:
  "cstr m p (map digit ds) \<Longrightarrow> \<forall>d \<in> set ds. d < 10 \<Longrightarrow>
    atoi_digits m p v = Some (foldl (\<lambda>v d. v * 10 - of_nat d) v ds)"
proof (induction ds arbitrary: p v)
  case Nil
  then show ?case by (subst atoi_digits.simps) (simp add: cstr_Nil isdigit_def)
next
  case (Cons d ds)
  then have "p < length m" "m ! p = digit d" "cstr m (p + 1) (map digit ds)" by (simp_all add: cstr_Cons)
  then show ?case using Cons digit_facts(2, 3) [of d] by (subst atoi_digits.simps) simp
qed

lemma foldl_dec: "foldl (\<lambda>v d. v * 10 - of_nat d) (0 :: 32 word) (rev (dec n)) = - of_nat n"
proof (induction n rule: dec.induct)
  case (1 n)
  show ?case
  proof (cases "n = 0")
    case False
    have "(of_nat n :: 32 word) = of_nat (n div 10 * 10 + n mod 10)" by simp
    also have "\<dots> = of_nat (n div 10) * 10 + of_nat (n mod 10)" unfolding of_nat_add of_nat_mult by simp
    finally have "(of_nat n :: 32 word) = of_nat (n div 10) * 10 + of_nat (n mod 10)" .
    then show ?thesis using 1 False by (simp add: dec.simps [of n])
  qed (simp add: dec.simps)
qed

lemma decimal_digits: "\<exists>ds. decimal n = map digit ds \<and> ds \<noteq> [] \<and> (\<forall>d \<in> set ds. d < 10) \<and>
    foldl (\<lambda>v d. v * 10 - of_nat d) (0 :: 32 word) ds = - of_nat n"
proof (cases "n = 0")
  case True
  then show ?thesis by (intro exI [of _ "[0]"]) (simp add: decimal_def)
next
  case False
  then have "dec n \<noteq> []" by (simp add: dec.simps [of n])
  then show ?thesis using False foldl_dec dec_less_10
    by (intro exI [of _ "rev (dec n)"]) (auto simp: decimal_def rev_map)
qed

lemma atoi_decimal:
  assumes "p \<noteq> 0" "cstr m p ((if neg then [chr CHR ''-''] else []) @ decimal n)"
  shows "atoi m p = Some (if neg then - of_nat n else of_nat n)"
proof -
  obtain ds where ds: "decimal n = map digit ds" "ds \<noteq> []" "\<forall>d \<in> set ds. d < 10"
    "foldl (\<lambda>v d. v * 10 - of_nat d) (0 :: 32 word) ds = - of_nat n" using decimal_digits by blast
  have sp: "\<not> isspace (chr CHR ''-'')" "chr CHR ''-'' \<noteq> chr CHR ''+''" by (simp_all add: isspace_def chr_def)
  show ?thesis
  proof (cases neg)
    case True
    then have m: "p < length m" "m ! p = chr CHR ''-''" "cstr m (p + 1) (map digit ds)"
      using assms(2) ds(1) by (simp_all add: cstr_Cons)
    have "skip_space m p = Some p" using m sp by (subst skip_space.simps) simp
    then show ?thesis using True m sp atoi_digits_cstr [OF m(3) ds(3), of 0] ds(4) assms(1)
      by (simp add: atoi_def load_def)
  next
    case False
    then have c: "cstr m p (map digit ds)" using assms(2) ds(1) by simp
    obtain d es where d: "ds = d # es" using ds(2) by (cases ds) auto
    then have m: "p < length m" "m ! p = digit d" "d < 10" using c ds(3) by (simp_all add: cstr_Cons)
    have "skip_space m p = Some p" using m digit_facts(5) by (subst skip_space.simps) simp
    then show ?thesis using False m digit_facts(6, 7) [of d] atoi_digits_cstr [OF c ds(3), of 0] ds(4) assms(1)
      by (simp add: atoi_def load_def)
  qed
qed

section \<open>Output into a buffer\<close>

lemma vsnprintf_fold:
  assumes "mx \<le> length buffer"
  shows "fold vsnprintf_helper out (\<lparr>aux_p = 0, aux_length = 0, max_length = mx\<rparr>, buffer) =
    (\<lparr>aux_p = min (length out) mx, aux_length = length out, max_length = mx\<rparr>,
     take mx out @ drop (min (length out) mx) buffer)"
proof (induction out rule: rev_induct)
  case (snoc c out)
  show ?case
  proof (cases "length out < mx")
    case True
    then have d: "drop (length out) buffer = buffer ! length out # drop (Suc (length out)) buffer"
      using assms by (simp add: Cons_nth_drop_Suc)
    then show ?thesis using True snoc by (simp add: vsnprintf_helper_def Let_def list_update_append)
  next
    case False
    then show ?thesis using snoc by (simp add: vsnprintf_helper_def Let_def)
  qed
qed simp

section \<open>Properties\<close>

text \<open>\<open>format_integer\<close> never writes outside its 64-byte buffer, whatever the flags, width and precision
  are: for every 64-bit value and every base that \<open>printf\<close> uses it produces its output.\<close>

theorem format_integer_fits:
  assumes "v < 2 ^ 64" "b \<in> {base_d, base_o, base_x, base_X}"
  shows "\<exists>out. format_integer v is_signed negative b c = Some out"
  by (rule format_integer_total) (use assms in \<open>auto simp: base_d_def base_o_def base_x_def base_X_def\<close>)

theorem format_integer_fits_witness:
  "\<exists>out. format_integer (2 ^ 64 - 1) False False base_o
     \<lparr>flags = {POUND, GROUP}, width = 100, precision = 1000, arg_type = LONGLONG_T\<rparr> = Some out"
  by (rule format_integer_fits) simp_all



text \<open>C32. \<open>atoi\<close> reads back what \<open>printf\<close> prints with \<open>%d\<close>, for every 32-bit integer, the most negative
  included: the output of the conversion is a string that \<open>atoi\<close> converts to the same number.\<close>

theorem printf_atoi_roundtrip:
  assumes "cstr m f (str ''%d'')"
  shows "\<exists>out. vprintf m f [x] = Some out \<and> (\<forall>m' p. p \<noteq> NULL \<longrightarrow> cstr m' p out \<longrightarrow> atoi m' p = Some x)"
proof -
  have "(if x <s 0 then - of_nat (nat \<bar>sint x\<bar>) else of_nat (nat \<bar>sint x\<bar>)) = x"
  proof -
    have n: "(of_nat (nat \<bar>sint x\<bar>) :: 32 word) = of_int \<bar>sint x\<bar>" by (rule of_nat_nat) simp
    show ?thesis unfolding n word_sless_alt by (cases "sint x < 0") (simp_all add: abs_if)
  qed
  then have "atoi m' p = Some x" if "p \<noteq> NULL" "cstr m' p ((if x <s 0 then [chr CHR ''-''] else []) @ decimal (nat \<bar>sint x\<bar>))" for m' p
    using atoi_decimal [OF that] by simp
  then show ?thesis using vprintf_d [OF assms] by blast
qed

theorem printf_atoi_roundtrip_witness:
  "\<exists>out. vprintf [9, 37, 100, 0] 1 [0x80000000] = Some out \<and> (\<forall>m' p. p \<noteq> 0 \<longrightarrow> cstr m' p out \<longrightarrow> atoi m' p = Some 0x80000000)"
  by (rule printf_atoi_roundtrip) (simp add: cstr_def block_def str_def chr_def)

end
