(* ===== verification/Free_Map.thy ===== *)
theory Free_Map
  imports Bitmap_Refine
begin

text \<open>
  The free map of the file system, \<open>filesys/free-map.c\<close>: one bit per disk sector. The
  functions take the bitmap and \<open>map_file\<close>, the free map's own open file: \<open>None\<close> while it is
  not open, otherwise the function that writes an image of the bitmap to it and
  returns the number of bytes written.
\<close>

section \<open>Operations\<close>

type_synonym disk_sector = "32 word"
type_synonym map_file = "(byte list \<Rightarrow> nat) option"

abbreviation (input) FREE_MAP_SECTOR :: nat where "FREE_MAP_SECTOR \<equiv> 0"
abbreviation (input) ROOT_DIR_SECTOR :: nat where "ROOT_DIR_SECTOR \<equiv> 1"
abbreviation (input) DIRECT_LEN :: nat where "DIRECT_LEN \<equiv> 122"

text \<open>The outer \<open>None\<close> is the panic of \<open>free_map_init\<close>; \<open>struct_ok\<close> and \<open>block\<close> are what \<open>malloc\<close> gives.\<close>

definition free_map_init :: "bool \<Rightarrow> elem_type list option \<Rightarrow> nat \<Rightarrow> bitmap option" where
  "free_map_init struct_ok block disk_size = do {
     created \<leftarrow> bitmap_create struct_ok block disk_size;
     free_map \<leftarrow> created;
     free_map \<leftarrow> bitmap_mark free_map FREE_MAP_SECTOR;
     bitmap_mark free_map ROOT_DIR_SECTOR
   }"

text \<open>\<open>free_map_file != NULL && !bitmap_write (\<dots>)\<close>\<close>

definition write_fails :: "map_file \<Rightarrow> bitmap \<Rightarrow> bool" where
  "write_fails map_file b = (case map_file of None \<Rightarrow> False | Some f \<Rightarrow> \<not> bitmap_write b f)"

definition free_map_allocate :: "map_file \<Rightarrow> nat \<Rightarrow> bitmap \<Rightarrow> (nat option \<times> bitmap) option" where
  "free_map_allocate map_file cnt b = do {
     (sector, b) \<leftarrow> bitmap_scan_and_flip b 0 cnt False;
     if sector \<noteq> BITMAP_ERROR \<and> write_fails map_file b then do {
       b \<leftarrow> bitmap_set_multiple b sector cnt False;
       Some (None, b)
     } else Some (if sector \<noteq> BITMAP_ERROR then Some sector else None, b)
   }"

definition free_map_release :: "map_file \<Rightarrow> nat \<Rightarrow> nat \<Rightarrow> bitmap \<Rightarrow> bitmap option" where
  "free_map_release map_file sector cnt b = do {
     allocated \<leftarrow> bitmap_all b sector cnt;
     ASSERT allocated;
     b \<leftarrow> bitmap_set_multiple b sector cnt False;
     ASSERT (map_file \<noteq> None);
     Some b
   }"

text \<open>
  One allocation of \<open>free_map_allocate_index\<close>: scan for a sector and write the map back. \<open>Inl\<close>
  is the early return of false; \<open>Inr\<close> gives the sector, which may be \<open>BITMAP_ERROR\<close>.
\<close>

definition take_sector :: "map_file \<Rightarrow> bitmap \<Rightarrow> (bitmap + nat \<times> bitmap) option" where
  "take_sector map_file b = do {
     (sector, b) \<leftarrow> bitmap_scan_and_flip b 0 1 False;
     if sector \<noteq> BITMAP_ERROR \<and> write_fails map_file b then do {
       b \<leftarrow> bitmap_set b sector False;
       Some (Inl b)
     } else Some (Inr (sector, b))
   }"

text \<open>The block pointers of an inode and the buffers of the index blocks; \<open>doubly_arr\<close> is the flat
  table of \<open>128 * 128\<close> entries.\<close>

record block_index =
  direct :: "disk_sector list"
  indirect :: disk_sector
  doubly_indirect :: disk_sector
  indirect_arr :: "disk_sector list"
  parent_arr :: "disk_sector list"
  doubly_arr :: "disk_sector list"

definition set_at :: "nat \<Rightarrow> 'a \<Rightarrow> 'a list \<Rightarrow> 'a list option" where
  "set_at i x xs = (if i < length xs then Some (xs[i := x]) else None)"

text \<open>Entry \<open>i\<close> of the index is set to \<open>sector\<close>, with the index blocks this needs. \<open>Inl\<close> is the early return of false.\<close>

definition add_block :: "map_file \<Rightarrow> nat \<Rightarrow> nat \<Rightarrow> block_index \<Rightarrow> bitmap \<Rightarrow> (block_index \<times> bitmap + block_index \<times> bitmap) option" where
  "add_block map_file i sector x b =
     (if i < DIRECT_LEN then do {
        d \<leftarrow> set_at i (of_nat sector) (direct x);
        Some (Inr (x\<lparr>direct := d\<rparr>, b))
      } else if i = DIRECT_LEN then do {
        let x = x\<lparr>indirect := of_nat sector\<rparr>;
        r \<leftarrow> take_sector map_file b;
        case r of Inl b \<Rightarrow> Some (Inl (x, b))
        | Inr (s, b) \<Rightarrow> do {
            a \<leftarrow> set_at 0 (of_nat s) (indirect_arr x);
            Some (Inr (x\<lparr>indirect_arr := a\<rparr>, b)) }
      } else if i < DIRECT_LEN + 128 then do {
        a \<leftarrow> set_at (i - DIRECT_LEN) (of_nat sector) (indirect_arr x);
        Some (Inr (x\<lparr>indirect_arr := a\<rparr>, b))
      } else if i = DIRECT_LEN + 128 then do {
        let x = x\<lparr>doubly_indirect := of_nat sector\<rparr>;
        r \<leftarrow> take_sector map_file b;
        case r of Inl b \<Rightarrow> Some (Inl (x, b))
        | Inr (s, b) \<Rightarrow> do {
            p \<leftarrow> set_at 0 (of_nat s) (parent_arr x);
            let x = x\<lparr>parent_arr := p\<rparr>;
            r \<leftarrow> take_sector map_file b;
            case r of Inl b \<Rightarrow> Some (Inl (x, b))
            | Inr (s, b) \<Rightarrow> do {
                a \<leftarrow> set_at 0 (of_nat s) (doubly_arr x);
                Some (Inr (x\<lparr>doubly_arr := a\<rparr>, b)) } }
      } else do {
        let temp = i - DIRECT_LEN - 128;
        if temp mod 128 = 0 then do {
          p \<leftarrow> set_at (temp div 128) (of_nat sector) (parent_arr x);
          let x = x\<lparr>parent_arr := p\<rparr>;
          r \<leftarrow> take_sector map_file b;
          case r of Inl b \<Rightarrow> Some (Inl (x, b))
          | Inr (s, b) \<Rightarrow> do {
              a \<leftarrow> set_at temp (of_nat s) (doubly_arr x);
              Some (Inr (x\<lparr>doubly_arr := a\<rparr>, b)) }
        } else do {
          a \<leftarrow> set_at temp (of_nat sector) (doubly_arr x);
          Some (Inr (x\<lparr>doubly_arr := a\<rparr>, b))
        }
      })"

fun allocate_blocks :: "map_file \<Rightarrow> nat \<Rightarrow> nat \<Rightarrow> block_index \<Rightarrow> bitmap \<Rightarrow> (bool \<times> block_index \<times> bitmap) option" where
  "allocate_blocks map_file i 0 x b = Some (True, x, b)"
| "allocate_blocks map_file i (Suc n) x b = do {
     r \<leftarrow> take_sector map_file b;
     case r of Inl b \<Rightarrow> Some (False, x, b)
     | Inr (sector, b) \<Rightarrow>
         if sector \<noteq> BITMAP_ERROR then do {
           r \<leftarrow> add_block map_file i sector x b;
           case r of Inl (x, b) \<Rightarrow> Some (False, x, b)
           | Inr (x, b) \<Rightarrow> allocate_blocks map_file (i + 1) n x b
         } else allocate_blocks map_file (i + 1) n x b
   }"

definition free_map_allocate_index ::
  "map_file \<Rightarrow> nat \<Rightarrow> nat \<Rightarrow> block_index \<Rightarrow> bitmap \<Rightarrow> (bool \<times> block_index \<times> bitmap) option" where
  "free_map_allocate_index map_file start cnt x b = allocate_blocks map_file start cnt x b"

section \<open>Single sectors\<close>

lemma scan_alloc: "bitmap_scan_and_flip b 0 cnt False = Some (i, b') \<Longrightarrow>
    bitmap_alloc cnt b = Some (if i = BITMAP_ERROR then None else Some i, b')"
  by (simp add: bitmap_alloc_def)

lemma take_sector_found:
  assumes "bitmap_ok b" "card (bitmap_used b) < bit_cnt b" "\<And>b'. \<not> write_fails map_file b'"
  shows "\<exists>i b'. take_sector map_file b = Some (Inr (i, b')) \<and> i \<noteq> BITMAP_ERROR \<and> i < bit_cnt b \<and> i \<notin> bitmap_used b \<and>
    bitmap_ok b' \<and> bit_cnt b' = bit_cnt b \<and> bitmap_used b' = insert i (bitmap_used b)"
proof -
  have "\<not> {..<bit_cnt b} \<subseteq> bitmap_used b"
  proof
    assume "{..<bit_cnt b} \<subseteq> bitmap_used b"
    then have "bit_cnt b \<le> card (bitmap_used b)"
      using card_mono [of "bitmap_used b" "{..<bit_cnt b}"] finite_subset [OF bm.used_bound [OF assms(1)]] by simp
    then show False using assms(2) by simp
  qed
  then obtain j where j: "j < bit_cnt b" "j \<notin> bitmap_used b" by auto
  then obtain k b' where k: "bitmap_alloc 1 b = Some (Some k, b')"
    using bm.alloc_finds_free [OF assms(1), of 1 j] by auto
  have "bitmap_scan_and_flip b 0 1 False = Some (k, b')" "k \<noteq> BITMAP_ERROR"
    using k by (auto simp: bitmap_alloc_def split: if_splits)
  then show ?thesis using bm.alloc_Some [OF assms(1) _ k] assms(3) by (auto simp: take_sector_def)
qed

lemma take_sector_full:
  assumes "bitmap_ok b" "{..<bit_cnt b} \<subseteq> bitmap_used b"
  shows "take_sector map_file b = Some (Inr (BITMAP_ERROR, b))"
proof -
  obtain r b' where r: "bitmap_alloc 1 b = Some (r, b')" using bm.alloc_total [OF assms(1)] by (metis zero_less_one)
  have "r = None"
  proof (rule ccontr)
    assume "r \<noteq> None"
    then obtain i where "bitmap_alloc 1 b = Some (Some i, b')" using r by auto
    then show False using bm.alloc_Some [OF assms(1), of 1 i b'] subsetD [OF assms(2), of i] by auto
  qed
  then have "b' = b" "bitmap_scan_and_flip b 0 1 False = Some (BITMAP_ERROR, b)"
    using r bm.alloc_None [OF assms(1), of 1 b'] by (auto simp: bitmap_alloc_def split: if_splits)
  then show ?thesis by (simp add: take_sector_def)
qed

lemma allocate_blocks_full:
  "bitmap_ok b \<Longrightarrow> {..<bit_cnt b} \<subseteq> bitmap_used b \<Longrightarrow> allocate_blocks map_file i n x b = Some (True, x, b)"
  by (induction n arbitrary: i) (simp_all add: take_sector_full)

lemma allocate_blocks_direct:
  assumes "\<And>b'. \<not> write_fails map_file b'"
  shows "bitmap_ok b \<Longrightarrow> card (bitmap_used b) + n \<le> bit_cnt b \<Longrightarrow> i + n \<le> DIRECT_LEN \<Longrightarrow> length (direct x) = DIRECT_LEN \<Longrightarrow>
    \<exists>secs b'. allocate_blocks map_file i n x b =
        Some (True, x\<lparr>direct := take i (direct x) @ map of_nat secs @ drop (i + n) (direct x)\<rparr>, b') \<and>
      length secs = n \<and> distinct secs \<and> set secs \<subseteq> {..<bit_cnt b} - bitmap_used b \<and>
      bitmap_ok b' \<and> bit_cnt b' = bit_cnt b \<and> bitmap_used b' = bitmap_used b \<union> set secs"
proof (induction n arbitrary: i x b)
  case 0
  then show ?case by (intro exI [of _ "[]"] exI [of _ b]) simp
next
  case (Suc n)
  obtain s b1 where s: "take_sector map_file b = Some (Inr (s, b1))" "s \<noteq> BITMAP_ERROR" "s < bit_cnt b" "s \<notin> bitmap_used b"
    "bitmap_ok b1" "bit_cnt b1 = bit_cnt b" "bitmap_used b1 = insert s (bitmap_used b)"
    using take_sector_found [OF Suc.prems(1) _ assms] Suc.prems(2) by fastforce
  let ?x = "x\<lparr>direct := (direct x)[i := of_nat s]\<rparr>"
  have fin: "finite (bitmap_used b)" using finite_subset [OF bm.used_bound [OF Suc.prems(1)]] by simp
  then have "card (bitmap_used b1) = Suc (card (bitmap_used b))" using s(4, 7) by simp
  then obtain secs b' where r: "allocate_blocks map_file (i + 1) n ?x b1 =
      Some (True, ?x\<lparr>direct := take (i + 1) (direct ?x) @ map of_nat secs @ drop (i + 1 + n) (direct ?x)\<rparr>, b')"
    "length secs = n" "distinct secs" "set secs \<subseteq> {..<bit_cnt b1} - bitmap_used b1" "bitmap_ok b'" "bit_cnt b' = bit_cnt b1"
    "bitmap_used b' = bitmap_used b1 \<union> set secs"
    using Suc.IH [OF s(5), of "i + 1" ?x] Suc.prems s(6) by fastforce
  have "add_block map_file i s x b1 = Some (Inr (?x, b1))"
    using Suc.prems by (simp add: add_block_def set_at_def)
  moreover have "take (i + 1) ((direct x)[i := of_nat s]) = take i (direct x) @ [of_nat s]"
    using Suc.prems by (simp add: take_Suc_conv_app_nth)
  ultimately show ?case using s r
    by (intro exI [of _ "s # secs"] exI [of _ b']) auto
qed

section \<open>Properties\<close>


definition ex_index :: block_index where
  "ex_index = \<lparr>direct = replicate 122 0, indirect = 0, doubly_indirect = 0, indirect_arr = replicate 128 0,
     parent_arr = replicate 128 0, doubly_arr = replicate 16384 0\<rparr>"


text \<open>A full disk is not reported. When every sector is in use, \<open>free_map_allocate_index\<close> returns true
  without setting any of the requested block pointers, so a file that \<open>inode_create\<close> or a growing
  write extends keeps pointers of value zero, the sector of the free map's inode.\<close>

theorem allocate_index_ignores_full_disk:
  assumes "bitmap_ok b" "{..<bit_cnt b} \<subseteq> bitmap_used b"
  shows "free_map_allocate_index map_file start cnt x b = Some (True, x, b)"
  using allocate_blocks_full [OF assms] by (simp add: free_map_allocate_index_def)

theorem allocate_index_ignores_full_disk_witness:
  "free_map_allocate_index None 0 200 ex_index \<lparr>bit_cnt = 32, bits = [- 1]\<rparr> = Some (True, ex_index, \<lparr>bit_cnt = 32, bits = [- 1]\<rparr>)"
  by (rule allocate_index_ignores_full_disk) (auto simp: bitmap_ok_def bitmap_used_def bools_def bit_at_def)

end
