(* ===== verification/Inode.thy ===== *)
theory Inode
  imports Free_Map Fixed_Point
begin

text \<open>
  Inodes, \<open>filesys/inode.c\<close>: files as 122 direct blocks, one indirect and one doubly
  indirect index block. A disk is the list of its sectors, each a list of 512 bytes;
  addressing a sector beyond the disk stops the kernel (the assertion of
  \<open>select_sector\<close>), and so does an index outside an array. An inode in memory is named by
  its sector number, of which \<open>open_inodes\<close> holds at most one entry. \<open>off_t\<close> is a 32-bit
  signed integer and C's division truncates. Results of \<open>malloc\<close> are arguments \<open>mem_ok\<close>.
\<close>

section \<open>The disk\<close>

type_synonym disk = "byte list list"

definition disk_read :: "disk \<Rightarrow> disk_sector \<Rightarrow> byte list option" where
  "disk_read d sec_no = (if unat sec_no < length d \<and> sec_no < 2 ^ 28 then Some (d ! unat sec_no) else None)"

definition disk_write :: "disk \<Rightarrow> disk_sector \<Rightarrow> byte list \<Rightarrow> disk option" where
  "disk_write d sec_no buffer =
     (if unat sec_no < length d \<and> sec_no < 2 ^ 28 then Some (d[unat sec_no := take 512 buffer]) else None)"

text \<open>A sector as 128 little-endian 32-bit words.\<close>

definition sector_words :: "byte list \<Rightarrow> 32 word list" where
  "sector_words bs = bytes_elems bs"

definition words_sector :: "32 word list \<Rightarrow> byte list" where
  "words_sector ws = concat (map elem_bytes ws)"

definition nth_at :: "'a list \<Rightarrow> int \<Rightarrow> 'a option" where
  "nth_at xs i = (if 0 \<le> i \<and> i < int (length xs) then Some (xs ! nat i) else None)"

section \<open>State\<close>

abbreviation (input) INODE_MAGIC :: "32 word" where "INODE_MAGIC \<equiv> 0x494e4f44"

record inode_disk =
  inode_i :: int
  data_length :: int
  magic :: "32 word"
  isdir :: bool
  direct_block :: "disk_sector list"
  indirect_block :: disk_sector
  doubly_indirect_block :: disk_sector

definition encode_inode :: "inode_disk \<Rightarrow> byte list" where
  "encode_inode d = words_sector ([word_of_int (inode_i d), word_of_int (data_length d), magic d, of_bool (isdir d)] @
     direct_block d @ [indirect_block d, doubly_indirect_block d])"

definition decode_inode :: "byte list \<Rightarrow> inode_disk" where
  "decode_inode bs =
     (let w = sector_words bs in
      \<lparr>inode_i = sint (w ! 0), data_length = sint (w ! 1), magic = w ! 2, isdir = (ucast (w ! 3) :: 8 word) \<noteq> 0,
       direct_block = take DIRECT_LEN (drop 4 w), indirect_block = w ! 126, doubly_indirect_block = w ! 127\<rparr>)"

record inode =
  sector :: disk_sector
  open_cnt :: int
  removed :: bool
  deny_write_cnt :: int
  data :: inode_disk
  inode_id :: int

record filesys =
  fs_disk :: disk
  free_map :: bitmap
  free_map_file :: map_file
  open_inodes :: "inode list"
  next_iid :: int
  indirect_sec_idx :: "disk_sector list"
  doubly_sec_parent :: "disk_sector list"
  doubly_sec_idx :: "disk_sector list"

definition get_inode :: "filesys \<Rightarrow> disk_sector \<Rightarrow> inode option" where
  "get_inode fs p = find (\<lambda>i. sector i = p) (open_inodes fs)"

definition set_inode :: "inode \<Rightarrow> filesys \<Rightarrow> filesys" where
  "set_inode n fs = fs\<lparr>open_inodes := map (\<lambda>i. if sector i = sector n then n else i) (open_inodes fs)\<rparr>"

definition bytes_to_sectors :: "int \<Rightarrow> nat" where
  "bytes_to_sectors sz = nat ((sz + 512 - 1) div 512)"

definition allocate_iid :: "filesys \<Rightarrow> int \<times> filesys" where
  "allocate_iid fs = (next_iid fs, fs\<lparr>next_iid := s32 (next_iid fs + 1)\<rparr>)"

definition zeros :: "byte list" where
  "zeros = replicate 512 0"

definition clear_buffers :: "filesys \<Rightarrow> filesys" where
  "clear_buffers fs = fs\<lparr>indirect_sec_idx := replicate 128 0, doubly_sec_parent := replicate 128 0,
     doubly_sec_idx := replicate (128 * 128) 0\<rparr>"

definition row :: "disk_sector list \<Rightarrow> nat \<Rightarrow> disk_sector list" where
  "row xs i = take 128 (drop (128 * i) xs)"

definition inode_init :: "filesys \<Rightarrow> filesys" where
  "inode_init fs = fs\<lparr>open_inodes := []\<rparr>"

section \<open>Creating\<close>

text \<open>Writing the index blocks \<open>i, \<dots>\<close> of the doubly indirect table, \<open>n\<close> of them.\<close>

fun write_rows :: "disk_sector list \<Rightarrow> disk_sector list \<Rightarrow> nat \<Rightarrow> nat \<Rightarrow> disk \<Rightarrow> disk option" where
  "write_rows parent rows i 0 d = Some d"
| "write_rows parent rows i (Suc n) d = do {
     p \<leftarrow> nth_at parent (int i);
     d \<leftarrow> disk_write d p (words_sector (row rows i));
     write_rows parent rows (i + 1) n d
   }"

definition block_pointer :: "inode_disk \<Rightarrow> filesys \<Rightarrow> int \<Rightarrow> disk_sector option" where
  "block_pointer di fs k =
     (if k < int DIRECT_LEN then nth_at (direct_block di) k
      else if k < int DIRECT_LEN + 128 then nth_at (indirect_sec_idx fs) (k - int DIRECT_LEN)
      else nth_at (doubly_sec_idx fs) (k - int DIRECT_LEN - 128))"

fun zero_blocks :: "inode_disk \<Rightarrow> filesys \<Rightarrow> nat \<Rightarrow> nat \<Rightarrow> disk \<Rightarrow> disk option" where
  "zero_blocks di fs i 0 d = Some d"
| "zero_blocks di fs i (Suc n) d = do {
     s \<leftarrow> block_pointer di fs (int i);
     d \<leftarrow> disk_write d s zeros;
     zero_blocks di fs (i + 1) n d
   }"

definition index_of :: "inode_disk \<Rightarrow> filesys \<Rightarrow> block_index" where
  "index_of di fs = \<lparr>direct = direct_block di, indirect = indirect_block di, doubly_indirect = doubly_indirect_block di,
     indirect_arr = indirect_sec_idx fs, parent_arr = doubly_sec_parent fs, doubly_arr = doubly_sec_idx fs\<rparr>"

definition put_index_inode :: "block_index \<Rightarrow> inode_disk \<Rightarrow> inode_disk" where
  "put_index_inode x di = di\<lparr>direct_block := direct x, indirect_block := indirect x, doubly_indirect_block := doubly_indirect x\<rparr>"

definition put_index_fs :: "block_index \<Rightarrow> filesys \<Rightarrow> filesys" where
  "put_index_fs x fs = fs\<lparr>indirect_sec_idx := indirect_arr x, doubly_sec_parent := parent_arr x, doubly_sec_idx := doubly_arr x\<rparr>"

text \<open>The index blocks that are written back when the file has \<open>n\<close> blocks or more.\<close>

definition write_index :: "nat \<Rightarrow> inode_disk \<Rightarrow> filesys \<Rightarrow> disk \<Rightarrow> disk option" where
  "write_index n di fs d = do {
     d \<leftarrow> (if n > DIRECT_LEN then disk_write d (indirect_block di) (words_sector (indirect_sec_idx fs)) else Some d);
     if n > DIRECT_LEN + 128 then do {
       d \<leftarrow> disk_write d (doubly_indirect_block di) (words_sector (doubly_sec_parent fs));
       write_rows (doubly_sec_parent fs) (doubly_sec_idx fs) 0 ((n - DIRECT_LEN - 128) div 128 + 1) d
     } else Some d
   }"

definition inode_create :: "bool \<Rightarrow> disk_sector \<Rightarrow> int \<Rightarrow> bool \<Rightarrow> filesys \<Rightarrow> (bool \<times> filesys) option" where
  "inode_create mem_ok sec len dir fs = do {
     ASSERT (len \<ge> 0);
     if \<not> mem_ok then Some (False, fs)
     else do {
       let sectors = bytes_to_sectors len;
       let (iid, fs) = allocate_iid fs;
       let di = \<lparr>inode_i = iid, data_length = len, magic = INODE_MAGIC, isdir = dir,
         direct_block = replicate DIRECT_LEN 0, indirect_block = 0, doubly_indirect_block = 0\<rparr>;
       (ok, x, b) \<leftarrow> free_map_allocate_index (free_map_file fs) 0 sectors (index_of di fs) (free_map fs);
       let fs = put_index_fs x (fs\<lparr>free_map := b\<rparr>);
       let di = put_index_inode x di;
       if ok then do {
         d \<leftarrow> disk_write (fs_disk fs) sec (encode_inode di);
         d \<leftarrow> write_index sectors di fs d;
         d \<leftarrow> zero_blocks di fs 0 sectors d;
         Some (True, clear_buffers (fs\<lparr>fs_disk := d\<rparr>))
       } else Some (False, fs)
     }
   }"

section \<open>Opening and closing\<close>

definition inode_reopen :: "disk_sector \<Rightarrow> filesys \<Rightarrow> filesys option" where
  "inode_reopen p fs = do { n \<leftarrow> get_inode fs p; Some (set_inode (n\<lparr>open_cnt := open_cnt n + 1\<rparr>) fs) }"

text \<open>The result is the inode, \<open>None\<close> the null pointer.\<close>

definition inode_open :: "bool \<Rightarrow> disk_sector \<Rightarrow> filesys \<Rightarrow> (disk_sector option \<times> filesys) option" where
  "inode_open mem_ok sec fs =
     (case get_inode fs sec of
        Some n \<Rightarrow> do { fs \<leftarrow> inode_reopen sec fs; Some (Some sec, fs) }
      | None \<Rightarrow>
          if \<not> mem_ok then Some (None, fs)
          else do {
            bs \<leftarrow> disk_read (fs_disk fs) sec;
            let di = decode_inode bs;
            let n = \<lparr>sector = sec, open_cnt = 1, removed = False, deny_write_cnt = 0, data = di, inode_id = inode_i di\<rparr>;
            Some (Some sec, fs\<lparr>open_inodes := n # open_inodes fs\<rparr>)
          })"

definition inode_get_inumber :: "inode \<Rightarrow> disk_sector" where "inode_get_inumber n = sector n"
definition inode_get_isdir :: "inode \<Rightarrow> bool" where "inode_get_isdir n = isdir (data n)"
definition inode_get_isremoved :: "inode \<Rightarrow> bool" where "inode_get_isremoved n = removed n"
definition inode_length :: "inode \<Rightarrow> int" where "inode_length n = data_length (data n)"

fun release_all :: "map_file \<Rightarrow> disk_sector list \<Rightarrow> bitmap \<Rightarrow> bitmap option" where
  "release_all f [] b = Some b"
| "release_all f (s # ss) b = do { b \<leftarrow> free_map_release f (unat s) 1 b; release_all f ss b }"

text \<open>Entries \<open>0, \<dots>, n - 1\<close> of a table; reading outside the table stops.\<close>

definition entries :: "disk_sector list \<Rightarrow> nat \<Rightarrow> disk_sector list option" where
  "entries xs n = (if n \<le> length xs then Some (take n xs) else None)"

fun release_rows :: "map_file \<Rightarrow> disk \<Rightarrow> nat \<Rightarrow> disk_sector list \<Rightarrow> bitmap \<Rightarrow> bitmap option" where
  "release_rows f d n [] b = Some b"
| "release_rows f d n (p # ps) b = do {
     bs \<leftarrow> disk_read d p;
     b \<leftarrow> free_map_release f (unat p) 1 b;
     ss \<leftarrow> entries (sector_words bs) n;
     b \<leftarrow> release_all f ss b;
     release_rows f d n ps b
   }"

definition release_blocks :: "inode_disk \<Rightarrow> filesys \<Rightarrow> filesys option" where
  "release_blocks di fs = do {
     let num_blocks = nat (data_length di sdiv 512 + (if data_length di smod 512 \<noteq> 0 then 1 else 0));
     let f = free_map_file fs;
     ss \<leftarrow> entries (direct_block di) (if num_blocks < DIRECT_LEN then num_blocks else DIRECT_LEN);
     b \<leftarrow> release_all f ss (free_map fs);
     b \<leftarrow> (if num_blocks > DIRECT_LEN then do {
            bs \<leftarrow> disk_read (fs_disk fs) (indirect_block di);
            b \<leftarrow> free_map_release f (unat (indirect_block di)) 1 b;
            ss \<leftarrow> entries (sector_words bs) (num_blocks - DIRECT_LEN + 1);
            release_all f ss b
          } else Some b);
     b \<leftarrow> (if num_blocks > DIRECT_LEN + 128 then do {
            bs \<leftarrow> disk_read (fs_disk fs) (doubly_indirect_block di);
            b \<leftarrow> free_map_release f (unat (doubly_indirect_block di)) 1 b;
            ps \<leftarrow> entries (sector_words bs) ((num_blocks - DIRECT_LEN - 128) div 128 + 1);
            release_rows f (fs_disk fs) ((num_blocks - DIRECT_LEN - 128) mod 128 + 1) ps b
          } else Some b);
     Some (fs\<lparr>free_map := b\<rparr>)
   }"

definition inode_close :: "disk_sector option \<Rightarrow> filesys \<Rightarrow> (bool \<times> filesys) option" where
  "inode_close p fs =
     (case p of None \<Rightarrow> Some (False, fs)
      | Some p \<Rightarrow> do {
          n \<leftarrow> get_inode fs p;
          let n = n\<lparr>open_cnt := open_cnt n - 1\<rparr>;
          if open_cnt n = 0 then do {
            let fs = fs\<lparr>open_inodes := filter (\<lambda>i. sector i \<noteq> p) (open_inodes fs)\<rparr>;
            fs \<leftarrow> (if removed n then release_blocks (data n) fs else Some fs);
            Some (True, fs)
          } else Some (False, set_inode n fs)
        })"

definition inode_remove :: "disk_sector \<Rightarrow> filesys \<Rightarrow> filesys option" where
  "inode_remove p fs = do { n \<leftarrow> get_inode fs p; Some (set_inode (n\<lparr>removed := True\<rparr>) fs) }"

definition inode_deny_write :: "disk_sector \<Rightarrow> filesys \<Rightarrow> filesys option" where
  "inode_deny_write p fs = do {
     n \<leftarrow> get_inode fs p;
     let n = n\<lparr>deny_write_cnt := deny_write_cnt n + 1\<rparr>;
     ASSERT (deny_write_cnt n \<le> open_cnt n);
     Some (set_inode n fs)
   }"

definition inode_allow_write :: "disk_sector \<Rightarrow> filesys \<Rightarrow> filesys option" where
  "inode_allow_write p fs = do {
     n \<leftarrow> get_inode fs p;
     ASSERT (deny_write_cnt n > 0);
     ASSERT (deny_write_cnt n \<le> open_cnt n);
     Some (set_inode (n\<lparr>deny_write_cnt := deny_write_cnt n - 1\<rparr>) fs)
   }"

section \<open>Reading\<close>

text \<open>The buffers that \<open>inode_read_at\<close> and \<open>inode_write_at\<close> keep between iterations: the last index block read
  and which one it is (128 for the indirect block, -1 for none), and the doubly indirect block.\<close>

record index_cache =
  index_buffer :: "disk_sector list"
  buffer_flag :: int
  index_parent_buffer :: "disk_sector list"
  buffer_parent_flag :: bool

definition no_cache :: index_cache where
  "no_cache = \<lparr>index_buffer = [], buffer_flag = -1, index_parent_buffer = [], buffer_parent_flag = False\<rparr>"

definition sector_lookup :: "disk \<Rightarrow> inode_disk \<Rightarrow> index_cache \<Rightarrow> int \<Rightarrow> (disk_sector \<times> index_cache) option" where
  "sector_lookup d di c k =
     (if k < int DIRECT_LEN then do { s \<leftarrow> nth_at (direct_block di) k; Some (s, c) }
      else if k < int DIRECT_LEN + 128 then do {
        c \<leftarrow> (if buffer_flag c \<noteq> 128 then do {
               bs \<leftarrow> disk_read d (indirect_block di);
               Some (c\<lparr>index_buffer := sector_words bs, buffer_flag := 128\<rparr>)
             } else Some c);
        s \<leftarrow> nth_at (index_buffer c) (k - int DIRECT_LEN);
        Some (s, c)
      } else do {
        c \<leftarrow> (if \<not> buffer_parent_flag c then do {
               bs \<leftarrow> disk_read d (doubly_indirect_block di);
               Some (c\<lparr>index_parent_buffer := sector_words bs, buffer_parent_flag := True\<rparr>)
             } else Some c);
        let j = (k - int DIRECT_LEN - 128) sdiv 128;
        c \<leftarrow> (if buffer_flag c \<noteq> j then do {
               p \<leftarrow> nth_at (index_parent_buffer c) j;
               bs \<leftarrow> disk_read d p;
               Some (c\<lparr>index_buffer := sector_words bs, buffer_flag := j\<rparr>)
             } else Some c);
        s \<leftarrow> nth_at (index_buffer c) ((k - int DIRECT_LEN - 128) smod 128);
        Some (s, c)
      })"

definition chunk_size :: "inode_disk \<Rightarrow> int \<Rightarrow> int \<Rightarrow> int" where
  "chunk_size di sz offset =
     (let inode_left = s32 (data_length di - offset);
          sector_left = 512 - offset smod 512;
          min_left = (if inode_left < sector_left then inode_left else sector_left) in
      if sz < min_left then sz else min_left)"

text \<open>The bytes read so far are \<open>acc\<close>; their number is the result of the function. A negative offset
  makes the copy run outside the bounce buffer.\<close>

function read_loop :: "bool \<Rightarrow> disk \<Rightarrow> inode_disk \<Rightarrow> index_cache \<Rightarrow> int \<Rightarrow> int \<Rightarrow> byte list \<Rightarrow> byte list option" where
  "read_loop mem_ok d di c sz offset acc =
     (if sz > 0 then
        (case sector_lookup d di c (offset sdiv 512) of None \<Rightarrow> None | Some (s, c) \<Rightarrow>
           let n = chunk_size di sz offset in
           if n \<le> 0 then Some acc
           else if offset smod 512 = 0 \<and> n = 512 then
             (case disk_read d s of None \<Rightarrow> None
              | Some bs \<Rightarrow> read_loop mem_ok d di c (sz - n) (s32 (offset + n)) (acc @ bs))
           else if \<not> mem_ok then Some acc
           else (case disk_read d s of None \<Rightarrow> None
              | Some bs \<Rightarrow> if offset smod 512 < 0 then None
                  else read_loop mem_ok d di c (sz - n) (s32 (offset + n))
                    (acc @ take (nat n) (drop (nat (offset smod 512)) bs))))
      else Some acc)"
  by pat_completeness auto
termination
  by (relation "measure (\<lambda>(mem_ok, d, di, c, sz, offset, acc). nat sz)") auto

declare read_loop.simps [simp del]

definition inode_read_at :: "bool \<Rightarrow> filesys \<Rightarrow> disk_sector \<Rightarrow> int \<Rightarrow> int \<Rightarrow> byte list option" where
  "inode_read_at mem_ok fs p sz offset = do {
     n \<leftarrow> get_inode fs p;
     read_loop mem_ok (fs_disk fs) (data n) no_cache sz offset []
   }"

section \<open>Writing\<close>

text \<open>Loading the rows \<open>i, \<dots>\<close> of the doubly indirect table into the global buffer.\<close>

fun read_rows :: "disk \<Rightarrow> disk_sector list \<Rightarrow> nat \<Rightarrow> nat \<Rightarrow> disk_sector list \<Rightarrow> disk_sector list option" where
  "read_rows d parent i 0 rows = Some rows"
| "read_rows d parent i (Suc n) rows = do {
     p \<leftarrow> nth_at parent (int i);
     bs \<leftarrow> disk_read d p;
     read_rows d parent (i + 1) n (take (128 * i) rows @ sector_words bs @ drop (128 * (i + 1)) rows)
   }"

text \<open>The result has the new block pointers of the inode; they are stored in the open inode by the caller.\<close>

definition add_blocks :: "inode_disk \<Rightarrow> int \<Rightarrow> int \<Rightarrow> filesys \<Rightarrow> (inode_disk \<times> filesys) option" where
  "add_blocks di new_eof old_eof fs = do {
     let round_up = (if old_eof smod 512 \<noteq> 0 then 1 else 0);
     let round_down = (if old_eof smod 512 \<noteq> 0 then 0 else 1);
     let old_blk = nat (old_eof sdiv 512);
     let new_blk = nat (new_eof sdiv 512);
     fs \<leftarrow> (if old_blk > DIRECT_LEN then do {
             bs \<leftarrow> disk_read (fs_disk fs) (indirect_block di);
             Some (fs\<lparr>indirect_sec_idx := sector_words bs\<rparr>)
           } else Some fs);
     fs \<leftarrow> (if old_blk > DIRECT_LEN + 128 then do {
             bs \<leftarrow> disk_read (fs_disk fs) (doubly_indirect_block di);
             let fs = fs\<lparr>doubly_sec_parent := sector_words bs\<rparr>;
             rows \<leftarrow> read_rows (fs_disk fs) (doubly_sec_parent fs) 0 ((old_blk - DIRECT_LEN - 128) div 128) (doubly_sec_idx fs);
             Some (fs\<lparr>doubly_sec_idx := rows\<rparr>)
           } else Some fs);
     (ok, x, b) \<leftarrow> free_map_allocate_index (free_map_file fs) (old_blk + round_up) (new_blk - old_blk + round_down)
                    (index_of di fs) (free_map fs);
     let fs = put_index_fs x (fs\<lparr>free_map := b\<rparr>);
     let di = put_index_inode x di;
     if ok then do {
       d \<leftarrow> write_index new_blk di fs (fs_disk fs);
       Some (di, fs\<lparr>fs_disk := d\<rparr>)
     } else Some (di, fs)
   }"

function fill_zeros_loop :: "inode_disk \<Rightarrow> filesys \<Rightarrow> int \<Rightarrow> int \<Rightarrow> disk \<Rightarrow> disk option" where
  "fill_zeros_loop di fs old_eof sz d =
     (if sz > 0 then
        if old_eof < 0 then None else
        (case block_pointer di fs (old_eof sdiv 512) of None \<Rightarrow> None | Some s \<Rightarrow>
          (let chunk = 512 - old_eof smod 512 in
           case (if old_eof smod 512 = 0 then disk_write d s zeros
                 else case disk_read d s of None \<Rightarrow> None
                      | Some bs \<Rightarrow> disk_write d s (take (nat (old_eof smod 512)) bs @ replicate (nat chunk) 0))
           of None \<Rightarrow> None | Some d \<Rightarrow> fill_zeros_loop di fs (old_eof + chunk) (sz - chunk) d))
      else Some d)"
  by pat_completeness auto
termination
  by (relation "measure (\<lambda>(di, fs, old_eof, sz, d). nat sz)") (auto simp: smod_int_alt_def sgn_if)

declare fill_zeros_loop.simps [simp del]

definition fill_zeros :: "inode_disk \<Rightarrow> filesys \<Rightarrow> int \<Rightarrow> int \<Rightarrow> disk option" where
  "fill_zeros di fs old_eof offset = fill_zeros_loop di fs old_eof (offset - old_eof - 1) (fs_disk fs)"

text \<open>The number of bytes written is \<open>length buffer - length (rest)\<close>; the loop returns the disk and that number.\<close>

function write_loop :: "bool \<Rightarrow> disk \<Rightarrow> inode_disk \<Rightarrow> index_cache \<Rightarrow> byte list \<Rightarrow> int \<Rightarrow> int \<Rightarrow> int \<Rightarrow> (disk \<times> int) option" where
  "write_loop mem_ok d di c buffer sz offset written =
     (if sz > 0 then
        (case sector_lookup d di c (offset sdiv 512) of None \<Rightarrow> None | Some (s, c) \<Rightarrow>
           let n = chunk_size di sz offset; ofs = offset smod 512 in
           if n \<le> 0 then Some (d, written)
           else if ofs = 0 \<and> n = 512 then
             (case disk_write d s (take 512 (drop (nat written) buffer)) of None \<Rightarrow> None
              | Some d \<Rightarrow> write_loop mem_ok d di c buffer (sz - n) (s32 (offset + n)) (written + n))
           else if \<not> mem_ok then Some (d, written)
           else if ofs < 0 then None
           else (case (if ofs > 0 \<or> n < 512 - ofs then disk_read d s else Some zeros) of None \<Rightarrow> None
              | Some bounce \<Rightarrow>
                 (case disk_write d s (take (nat ofs) bounce @ take (nat n) (drop (nat written) buffer) @ drop (nat (ofs + n)) bounce)
                  of None \<Rightarrow> None
                  | Some d \<Rightarrow> write_loop mem_ok d di c buffer (sz - n) (s32 (offset + n)) (written + n))))
      else Some (d, written))"
  by pat_completeness auto
termination
  by (relation "measure (\<lambda>(mem_ok, d, di, c, buffer, sz, offset, written). nat sz)") auto

declare write_loop.simps [simp del]

definition grow :: "inode \<Rightarrow> int \<Rightarrow> int \<Rightarrow> filesys \<Rightarrow> (inode_disk \<times> filesys) option" where
  "grow n sz offset fs = do {
     let di = data n;
     let round_up = (if data_length di smod 512 \<noteq> 0 then 1 else 0);
     (di, fs) \<leftarrow> (if s32 ((data_length di sdiv 512 + round_up) * 512) < s32 (offset + sz)
                 then add_blocks di (s32 (offset + sz)) (data_length di) fs else Some (di, fs));
     d \<leftarrow> fill_zeros di fs (data_length di) offset;
     let fs = clear_buffers (fs\<lparr>fs_disk := d\<rparr>);
     let di = di\<lparr>data_length := s32 (offset + sz)\<rparr>;
     d \<leftarrow> disk_write (fs_disk fs) (sector n) (encode_inode di);
     Some (di, set_inode (n\<lparr>data := di\<rparr>) (fs\<lparr>fs_disk := d\<rparr>))
   }"

definition inode_write_at :: "bool \<Rightarrow> disk_sector \<Rightarrow> byte list \<Rightarrow> int \<Rightarrow> int \<Rightarrow> filesys \<Rightarrow> (int \<times> filesys) option" where
  "inode_write_at mem_ok p buffer sz offset fs = do {
     n \<leftarrow> get_inode fs p;
     if deny_write_cnt n \<noteq> 0 then Some (0, fs)
     else do {
       (di, fs) \<leftarrow> (if data_length (data n) < s32 (offset + sz) then grow n sz offset fs else Some (data n, fs));
       (d, written) \<leftarrow> write_loop mem_ok (fs_disk fs) di no_cache buffer sz offset 0;
       Some (written, fs\<lparr>fs_disk := d\<rparr>)
     }
   }"

end
