(* ===== verification/Inode_Props.thy ===== *)
theory Inode_Props
  imports Inode
begin

text \<open>
  Correctness of reading and writing inodes. The reference is \<open>block_sector\<close>, the sector of a
  block looked up in the index on disk without any buffering, and \<open>file_byte\<close>, the byte of
  the file at a position; the loops of the code buffer the last index blocks they read.
\<close>

section \<open>Offsets\<close>

lemma sdiv_int [simp]: "int o' sdiv 512 = int (o' div 512)"
  by (simp add: sdiv_pos zdiv_int)

lemma smod_int [simp]: "int o' smod 512 = int (o' mod 512)"
  by (simp add: smod_int_alt_def sgn_if zmod_int)

lemma sdiv_128: "0 \<le> k \<Longrightarrow> k sdiv 128 = k div 128" for k :: int
  by (simp add: sdiv_pos)

lemma smod_128: "0 \<le> k \<Longrightarrow> k smod 128 = k mod 128" for k :: int
  by (cases "k = 0") (simp_all add: smod_int_alt_def sgn_if)

lemma same_block:
  fixes p j :: nat
  assumes "p mod 512 + j < 512"
  shows "(p + j) div 512 = p div 512" "(p + j) mod 512 = p mod 512 + j"
proof -
  have "p + j = p div 512 * 512 + (p mod 512 + j)" by simp
  then show "(p + j) div 512 = p div 512" "(p + j) mod 512 = p mod 512 + j"
    using assms by (metis div_mult_self3 div_less add_0 zero_neq_numeral add.commute,
      metis mod_mult_self3 mod_less)
qed

section \<open>Blocks of a file\<close>

definition block_sector :: "disk \<Rightarrow> inode_disk \<Rightarrow> nat \<Rightarrow> disk_sector option" where
  "block_sector d di k =
     (if k < DIRECT_LEN then nth_at (direct_block di) (int k)
      else if k < DIRECT_LEN + 128 then do {
        bs \<leftarrow> disk_read d (indirect_block di);
        nth_at (sector_words bs) (int k - int DIRECT_LEN)
      } else do {
        bs \<leftarrow> disk_read d (doubly_indirect_block di);
        p \<leftarrow> nth_at (sector_words bs) ((int k - int DIRECT_LEN - 128) div 128);
        bs \<leftarrow> disk_read d p;
        nth_at (sector_words bs) ((int k - int DIRECT_LEN - 128) mod 128)
      })"

text \<open>The index blocks consulted for block \<open>k\<close>.\<close>

definition index_sectors :: "disk \<Rightarrow> inode_disk \<Rightarrow> nat \<Rightarrow> disk_sector set" where
  "index_sectors d di k =
     (if k < DIRECT_LEN then {}
      else if k < DIRECT_LEN + 128 then {indirect_block di}
      else insert (doubly_indirect_block di)
        (case disk_read d (doubly_indirect_block di) of None \<Rightarrow> {}
         | Some bs \<Rightarrow> set_option (nth_at (sector_words bs) ((int k - int DIRECT_LEN - 128) div 128))))"

definition max_blocks :: nat where
  "max_blocks = DIRECT_LEN + 128 + 128 * 128"

text \<open>The file is readable: every block up to the end of file has a sector on the disk, and looking up
  the block at the end of file does not leave the index.\<close>

definition readable :: "disk \<Rightarrow> inode_disk \<Rightarrow> bool" where
  "readable d di \<longleftrightarrow> 0 \<le> data_length di \<and> data_length di < 2 ^ 31 \<and> nat (data_length di) div 512 < max_blocks \<and>
     (\<forall>k \<le> nat (data_length di) div 512. block_sector d di k \<noteq> None) \<and>
     (\<forall>k s. 512 * k < nat (data_length di) \<longrightarrow> block_sector d di k = Some s \<longrightarrow>
        unat s < length d \<and> s < 2 ^ 28 \<and> length (d ! unat s) = 512)"

definition file_byte :: "disk \<Rightarrow> inode_disk \<Rightarrow> nat \<Rightarrow> byte" where
  "file_byte d di i = d ! unat (the (block_sector d di (i div 512))) ! (i mod 512)"

section \<open>The buffered look-up\<close>

text \<open>The buffers hold what the disk holds in index sectors of the set \<open>T\<close>.\<close>

definition cache_ok :: "disk_sector set \<Rightarrow> disk \<Rightarrow> inode_disk \<Rightarrow> index_cache \<Rightarrow> bool" where
  "cache_ok T d di c \<longleftrightarrow>
     (buffer_flag c = 128 \<longrightarrow> indirect_block di \<in> T \<and>
        (\<exists>bs. disk_read d (indirect_block di) = Some bs \<and> index_buffer c = sector_words bs)) \<and>
     (buffer_parent_flag c \<longrightarrow> doubly_indirect_block di \<in> T \<and>
        (\<exists>bs. disk_read d (doubly_indirect_block di) = Some bs \<and> index_parent_buffer c = sector_words bs)) \<and>
     (0 \<le> buffer_flag c \<longrightarrow> buffer_flag c < 128 \<longrightarrow> doubly_indirect_block di \<in> T \<and>
        (\<exists>bs p bs'. disk_read d (doubly_indirect_block di) = Some bs \<and> nth_at (sector_words bs) (buffer_flag c) = Some p \<and>
           p \<in> T \<and> disk_read d p = Some bs' \<and> index_buffer c = sector_words bs'))"

lemma no_cache_ok [simp]: "cache_ok T d di no_cache"
  by (simp add: cache_ok_def no_cache_def)

lemma lookup_direct:
  assumes "block_sector d di k = Some s" "k < DIRECT_LEN"
  shows "sector_lookup d di c (int k) = Some (s, c)"
  using assms by (simp add: block_sector_def sector_lookup_def)

lemma lookup_indirect:
  assumes "cache_ok T d di c" "block_sector d di k = Some s" "\<not> k < DIRECT_LEN" "k < DIRECT_LEN + 128" "index_sectors d di k \<subseteq> T"
  shows "\<exists>c'. sector_lookup d di c (int k) = Some (s, c') \<and> cache_ok T d di c'"
proof -
  obtain bs where bs: "disk_read d (indirect_block di) = Some bs" "nth_at (sector_words bs) (int k - int DIRECT_LEN) = Some s"
    using assms(2-4) by (auto simp: block_sector_def bind_eq_Some_conv)
  have T: "indirect_block di \<in> T" using assms(3-5) by (simp add: index_sectors_def)
  have k: "\<not> int k < int DIRECT_LEN" "int k < int DIRECT_LEN + 128" using assms(3, 4) by simp_all
  show ?thesis
  proof (cases "buffer_flag c = 128")
    case True
    then have "index_buffer c = sector_words bs" using assms(1) bs(1) by (auto simp: cache_ok_def)
    then show ?thesis using True k bs assms(1) by (simp add: sector_lookup_def)
  next
    case False
    then show ?thesis using k bs assms(1) T by (simp add: sector_lookup_def cache_ok_def)
  qed
qed

lemma lookup_doubly:
  assumes "cache_ok T d di c" "block_sector d di k = Some s" "\<not> k < DIRECT_LEN + 128" "k < max_blocks" "index_sectors d di k \<subseteq> T"
  shows "\<exists>c'. sector_lookup d di c (int k) = Some (s, c') \<and> cache_ok T d di c'"
proof -
  define j where "j = (int k - int DIRECT_LEN - 128) div 128"
  have k: "\<not> int k < int DIRECT_LEN" "\<not> int k < int DIRECT_LEN + 128" "0 \<le> int k - int DIRECT_LEN - 128" using assms(3) by simp_all
  have j: "0 \<le> j" "j < 128" using assms(3, 4) by (auto simp: j_def max_blocks_def)
  obtain bs p bs' where bs: "disk_read d (doubly_indirect_block di) = Some bs" "nth_at (sector_words bs) j = Some p"
    "disk_read d p = Some bs'" "nth_at (sector_words bs') ((int k - int DIRECT_LEN - 128) mod 128) = Some s"
    using assms(2, 3) by (auto simp: block_sector_def bind_eq_Some_conv j_def)
  have T: "doubly_indirect_block di \<in> T" "p \<in> T"
    using assms(3, 5) bs(1, 2) by (auto simp: index_sectors_def j_def)
  define c1 where "c1 = (if buffer_parent_flag c then c else c\<lparr>index_parent_buffer := sector_words bs, buffer_parent_flag := True\<rparr>)"
  have c1: "cache_ok T d di c1" "buffer_parent_flag c1" "index_parent_buffer c1 = sector_words bs" "buffer_flag c1 = buffer_flag c"
    using assms(1) bs(1) T(1) by (auto simp: c1_def cache_ok_def)
  define c2 where "c2 = (if buffer_flag c1 = j then c1 else c1\<lparr>index_buffer := sector_words bs', buffer_flag := j\<rparr>)"
  have c2: "cache_ok T d di c2" "index_buffer c2 = sector_words bs'"
    using c1(1) bs(1-3) T j by (auto simp: c2_def cache_ok_def)
  have s1: "(if \<not> buffer_parent_flag c then do { bs \<leftarrow> disk_read d (doubly_indirect_block di);
        Some (c\<lparr>index_parent_buffer := sector_words bs, buffer_parent_flag := True\<rparr>) } else Some c) = Some c1"
    by (simp add: c1_def bs(1))
  have s2: "(if buffer_flag c1 \<noteq> j then do { p \<leftarrow> nth_at (index_parent_buffer c1) j; bs \<leftarrow> disk_read d p;
        Some (c1\<lparr>index_buffer := sector_words bs, buffer_flag := j\<rparr>) } else Some c1) = Some c2"
    by (simp add: c2_def c1(3) bs(2, 3))
  have s3: "nth_at (index_buffer c2) ((int k - int DIRECT_LEN - 128) smod 128) = Some s"
    unfolding c2(2) smod_128 [OF k(3)] by (rule bs(4))
  have sj: "(int k - int DIRECT_LEN - 128) sdiv 128 = j" unfolding sdiv_128 [OF k(3)] j_def ..
  have "sector_lookup d di c (int k) = Some (s, c2)"
    unfolding sector_lookup_def by (simp only: k(1, 2) if_False s1 bind.bind_lunit Let_def sj s2 s3)
  then show ?thesis using c2(1) by blast
qed

lemma lookup_spec:
  assumes "cache_ok T d di c" "block_sector d di k = Some s" "k < max_blocks" "index_sectors d di k \<subseteq> T"
  shows "\<exists>c'. sector_lookup d di c (int k) = Some (s, c') \<and> cache_ok T d di c'"
  using lookup_direct [OF assms(2)] lookup_indirect [OF assms(1, 2)] lookup_doubly [OF assms(1, 2)] assms(1, 3, 4) by blast

section \<open>Reading\<close>

abbreviation len :: "inode_disk \<Rightarrow> nat" where
  "len di \<equiv> nat (data_length di)"

lemma chunk_nat:
  assumes "0 \<le> data_length di" "data_length di < 2 ^ 31" "p \<le> len di"
  shows "chunk_size di (int n) (int p) = int (min n (min (len di - p) (512 - p mod 512)))"
proof -
  define a b where "a = len di - p" and "b = 512 - p mod 512"
  have "s32 (data_length di - int p) = int a" using assms by (subst s32_id) (auto simp: a_def)
  moreover have "(512 :: int) - int p smod 512 = int b" by (simp add: b_def of_nat_diff less_imp_le)
  ultimately show ?thesis unfolding chunk_size_def Let_def a_def [symmetric] b_def [symmetric] by simp
qed

lemma readable_block:
  assumes "readable d di" "p < len di"
  obtains s where "block_sector d di (p div 512) = Some s" "unat s < length d" "s < 2 ^ 28" "length (d ! unat s) = 512"
    "p div 512 < max_blocks"
proof -
  have k: "p div 512 \<le> len di div 512" "512 * (p div 512) < len di" using assms(2) by (auto simp: div_le_mono)
  then obtain s where "block_sector d di (p div 512) = Some s" using assms(1) by (fastforce simp: readable_def)
  then show thesis using that k assms(1) by (auto simp: readable_def)
qed

lemma chunk_bytes:
  assumes "block_sector d di (p div 512) = Some s" "length (d ! unat s) = 512" "p mod 512 + m \<le> 512"
  shows "take m (drop (p mod 512) (d ! unat s)) = map (file_byte d di) [p..<p + m]"
proof (rule nth_equalityI)
  show "length (take m (drop (p mod 512) (d ! unat s))) = length (map (file_byte d di) [p..<p + m])" using assms by simp
  show "take m (drop (p mod 512) (d ! unat s)) ! j = map (file_byte d di) [p..<p + m] ! j"
    if "j < length (take m (drop (p mod 512) (d ! unat s)))" for j
  proof -
    have j: "p mod 512 + j < 512" "j < m" using that assms by auto
    then show ?thesis using same_block [OF j(1)] assms by (simp add: file_byte_def)
  qed
qed

lemma read_loop_spec:
  assumes "readable d di" "\<forall>k \<le> len di div 512. index_sectors d di k \<subseteq> T"
  shows "cache_ok T d di c \<Longrightarrow> p \<le> len di \<Longrightarrow>
    read_loop True d di c (int n) (int p) acc = Some (acc @ map (file_byte d di) [p..<min (p + n) (len di)])"
proof (induction n arbitrary: c p acc rule: less_induct)
  case (less n)
  have r: "0 \<le> data_length di" "data_length di < 2 ^ 31" using assms(1) by (simp_all add: readable_def)
  show ?case
  proof (cases "n = 0")
    case True
    then show ?thesis by (subst read_loop.simps) simp
  next
    case False
    define m where "m = min n (min (len di - p) (512 - p mod 512))"
    have cs: "chunk_size di (int n) (int p) = int m" using chunk_nat [OF r less.prems(2)] by (simp add: m_def)
    have k: "p div 512 \<le> len di div 512" using less.prems(2) by (rule div_le_mono)
    then obtain s where s: "block_sector d di (p div 512) = Some s" "p div 512 < max_blocks"
      using assms(1) by (fastforce simp: readable_def)
    then obtain c' where c': "sector_lookup d di c (int (p div 512)) = Some (s, c')" "cache_ok T d di c'"
      using lookup_spec [OF less.prems(1)] assms(2) k by blast
    show ?thesis
    proof (cases "m = 0")
      case True
      moreover have "0 < 512 - p mod 512" by simp
      ultimately have "len di \<le> p" using False less.prems(2) unfolding m_def by linarith
      then show ?thesis using True False c' cs by (subst read_loop.simps) (simp add: Let_def)
    next
      case m0: False
      then have p: "p < len di" by (auto simp: m_def)
      have ds: "unat s < length d" "s < 2 ^ 28" "length (d ! unat s) = 512"
        using readable_block [OF assms(1) p] s(1) by (metis option.inject)+
      then have dr: "disk_read d s = Some (d ! unat s)" by (simp add: disk_read_def)
      have "p mod 512 < 512" by simp
      then have mb: "m \<le> n" "m \<le> len di - p" "p mod 512 + m \<le> 512" unfolding m_def by linarith+
      have off: "s32 (int p + int m) = int (p + m)" using r mb(2) p by (subst s32_id) auto
      have rest: "read_loop True d di c' (int n - int m) (int (p + m)) (acc @ map (file_byte d di) [p..<p + m]) =
          Some (acc @ map (file_byte d di) [p..<min (p + n) (len di)])"
      proof -
        have "int n - int m = int (n - m)" using mb(1) by simp
        moreover have "[p..<p + m] @ [p + m..<min (p + n) (len di)] = [p..<min (p + n) (len di)]"
          using mb by (metis le_add1 le_add_diff_inverse min.bounded_iff nat_add_left_cancel_le upt_add_eq_append p less_imp_le)
        ultimately show ?thesis using less.IH [of "n - m" c' "p + m"] m0 mb c'(2) p False
          by (simp flip: map_append)
      qed
      have bytes: "take m (drop (p mod 512) (d ! unat s)) = map (file_byte d di) [p..<p + m]"
        by (rule chunk_bytes [OF s(1) ds(3) mb(3)])
      have whole: "d ! unat s = map (file_byte d di) [p..<p + m]" if "p mod 512 = 0" "m = 512"
        using bytes that ds(3) by simp
      have "read_loop True d di c (int n) (int p) acc =
          read_loop True d di c' (int n - int m) (int (p + m)) (acc @ map (file_byte d di) [p..<p + m])"
      proof (cases "p mod 512 = 0 \<and> m = 512")
        case True
        then show ?thesis using False m0 c' cs dr off whole
          by (subst read_loop.simps) (simp add: Let_def)
      next
        case part: False
        then show ?thesis using False m0 c' cs dr off bytes
          by (subst read_loop.simps) (cases "p mod 512 = 0"; simp add: Let_def del: of_nat_add)
      qed
      then show ?thesis using rest by simp
    qed
  qed
qed

section \<open>Writing\<close>

text \<open>The file is writable: besides, its blocks are different sectors and none of them is an index block.\<close>

definition writable :: "disk \<Rightarrow> inode_disk \<Rightarrow> bool" where
  "writable d di \<longleftrightarrow> readable d di \<and>
     (\<forall>k j s. 512 * k < len di \<longrightarrow> 512 * j < len di \<longrightarrow> block_sector d di k = Some s \<longrightarrow> block_sector d di j = Some s \<longrightarrow> k = j) \<and>
     (\<forall>k j s. 512 * k < len di \<longrightarrow> j \<le> len di div 512 \<longrightarrow> block_sector d di k = Some s \<longrightarrow> s \<notin> index_sectors d di j)"

definition all_index :: "disk \<Rightarrow> inode_disk \<Rightarrow> disk_sector set" where
  "all_index d di = (\<Union>j \<le> len di div 512. index_sectors d di j)"

lemma disk_read_update: "t \<noteq> s \<Longrightarrow> disk_read (d[unat s := bs]) t = disk_read d t"
  by (simp add: disk_read_def word_unat_eq_iff)

lemma index_update:
  assumes "s \<notin> index_sectors d di j"
  shows "block_sector (d[unat s := bs]) di j = block_sector d di j"
    "index_sectors (d[unat s := bs]) di j = index_sectors d di j"
proof -
  let ?d = "d[unat s := bs]"
  have r: "disk_read ?d t = disk_read d t" if "t \<in> index_sectors d di j" for t
    using disk_read_update [of t s] assms that by blast
  have "block_sector ?d di j = block_sector d di j \<and> index_sectors ?d di j = index_sectors d di j"
  proof (cases "j < DIRECT_LEN + 128")
    case True
    then show ?thesis using r by (auto simp: block_sector_def index_sectors_def)
  next
    case False
    then have dd: "disk_read ?d (doubly_indirect_block di) = disk_read d (doubly_indirect_block di)"
      using r by (simp add: index_sectors_def)
    show ?thesis
    proof (cases "disk_read d (doubly_indirect_block di)")
      case None
      then show ?thesis using False dd by (simp add: block_sector_def index_sectors_def)
    next
      case (Some bs)
      show ?thesis
      proof (cases "nth_at (sector_words bs) ((int j - int DIRECT_LEN - 128) div 128)")
        case None
        then show ?thesis using False dd Some by (simp add: block_sector_def index_sectors_def)
      next
        case (Some p)
        then have "disk_read ?d p = disk_read d p"
          using r False \<open>disk_read d (doubly_indirect_block di) = Some bs\<close> by (simp add: index_sectors_def)
        then show ?thesis using False dd Some \<open>disk_read d (doubly_indirect_block di) = Some bs\<close>
          by (simp add: block_sector_def index_sectors_def)
      qed
    qed
  qed
  then show "block_sector ?d di j = block_sector d di j" "index_sectors ?d di j = index_sectors d di j" by auto
qed

lemma cache_ok_update:
  assumes "cache_ok T d di c" "s \<notin> T"
  shows "cache_ok T (d[unat s := bs]) di c"
proof -
  have r: "disk_read (d[unat s := bs]) t = disk_read d t" if "t \<in> T" for t using disk_read_update [of t s] assms(2) that by blast
  show ?thesis using assms(1) unfolding cache_ok_def by (auto simp: r)
qed

lemma write_chunk:
  assumes w: "writable d di" and p: "p < len di" "p mod 512 + m \<le> 512" and s: "block_sector d di (p div 512) = Some s"
    and new: "length new = 512" "\<forall>j < 512. new ! j = (if p mod 512 \<le> j \<and> j < p mod 512 + m then f (j - p mod 512) else d ! unat s ! j)"
  defines "d' \<equiv> d[unat s := new]"
  shows "writable d' di" "all_index d' di = all_index d di"
    "\<And>i. i < len di \<Longrightarrow> file_byte d' di i = (if p \<le> i \<and> i < p + m then f (i - p) else file_byte d di i)"
proof -
  have k: "512 * (p div 512) < len di" using p(1) by auto
  have rd: "readable d di" using w by (simp add: writable_def)
  have sd: "unat s < length d" "s < 2 ^ 28" using rd s k by (auto simp: readable_def)
  have out: "s \<notin> index_sectors d di j" if "j \<le> len di div 512" for j
    using w s k that by (auto simp: writable_def)
  have bs: "block_sector d' di j = block_sector d di j" and ix: "index_sectors d' di j = index_sectors d di j" if "j \<le> len di div 512" for j
    using index_update [OF out [OF that]] by (simp_all add: d'_def)
  have le: "j \<le> len di div 512" if "512 * j < len di" for j using that by (metis div_le_mono less_imp_le nonzero_mult_div_cancel_left zero_neq_numeral)
  have lens: "length (d' ! t) = 512" if "t < length d" "length (d ! t) = 512" for t
    using that new(1) by (cases "t = unat s") (simp_all add: d'_def)
  have "readable d' di"
    using rd bs le lens unfolding readable_def by (simp add: d'_def)
  then show "writable d' di" using w bs ix le unfolding writable_def by metis
  show "all_index d' di = all_index d di" using ix by (simp add: all_index_def)
  show "file_byte d' di i = (if p \<le> i \<and> i < p + m then f (i - p) else file_byte d di i)" if i: "i < len di" for i
  proof -
    have ki: "512 * (i div 512) < len di" "i div 512 \<le> len di div 512" using i by (auto simp: div_le_mono)
    obtain t where t: "block_sector d di (i div 512) = Some t" using rd ki(2) by (fastforce simp: readable_def)
    have same: "t = s \<longleftrightarrow> i div 512 = p div 512" using w s t k ki(1) by (auto simp: writable_def)
    have fb: "file_byte d' di i = d' ! unat t ! (i mod 512)" "file_byte d di i = d ! unat t ! (i mod 512)"
      using t bs [OF ki(2)] by (simp_all add: file_byte_def)
    show ?thesis
    proof (cases "i div 512 = p div 512")
      case True
      then have "i = p div 512 * 512 + i mod 512" "p = p div 512 * 512 + p mod 512" by (metis div_mult_mod_eq)+
      then have "p \<le> i \<and> i < p + m \<longleftrightarrow> p mod 512 \<le> i mod 512 \<and> i mod 512 < p mod 512 + m" "p \<le> i \<longrightarrow> i - p = i mod 512 - p mod 512"
        by linarith+
      then show ?thesis using True same fb new(2) sd by (auto simp: d'_def)
    next
      case False
      then have "unat t \<noteq> unat s" using same by (simp add: word_unat_eq_iff)
      moreover have "\<not> (p \<le> i \<and> i < p + m)"
      proof
        assume *: "p \<le> i \<and> i < p + m"
        then have "p mod 512 + (i - p) < 512" using p(2) by linarith
        then have "(p + (i - p)) div 512 = p div 512" by (rule same_block)
        then show False using * False by simp
      qed
      ultimately show ?thesis using fb by (auto simp: d'_def)
    qed
  qed
qed

definition overlay :: "byte list \<Rightarrow> nat \<Rightarrow> nat \<Rightarrow> nat \<Rightarrow> (nat \<Rightarrow> byte) \<Rightarrow> nat \<Rightarrow> byte" where
  "overlay buffer w p n f i = (if p \<le> i \<and> i < p + n then buffer ! (w + (i - p)) else f i)"

lemma overlay_step: "m \<le> n \<Longrightarrow> overlay buffer (w + m) (p + m) (n - m) (overlay buffer w p m f) i = overlay buffer w p n f i"
  by (auto simp: overlay_def)

lemma write_loop_spec:
  "writable d di \<Longrightarrow> cache_ok (all_index d di) d di c \<Longrightarrow> p + n \<le> len di \<Longrightarrow> w + n \<le> length buffer \<Longrightarrow>
    \<exists>d'. write_loop True d di c buffer (int n) (int p) (int w) = Some (d', int (w + n)) \<and> writable d' di \<and>
      (\<forall>i < len di. file_byte d' di i = overlay buffer w p n (file_byte d di) i)"
proof (induction n arbitrary: d c p w rule: less_induct)
  case (less n)
  have rd: "readable d di" using less.prems(1) by (simp add: writable_def)
  then have r: "0 \<le> data_length di" "data_length di < 2 ^ 31" by (simp_all add: readable_def)
  show ?case
  proof (cases "n = 0")
    case True
    then show ?thesis using less.prems(1) by (subst write_loop.simps) (simp add: overlay_def)
  next
    case False
    define m where "m = min n (min (len di - p) (512 - p mod 512))"
    have p: "p < len di" using less.prems(3) False by simp
    have "p mod 512 < 512" by simp
    then have "m \<le> n \<and> m \<le> len di - p \<and> p mod 512 + m \<le> 512" unfolding m_def by linarith
    moreover have "0 < m" using p False by (simp add: m_def)
    ultimately have mb: "0 < m" "m \<le> n" "m \<le> len di - p" "p mod 512 + m \<le> 512" by blast+
    have cs: "chunk_size di (int n) (int p) = int m" using chunk_nat [OF r less_imp_le [OF p]] by (simp add: m_def)
    obtain s where s: "block_sector d di (p div 512) = Some s" "unat s < length d" "s < 2 ^ 28" "length (d ! unat s) = 512"
      "p div 512 < max_blocks" using readable_block [OF rd p] by blast
    have "p div 512 \<le> len di div 512" using p by (simp add: div_le_mono)
    then have "index_sectors d di (p div 512) \<subseteq> all_index d di" by (auto simp: all_index_def)
    then obtain c' where c': "sector_lookup d di c (int (p div 512)) = Some (s, c')" "cache_ok (all_index d di) d di c'"
      using lookup_spec [OF less.prems(2) s(1, 5)] by blast
    define new where "new = take (p mod 512) (d ! unat s) @ take m (drop w buffer) @ drop (p mod 512 + m) (d ! unat s)"
    have dr: "disk_read d s = Some (d ! unat s)" using s by (simp add: disk_read_def)
    have nl: "length new = 512" using s(4) mb less.prems(4) by (simp add: new_def)
    have nn: "\<forall>j < 512. new ! j = (if p mod 512 \<le> j \<and> j < p mod 512 + m then buffer ! (w + (j - p mod 512)) else d ! unat s ! j)"
      using s(4) mb less.prems(4) by (auto simp: new_def nth_append)
    have dw: "disk_write d s new = Some (d[unat s := new])" using s nl by (simp add: disk_write_def)
    let ?d = "d[unat s := new]"
    note wc = write_chunk [OF less.prems(1) p mb(4) s(1) nl nn]
    have "512 * (p div 512) < len di" using p by auto
    then have "s \<notin> all_index d di" using less.prems(1) s(1) by (auto simp: writable_def all_index_def)
    then have co: "cache_ok (all_index ?d di) ?d di c'" using cache_ok_update [OF c'(2)] wc(2) by simp
    have off: "s32 (int p + int m) = int (p + m)" using r mb p by (subst s32_id) auto
    have nm: "int n - int m = int (n - m)" "int w + int m = int (w + m)" using mb by simp_all
    obtain d' where d': "write_loop True ?d di c' buffer (int (n - m)) (int (p + m)) (int (w + m)) = Some (d', int (w + m + (n - m)))"
      "writable d' di" "\<forall>i < len di. file_byte d' di i = overlay buffer (w + m) (p + m) (n - m) (file_byte ?d di) i"
      using less.IH [of "n - m", OF _ wc(1) co, of "p + m" "w + m"] mb less.prems(3, 4) False by auto
    have step: "write_loop True d di c buffer (int n) (int p) (int w) =
        write_loop True ?d di c' buffer (int n - int m) (s32 (int p + int m)) (int w + int m)"
    proof (cases "p mod 512 = 0 \<and> m = 512")
      case True
      then have "take 512 (drop w buffer) = new" using s(4) by (simp add: new_def)
      then show ?thesis using True False mb(1) c'(1) cs dw by (subst write_loop.simps) (simp add: Let_def)
    next
      case part: False
      then have pc: "int (p mod 512) > 0 \<or> int m < 512 - int (p mod 512)" using mb(4) by linarith
      have new0: "take m (drop w buffer) @ drop m (d ! unat s) = new" if "p mod 512 = 0" using that by (simp add: new_def)
      have new1: "take (p mod 512) (d ! unat s) @ take m (drop w buffer) @ drop (nat (int (p mod 512) + int m)) (d ! unat s) = new"
        by (simp add: new_def nat_int_add)
      show ?thesis
      proof (cases "p mod 512 = 0")
        case True
        then show ?thesis using part pc False mb(1) c'(1) cs dr dw new0 by (subst write_loop.simps) (simp add: Let_def)
      next
        case False
        then show ?thesis using \<open>n \<noteq> 0\<close> pc mb(1) c'(1) cs dr dw new1 by (subst write_loop.simps) (simp add: Let_def)
      qed
    qed
    then have step: "write_loop True d di c buffer (int n) (int p) (int w) = Some (d', int (w + m + (n - m)))"
      using d'(1) unfolding off nm by (simp only:)
    have "file_byte d' di i = overlay buffer w p n (file_byte d di) i" if "i < len di" for i
    proof -
      have "file_byte ?d di i = overlay buffer w p m (file_byte d di) i" using wc(3) [OF that] by (simp add: overlay_def)
      then have "file_byte d' di i = overlay buffer (w + m) (p + m) (n - m) (overlay buffer w p m (file_byte d di)) i"
        using d'(3) that by (simp add: overlay_def)
      then show ?thesis using overlay_step [OF mb(2)] by simp
    qed
    then show ?thesis using step d' mb(2) by auto
  qed
qed

section \<open>Releasing\<close>

lemma release_one:
  assumes "bitmap_ok b" "f \<noteq> None" "s \<in> bitmap_used b"
  shows "\<exists>b'. free_map_release f s 1 b = Some b' \<and> bitmap_ok b' \<and> bit_cnt b' = bit_cnt b \<and> bitmap_used b' = bitmap_used b - {s}"
proof -
  have s: "s < bit_cnt b" "bools b ! s" using assms(3) by (simp_all add: bitmap_used_def)
  have "bitmap_all b s 1 = Some True"
    using bitmap_contains_eq [OF assms(1), of s 1 False] s by (simp add: bitmap_all_def all_are_def)
  moreover obtain b' where "bitmap_free s 1 b = Some b'" "bitmap_ok b'" "bit_cnt b' = bit_cnt b" "bitmap_used b' = bitmap_used b - {s..<s + 1}"
    using bm.free_total [OF assms(1), of s 1] s by auto
  ultimately show ?thesis using assms(2) by (simp add: free_map_release_def bitmap_free_def)
qed

lemma release_all_spec:
  "bitmap_ok b \<Longrightarrow> f \<noteq> None \<Longrightarrow> distinct ss \<Longrightarrow> unat ` set ss \<subseteq> bitmap_used b \<Longrightarrow>
    \<exists>b'. release_all f ss b = Some b' \<and> bitmap_ok b' \<and> bit_cnt b' = bit_cnt b \<and> bitmap_used b' = bitmap_used b - unat ` set ss"
proof (induction ss arbitrary: b)
  case (Cons s ss)
  obtain b1 where b1: "free_map_release f (unat s) 1 b = Some b1" "bitmap_ok b1" "bit_cnt b1 = bit_cnt b"
    "bitmap_used b1 = bitmap_used b - {unat s}" using release_one [OF Cons.prems(1, 2), of "unat s"] Cons.prems(4) by auto
  have "unat s \<notin> unat ` set ss" using Cons.prems(3) by (auto simp flip: word_unat_eq_iff)
  then have "unat ` set ss \<subseteq> bitmap_used b1" using Cons.prems(4) b1(4) unfolding b1(4) by (simp add: subset_Diff_insert)
  then obtain b' where "release_all f ss b1 = Some b'" "bitmap_ok b'" "bit_cnt b' = bit_cnt b1" "bitmap_used b' = bitmap_used b1 - unat ` set ss"
    using Cons.IH [OF b1(2) Cons.prems(2)] Cons.prems(3) by auto
  then show ?case using b1 by auto
qed simp

section \<open>Examples\<close>

text \<open>A file of 600 bytes in sectors 2 and 3, open.\<close>

definition ex_data :: inode_disk where
  "ex_data = \<lparr>inode_i = 1, data_length = 600, magic = 0x494e4f44, isdir = False,
     direct_block = [2, 3] @ replicate 120 0, indirect_block = 0, doubly_indirect_block = 0\<rparr>"

definition ex_fs :: filesys where
  "ex_fs = \<lparr>fs_disk = replicate 4 (replicate 512 0), free_map = \<lparr>bit_cnt = 4, bits = [15]\<rparr>, free_map_file = None,
     open_inodes = [\<lparr>sector = 1, open_cnt = 1, removed = False, deny_write_cnt = 0, data = ex_data, inode_id = 1\<rparr>],
     next_iid = 2, indirect_sec_idx = [], doubly_sec_parent = [], doubly_sec_idx = []\<rparr>"

lemma ex_inode: "get_inode ex_fs 1 = Some \<lparr>sector = 1, open_cnt = 1, removed = False, deny_write_cnt = 0, data = ex_data, inode_id = 1\<rparr>"
  by (simp add: get_inode_def ex_fs_def)

lemma ex_blocks: "k \<le> 1 \<Longrightarrow> block_sector d ex_data k = Some (if k = 0 then 2 else 3) \<and> index_sectors d ex_data k = {}"
  by (cases k) (auto simp: block_sector_def index_sectors_def nth_at_def ex_data_def)

lemma ex_writable: "writable (fs_disk ex_fs) ex_data"
proof -
  have n: "len ex_data = 600" by (simp add: ex_data_def)
  have k: "k \<le> 1" if "512 * k < (600 :: nat)" for k using that by simp
  have sec: "block_sector (fs_disk ex_fs) ex_data k = Some s \<Longrightarrow> s = (if k = 0 then 2 else 3)" if "k \<le> 1" for k s
    using ex_blocks [OF that, of "fs_disk ex_fs"] by simp
  have "length (fs_disk ex_fs ! t) = 512" if "t < 4" for t using that by (simp add: ex_fs_def)
  then have "unat s < length (fs_disk ex_fs) \<and> s < 2 ^ 28 \<and> length (fs_disk ex_fs ! unat s) = 512"
    if "512 * k < (600 :: nat)" "block_sector (fs_disk ex_fs) ex_data k = Some s" for k s
    using sec [OF k [OF that(1)] that(2)] by (simp add: ex_fs_def)
  moreover have "block_sector (fs_disk ex_fs) ex_data k \<noteq> None" if "k \<le> 600 div 512" for k
    using ex_blocks [of k "fs_disk ex_fs"] that by simp
  ultimately have rd: "readable (fs_disk ex_fs) ex_data"
    unfolding readable_def n by (simp add: max_blocks_def ex_data_def)
  have "k = j" if "512 * k < (600 :: nat)" "512 * j < (600 :: nat)" "block_sector (fs_disk ex_fs) ex_data k = Some s"
      "block_sector (fs_disk ex_fs) ex_data j = Some s" for k j s
    using sec [OF k [OF that(1)] that(3)] sec [OF k [OF that(2)] that(4)] k [OF that(1)] k [OF that(2)]
    by (cases "k = 0"; cases "j = 0") simp_all
  moreover have "s \<notin> index_sectors (fs_disk ex_fs) ex_data j" if "j \<le> 600 div 512" for j and s :: disk_sector
    using ex_blocks [of j "fs_disk ex_fs"] that by simp
  ultimately show ?thesis using rd unfolding writable_def n by blast
qed

lemma ex_readable: "readable (fs_disk ex_fs) ex_data"
  using ex_writable by (simp add: writable_def)

text \<open>A removed file of 123 blocks on a full disk of 160 sectors.\<close>

definition ex_big :: inode_disk where
  "ex_big = \<lparr>inode_i = 1, data_length = 62965, magic = 0x494e4f44, isdir = False,
     direct_block = map of_nat [2..<124], indirect_block = 130, doubly_indirect_block = 0\<rparr>"

definition ex_table :: "32 word list" where
  "ex_table = 131 # 0 # replicate 126 0"

definition ex_big_inode :: inode where
  "ex_big_inode = \<lparr>sector = 1, open_cnt = 1, removed = True, deny_write_cnt = 0, data = ex_big, inode_id = 1\<rparr>"

definition ex_big_fs :: filesys where
  "ex_big_fs = \<lparr>fs_disk = (replicate 160 zeros)[130 := words_sector ex_table], free_map = \<lparr>bit_cnt = 160, bits = replicate 5 (- 1)\<rparr>,
     free_map_file = Some length, open_inodes = [ex_big_inode],
     next_iid = 2, indirect_sec_idx = [], doubly_sec_parent = [], doubly_sec_idx = []\<rparr>"

lemma ex_big_used: "bitmap_used (free_map ex_big_fs) = {..<160}"
  by (auto simp: bitmap_used_def ex_big_fs_def bit_at_def)

lemma write_then_read:
  assumes "get_inode fs p = Some n" "writable (fs_disk fs) (data n)" "deny_write_cnt n = 0"
    "pos + length buffer \<le> len (data n)"
  shows "\<exists>fs'. (\<forall>q. get_inode fs' q = get_inode fs q) \<and> inode_write_at True p buffer (int (length buffer)) (int pos) fs = Some (int (length buffer), fs') \<and>
    inode_read_at True fs' p (int (length buffer)) (int pos) = Some buffer \<and>
    (\<forall>i < len (data n). i < pos \<or> pos + length buffer \<le> i \<longrightarrow>
       file_byte (fs_disk fs') (data n) i = file_byte (fs_disk fs) (data n) i)"
proof -
  let ?di = "data n"
  obtain d' where d': "write_loop True (fs_disk fs) ?di no_cache buffer (int (length buffer)) (int pos) 0 = Some (d', int (length buffer))"
    "writable d' ?di" "\<forall>i < len ?di. file_byte d' ?di i = overlay buffer 0 pos (length buffer) (file_byte (fs_disk fs) ?di) i"
    using write_loop_spec [OF assms(2) no_cache_ok assms(4), of 0 buffer] by auto
  let ?fs = "fs\<lparr>fs_disk := d'\<rparr>"
  have rd: "readable (fs_disk fs) ?di" "readable d' ?di" using assms(2) d'(2) by (simp_all add: writable_def)
  have "s32 (int pos + int (length buffer)) = int pos + int (length buffer)"
    using rd(1) assms(4) by (intro s32_id) (auto simp: readable_def)
  then have ng: "\<not> data_length ?di < s32 (int pos + int (length buffer))" using rd(1) assms(4) by (auto simp: readable_def)
  have w: "inode_write_at True p buffer (int (length buffer)) (int pos) fs = Some (int (length buffer), ?fs)"
    using assms(1, 3) d'(1) ng by (simp add: inode_write_at_def)
  have "map (file_byte d' ?di) [pos..<pos + length buffer] = buffer"
    using d'(3) assms(4) by (intro nth_equalityI) (auto simp: overlay_def)
  moreover have "get_inode ?fs p = Some n" using assms(1) by (simp add: get_inode_def)
  ultimately have "inode_read_at True ?fs p (int (length buffer)) (int pos) = Some buffer"
    using read_loop_spec [OF rd(2), of UNIV no_cache pos "length buffer" "[]"] assms(4) by (simp add: inode_read_at_def)
  moreover have "file_byte d' ?di i = file_byte (fs_disk fs) ?di i" if "i < len ?di" "i < pos \<or> pos + length buffer \<le> i" for i
    using d'(3) that by (auto simp: overlay_def)
  moreover have "\<forall>q. get_inode ?fs q = get_inode fs q" by (simp add: get_inode_def)
  ultimately show ?thesis using w by (intro exI [of _ ?fs]) simp
qed

section \<open>Properties\<close>

text \<open>C18. Reading a file returns its bytes. For every readable inode and every position up to the end of
  file, \<open>inode_read_at\<close> returns exactly the bytes from that position on, as many as were asked for or
  as the file has left, through direct, indirect and doubly indirect blocks and although it
  buffers index blocks between iterations.\<close>

theorem inode_read_correct:
  assumes "get_inode fs p = Some n" "readable (fs_disk fs) (data n)" "pos \<le> len (data n)"
  shows "inode_read_at True fs p (int sz) (int pos) =
    Some (map (file_byte (fs_disk fs) (data n)) [pos..<min (pos + sz) (len (data n))])"
  using read_loop_spec [OF assms(2), of UNIV no_cache pos sz "[]"] assms(1, 3) by (simp add: inode_read_at_def)

theorem inode_read_correct_witness:
  "inode_read_at True ex_fs 1 100 590 = Some (map (file_byte (fs_disk ex_fs) ex_data) [590..<600])"
  using inode_read_correct [OF ex_inode, of 590 100] ex_readable by (simp add: ex_data_def)

text \<open>C3. What is written to a file is read back. Writing inside a writable file transfers all bytes, the
  following read of the same range returns them, and every other byte of the file keeps its value.\<close>

theorem inode_write_read:
  assumes "get_inode fs p = Some n" "writable (fs_disk fs) (data n)" "deny_write_cnt n = 0"
    "pos + length buffer \<le> len (data n)"
  shows "\<exists>fs'. inode_write_at True p buffer (int (length buffer)) (int pos) fs = Some (int (length buffer), fs') \<and>
    inode_read_at True fs' p (int (length buffer)) (int pos) = Some buffer \<and>
    (\<forall>i < len (data n). i < pos \<or> pos + length buffer \<le> i \<longrightarrow>
       file_byte (fs_disk fs') (data n) i = file_byte (fs_disk fs) (data n) i)"
  using write_then_read [OF assms] by blast

theorem inode_write_read_witness:
  "\<exists>fs'. inode_write_at True 1 [7, 8, 9] 3 510 ex_fs = Some (3, fs') \<and> inode_read_at True fs' 1 3 510 = Some [7, 8, 9]"
  using inode_write_read [OF ex_inode, of 510 "[7, 8, 9]"] ex_writable by (auto simp: ex_data_def)

text \<open>Closing a removed file of 123 blocks frees one block too many. When the last opener closes it,
  \<open>inode_close\<close> releases the indirect block and two entries of it although only one is in use;
  an unused entry is zero, so the sector of the free map's own inode is marked free.\<close>

theorem inode_close_frees_sector_zero:
  assumes "get_inode fs p = Some n" "removed n" "open_cnt n = 1" "free_map_file fs \<noteq> None" "bitmap_ok (free_map fs)"
    and len: "122 * 512 < data_length (data n)" "data_length (data n) \<le> 123 * 512"
    and table: "disk_read (fs_disk fs) (indirect_block (data n)) = Some bs" "sector_words bs = e # 0 # es"
    and blocks: "length (direct_block (data n)) = 122" "distinct (direct_block (data n) @ [indirect_block (data n), e, 0])"
      "unat ` set (direct_block (data n) @ [indirect_block (data n), e, 0]) \<subseteq> bitmap_used (free_map fs)"
  shows "\<exists>fs'. inode_close (Some p) fs = Some (True, fs') \<and> FREE_MAP_SECTOR \<in> bitmap_used (free_map fs) \<and>
    FREE_MAP_SECTOR \<notin> bitmap_used (free_map fs')"
proof -
  let ?di = "data n" and ?f = "free_map_file fs" and ?b = "free_map fs"
  define l where "l = nat (data_length ?di)"
  have l: "data_length ?di = int l" "122 * 512 < l" "l \<le> 123 * 512" using len by (simp_all add: l_def)
  have nb: "nat (data_length ?di sdiv 512 + (if data_length ?di smod 512 \<noteq> 0 then 1 else 0)) = 123"
  proof -
    have "l div 512 + (if l mod 512 \<noteq> 0 then 1 else 0) = 123"
    proof (cases "l mod 512 = 0")
      case True
      then obtain q where "l = 512 * q" by (auto simp: mod_eq_0_iff_dvd elim: dvdE)
      then show ?thesis using l True by simp
    next
      case False
      then have "l \<noteq> 123 * 512" by auto
      then have "l div 512 = 122" using l by (intro div_nat_eqI) auto
      then show ?thesis using False by simp
    qed
    then show ?thesis unfolding l(1) by (auto split: if_splits)
  qed
  obtain b1 where b1: "release_all ?f (direct_block ?di) ?b = Some b1" "bitmap_ok b1" "bit_cnt b1 = bit_cnt ?b"
    "bitmap_used b1 = bitmap_used ?b - unat ` set (direct_block ?di)"
    using release_all_spec [OF assms(5, 4), of "direct_block ?di"] blocks(2, 3) by auto
  have disj: "unat x \<notin> unat ` set (direct_block ?di)" if "x \<notin> set (direct_block ?di)" for x
    using that by (auto simp flip: word_unat_eq_iff)
  have "unat (indirect_block ?di) \<in> bitmap_used b1"
    using b1(4) blocks(2, 3) disj [of "indirect_block ?di"] by auto
  then obtain b2 where b2: "free_map_release ?f (unat (indirect_block ?di)) 1 b1 = Some b2" "bitmap_ok b2" "bit_cnt b2 = bit_cnt b1"
    "bitmap_used b2 = bitmap_used b1 - {unat (indirect_block ?di)}" using release_one [OF b1(2) assms(4)] by blast
  have "unat ` set [e, 0] \<subseteq> bitmap_used b2"
    using b1(4) b2(4) blocks(2, 3) disj [of e] disj [of 0] by (auto simp: unat_gt_0 simp flip: word_unat_eq_iff)
  then obtain b3 where b3: "release_all ?f [e, 0] b2 = Some b3" "bitmap_used b3 = bitmap_used b2 - unat ` set [e, 0]"
    using release_all_spec [OF b2(2) assms(4), of "[e, 0]"] blocks(2) by auto
  define fs1 where "fs1 = fs\<lparr>open_inodes := filter (\<lambda>i. sector i \<noteq> p) (open_inodes fs)\<rparr>"
  have sel: "fs_disk fs1 = fs_disk fs" "free_map fs1 = ?b" "free_map_file fs1 = ?f" by (simp_all add: fs1_def)
  have "release_blocks ?di fs1 = Some (fs1\<lparr>free_map := b3\<rparr>)"
    unfolding release_blocks_def nb sel Let_def
    using b1(1) b2(1) b3(1) table blocks(1) by (simp add: entries_def del: release_all.simps)
  then have "inode_close (Some p) fs = Some (True, fs1\<lparr>free_map := b3\<rparr>)"
    using assms(1-3) by (simp add: inode_close_def fs1_def [symmetric])
  moreover have "0 \<in> bitmap_used ?b" using blocks(3) by auto
  ultimately show ?thesis using b3(2) by auto
qed

theorem inode_close_frees_sector_zero_witness:
  "\<exists>fs'. inode_close (Some 1) ex_big_fs = Some (True, fs') \<and> 0 \<in> bitmap_used (free_map ex_big_fs) \<and>
    0 \<notin> bitmap_used (free_map fs')"
proof (rule inode_close_frees_sector_zero)
  show "get_inode ex_big_fs 1 = Some ex_big_inode" by (simp add: get_inode_def ex_big_fs_def ex_big_inode_def)
  show "bitmap_ok (free_map ex_big_fs)" by (simp add: bitmap_ok_def ex_big_fs_def)
  show "disk_read (fs_disk ex_big_fs) (indirect_block (data ex_big_inode)) = Some (words_sector ex_table)"
    by (simp add: disk_read_def ex_big_fs_def ex_big_inode_def ex_big_def)
  show "sector_words (words_sector ex_table) = 131 # 0 # replicate 126 0"
    by (simp only: sector_words_def words_sector_def bytes_elems_inverse ex_table_def)
  have u: "unat (of_nat i :: 32 word) = i" if "i < 124" for i using that by (intro unat_of_nat_less) simp
  have inj: "inj_on (of_nat :: nat \<Rightarrow> 32 word) (set [2..<124])" by (rule inj_onI) (metis atLeastLessThan_iff set_upt u)
  have nm: "x \<notin> of_nat ` {2..<124 :: nat}" if "unat x = 0 \<or> 124 \<le> unat x" for x :: "32 word" using that u by force
  show "distinct (direct_block (data ex_big_inode) @ [indirect_block (data ex_big_inode), 131, 0])"
    using inj nm [of 130] nm [of 131] nm [of 0] by (simp add: ex_big_inode_def ex_big_def distinct_map del: upt_rec_numeral)
  show "unat ` set (direct_block (data ex_big_inode) @ [indirect_block (data ex_big_inode), 131, 0]) \<subseteq> bitmap_used (free_map ex_big_fs)"
    unfolding ex_big_used using u by (auto simp: ex_big_inode_def ex_big_def simp del: upt_rec_numeral)
qed (simp_all add: ex_big_fs_def ex_big_inode_def ex_big_def del: upt_rec_numeral)

end
