(* ===== verification/File.thy ===== *)
theory File
  imports Inode
begin

text \<open>
  Open files, \<open>filesys/file.c\<close>: an inode, a position and whether this file denies writes to its inode.
  Reading returns the bytes read, their number is the result of the C function. Then the protection of
  executables: how the counters of an inode follow the files that are open on it, as a step relation
  over a file system and the files that are open.
\<close>

section \<open>Operations\<close>

record open_file =
  file_inode :: disk_sector
  file_pos :: int
  deny_write :: bool

text \<open>\<open>mem_ok\<close> says whether \<open>calloc\<close> succeeds; the result is the file, \<open>None\<close> the null pointer.\<close>

definition file_open :: "bool \<Rightarrow> disk_sector option \<Rightarrow> filesys \<Rightarrow> (open_file option \<times> filesys) option" where
  "file_open mem_ok inode fs =
     (case inode of
        Some p \<Rightarrow> if mem_ok then Some (Some \<lparr>file_inode = p, file_pos = 0, deny_write = False\<rparr>, fs)
                  else do { (_, fs) \<leftarrow> inode_close (Some p) fs; Some (None, fs) }
      | None \<Rightarrow> do { (_, fs) \<leftarrow> inode_close None fs; Some (None, fs) })"

definition file_reopen :: "bool \<Rightarrow> open_file \<Rightarrow> filesys \<Rightarrow> (open_file option \<times> filesys) option" where
  "file_reopen mem_ok f fs = do { fs \<leftarrow> inode_reopen (file_inode f) fs; file_open mem_ok (Some (file_inode f)) fs }"

definition file_deny_write :: "open_file \<Rightarrow> filesys \<Rightarrow> (open_file \<times> filesys) option" where
  "file_deny_write f fs =
     (if \<not> deny_write f then do { fs \<leftarrow> inode_deny_write (file_inode f) fs; Some (f\<lparr>deny_write := True\<rparr>, fs) }
      else Some (f, fs))"

definition file_allow_write :: "open_file \<Rightarrow> filesys \<Rightarrow> (open_file \<times> filesys) option" where
  "file_allow_write f fs =
     (if deny_write f then do { fs \<leftarrow> inode_allow_write (file_inode f) fs; Some (f\<lparr>deny_write := False\<rparr>, fs) }
      else Some (f, fs))"

definition file_close :: "open_file option \<Rightarrow> filesys \<Rightarrow> filesys option" where
  "file_close f fs =
     (case f of None \<Rightarrow> Some fs
      | Some f \<Rightarrow> do {
          (f, fs) \<leftarrow> file_allow_write f fs;
          (_, fs) \<leftarrow> inode_close (Some (file_inode f)) fs;
          Some fs
        })"

definition file_get_inode :: "open_file \<Rightarrow> disk_sector" where
  "file_get_inode f = file_inode f"

definition file_read :: "bool \<Rightarrow> open_file \<Rightarrow> int \<Rightarrow> filesys \<Rightarrow> (byte list \<times> open_file) option" where
  "file_read mem_ok f sz fs = do {
     bs \<leftarrow> inode_read_at mem_ok fs (file_inode f) sz (file_pos f);
     Some (bs, f\<lparr>file_pos := s32 (file_pos f + int (length bs))\<rparr>)
   }"

definition file_read_at :: "bool \<Rightarrow> open_file \<Rightarrow> int \<Rightarrow> int \<Rightarrow> filesys \<Rightarrow> byte list option" where
  "file_read_at mem_ok f sz ofs fs = inode_read_at mem_ok fs (file_inode f) sz ofs"

definition file_write :: "bool \<Rightarrow> open_file \<Rightarrow> byte list \<Rightarrow> int \<Rightarrow> filesys \<Rightarrow> (int \<times> open_file \<times> filesys) option" where
  "file_write mem_ok f buffer sz fs = do {
     (written, fs) \<leftarrow> inode_write_at mem_ok (file_inode f) buffer sz (file_pos f) fs;
     Some (written, f\<lparr>file_pos := s32 (file_pos f + written)\<rparr>, fs)
   }"

definition file_write_at :: "bool \<Rightarrow> open_file \<Rightarrow> byte list \<Rightarrow> int \<Rightarrow> int \<Rightarrow> filesys \<Rightarrow> (int \<times> filesys) option" where
  "file_write_at mem_ok f buffer sz ofs fs = inode_write_at mem_ok (file_inode f) buffer sz ofs fs"

definition file_length :: "open_file \<Rightarrow> filesys \<Rightarrow> int option" where
  "file_length f fs = do { n \<leftarrow> get_inode fs (file_inode f); Some (inode_length n) }"

definition file_seek :: "open_file \<Rightarrow> int \<Rightarrow> open_file option" where
  "file_seek f new_pos = do { ASSERT (new_pos \<ge> 0); Some (f\<lparr>file_pos := new_pos\<rparr>) }"

definition file_tell :: "open_file \<Rightarrow> int" where
  "file_tell f = file_pos f"

section \<open>Files that are open\<close>

text \<open>One call of the interface by some user of the file system. A call that stops the kernel is no step.\<close>

inductive file_step :: "filesys \<times> open_file list \<Rightarrow> filesys \<times> open_file list \<Rightarrow> bool" where
  step_open: "inode_open m sec fs = Some (p, fs1) \<Longrightarrow> file_open m' p fs1 = Some (r, fs2) \<Longrightarrow>
    file_step (fs, fl) (fs2, (case r of None \<Rightarrow> fl | Some f \<Rightarrow> f # fl))"
| step_reopen: "f \<in> set fl \<Longrightarrow> file_reopen m f fs = Some (r, fs') \<Longrightarrow>
    file_step (fs, fl) (fs', (case r of None \<Rightarrow> fl | Some f \<Rightarrow> f # fl))"
| step_close: "file_close (Some f) fs = Some fs' \<Longrightarrow> file_step (fs, xs @ f # ys) (fs', xs @ ys)"
| step_deny: "file_deny_write f fs = Some (f', fs') \<Longrightarrow> file_step (fs, xs @ f # ys) (fs', xs @ f' # ys)"
| step_allow: "file_allow_write f fs = Some (f', fs') \<Longrightarrow> file_step (fs, xs @ f # ys) (fs', xs @ f' # ys)"
| step_read: "file_read m f sz fs = Some (bs, f') \<Longrightarrow> file_step (fs, xs @ f # ys) (fs, xs @ f' # ys)"
| step_write: "file_write m f buffer sz fs = Some (n, f', fs') \<Longrightarrow> file_step (fs, xs @ f # ys) (fs', xs @ f' # ys)"
| step_seek: "file_seek f p = Some f' \<Longrightarrow> file_step (fs, xs @ f # ys) (fs, xs @ f' # ys)"
| step_remove: "f \<in> set fl \<Longrightarrow> inode_remove (file_inode f) fs = Some fs' \<Longrightarrow> file_step (fs, fl) (fs', fl)"

text \<open>The number of files on an inode, and of those that deny writes.\<close>

definition opens :: "disk_sector \<Rightarrow> open_file list \<Rightarrow> int" where
  "opens p fl = int (length (filter (\<lambda>f. file_inode f = p) fl))"

definition denials :: "disk_sector \<Rightarrow> open_file list \<Rightarrow> int" where
  "denials p fl = int (length (filter (\<lambda>f. file_inode f = p \<and> deny_write f) fl))"

text \<open>The counters of the open inodes are these numbers, and an inode is open when some file is.\<close>

definition counted :: "filesys \<times> open_file list \<Rightarrow> bool" where
  "counted = (\<lambda>(fs, fl). \<forall>p. case get_inode fs p of
     None \<Rightarrow> opens p fl = 0
   | Some n \<Rightarrow> open_cnt n = opens p fl \<and> deny_write_cnt n = denials p fl \<and> 0 < opens p fl)"

section \<open>The table of open inodes\<close>

lemma get_inode_sector: "get_inode fs p = Some n \<Longrightarrow> sector n = p"
  by (auto simp: get_inode_def find_Some_iff)

lemma find_map_update:
  "find (\<lambda>i. sector i = q) (map (\<lambda>i. if sector i = sector n then n else i) is') =
   (if q = sector n then map_option (\<lambda>_. n) (find (\<lambda>i. sector i = q) is') else find (\<lambda>i. sector i = q) is')"
  by (induction is') auto

lemma get_set_inode: "get_inode (set_inode n fs) q = (if q = sector n then map_option (\<lambda>_. n) (get_inode fs q) else get_inode fs q)"
  by (simp add: get_inode_def set_inode_def find_map_update)

lemma get_inode_disk [simp]: "get_inode (fs\<lparr>fs_disk := d\<rparr>) p = get_inode fs p" "get_inode (fs\<lparr>free_map := b\<rparr>) p = get_inode fs p"
  by (simp_all add: get_inode_def)

lemma find_filter_other: "find (\<lambda>i. sector i = q) (filter (\<lambda>i. sector i \<noteq> p) is') = (if q = p then None else find (\<lambda>i. sector i = q) is')"
  by (induction is') auto

lemma opens_simps [simp]:
  "opens p [] = 0" "opens p (f # fl) = (if file_inode f = p then 1 else 0) + opens p fl" "opens p (xs @ ys) = opens p xs + opens p ys"
  by (simp_all add: opens_def)

lemma denials_simps [simp]:
  "denials p [] = 0" "denials p (f # fl) = (if file_inode f = p \<and> deny_write f then 1 else 0) + denials p fl" "denials p (xs @ ys) = denials p xs + denials p ys"
  by (simp_all add: denials_def)

lemma opens_nonneg: "0 \<le> opens p fl" "0 \<le> denials p fl"
  by (simp_all add: opens_def denials_def)

lemma denials_le_opens: "denials p fl \<le> opens p fl"
  by (induction fl) auto

lemma opens_pos: "f \<in> set fl \<Longrightarrow> 0 < opens (file_inode f) fl"
  by (auto simp: opens_def filter_empty_conv)

section \<open>What the calls do to the counters\<close>

lemma inode_reopen_get:
  assumes "inode_reopen p fs = Some fs'"
  shows "\<exists>n. get_inode fs p = Some n \<and> (\<forall>q. get_inode fs' q = (if q = p then Some (n\<lparr>open_cnt := open_cnt n + 1\<rparr>) else get_inode fs q))"
  using assms by (auto simp: inode_reopen_def get_set_inode bind_eq_Some_conv dest: get_inode_sector)

lemma inode_open_get:
  assumes "inode_open m p fs = Some (r, fs')"
  shows "r = None \<and> fs' = fs \<or> r = Some p \<and> (\<exists>n. get_inode fs p = Some n \<and> (\<forall>q. get_inode fs' q = (if q = p then Some (n\<lparr>open_cnt := open_cnt n + 1\<rparr>) else get_inode fs q))) \<or>
    r = Some p \<and> get_inode fs p = None \<and> (\<exists>n. open_cnt n = 1 \<and> deny_write_cnt n = 0 \<and> (\<forall>q. get_inode fs' q = (if q = p then Some n else get_inode fs q)))"
proof (cases "get_inode fs p")
  case None
  show ?thesis
  proof (cases m)
    case True
    then obtain bs where "r = Some p" "fs' = fs\<lparr>open_inodes := \<lparr>sector = p, open_cnt = 1, removed = False, deny_write_cnt = 0,
        data = decode_inode bs, inode_id = inode_i (decode_inode bs)\<rparr> # open_inodes fs\<rparr>"
      using assms None by (auto simp: inode_open_def bind_eq_Some_conv Let_def)
    then show ?thesis using None by (auto simp: get_inode_def)
  qed (use assms None in \<open>simp add: inode_open_def\<close>)
next
  case (Some n)
  then show ?thesis using assms inode_reopen_get by (fastforce simp: inode_open_def bind_eq_Some_conv)
qed

lemma release_blocks_get:
  assumes "release_blocks di fs = Some fs'"
  shows "get_inode fs' q = get_inode fs q"
proof -
  obtain b where "fs' = fs\<lparr>free_map := b\<rparr>" using assms by (auto simp: release_blocks_def Let_def bind_eq_Some_conv)
  then show ?thesis by simp
qed

lemma inode_close_get:
  assumes "inode_close (Some p) fs = Some (r, fs')"
  shows "\<exists>n. get_inode fs p = Some n \<and> (\<forall>q. get_inode fs' q =
    (if q = p then if open_cnt n = 1 then None else Some (n\<lparr>open_cnt := open_cnt n - 1\<rparr>) else get_inode fs q))"
proof -
  obtain n where n: "get_inode fs p = Some n" using assms by (auto simp: inode_close_def bind_eq_Some_conv)
  let ?fs = "fs\<lparr>open_inodes := filter (\<lambda>i. sector i \<noteq> p) (open_inodes fs)\<rparr>"
  have f: "get_inode ?fs q = (if q = p then None else get_inode fs q)" for q by (simp add: get_inode_def find_filter_other)
  show ?thesis
  proof (cases "open_cnt n = 1")
    case True
    then have "fs' = ?fs \<or> release_blocks (data n) ?fs = Some fs'"
      using assms n by (auto simp: inode_close_def Let_def bind_eq_Some_conv split: if_splits)
    then show ?thesis using n True f release_blocks_get by fastforce
  next
    case False
    then have "fs' = set_inode (n\<lparr>open_cnt := open_cnt n - 1\<rparr>) fs" using assms n by (simp add: inode_close_def Let_def)
    then show ?thesis using n False get_inode_sector [OF n] by (simp add: get_set_inode)
  qed
qed

lemma grow_get:
  assumes "grow n sz ofs fs = Some (di, fs')" "get_inode fs (sector n) = Some n"
  shows "get_inode fs' q = (if q = sector n then Some (n\<lparr>data := di\<rparr>) else get_inode fs q)"
proof -
  have p: "get_inode (put_index_fs x fs) q = get_inode fs q" "get_inode (clear_buffers fs) q = get_inode fs q" for x fs q
    by (simp_all add: get_inode_def put_index_fs_def clear_buffers_def)
  have a: "open_inodes fs2 = open_inodes fs1" if "add_blocks d new old fs1 = Some (di', fs2)" for d new old fs1 di' fs2
    using that by (auto simp: add_blocks_def Let_def bind_eq_Some_conv put_index_fs_def split: if_splits)
  obtain di1 fs1 d d' where g: "add_blocks (data n) (s32 (ofs + sz)) (data_length (data n)) fs = Some (di1, fs1) \<or> fs1 = fs"
    and fs': "fs' = set_inode (n\<lparr>data := di\<rparr>) ((clear_buffers (fs1\<lparr>fs_disk := d\<rparr>))\<lparr>fs_disk := d'\<rparr>)"
    using assms(1) by (auto simp: grow_def Let_def bind_eq_Some_conv split: if_splits)
  have "get_inode fs1 r = get_inode fs r" for r using g a by (auto simp: get_inode_def)
  then show ?thesis using assms(2) unfolding fs' get_set_inode by (simp add: p)
qed

lemma inode_write_get:
  assumes "inode_write_at m p buffer sz ofs fs = Some (w, fs')"
  shows "\<exists>n. get_inode fs p = Some n \<and> (\<exists>di. \<forall>q. get_inode fs' q = (if q = p then Some (n\<lparr>data := di\<rparr>) else get_inode fs q)) \<and>
    (deny_write_cnt n \<noteq> 0 \<longrightarrow> w = 0 \<and> fs' = fs)"
proof -
  obtain n where n: "get_inode fs p = Some n" using assms by (auto simp: inode_write_at_def bind_eq_Some_conv)
  have same: "get_inode fs q = (if q = p then Some (n\<lparr>data := data n\<rparr>) else get_inode fs q)" for q using n by simp
  show ?thesis
  proof (cases "deny_write_cnt n = 0")
    case False
    then have "w = 0" "fs' = fs" using assms n by (simp_all add: inode_write_at_def)
    then show ?thesis using n same by blast
  next
    case True
    then obtain di fs1 d where w: "(if data_length (data n) < s32 (ofs + sz) then grow n sz ofs fs else Some (data n, fs)) = Some (di, fs1)"
      "fs' = fs1\<lparr>fs_disk := d\<rparr>"
      using assms n by (auto simp: inode_write_at_def bind_eq_Some_conv)
    have "get_inode fs1 q = (if q = p then Some (n\<lparr>data := di\<rparr>) else get_inode fs q)" for q
    proof (cases "data_length (data n) < s32 (ofs + sz)")
      case True
      then show ?thesis using w(1) grow_get [of n sz ofs fs di fs1 q] n get_inode_sector [OF n] by simp
    next
      case False
      then have "di = data n" "fs1 = fs" using w(1) by simp_all
      then show ?thesis using n by simp
    qed
    then have "get_inode fs' q = (if q = p then Some (n\<lparr>data := di\<rparr>) else get_inode fs q)" for q unfolding w(2) get_inode_disk .
    then show ?thesis using n True by blast
  qed
qed

section \<open>The counters follow the files\<close>

lemma countedD:
  assumes "counted (fs, fl)"
  shows "get_inode fs p = Some n \<Longrightarrow> open_cnt n = opens p fl \<and> deny_write_cnt n = denials p fl \<and> 0 < opens p fl"
    "get_inode fs p = None \<Longrightarrow> opens p fl = 0"
  using assms [unfolded counted_def, simplified, rule_format, of p] by simp_all

lemma countedI:
  assumes "\<And>p n. get_inode fs p = Some n \<Longrightarrow> open_cnt n = opens p fl \<and> deny_write_cnt n = denials p fl \<and> 0 < opens p fl"
    "\<And>p. get_inode fs p = None \<Longrightarrow> opens p fl = 0"
  shows "counted (fs, fl)"
  using assms by (auto simp: counted_def split: option.split)

lemma denials_0: "opens p fl = 0 \<Longrightarrow> denials p fl = 0"
  using denials_le_opens [of p fl] opens_nonneg [of p fl] by linarith

text \<open>One inode changes and with it the files on it.\<close>

lemma counted_one:
  assumes "counted (fs, fl)" and get: "\<And>q. q \<noteq> p \<Longrightarrow> get_inode fs' q = get_inode fs q"
    and same: "\<And>q. q \<noteq> p \<Longrightarrow> opens q fl' = opens q fl \<and> denials q fl' = denials q fl"
    and new: "case get_inode fs' p of None \<Rightarrow> opens p fl' = 0 | Some n \<Rightarrow> open_cnt n = opens p fl' \<and> deny_write_cnt n = denials p fl' \<and> 0 < opens p fl'"
  shows "counted (fs', fl')"
proof (rule countedI)
  fix q n assume "get_inode fs' q = Some n"
  then show "open_cnt n = opens q fl' \<and> deny_write_cnt n = denials q fl' \<and> 0 < opens q fl'"
    using countedD(1) [OF assms(1), of q n] get [of q] same [of q] new by (cases "q = p") auto
next
  fix q assume "get_inode fs' q = None"
  then show "opens q fl' = 0" using countedD(2) [OF assms(1), of q] get [of q] same [of q] new by (cases "q = p") auto
qed

lemma counted_reopen:
  assumes "counted (fs, fl)" "inode_reopen p fs = Some fs1"
  shows "counted (fs1, \<lparr>file_inode = p, file_pos = 0, deny_write = False\<rparr> # fl)"
proof -
  obtain n where n: "get_inode fs p = Some n" "\<forall>q. get_inode fs1 q = (if q = p then Some (n\<lparr>open_cnt := open_cnt n + 1\<rparr>) else get_inode fs q)"
    using inode_reopen_get [OF assms(2)] by blast
  show ?thesis by (rule counted_one [OF assms(1), where p = p]) (use n countedD(1) [OF assms(1) n(1)] in auto)
qed

lemma counted_inode_open:
  assumes "counted (fs, fl)" "inode_open m p fs = Some (Some p', fs1)"
  shows "p' = p \<and> counted (fs1, \<lparr>file_inode = p, file_pos = 0, deny_write = False\<rparr> # fl)"
proof -
  consider n where "p' = p" "get_inode fs p = Some n" "\<forall>q. get_inode fs1 q = (if q = p then Some (n\<lparr>open_cnt := open_cnt n + 1\<rparr>) else get_inode fs q)"
    | n where "p' = p" "get_inode fs p = None" "open_cnt n = 1" "deny_write_cnt n = 0" "\<forall>q. get_inode fs1 q = (if q = p then Some n else get_inode fs q)"
    using inode_open_get [OF assms(2)] by auto
  then show ?thesis
  proof cases
    case 1
    have "counted (fs1, \<lparr>file_inode = p, file_pos = 0, deny_write = False\<rparr> # fl)"
      by (rule counted_one [OF assms(1), where p = p]) (use 1 countedD(1) [OF assms(1) 1(2)] in auto)
    then show ?thesis using 1 by simp
  next
    case 2
    have "counted (fs1, \<lparr>file_inode = p, file_pos = 0, deny_write = False\<rparr> # fl)"
      by (rule counted_one [OF assms(1), where p = p]) (use 2 countedD(2) [OF assms(1) 2(2)] denials_0 [of p fl] in auto)
    then show ?thesis using 2 by simp
  qed
qed

lemma counted_inode_close:
  assumes "counted (fs, xs @ f # ys)" "\<not> deny_write f" "inode_close (Some (file_inode f)) fs = Some (r, fs')"
  shows "counted (fs', xs @ ys)"
proof -
  obtain n where n: "get_inode fs (file_inode f) = Some n"
    "\<forall>q. get_inode fs' q = (if q = file_inode f then if open_cnt n = 1 then None else Some (n\<lparr>open_cnt := open_cnt n - 1\<rparr>) else get_inode fs q)"
    using inode_close_get [OF assms(3)] by blast
  show ?thesis
    by (rule counted_one [OF assms(1), where p = "file_inode f"])
      (use n countedD(1) [OF assms(1) n(1)] assms(2) opens_nonneg [of "file_inode f" "xs @ ys"] in auto)
qed

lemma counted_file_open:
  assumes "counted (fs1, \<lparr>file_inode = p, file_pos = 0, deny_write = False\<rparr> # fl)" "file_open m (Some p) fs1 = Some (r, fs2)"
  shows "counted (fs2, (case r of None \<Rightarrow> fl | Some f \<Rightarrow> f # fl))"
proof (cases m)
  case False
  then obtain r' where "inode_close (Some p) fs1 = Some (r', fs2)" "r = None" using assms(2) by (auto simp: file_open_def bind_eq_Some_conv)
  then show ?thesis using counted_inode_close [of fs1 "[]" "\<lparr>file_inode = p, file_pos = 0, deny_write = False\<rparr>" fl] assms(1) by auto
qed (use assms in \<open>auto simp: file_open_def\<close>)

lemma set_inode_get:
  assumes "get_inode fs p = Some n" "sector n' = sector n"
  shows "get_inode (set_inode n' fs) q = (if q = p then Some n' else get_inode fs q)"
  using assms get_inode_sector [OF assms(1)] by (simp add: get_set_inode)

lemma counted_deny:
  assumes "counted (fs, xs @ f # ys)" "file_deny_write f fs = Some (f', fs')"
  shows "counted (fs', xs @ f' # ys)"
proof (cases "deny_write f")
  case False
  then obtain n where n: "get_inode fs (file_inode f) = Some n" "f' = f\<lparr>deny_write := True\<rparr>"
    "fs' = set_inode (n\<lparr>deny_write_cnt := deny_write_cnt n + 1\<rparr>) fs"
    using assms(2) by (auto simp: file_deny_write_def inode_deny_write_def bind_eq_Some_conv Let_def split: if_splits)
  have g: "get_inode fs' q = (if q = file_inode f then Some (n\<lparr>deny_write_cnt := deny_write_cnt n + 1\<rparr>) else get_inode fs q)" for q
    unfolding n(3) by (rule set_inode_get [OF n(1)]) simp
  show ?thesis
    by (rule counted_one [OF assms(1), where p = "file_inode f"]) (use n(2) g countedD(1) [OF assms(1) n(1)] False in auto)
qed (use assms in \<open>simp add: file_deny_write_def\<close>)

lemma counted_allow:
  assumes "counted (fs, xs @ f # ys)" "file_allow_write f fs = Some (f', fs')"
  shows "counted (fs', xs @ f' # ys) \<and> file_inode f' = file_inode f \<and> \<not> deny_write f'"
proof (cases "deny_write f")
  case True
  then obtain n where n: "get_inode fs (file_inode f) = Some n" "f' = f\<lparr>deny_write := False\<rparr>"
    "fs' = set_inode (n\<lparr>deny_write_cnt := deny_write_cnt n - 1\<rparr>) fs"
    using assms(2) by (auto simp: file_allow_write_def inode_allow_write_def bind_eq_Some_conv split: if_splits)
  have g: "get_inode fs' q = (if q = file_inode f then Some (n\<lparr>deny_write_cnt := deny_write_cnt n - 1\<rparr>) else get_inode fs q)" for q
    unfolding n(3) by (rule set_inode_get [OF n(1)]) simp
  have "counted (fs', xs @ f' # ys)"
    by (rule counted_one [OF assms(1), where p = "file_inode f"]) (use n(2) g countedD(1) [OF assms(1) n(1)] True in auto)
  then show ?thesis using n(2) by simp
qed (use assms in \<open>simp add: file_allow_write_def\<close>)

lemma counted_move:
  assumes "counted (fs, xs @ f # ys)" "file_inode f' = file_inode f" "deny_write f' = deny_write f"
  shows "counted (fs, xs @ f' # ys)"
proof -
  have "opens q (xs @ f' # ys) = opens q (xs @ f # ys)" "denials q (xs @ f' # ys) = denials q (xs @ f # ys)" for q
    using assms(2, 3) by simp_all
  then show ?thesis using assms(1) by (simp only: counted_def split_conv simp_thms)
qed

lemma counted_same:
  assumes "counted (fs, fl)" "get_inode fs p = Some n" "open_cnt n' = open_cnt n" "deny_write_cnt n' = deny_write_cnt n"
    "\<forall>q. get_inode fs' q = (if q = p then Some n' else get_inode fs q)"
  shows "counted (fs', fl)"
  by (rule counted_one [OF assms(1), where p = p]) (use assms(3-5) countedD(1) [OF assms(1, 2)] in auto)

lemma counted_step: "file_step s s' \<Longrightarrow> counted s \<Longrightarrow> counted s'"
proof (induction rule: file_step.induct)
  case (step_open m sec fs p fs1 m' r fs2 fl)
  show ?case
  proof (cases p)
    case None
    then have "r = None" "fs2 = fs" using step_open(1, 2) inode_open_get [of m sec fs None fs1] by (auto simp: file_open_def inode_close_def)
    then show ?thesis using step_open(3) by simp
  next
    case (Some p')
    then show ?thesis using step_open counted_inode_open [of fs fl m sec p' fs1] counted_file_open [of fs1 sec fl m' r fs2] by auto
  qed
next
  case (step_reopen f fl m fs r fs')
  then obtain fs1 where "inode_reopen (file_inode f) fs = Some fs1" "file_open m (Some (file_inode f)) fs1 = Some (r, fs')"
    by (auto simp: file_reopen_def bind_eq_Some_conv)
  then show ?case using step_reopen(3) counted_reopen counted_file_open by blast
next
  case (step_close f fs fs' xs ys)
  then obtain f1 fs1 r where f1: "file_allow_write f fs = Some (f1, fs1)" "inode_close (Some (file_inode f1)) fs1 = Some (r, fs')"
    by (auto simp: file_close_def bind_eq_Some_conv)
  then show ?case using step_close(2) counted_allow counted_inode_close by blast
next
  case (step_write m f buffer sz fs n f' fs' xs ys)
  then obtain w where w: "inode_write_at m (file_inode f) buffer sz (file_pos f) fs = Some (w, fs')" "f' = f\<lparr>file_pos := s32 (file_pos f + w)\<rparr>"
    by (auto simp: file_write_def bind_eq_Some_conv)
  obtain k di where k: "get_inode fs (file_inode f) = Some k" "\<forall>q. get_inode fs' q = (if q = file_inode f then Some (k\<lparr>data := di\<rparr>) else get_inode fs q)"
    using inode_write_get [OF w(1)] by blast
  have "counted (fs', xs @ f # ys)" using counted_same [OF step_write(2) k(1) _ _ k(2)] by simp
  then show ?case using counted_move w(2) by simp
next
  case (step_remove f fl fs fs')
  then obtain n where n: "get_inode fs (file_inode f) = Some n" "fs' = set_inode (n\<lparr>removed := True\<rparr>) fs"
    by (auto simp: inode_remove_def bind_eq_Some_conv)
  have "\<forall>q. get_inode fs' q = (if q = file_inode f then Some (n\<lparr>removed := True\<rparr>) else get_inode fs q)"
    unfolding n(2) using set_inode_get [OF n(1), of "n\<lparr>removed := True\<rparr>"] by simp
  from counted_same [OF step_remove(3) n(1) _ _ this] show ?case by simp
next
  case (step_read m f sz fs bs f' xs ys)
  then show ?case by (auto simp: file_read_def bind_eq_Some_conv intro: counted_move)
next
  case (step_seek f p f' fs xs ys)
  then show ?case by (auto simp: file_seek_def bind_eq_Some_conv split: if_splits intro: counted_move)
qed (use counted_deny counted_allow in blast)+

lemma counted_reachable:
  assumes "file_step\<^sup>*\<^sup>* (inode_init fs, []) s"
  shows "counted s"
  using assms
proof (induction rule: rtranclp_induct)
  case base
  then show ?case by (simp add: counted_def inode_init_def get_inode_def)
qed (rule counted_step)

section \<open>Properties\<close>

text \<open>C25. Executables are protected. In every state that is reached from an initialised file system by opening,
  closing, reading, writing, removing and protecting files, no call of \<open>file_deny_write\<close> or \<open>file_allow_write\<close> fails an
  assertion, and as long as one open file denies writes to its inode, a write through any file on that
  inode writes nothing and changes nothing.\<close>

theorem deny_write_protects:
  assumes "file_step\<^sup>*\<^sup>* (inode_init fs0, []) (fs, fl)" "f \<in> set fl"
  shows "file_deny_write f fs \<noteq> None \<and> file_allow_write f fs \<noteq> None \<and>
    (\<forall>g m buffer sz. deny_write f \<and> file_inode g = file_inode f \<longrightarrow> (\<exists>g'. file_write m g buffer sz fs = Some (0, g', fs)))"
proof -
  note c = counted_reachable [OF assms(1)]
  obtain n where n: "get_inode fs (file_inode f) = Some n" using countedD(2) [OF c] opens_pos [OF assms(2)] by fastforce
  note k = countedD(1) [OF c n]
  have d: "denials (file_inode f) fl < opens (file_inode f) fl" if "\<not> deny_write f"
  proof -
    obtain xs ys where "fl = xs @ f # ys" using assms(2) by (auto simp: in_set_conv_decomp)
    then show ?thesis using that denials_le_opens [of "file_inode f" xs] denials_le_opens [of "file_inode f" ys] by simp
  qed
  have e: "0 < denials (file_inode f) fl" if "deny_write f"
  proof -
    obtain xs ys where "fl = xs @ f # ys" using assms(2) by (auto simp: in_set_conv_decomp)
    then show ?thesis using that opens_nonneg(2) [of "file_inode f" xs] opens_nonneg(2) [of "file_inode f" ys] by simp
  qed
  have "file_deny_write f fs \<noteq> None" using n k zless_imp_add1_zle [OF d] by (auto simp: file_deny_write_def inode_deny_write_def)
  moreover have "file_allow_write f fs \<noteq> None" using n k e denials_le_opens [of "file_inode f" fl] by (auto simp: file_allow_write_def inode_allow_write_def)
  moreover have "\<exists>g'. file_write m g buffer sz fs = Some (0, g', fs)" if "deny_write f" "file_inode g = file_inode f" for g m buffer sz
    using n k e that by (simp add: file_write_def inode_write_at_def)
  ultimately show ?thesis by blast
qed

text \<open>The inode in sector 1 of a disk of two sectors is opened as a file, which is then protected.\<close>

definition two_sectors :: filesys where
  "two_sectors = \<lparr>fs_disk = replicate 2 (replicate 512 0), free_map = \<lparr>bit_cnt = 2, bits = [3]\<rparr>, free_map_file = None,
     open_inodes = [], next_iid = 2, indirect_sec_idx = [], doubly_sec_parent = [], doubly_sec_idx = []\<rparr>"

theorem deny_write_protects_witness:
  "\<exists>fs f g'. file_step\<^sup>*\<^sup>* (inode_init two_sectors, []) (fs, [f]) \<and> deny_write f \<and> file_write True f [7] 1 fs = Some (0, g', fs)"
proof -
  define n where "n = \<lparr>sector = 1, open_cnt = 1, removed = False, deny_write_cnt = 0, data = decode_inode (replicate 512 0), inode_id = inode_i (decode_inode (replicate 512 0))\<rparr>"
  define fs1 where "fs1 = two_sectors\<lparr>open_inodes := [n]\<rparr>"
  define f where "f = \<lparr>file_inode = 1 :: disk_sector, file_pos = 0, deny_write = False\<rparr>"
  let ?fs = "set_inode (n\<lparr>deny_write_cnt := 1\<rparr>) fs1" and ?f = "f\<lparr>deny_write := True\<rparr>"
  have 1: "inode_open True 1 (inode_init two_sectors) = Some (Some 1, fs1)"
    by (simp add: inode_open_def inode_init_def two_sectors_def get_inode_def disk_read_def fs1_def n_def Let_def)
  have 2: "file_open True (Some 1) fs1 = Some (Some f, fs1)" by (simp add: file_open_def f_def)
  have "file_step (inode_init two_sectors, []) (fs1, [f])" using step_open [OF 1 2, of "[]"] by simp
  moreover have "file_deny_write f fs1 = Some (?f, ?fs)"
    by (simp add: file_deny_write_def inode_deny_write_def f_def fs1_def get_inode_def n_def Let_def)
  then have "file_step (fs1, [f]) (?fs, [?f])" using step_deny [of f fs1 ?f ?fs "[]" "[]"] by simp
  ultimately have r: "file_step\<^sup>*\<^sup>* (inode_init two_sectors, []) (?fs, [?f])" by (meson r_into_rtranclp rtranclp.rtrancl_into_rtrancl)
  moreover have "\<exists>g'. file_write True ?f [7] 1 ?fs = Some (0, g', ?fs)" using deny_write_protects [OF r, of ?f] by simp
  moreover have "deny_write ?f" by simp
  ultimately show ?thesis by blast
qed

end
