(* ===== verification/Directory.thy ===== *)
theory Directory
  imports Inode_Props Cstring_Props File
begin

text \<open>
  Directories, \<open>filesys/directory.c\<close>, and the operations on path names, \<open>filesys/filesys.c\<close>. A directory is a file of 24-byte
  slots. A C string is the list of its bytes before the terminating zero; splitting a path with
  \<open>strtok_r\<close> is \<open>tokens\<close>, which the string theories prove equal to the loop of \<open>strtok_r\<close> calls. \<open>mem_ok\<close> says whether
  \<open>malloc\<close> and \<open>calloc\<close> succeed; \<open>cwd\<close> is the current directory of the thread. What a local
  variable holds before it is set is an argument: \<open>junk\<close> for an entry, \<open>inode0\<close> for an inode pointer.
\<close>

section \<open>Entries\<close>

abbreviation (input) ENTRY_SIZE :: int where "ENTRY_SIZE \<equiv> 24"

abbreviation (input) NAME_MAX :: nat where "NAME_MAX \<equiv> 14"

abbreviation (input) ROOT_DIR_SECTOR :: disk_sector where "ROOT_DIR_SECTOR \<equiv> 1"

record dir =
  dir_inode :: disk_sector
  dir_pos :: int

text \<open>The name has 15 bytes; a byte of padding follows it.\<close>

record dir_entry =
  inode_sector :: disk_sector
  entry_name :: "byte list"
  entry_pad :: byte
  in_use :: "32 word"

definition encode_entry :: "dir_entry \<Rightarrow> byte list" where
  "encode_entry e = elem_bytes (inode_sector e) @ entry_name e @ [entry_pad e] @ elem_bytes (in_use e)"

definition decode_entry :: "byte list \<Rightarrow> dir_entry" where
  "decode_entry bs = \<lparr>inode_sector = hd (bytes_elems (take 4 bs)), entry_name = take 15 (drop 4 bs), entry_pad = bs ! 19,
     in_use = hd (bytes_elems (drop 20 bs))\<rparr>"

text \<open>The string that starts at the name.\<close>

definition entry_str :: "dir_entry \<Rightarrow> byte list" where
  "entry_str e = takeWhile (\<lambda>c. c \<noteq> 0) (entry_name e @ [entry_pad e] @ elem_bytes (in_use e))"

abbreviation (input) slash :: byte where "slash \<equiv> 47"
abbreviation (input) dot :: "byte list" where "dot \<equiv> [46]"
abbreviation (input) dotdot :: "byte list" where "dotdot \<equiv> [46, 46]"

section \<open>Opening and closing\<close>

definition dir_open :: "bool \<Rightarrow> disk_sector option \<Rightarrow> filesys \<Rightarrow> (dir option \<times> filesys) option" where
  "dir_open mem_ok inode fs =
     (case inode of
        Some p \<Rightarrow> if mem_ok then Some (Some \<lparr>dir_inode = p, dir_pos = 0\<rparr>, fs)
                  else do { (_, fs) \<leftarrow> inode_close (Some p) fs; Some (None, fs) }
      | None \<Rightarrow> do { (_, fs) \<leftarrow> inode_close None fs; Some (None, fs) })"

definition dir_open_root :: "bool \<Rightarrow> filesys \<Rightarrow> (dir option \<times> filesys) option" where
  "dir_open_root mem_ok fs = do { (p, fs) \<leftarrow> inode_open mem_ok ROOT_DIR_SECTOR fs; dir_open mem_ok p fs }"

definition dir_reopen :: "bool \<Rightarrow> dir \<Rightarrow> filesys \<Rightarrow> (dir option \<times> filesys) option" where
  "dir_reopen mem_ok d fs = do { fs \<leftarrow> inode_reopen (dir_inode d) fs; dir_open mem_ok (Some (dir_inode d)) fs }"

definition dir_close :: "dir option \<Rightarrow> filesys \<Rightarrow> filesys option" where
  "dir_close d fs = (case d of None \<Rightarrow> Some fs | Some d \<Rightarrow> do { (_, fs) \<leftarrow> inode_close (Some (dir_inode d)) fs; Some fs })"

definition dir_get_inode :: "dir \<Rightarrow> disk_sector" where
  "dir_get_inode d = dir_inode d"

section \<open>Searching\<close>

text \<open>The inner result is the entry found and its offset.\<close>

partial_function (option) lookup_loop :: "bool \<Rightarrow> filesys \<Rightarrow> disk_sector \<Rightarrow> byte list \<Rightarrow> int \<Rightarrow> (dir_entry \<times> int) option option" where
  "lookup_loop mem_ok fs p name ofs = do {
     bs \<leftarrow> inode_read_at mem_ok fs p ENTRY_SIZE ofs;
     if int (length bs) = ENTRY_SIZE then
       (let e = decode_entry bs in
        if in_use e = 1 \<and> name = entry_str e then Some (Some (e, ofs))
        else lookup_loop mem_ok fs p name (s32 (ofs + ENTRY_SIZE)))
     else Some None
   }"

definition lookup_entry :: "bool \<Rightarrow> filesys \<Rightarrow> dir \<Rightarrow> byte list \<Rightarrow> (dir_entry \<times> int) option option" where
  "lookup_entry mem_ok fs d name = lookup_loop mem_ok fs (dir_inode d) name 0"

text \<open>Walking a path; the result is the return value and what the inode pointer then holds.\<close>

fun walk_path :: "bool \<Rightarrow> dir option \<Rightarrow> byte list list \<Rightarrow> disk_sector option \<Rightarrow> filesys \<Rightarrow> (bool \<times> disk_sector option \<times> filesys) option" where
  "walk_path mem_ok temp_dir [] inode fs = Some (True, inode, fs)"
| "walk_path mem_ok temp_dir (token # ts) inode fs =
     (if token = dot then walk_path mem_ok temp_dir ts inode fs
      else do {
        d \<leftarrow> temp_dir;
        r \<leftarrow> lookup_entry mem_ok fs d token;
        case r of
          Some (e, _) \<Rightarrow> do {
            (inode, fs) \<leftarrow> inode_open mem_ok (inode_sector e) fs;
            (temp_dir, fs) \<leftarrow> dir_open mem_ok inode fs;
            walk_path mem_ok temp_dir ts inode fs
          }
        | None \<Rightarrow> Some (False, None, fs)
      })"

definition dir_lookup :: "bool \<Rightarrow> dir option \<Rightarrow> dir option \<Rightarrow> byte list \<Rightarrow> disk_sector option \<Rightarrow> filesys \<Rightarrow> (bool \<times> disk_sector option \<times> filesys) option" where
  "dir_lookup mem_ok cwd d name inode0 fs = do {
     dir \<leftarrow> d;
     if name = [] then do { c \<leftarrow> cwd; Some (True, Some (dir_inode c), fs) }
     else if slash \<in> set name then do {
       ASSERT mem_ok;
       walk_path mem_ok (Some dir) (tokens {slash} name) inode0 fs
     }
     else if name = dot then do {
       n \<leftarrow> get_inode fs (dir_inode dir);
       (inode, fs) \<leftarrow> inode_open mem_ok (inode_get_inumber n) fs;
       Some (True, inode, fs)
     }
     else do {
       r \<leftarrow> lookup_entry mem_ok fs dir name;
       case r of
         Some (e, _) \<Rightarrow> do { (inode, fs) \<leftarrow> inode_open mem_ok (inode_sector e) fs; Some (inode \<noteq> None, inode, fs) }
       | None \<Rightarrow> Some (False, None, fs)
     }
   }"

section \<open>Adding and removing\<close>

text \<open>The buffer keeps the bytes that a short read does not overwrite.\<close>

partial_function (option) free_slot :: "bool \<Rightarrow> filesys \<Rightarrow> disk_sector \<Rightarrow> byte list \<Rightarrow> int \<Rightarrow> (byte list \<times> int) option" where
  "free_slot mem_ok fs p e ofs = do {
     bs \<leftarrow> inode_read_at mem_ok fs p ENTRY_SIZE ofs;
     let e = bs @ drop (length bs) e;
     if int (length bs) = ENTRY_SIZE then
       if in_use (decode_entry e) = 0 then Some (e, ofs) else free_slot mem_ok fs p e (s32 (ofs + ENTRY_SIZE))
     else Some (e, ofs)
   }"

definition dir_add :: "bool \<Rightarrow> byte list \<Rightarrow> dir \<Rightarrow> byte list \<Rightarrow> disk_sector \<Rightarrow> filesys \<Rightarrow> (bool \<times> filesys) option" where
  "dir_add mem_ok junk d name sec fs =
     (if name = [] \<or> length name > NAME_MAX then Some (False, fs)
      else do {
        r \<leftarrow> lookup_entry mem_ok fs d name;
        if r \<noteq> None then Some (False, fs)
        else do {
          (bs, ofs) \<leftarrow> free_slot mem_ok fs (dir_inode d) junk 0;
          let e = decode_entry bs;
          let e = e\<lparr>in_use := 1, entry_name := name @ [0] @ drop (length name + 1) (entry_name e), inode_sector := sec\<rparr>;
          (written, fs) \<leftarrow> inode_write_at mem_ok (dir_inode d) (encode_entry e) ENTRY_SIZE ofs fs;
          Some (written = ENTRY_SIZE, fs)
        }
      })"

partial_function (option) dir_readdir :: "bool \<Rightarrow> filesys \<Rightarrow> dir \<Rightarrow> (byte list option \<times> dir) option" where
  "dir_readdir mem_ok fs d = do {
     bs \<leftarrow> inode_read_at mem_ok fs (dir_inode d) ENTRY_SIZE (dir_pos d);
     if int (length bs) = ENTRY_SIZE then
       (let d = d\<lparr>dir_pos := s32 (dir_pos d + ENTRY_SIZE)\<rparr>; e = decode_entry bs in
        if entry_str e \<noteq> dotdot \<and> in_use e = 1 then Some (Some (take NAME_MAX (entry_str e)), d)
        else dir_readdir mem_ok fs d)
     else Some (None, d)
   }"

definition dir_remove :: "bool \<Rightarrow> dir \<Rightarrow> byte list \<Rightarrow> filesys \<Rightarrow> (bool \<times> filesys) option" where
  "dir_remove mem_ok d name fs = do {
     r \<leftarrow> lookup_entry mem_ok fs d name;
     case r of
       None \<Rightarrow> Some (False, fs)
     | Some (e, ofs) \<Rightarrow> do {
         (inode, fs) \<leftarrow> inode_open mem_ok (inode_sector e) fs;
         case inode of
           None \<Rightarrow> Some (False, fs)
         | Some p \<Rightarrow> do {
             n \<leftarrow> get_inode fs p;
             (busy, fs) \<leftarrow>
               (if inode_get_isdir n then do {
                  (child, fs) \<leftarrow> dir_open mem_ok (Some p) fs;
                  child \<leftarrow> child;
                  (found, _) \<leftarrow> dir_readdir mem_ok fs child;
                  Some (found \<noteq> None, fs)
                } else Some (False, fs));
             if busy then do { (_, fs) \<leftarrow> inode_close (Some p) fs; Some (False, fs) }
             else do {
               (written, fs) \<leftarrow> inode_write_at mem_ok (dir_inode d) (encode_entry (e\<lparr>in_use := 0\<rparr>)) ENTRY_SIZE ofs fs;
               if written \<noteq> ENTRY_SIZE then do { (_, fs) \<leftarrow> inode_close (Some p) fs; Some (False, fs) }
               else do {
                 fs \<leftarrow> inode_remove p fs;
                 (_, fs) \<leftarrow> inode_close (Some p) fs;
                 Some (True, fs)
               }
             }
           }
       }
   }"

definition dir_create :: "bool \<Rightarrow> byte list \<Rightarrow> dir option \<Rightarrow> disk_sector \<Rightarrow> int \<Rightarrow> byte list \<Rightarrow> filesys \<Rightarrow> (bool \<times> filesys) option" where
  "dir_create mem_ok junk cwd sec entry_cnt name fs = do {
     (result, fs) \<leftarrow> inode_create mem_ok sec (s32 (entry_cnt * ENTRY_SIZE)) True fs;
     if sec \<noteq> 1 then do {
       c \<leftarrow> cwd;
       n \<leftarrow> get_inode fs (dir_inode c);
       let parent_sec = inode_get_inumber n;
       (_, fs) \<leftarrow> dir_add mem_ok junk c name sec fs;
       (temp_inode, fs) \<leftarrow> inode_open mem_ok sec fs;
       (temp, fs) \<leftarrow> dir_open mem_ok temp_inode fs;
       t \<leftarrow> temp;
       (_, fs) \<leftarrow> dir_add mem_ok junk t dotdot parent_sec fs;
       fs \<leftarrow> dir_close temp fs;
       Some (result, fs)
     } else Some (result, fs)
   }"

section \<open>Paths\<close>

text \<open>The result is the path and the file name; the buffer of the file name has 14 bytes.\<close>

definition parse_path :: "bool \<Rightarrow> byte list \<Rightarrow> (byte list \<times> byte list) option" where
  "parse_path mem_ok full_name =
     (if slash \<in> set full_name then do {
        ASSERT mem_ok;
        let ts = tokens {slash} full_name;
        ASSERT (ts \<noteq> []);
        let prev_token = last ts;
        ASSERT (length prev_token + 1 \<le> 14);
        Some (take (length full_name - length prev_token - 1) full_name, prev_token)
      } else do {
        ASSERT (length full_name + 1 \<le> 14);
        Some ([], full_name)
      })"

text \<open>The directory that \<open>filesys_create\<close> uses; the inner \<open>None\<close> is the early return.\<close>

definition create_dir :: "bool \<Rightarrow> byte list \<Rightarrow> byte list \<Rightarrow> dir option \<Rightarrow> disk_sector option \<Rightarrow> filesys \<Rightarrow> (dir option \<times> filesys) option option" where
  "create_dir mem_ok name path cwd inode0 fs =
     (case cwd of
        None \<Rightarrow> do { r \<leftarrow> dir_open_root mem_ok fs; Some (Some r) }
      | Some c \<Rightarrow> do {
          n \<leftarrow> get_inode fs (dir_get_inode c);
          if inode_get_isremoved n then Some None
          else do {
            (start, fs) \<leftarrow> (if take 1 name = [slash] then dir_open_root mem_ok fs else Some (cwd, fs));
            (_, d_inode, fs) \<leftarrow> dir_lookup mem_ok cwd start path inode0 fs;
            r \<leftarrow> dir_open mem_ok d_inode fs;
            Some (Some r)
          }
        })"

definition filesys_create :: "bool \<Rightarrow> byte list \<Rightarrow> dir option \<Rightarrow> disk_sector option \<Rightarrow> byte list \<Rightarrow> int \<Rightarrow> filesys \<Rightarrow> (bool \<times> filesys) option" where
  "filesys_create mem_ok junk cwd inode0 name initial_size fs = do {
     ASSERT mem_ok;
     (path, file_name) \<leftarrow> parse_path mem_ok name;
     r \<leftarrow> create_dir mem_ok name path cwd inode0 fs;
     case r of
       None \<Rightarrow> Some (False, fs)
     | Some (None, fs) \<Rightarrow> Some (False, fs)
     | Some (Some d, fs) \<Rightarrow> do {
         (sec, b) \<leftarrow> free_map_allocate (free_map_file fs) 1 (free_map fs);
         let fs = fs\<lparr>free_map := b\<rparr>;
         case sec of
           None \<Rightarrow> Some (False, fs)
         | Some s \<Rightarrow> do {
             (ok, fs) \<leftarrow> inode_create mem_ok (of_nat s) initial_size False fs;
             (ok, fs) \<leftarrow> (if ok then dir_add mem_ok junk d file_name (of_nat s) fs else Some (False, fs));
             if \<not> ok \<and> s \<noteq> 0 then do {
               b \<leftarrow> free_map_release (free_map_file fs) s 1 (free_map fs);
               Some (False, fs\<lparr>free_map := b\<rparr>)
             } else Some (ok, fs)
           }
       }
   }"

definition filesys_open :: "bool \<Rightarrow> dir option \<Rightarrow> disk_sector option \<Rightarrow> byte list \<Rightarrow> filesys \<Rightarrow> (open_file option \<times> filesys) option" where
  "filesys_open mem_ok cwd inode0 name fs = do {
     ASSERT mem_ok;
     (path, file_name) \<leftarrow> parse_path mem_ok name;
     r \<leftarrow> (case cwd of
            None \<Rightarrow> do { r \<leftarrow> dir_open_root mem_ok fs; Some (Some r) }
          | Some c \<Rightarrow> do {
              n \<leftarrow> get_inode fs (dir_get_inode c);
              if inode_get_isremoved n then Some None
              else if path = [] then do {
                r \<leftarrow> (if take 1 name = [slash] then dir_open_root mem_ok fs else Some (cwd, fs));
                Some (Some r)
              } else do {
                (start, fs) \<leftarrow> (if take 1 name = [slash] then dir_open_root mem_ok fs else Some (cwd, fs));
                (_, d_inode, fs) \<leftarrow> dir_lookup mem_ok cwd start (if take 2 name = [slash, slash] then drop 1 path else path) inode0 fs;
                r \<leftarrow> dir_open mem_ok d_inode fs;
                Some (Some r)
              }
            });
     case r of
       None \<Rightarrow> Some (None, fs)
     | Some (d, fs) \<Rightarrow> do {
         (inode, fs) \<leftarrow> (if d \<noteq> None then do { (_, p, fs) \<leftarrow> dir_lookup mem_ok cwd d file_name None fs; Some (p, fs) } else Some (None, fs));
         file_open mem_ok inode fs
       }
   }"

definition filesys_remove :: "bool \<Rightarrow> dir option \<Rightarrow> disk_sector option \<Rightarrow> byte list \<Rightarrow> filesys \<Rightarrow> (bool \<times> filesys) option" where
  "filesys_remove mem_ok cwd inode0 name fs = do {
     ASSERT mem_ok;
     (path, file_name) \<leftarrow> parse_path mem_ok name;
     (d, fs) \<leftarrow>
       (if cwd = None then dir_open_root mem_ok fs
        else if path = [] then (if take 1 name = [slash] then dir_open_root mem_ok fs else Some (cwd, fs))
        else do {
          (start, fs) \<leftarrow> (if take 1 name = [slash] then dir_open_root mem_ok fs else Some (cwd, fs));
          (_, d_inode, fs) \<leftarrow> dir_lookup mem_ok cwd start path inode0 fs;
          dir_open mem_ok d_inode fs
        });
     case d of None \<Rightarrow> Some (False, fs) | Some d \<Rightarrow> dir_remove mem_ok d file_name fs
   }"

end
