(* ===== verification/Directory_Props.thy ===== *)
theory Directory_Props
  imports Directory
begin

text \<open>
  Directories as finite maps from names to sectors: searching finds what the map says, adding and removing
  entries update it, and reading a directory lists its names. The laws are the interface \<open>name_space\<close>.
\<close>

section \<open>Slots\<close>

definition slot_bytes :: "disk \<Rightarrow> inode_disk \<Rightarrow> nat \<Rightarrow> byte list" where
  "slot_bytes d di k = map (file_byte d di) [24 * k..<24 * k + 24]"

definition slots :: "disk \<Rightarrow> inode_disk \<Rightarrow> dir_entry list" where
  "slots d di = map (\<lambda>k. decode_entry (slot_bytes d di k)) [0..<len di div 24]"

text \<open>The map from the names of the used slots to sectors.\<close>

definition name_map :: "dir_entry list \<Rightarrow> byte list \<Rightarrow> disk_sector option" where
  "name_map es = map_of (map (\<lambda>e. (entry_str e, inode_sector e)) (filter (\<lambda>e. in_use e = 1) es))"

definition used_names :: "dir_entry list \<Rightarrow> byte list list" where
  "used_names es = map entry_str (filter (\<lambda>e. in_use e = 1) es)"

definition names_ok :: "dir_entry list \<Rightarrow> bool" where
  "names_ok es \<longleftrightarrow> distinct (used_names es) \<and> (\<forall>x \<in> set (used_names es). length x \<le> NAME_MAX)"

lemma length_slots [simp]: "length (slots d di) = len di div 24"
  by (simp add: slots_def)

lemma nth_slots: "k < len di div 24 \<Longrightarrow> slots d di ! k = decode_entry (slot_bytes d di k)"
  by (simp add: slots_def)

lemma length_slot_bytes [simp]: "length (slot_bytes d di k) = 24"
  by (simp add: slot_bytes_def)

text \<open>Reading at a multiple of the size of a slot.\<close>

lemma read_at:
  assumes "get_inode fs p = Some n" "readable (fs_disk fs) (data n)" "pos \<le> len (data n)"
  shows "inode_read_at True fs p (int sz) (int pos) = Some (map (file_byte (fs_disk fs) (data n)) [pos..<min (pos + sz) (len (data n))])"
  using read_loop_spec [OF assms(2), of UNIV no_cache pos sz "[]"] assms(1, 3) by (simp add: inode_read_at_def)

lemma read_slot:
  assumes "get_inode fs p = Some n" "readable (fs_disk fs) (data n)"
  shows "k < len (data n) div 24 \<Longrightarrow> inode_read_at True fs p 24 (24 * int k) = Some (slot_bytes (fs_disk fs) (data n) k)"
    "\<exists>bs. inode_read_at True fs p 24 (24 * int (len (data n) div 24)) = Some bs \<and> length bs < 24"
proof -
  let ?N = "len (data n) div 24"
  have N: "24 * ?N \<le> len (data n)" "len (data n) < 24 * ?N + 24" using mult_div_mod_eq [of 24 "len (data n)"] mod_less_divisor [of 24 "len (data n)"] by linarith+
  show "inode_read_at True fs p 24 (24 * int k) = Some (slot_bytes (fs_disk fs) (data n) k)" if "k < ?N"
  proof -
    have "24 * k + 24 \<le> len (data n)" using that N by linarith
    then show ?thesis using read_at [OF assms, of "24 * k" 24] by (simp add: slot_bytes_def min_absorb1)
  qed
  show "\<exists>bs. inode_read_at True fs p 24 (24 * int ?N) = Some bs \<and> length bs < 24"
  proof -
    have "min (24 * ?N + 24) (len (data n)) = len (data n)" using N by simp
    then show ?thesis using read_at [OF assms, of "24 * ?N" 24] N by simp
  qed
qed

lemma next_slot:
  assumes "readable d di" "k < len di div 24"
  shows "s32 (24 * int k + 24) = 24 * int (Suc k)"
proof -
  have l: "24 * (len di div 24) \<le> len di" "len di < 2 ^ 31" using assms(1) by (auto simp: readable_def)
  have "24 * Suc k \<le> 24 * (len di div 24)" using assms(2) by (intro mult_le_mono2 Suc_leI)
  then have "24 * Suc k < 2 ^ 31" using l by (meson le_less_trans le_trans)
  then show ?thesis using s32_id [of "24 * int k + 24"] by simp
qed

section \<open>Searching\<close>

text \<open>The first index from \<open>k\<close> whose slot meets a condition.\<close>

definition first_from :: "(dir_entry \<Rightarrow> bool) \<Rightarrow> dir_entry list \<Rightarrow> nat \<Rightarrow> nat option" where
  "first_from P es k = find (\<lambda>j. P (es ! j)) [k..<length es]"

lemma first_from_step: "k < length es \<Longrightarrow> first_from P es k = (if P (es ! k) then Some k else first_from P es (Suc k))"
  by (simp add: first_from_def upt_conv_Cons)

lemma first_from_end: "first_from P es (length es) = None"
  by (simp add: first_from_def)

lemma first_from_Some:
  assumes "first_from P es k = Some j"
  shows "k \<le> j" "j < length es" "P (es ! j)" "\<And>i. k \<le> i \<Longrightarrow> i < j \<Longrightarrow> \<not> P (es ! i)"
proof -
  obtain i where i: "i < length [k..<length es]" "P (es ! ([k..<length es] ! i))" "j = [k..<length es] ! i" "\<forall>l<i. \<not> P (es ! ([k..<length es] ! l))"
    using assms by (auto simp: first_from_def find_Some_iff)
  then show "k \<le> j" "j < length es" "P (es ! j)" by auto
  fix l assume "k \<le> l" "l < j"
  then show "\<not> P (es ! l)" using i(4) [rule_format, of "l - k"] i(1, 3) by auto
qed

lemma first_from_None: "first_from P es k = None \<Longrightarrow> k \<le> i \<Longrightarrow> i < length es \<Longrightarrow> \<not> P (es ! i)"
  by (auto simp: first_from_def find_None_iff)

abbreviation has_name :: "byte list \<Rightarrow> dir_entry \<Rightarrow> bool" where
  "has_name name e \<equiv> in_use e = 1 \<and> name = entry_str e"

lemma lookup_loop_spec:
  assumes g: "get_inode fs p = Some n" and r: "readable (fs_disk fs) (data n)"
  shows "k \<le> len (data n) div 24 \<Longrightarrow> lookup_loop True fs p name (24 * int k) =
    Some (map_option (\<lambda>j. (slots (fs_disk fs) (data n) ! j, 24 * int j)) (first_from (has_name name) (slots (fs_disk fs) (data n)) k))"
proof (induction "len (data n) div 24 - k" arbitrary: k)
  case 0
  then have k: "k = len (data n) div 24" by simp
  obtain bs where "inode_read_at True fs p 24 (24 * int k) = Some bs" "length bs < 24" using read_slot(2) [OF g r] k by blast
  then show ?case using k first_from_end [of "has_name name" "slots (fs_disk fs) (data n)"] by (subst lookup_loop.simps) simp
next
  case (Suc m)
  then have k: "k < len (data n) div 24" by simp
  have "lookup_loop True fs p name (24 * int (Suc k)) =
    Some (map_option (\<lambda>j. (slots (fs_disk fs) (data n) ! j, 24 * int j)) (first_from (has_name name) (slots (fs_disk fs) (data n)) (Suc k)))"
    by (rule Suc(1)) (use Suc(2) k in auto)
  then show ?case using read_slot(1) [OF g r k] next_slot [OF r k] nth_slots [OF k, of "fs_disk fs"]
    by (subst lookup_loop.simps) (simp add: first_from_step k Let_def)
qed

lemma name_map_find:
  "map_option (\<lambda>j. inode_sector (es ! j)) (first_from (has_name name) es 0) = name_map es name"
proof -
  have "map_option (\<lambda>j. inode_sector (es ! j)) (first_from (has_name name) es k) = name_map (drop k es) name" if "k \<le> length es" for k
    using that
  proof (induction "length es - k" arbitrary: k)
    case 0
    then show ?case using first_from_end [of "has_name name" es] by (simp add: name_map_def)
  next
    case (Suc m)
    then have k: "k < length es" by simp
    then show ?case using Suc(1) [of "Suc k"] Suc(2) first_from_step [OF k, of "has_name name"]
      by (auto simp: Cons_nth_drop_Suc [OF k, symmetric] name_map_def)
  qed
  from this [of 0] show ?thesis by simp
qed

lemma lookup_entry_spec:
  assumes "get_inode fs (dir_inode d) = Some n" "readable (fs_disk fs) (data n)"
  shows "lookup_entry True fs d name =
    Some (map_option (\<lambda>j. (slots (fs_disk fs) (data n) ! j, 24 * int j)) (first_from (has_name name) (slots (fs_disk fs) (data n)) 0))"
  using lookup_loop_spec [OF assms, of 0 name] by (simp add: lookup_entry_def)

abbreviation unused :: "dir_entry \<Rightarrow> bool" where
  "unused e \<equiv> in_use e = 0"

lemma free_slot_spec:
  assumes g: "get_inode fs p = Some n" and r: "readable (fs_disk fs) (data n)"
  shows "k \<le> len (data n) div 24 \<Longrightarrow> first_from unused (slots (fs_disk fs) (data n)) k = Some j \<Longrightarrow> length e = 24 \<Longrightarrow>
    free_slot True fs p e (24 * int k) = Some (slot_bytes (fs_disk fs) (data n) j, 24 * int j)"
proof (induction "len (data n) div 24 - k" arbitrary: k e)
  case 0
  then show ?case using first_from_end [of unused "slots (fs_disk fs) (data n)"] by simp
next
  case (Suc m)
  then have k: "k < len (data n) div 24" by simp
  note st = first_from_step [of k "slots (fs_disk fs) (data n)" unused]
  show ?case
  proof (cases "unused (slots (fs_disk fs) (data n) ! k)")
    case True
    then have "j = k" using Suc.prems(2) st k by simp
    then show ?thesis using True read_slot(1) [OF g r k] nth_slots [OF k, of "fs_disk fs"] Suc.prems(3)
      by (subst free_slot.simps) (simp add: Let_def)
  next
    case False
    then have "free_slot True fs p (slot_bytes (fs_disk fs) (data n) k) (24 * int (Suc k)) = Some (slot_bytes (fs_disk fs) (data n) j, 24 * int j)"
      using Suc.prems(2) st k Suc.hyps(2) by (intro Suc.hyps(1)) simp_all
    then show ?thesis using False read_slot(1) [OF g r k] next_slot [OF r k] nth_slots [OF k, of "fs_disk fs"] Suc.prems(3)
      by (subst free_slot.simps) (simp add: Let_def)
  qed
qed

section \<open>Writing a slot\<close>

lemma length_elem_bytes [simp]: "length (elem_bytes w) = 4"
  by (simp add: elem_bytes_def)

lemma bytes_elems_one: "hd (bytes_elems (elem_bytes w @ bs)) = w" "bytes_elems (elem_bytes w) = [w]"
proof -
  have "bytes_elems (elem_bytes w) = [w]" using bytes_elems_inverse [of "[w]"] by simp
  then show "bytes_elems (elem_bytes w) = [w]" "hd (bytes_elems (elem_bytes w @ bs)) = w" by (simp_all add: elem_bytes_def)
qed

lemma decode_encode: "length (entry_name e) = 15 \<Longrightarrow> decode_entry (encode_entry e) = e"
  by (simp add: decode_entry_def encode_entry_def bytes_elems_one nth_append)

lemma length_encode: "length (entry_name e) = 15 \<Longrightarrow> length (encode_entry e) = 24"
  by (simp add: encode_entry_def)

lemma length_decode_name: "length bs = 24 \<Longrightarrow> length (entry_name (decode_entry bs)) = 15"
  by (simp add: decode_entry_def)

text \<open>A directory whose inode is open and not protected.\<close>

definition dir_file :: "filesys \<Rightarrow> disk_sector \<Rightarrow> inode \<Rightarrow> bool" where
  "dir_file fs p n \<longleftrightarrow> get_inode fs p = Some n \<and> writable (fs_disk fs) (data n) \<and> deny_write_cnt n = 0"

lemma dir_file_readable: "dir_file fs p n \<Longrightarrow> get_inode fs p = Some n \<and> readable (fs_disk fs) (data n)"
  by (simp add: dir_file_def writable_def)

lemma write_slot:
  assumes "dir_file fs p n" "j < len (data n) div 24" "length (entry_name e) = 15"
  shows "\<exists>d'. inode_write_at True p (encode_entry e) 24 (24 * int j) fs = Some (24, fs\<lparr>fs_disk := d'\<rparr>) \<and>
    dir_file (fs\<lparr>fs_disk := d'\<rparr>) p n \<and> slots d' (data n) = (slots (fs_disk fs) (data n))[j := e]"
proof -
  let ?di = "data n" and ?d = "fs_disk fs"
  have w: "writable ?d ?di" "readable ?d ?di" "get_inode fs p = Some n" "deny_write_cnt n = 0"
    using assms(1) by (simp_all add: dir_file_def writable_def)
  have "24 * Suc j \<le> 24 * (len ?di div 24)" using assms(2) by (intro mult_le_mono2 Suc_leI)
  also have "\<dots> \<le> len ?di" by simp
  finally have fit: "24 * j + 24 \<le> len ?di" by simp
  note l = length_encode [OF assms(3)]
  obtain d' where d': "write_loop True ?d ?di no_cache (encode_entry e) 24 (24 * int j) 0 = Some (d', 24)" "writable d' ?di"
    "\<forall>i < len ?di. file_byte d' ?di i = overlay (encode_entry e) 0 (24 * j) 24 (file_byte ?d ?di) i"
    using write_loop_spec [OF w(1) no_cache_ok fit, of 0 "encode_entry e"] l by auto
  have "s32 (24 * int j + 24) = 24 * int j + 24" using w(2) fit by (intro s32_id) (auto simp: readable_def)
  then have "inode_write_at True p (encode_entry e) 24 (24 * int j) fs = Some (24, fs\<lparr>fs_disk := d'\<rparr>)"
    using w fit d'(1) by (auto simp: inode_write_at_def readable_def)
  moreover have "dir_file (fs\<lparr>fs_disk := d'\<rparr>) p n" using w d'(2) by (simp add: dir_file_def)
  moreover have "slots d' ?di = (slots ?d ?di)[j := e]"
  proof (rule nth_equalityI)
    fix k assume "k < length (slots d' ?di)"
    then have k: "k < len ?di div 24" by simp
    have "24 * Suc k \<le> 24 * (len ?di div 24)" using k by (intro mult_le_mono2 Suc_leI)
    also have "\<dots> \<le> len ?di" by simp
    finally have kl: "24 * k + 24 \<le> len ?di" by simp
    have "slot_bytes d' ?di k = (if k = j then encode_entry e else slot_bytes ?d ?di k)"
    proof (rule nth_equalityI)
      show "length (slot_bytes d' ?di k) = length (if k = j then encode_entry e else slot_bytes ?d ?di k)" using l by simp
      fix i assume "i < length (slot_bytes d' ?di k)"
      then have i: "i < 24" by simp
      have "k \<noteq> j \<Longrightarrow> \<not> (24 * j \<le> 24 * k + i \<and> 24 * k + i < 24 * j + 24)" using i by (cases "k < j") auto
      then show "slot_bytes d' ?di k ! i = (if k = j then encode_entry e else slot_bytes ?d ?di k) ! i"
        using i kl d'(3) by (auto simp: slot_bytes_def overlay_def)
    qed
    then show "slots d' ?di ! k = (slots ?d ?di)[j := e] ! k"
      using k nth_slots [OF k] decode_encode [OF assms(3)] by (simp add: nth_list_update)
  qed simp
  ultimately show ?thesis by blast
qed

section \<open>The map of names\<close>

lemma name_map_None: "name_map es name = None \<longleftrightarrow> name \<notin> set (used_names es)"
  by (force simp: name_map_def used_names_def map_of_eq_None_iff)

lemma first_used_None: "first_from (has_name name) es 0 = None \<longleftrightarrow> name_map es name = None"
  unfolding name_map_find [symmetric] by simp

lemma split_update:
  assumes "j < length es"
  obtains xs y ys where "es = xs @ y # ys" "es[j := e] = xs @ e # ys" "es ! j = y"
  using id_take_nth_drop [OF assms] upd_conv_take_nth_drop [OF assms] by metis

lemma name_map_add:
  assumes "j < length es" "in_use (es ! j) = 0" "in_use e = 1" "name_map es (entry_str e) = None"
  shows "name_map (es[j := e]) = (name_map es)(entry_str e \<mapsto> inode_sector e)"
proof -
  obtain xs y ys where es: "es = xs @ y # ys" "es[j := e] = xs @ e # ys" "es ! j = y" using split_update [OF assms(1)] .
  have y: "in_use y = 0" using assms(2) es(3) by simp
  have "name_map xs (entry_str e) = None" "name_map ys (entry_str e) = None"
    using assms(4) y by (simp_all add: es(1) name_map_def map_add_None)
  then show ?thesis unfolding es(2) unfolding es(1) using assms(3) y by (auto simp: name_map_def map_add_def fun_eq_iff split: option.split)
qed

lemma used_names_add:
  assumes "j < length es" "in_use (es ! j) = 0" "in_use e = 1" "name_map es (entry_str e) = None" "names_ok es" "length (entry_str e) \<le> NAME_MAX"
  shows "names_ok (es[j := e])"
proof -
  obtain xs y ys where es: "es = xs @ y # ys" "es[j := e] = xs @ e # ys" "es ! j = y" using split_update [OF assms(1)] .
  have y: "in_use y = 0" using assms(2) es(3) by simp
  have "entry_str e \<notin> set (used_names es)" using assms(4) by (simp add: name_map_None)
  then show ?thesis using assms(3, 5, 6) y unfolding es(2) by (auto simp: es(1) used_names_def names_ok_def)
qed

lemma name_map_remove:
  assumes "j < length es" "in_use (es ! j) = 1" "in_use e = 0" "names_ok es"
  shows "name_map (es[j := e]) = (name_map es)(entry_str (es ! j) := None)" "names_ok (es[j := e])"
proof -
  obtain xs y ys where es: "es = xs @ y # ys" "es[j := e] = xs @ e # ys" "es ! j = y" using split_update [OF assms(1)] .
  have y: "in_use y = 1" using assms(2) es by simp
  have "entry_str y \<notin> set (used_names xs)" "entry_str y \<notin> set (used_names ys)" using assms(4) y by (auto simp: es(1) used_names_def names_ok_def)
  then have "name_map xs (entry_str y) = None" "name_map ys (entry_str y) = None" by (simp_all add: name_map_None)
  then have "name_map (xs @ e # ys) = (name_map (xs @ y # ys))(entry_str y := None)"
    using assms(3) y by (auto simp: name_map_def map_add_def fun_eq_iff split: option.split)
  then show "name_map (es[j := e]) = (name_map es)(entry_str (es ! j) := None)" unfolding es(2, 3) unfolding es(1) .
  show "names_ok (es[j := e])" using assms(3, 4) y unfolding es(2) by (auto simp: es(1) used_names_def names_ok_def)
qed

section \<open>Adding\<close>

text \<open>The names in a directory, and the invariant that none is there twice.\<close>

definition dir_names :: "filesys \<Rightarrow> disk_sector \<Rightarrow> byte list \<Rightarrow> disk_sector option" where
  "dir_names fs p = (case get_inode fs p of None \<Rightarrow> (\<lambda>_. None) | Some n \<Rightarrow> name_map (slots (fs_disk fs) (data n)))"

definition dir_ok :: "filesys \<Rightarrow> disk_sector \<Rightarrow> bool" where
  "dir_ok fs p \<longleftrightarrow> (\<exists>n. dir_file fs p n \<and> names_ok (slots (fs_disk fs) (data n)))"

definition has_room :: "filesys \<Rightarrow> disk_sector \<Rightarrow> bool" where
  "has_room fs p \<longleftrightarrow> (\<exists>n e. get_inode fs p = Some n \<and> e \<in> set (slots (fs_disk fs) (data n)) \<and> unused e)"

text \<open>What may be the name of a file.\<close>

definition valid_name :: "byte list \<Rightarrow> bool" where
  "valid_name name \<longleftrightarrow> name \<noteq> [] \<and> length name \<le> NAME_MAX \<and> 0 \<notin> set name"

lemma find_dir:
  assumes "dir_ok fs (dir_inode d)"
  shows "\<exists>r. lookup_entry True fs d name = Some r \<and> map_option (\<lambda>(e, ofs). inode_sector e) r = dir_names fs (dir_inode d) name"
proof -
  obtain n where n: "get_inode fs (dir_inode d) = Some n" "readable (fs_disk fs) (data n)"
    using assms dir_file_readable unfolding dir_ok_def by blast
  have "map_option (\<lambda>(e, ofs). inode_sector e) (map_option (\<lambda>j. (slots (fs_disk fs) (data n) ! j, 24 * int j)) (first_from (has_name name) (slots (fs_disk fs) (data n)) 0)) =
    name_map (slots (fs_disk fs) (data n)) name"
    unfolding name_map_find [symmetric] by (simp add: option.map_comp comp_def)
  then show ?thesis unfolding lookup_entry_spec [OF n] dir_names_def n(1) by auto
qed

lemma first_unused:
  assumes "e \<in> set es" "unused e"
  obtains j where "first_from unused es 0 = Some j" "j < length es" "unused (es ! j)"
proof (cases "first_from unused es 0")
  case None
  then show ?thesis using assms first_from_None [OF None] by (metis in_set_conv_nth le0)
next
  case (Some j)
  then show ?thesis using that first_from_Some [OF Some] by blast
qed

lemma entry_str_new:
  assumes "valid_name name"
  shows "entry_str (e\<lparr>in_use := u, entry_name := name @ [0] @ rest, inode_sector := s\<rparr>) = name"
proof -
  have "takeWhile (\<lambda>c. c \<noteq> 0) (name @ 0 # rs) = name" for rs using assms unfolding valid_name_def
    by (metis (mono_tags, lifting) takeWhile_tail takeWhile_append2 append_Nil2 takeWhile.simps(2))
  then show ?thesis by (simp add: entry_str_def)
qed

lemma add_dir:
  assumes "dir_ok fs (dir_inode d)" "has_room fs (dir_inode d)" "valid_name name" "dir_names fs (dir_inode d) name = None" "length junk = 24"
  shows "\<exists>fs'. dir_add True junk d name sec fs = Some (True, fs') \<and> dir_ok fs' (dir_inode d) \<and>
    dir_names fs' (dir_inode d) = (dir_names fs (dir_inode d))(name \<mapsto> sec) \<and> (\<exists>d'. fs' = fs\<lparr>fs_disk := d'\<rparr>)"
proof -
  obtain n where n: "dir_file fs (dir_inode d) n" "names_ok (slots (fs_disk fs) (data n))" using assms(1) by (auto simp: dir_ok_def)
  note g = dir_file_readable [OF n(1), THEN conjunct1] and r = dir_file_readable [OF n(1), THEN conjunct2]
  let ?es = "slots (fs_disk fs) (data n)"
  obtain e0 where "e0 \<in> set ?es" "unused e0" using assms(2) g by (auto simp: has_room_def)
  then obtain j where j: "first_from unused ?es 0 = Some j" "j < length ?es" "unused (?es ! j)" using first_unused by blast
  have j': "j < len (data n) div 24" using j(2) by simp
  have nm: "name_map ?es name = None" using assms(4) g by (simp add: dir_names_def)
  have lk: "lookup_entry True fs d name = Some None" using lookup_entry_spec [OF g r, of name] nm by (simp add: first_used_None [symmetric])
  have fr: "free_slot True fs (dir_inode d) junk 0 = Some (slot_bytes (fs_disk fs) (data n) j, 24 * int j)"
    using free_slot_spec [OF g r, of 0 j junk] j(1) assms(5) by simp
  define e where "e = (?es ! j)\<lparr>in_use := 1, entry_name := name @ [0] @ drop (length name + 1) (entry_name (?es ! j)), inode_sector := sec\<rparr>"
  have "length (entry_name (?es ! j)) = 15" using nth_slots [OF j', of "fs_disk fs"] by (simp add: length_decode_name)
  then have len15: "length (entry_name e) = 15" using assms(3) by (simp add: e_def valid_name_def)
  have str: "entry_str e = name" unfolding e_def by (rule entry_str_new [OF assms(3)])
  obtain d' where d': "inode_write_at True (dir_inode d) (encode_entry e) 24 (24 * int j) fs = Some (24, fs\<lparr>fs_disk := d'\<rparr>)"
    "dir_file (fs\<lparr>fs_disk := d'\<rparr>) (dir_inode d) n" "slots d' (data n) = ?es[j := e]"
    using write_slot [OF n(1) j' len15] by blast
  have run: "dir_add True junk d name sec fs = Some (True, fs\<lparr>fs_disk := d'\<rparr>)"
    using assms(3) lk fr d'(1) nth_slots [OF j', of "fs_disk fs"] by (simp add: dir_add_def valid_name_def e_def Let_def)
  have in1: "in_use e = 1" "inode_sector e = sec" by (simp_all add: e_def)
  have "name_map (slots d' (data n)) = (name_map ?es)(name \<mapsto> sec)"
    unfolding d'(3) using name_map_add [OF j(2, 3) in1(1)] nm str in1(2) by simp
  then have "dir_names (fs\<lparr>fs_disk := d'\<rparr>) (dir_inode d) = (dir_names fs (dir_inode d))(name \<mapsto> sec)" using g by (simp add: dir_names_def)
  moreover have "names_ok (slots d' (data n))" unfolding d'(3) using used_names_add [OF j(2, 3) in1(1)] nm str n(2) assms(3) by (simp add: valid_name_def)
  then have "dir_ok (fs\<lparr>fs_disk := d'\<rparr>) (dir_inode d)" using d'(2) unfolding dir_ok_def by auto
  ultimately show ?thesis using run by blast
qed

lemma add_dir_fails:
  assumes "dir_ok fs (dir_inode d)" "dir_names fs (dir_inode d) name \<noteq> None \<or> name = [] \<or> NAME_MAX < length name"
  shows "dir_add True junk d name sec fs = Some (False, fs)"
  using find_dir [OF assms(1), of name] assms(2) by (auto simp: dir_add_def)

section \<open>Removing\<close>

lemma dir_names_get:
  assumes "\<And>n. get_inode fs p = Some n \<Longrightarrow> \<exists>n'. get_inode fs' p = Some n' \<and> data n' = data n \<and> deny_write_cnt n' = deny_write_cnt n"
    "fs_disk fs' = fs_disk fs" "dir_ok fs p"
  shows "dir_ok fs' p" "dir_names fs' p = dir_names fs p"
proof -
  obtain n where n: "dir_file fs p n" "names_ok (slots (fs_disk fs) (data n))" using assms(3) by (auto simp: dir_ok_def)
  then have g: "get_inode fs p = Some n" by (simp add: dir_file_def)
  obtain n' where n': "get_inode fs' p = Some n'" "data n' = data n" "deny_write_cnt n' = deny_write_cnt n" using assms(1) [OF g] by blast
  show "dir_names fs' p = dir_names fs p" using n'(1, 2) g assms(2) by (simp add: dir_names_def)
  have "dir_file fs' p n'" using n(1) n' assms(2) by (simp add: dir_file_def)
  then show "dir_ok fs' p" using n(2) n'(2) assms(2) unfolding dir_ok_def by auto
qed

text \<open>The file is open elsewhere, so its blocks are kept; the directory itself may not be the victim.\<close>

lemma remove_dir:
  assumes "dir_ok fs (dir_inode d)" "dir_names fs (dir_inode d) name = Some s" "get_inode fs s = Some v" "\<not> isdir (data v)" "0 < open_cnt v"
    "s \<noteq> dir_inode d"
  shows "\<exists>fs'. dir_remove True d name fs = Some (True, fs') \<and> dir_ok fs' (dir_inode d) \<and>
    dir_names fs' (dir_inode d) = (dir_names fs (dir_inode d))(name := None) \<and> get_inode fs' s = Some (v\<lparr>removed := True\<rparr>)"
proof -
  let ?p = "dir_inode d"
  obtain n where n: "dir_file fs ?p n" "names_ok (slots (fs_disk fs) (data n))" using assms(1) by (auto simp: dir_ok_def)
  note g = dir_file_readable [OF n(1), THEN conjunct1] and r = dir_file_readable [OF n(1), THEN conjunct2]
  let ?es = "slots (fs_disk fs) (data n)"
  have nm: "name_map ?es name = Some s" using assms(2) g by (simp add: dir_names_def)
  then obtain j where j: "first_from (has_name name) ?es 0 = Some j" "inode_sector (?es ! j) = s" unfolding name_map_find [symmetric] by auto
  note jj = first_from_Some [OF j(1)]
  have j': "j < len (data n) div 24" using jj(2) by simp
  have sv: "sector v = s" using assms(3) by (rule get_inode_sector)
  define fs1 where "fs1 = set_inode (v\<lparr>open_cnt := open_cnt v + 1\<rparr>) fs"
  have g1: "get_inode fs1 q = (if q = s then Some (v\<lparr>open_cnt := open_cnt v + 1\<rparr>) else get_inode fs q)" for q
    unfolding fs1_def by (rule set_inode_get [OF assms(3)]) simp
  have o: "inode_open True s fs = Some (Some s, fs1)" using assms(3) by (simp add: inode_open_def inode_reopen_def fs1_def)
  have d1: "fs_disk fs1 = fs_disk fs" by (simp add: fs1_def set_inode_def)
  have df1: "dir_file fs1 ?p n" using n(1) g1 assms(6) d1 by (simp add: dir_file_def)
  define e where "e = (?es ! j)\<lparr>in_use := 0\<rparr>"
  have l15: "length (entry_name e) = 15" using nth_slots [OF j', of "fs_disk fs"] by (simp add: e_def length_decode_name)
  obtain d' where d': "inode_write_at True ?p (encode_entry e) 24 (24 * int j) fs1 = Some (24, fs1\<lparr>fs_disk := d'\<rparr>)"
    "dir_file (fs1\<lparr>fs_disk := d'\<rparr>) ?p n" "slots d' (data n) = ?es[j := e]"
    using write_slot [OF df1 j' l15] d1 by auto
  let ?v2 = "v\<lparr>open_cnt := open_cnt v + 1, removed := True\<rparr>"
  define fs2 where "fs2 = set_inode ?v2 (fs1\<lparr>fs_disk := d'\<rparr>)"
  have g2: "get_inode fs2 q = (if q = s then Some ?v2 else get_inode fs q)" for q
    unfolding fs2_def using set_inode_get [of "fs1\<lparr>fs_disk := d'\<rparr>" s "v\<lparr>open_cnt := open_cnt v + 1\<rparr>" ?v2] g1 by simp
  define fs3 where "fs3 = set_inode (v\<lparr>removed := True\<rparr>) fs2"
  have g3: "get_inode fs3 q = (if q = s then Some (v\<lparr>removed := True\<rparr>) else get_inode fs q)" for q
    unfolding fs3_def using set_inode_get [of fs2 s ?v2 "v\<lparr>removed := True\<rparr>"] g2 by simp
  have rm: "inode_remove s (fs1\<lparr>fs_disk := d'\<rparr>) = Some fs2" using g1 by (simp add: inode_remove_def fs2_def)
  have cl: "inode_close (Some s) fs2 = Some (False, fs3)" using g2 assms(5) by (simp add: inode_close_def fs3_def Let_def)
  have lk: "lookup_entry True fs d name = Some (Some (?es ! j, 24 * int j))" using lookup_entry_spec [OF g r, of name] j(1) by simp
  have run: "dir_remove True d name fs = Some (True, fs3)"
    using lk o j(2) g1 assms(4) d'(1) rm cl by (simp add: dir_remove_def inode_get_isdir_def e_def)
  have d3: "fs_disk fs3 = d'" by (simp add: fs3_def fs2_def set_inode_def)
  have gp: "get_inode fs3 ?p = Some n" using g3 g assms(6) by simp
  have e0: "in_use e = 0" by (simp add: e_def)
  note nr = name_map_remove [OF jj(2) conjunct1 [OF jj(3)] e0 n(2)]
  have "dir_names fs3 ?p = (dir_names fs ?p)(name := None)"
    using gp g d3 d'(3) nr(1) jj(3) by (simp add: dir_names_def)
  moreover have "dir_file fs3 ?p n" using d'(2) gp d3 by (simp add: dir_file_def)
  then have "dir_ok fs3 ?p" using nr(2) d'(3) d3 unfolding dir_ok_def by auto
  ultimately show ?thesis using run g3 by auto
qed

lemma remove_dir_missing:
  assumes "dir_ok fs (dir_inode d)" "dir_names fs (dir_inode d) name = None"
  shows "dir_remove True d name fs = Some (False, fs)"
  using find_dir [OF assms(1), of name] assms(2) by (auto simp: dir_remove_def)

section \<open>Listing\<close>

abbreviation listed :: "dir_entry \<Rightarrow> bool" where
  "listed e \<equiv> entry_str e \<noteq> dotdot \<and> in_use e = 1"

lemma readdir_spec:
  assumes g: "get_inode fs (dir_inode d) = Some n" and r: "readable (fs_disk fs) (data n)"
  shows "k \<le> len (data n) div 24 \<Longrightarrow> dir_pos d = 24 * int k \<Longrightarrow> dir_readdir True fs d =
    (case first_from listed (slots (fs_disk fs) (data n)) k of
       None \<Rightarrow> Some (None, d\<lparr>dir_pos := 24 * int (len (data n) div 24)\<rparr>)
     | Some j \<Rightarrow> Some (Some (take NAME_MAX (entry_str (slots (fs_disk fs) (data n) ! j))), d\<lparr>dir_pos := 24 * int (Suc j)\<rparr>))"
  using g
proof (induction "len (data n) div 24 - k" arbitrary: k d)
  case 0
  then have k: "k = len (data n) div 24" by simp
  obtain bs where "inode_read_at True fs (dir_inode d) 24 (24 * int k) = Some bs" "length bs < 24" using read_slot(2) [OF 0(4) r] k by blast
  moreover have "d\<lparr>dir_pos := 24 * int k\<rparr> = d" using 0(3) by (cases d) simp
  ultimately show ?case using k 0(3) first_from_end [of listed "slots (fs_disk fs) (data n)"] by (subst dir_readdir.simps) simp
next
  case (Suc m)
  then have k: "k < len (data n) div 24" by simp
  let ?d = "d\<lparr>dir_pos := 24 * int (Suc k)\<rparr>"
  have ih: "dir_readdir True fs ?d =
    (case first_from listed (slots (fs_disk fs) (data n)) (Suc k) of
       None \<Rightarrow> Some (None, ?d\<lparr>dir_pos := 24 * int (len (data n) div 24)\<rparr>)
     | Some j \<Rightarrow> Some (Some (take NAME_MAX (entry_str (slots (fs_disk fs) (data n) ! j))), ?d\<lparr>dir_pos := 24 * int (Suc j)\<rparr>))"
    by (rule Suc.hyps(1)) (use Suc k in auto)
  show ?case
  proof (cases "listed (slots (fs_disk fs) (data n) ! k)")
    case True
    then show ?thesis using read_slot(1) [OF Suc.prems(3) r k] next_slot [OF r k] nth_slots [OF k, of "fs_disk fs"] Suc.prems(2)
      by (subst dir_readdir.simps) (simp add: first_from_step k Let_def)
  next
    case False
    then have f: "first_from listed (slots (fs_disk fs) (data n)) k = first_from listed (slots (fs_disk fs) (data n)) (Suc k)"
      by (auto simp: first_from_step k)
    have "dir_readdir True fs d = dir_readdir True fs ?d"
      using False read_slot(1) [OF Suc.prems(3) r k] next_slot [OF r k] nth_slots [OF k, of "fs_disk fs"] Suc.prems(2)
      by (subst dir_readdir.simps) (auto simp: Let_def)
    then show ?thesis unfolding f using ih by (simp split: option.split)
  qed
qed

text \<open>Calling \<open>dir_readdir\<close> until it returns false, at most \<open>n\<close> times.\<close>

fun list_names :: "nat \<Rightarrow> filesys \<Rightarrow> dir \<Rightarrow> byte list list option" where
  "list_names 0 fs d = None"
| "list_names (Suc n) fs d = do {
     (name, d) \<leftarrow> dir_readdir True fs d;
     case name of None \<Rightarrow> Some [] | Some x \<Rightarrow> do { xs \<leftarrow> list_names n fs d; Some (x # xs) }
   }"

lemma filter_first_from:
  "filter P (drop k es) = (case first_from P es k of None \<Rightarrow> [] | Some j \<Rightarrow> es ! j # filter P (drop (Suc j) es))"
proof (cases "k \<le> length es")
  case True
  then show ?thesis
  proof (induction "length es - k" arbitrary: k)
    case 0
    then show ?case using first_from_end [of P es] by simp
  next
    case (Suc m)
    then have k: "k < length es" by simp
    then show ?case using Suc(1) [of "Suc k"] Suc(2) first_from_step [OF k, of P] by (simp add: Cons_nth_drop_Suc [OF k, symmetric])
  qed
qed (simp add: first_from_def)

lemma list_names_spec:
  assumes g: "get_inode fs (dir_inode d) = Some n" and r: "readable (fs_disk fs) (data n)"
  shows "k \<le> len (data n) div 24 \<Longrightarrow> dir_pos d = 24 * int k \<Longrightarrow> len (data n) div 24 - k < m \<Longrightarrow>
    list_names m fs d = Some (map (\<lambda>e. take NAME_MAX (entry_str e)) (filter listed (drop k (slots (fs_disk fs) (data n)))))"
  using g
proof (induction m arbitrary: k d)
  case (Suc m)
  let ?es = "slots (fs_disk fs) (data n)"
  note rd = readdir_spec [OF Suc.prems(4) r Suc.prems(1, 2)]
  show ?case
  proof (cases "first_from listed ?es k")
    case None
    then show ?thesis using rd by (simp add: filter_first_from [of listed k])
  next
    case (Some j)
    note j = first_from_Some [OF Some]
    have "list_names m fs (d\<lparr>dir_pos := 24 * int (Suc j)\<rparr>) = Some (map (\<lambda>e. take NAME_MAX (entry_str e)) (filter listed (drop (Suc j) ?es)))"
      by (rule Suc.IH) (use j Suc.prems in auto)
    then show ?thesis using rd Some by (simp add: filter_first_from [of listed k])
  qed
qed simp

section \<open>The interface\<close>

text \<open>What the operations on path names may rely on. A state is \<open>ok\<close> when the directory is well-formed; \<open>kept\<close> holds of the
  files that other users have open.\<close>

locale name_space =
  fixes ok :: "'s \<Rightarrow> bool" and room :: "'s \<Rightarrow> bool" and kept :: "'s \<Rightarrow> disk_sector \<Rightarrow> bool"
    and names :: "'s \<Rightarrow> byte list \<Rightarrow> disk_sector option"
    and find_name :: "'s \<Rightarrow> byte list \<Rightarrow> disk_sector option option"
    and add_name :: "'s \<Rightarrow> byte list \<Rightarrow> disk_sector \<Rightarrow> (bool \<times> 's) option"
    and remove_name :: "'s \<Rightarrow> byte list \<Rightarrow> (bool \<times> 's) option"
  assumes find_law: "ok s \<Longrightarrow> find_name s x = Some (names s x)"
    and add_law: "ok s \<Longrightarrow> room s \<Longrightarrow> valid_name x \<Longrightarrow> names s x = None \<Longrightarrow>
      \<exists>s'. add_name s x i = Some (True, s') \<and> ok s' \<and> names s' = (names s)(x \<mapsto> i) \<and> kept s' = kept s"
    and add_used_law: "ok s \<Longrightarrow> names s x \<noteq> None \<Longrightarrow> add_name s x i = Some (False, s)"
    and remove_law: "ok s \<Longrightarrow> names s x = Some i \<Longrightarrow> kept s i \<Longrightarrow>
      \<exists>s'. remove_name s x = Some (True, s') \<and> ok s' \<and> names s' = (names s)(x := None)"
    and remove_missing_law: "ok s \<Longrightarrow> names s x = None \<Longrightarrow> remove_name s x = Some (False, s)"
begin

lemma add_then_remove:
  assumes "ok s" "room s" "valid_name x" "names s x = None" "kept s i"
  shows "\<exists>s1 s2. add_name s x i = Some (True, s1) \<and> (\<forall>y. find_name s1 y = Some (if y = x then Some i else names s y)) \<and>
    (\<forall>i'. add_name s1 x i' = Some (False, s1)) \<and> remove_name s1 x = Some (True, s2) \<and>
    ok s2 \<and> names s2 = names s \<and> remove_name s2 x = Some (False, s2)"
proof -
  obtain s1 where s1: "add_name s x i = Some (True, s1)" "ok s1" "names s1 = (names s)(x \<mapsto> i)" "kept s1 = kept s"
    using add_law [OF assms(1-4)] by blast
  obtain s2 where s2: "remove_name s1 x = Some (True, s2)" "ok s2" "names s2 = (names s1)(x := None)"
    using remove_law [OF s1(2), of x i] s1(3, 4) assms(5) by auto
  have "names s2 = names s" unfolding s2(3) s1(3) using assms(4) by (simp add: fun_upd_idem)
  then show ?thesis using s1 s2 find_law [OF s1(2)] add_used_law [OF s1(2), of x] remove_missing_law [OF s2(2), of x] assms(4) by auto
qed

end

definition kept_file :: "disk_sector \<Rightarrow> filesys \<Rightarrow> disk_sector \<Rightarrow> bool" where
  "kept_file p fs s \<longleftrightarrow> s \<noteq> p \<and> (\<exists>v. get_inode fs s = Some v \<and> \<not> isdir (data v) \<and> 0 < open_cnt v)"

interpretation dn: name_space "\<lambda>fs. dir_ok fs (dir_inode d) \<and> length junk = 24" "\<lambda>fs. has_room fs (dir_inode d)" "kept_file (dir_inode d)"
  "\<lambda>fs. dir_names fs (dir_inode d)" "\<lambda>fs x. map_option (map_option (\<lambda>(e, ofs). inode_sector e)) (lookup_entry True fs d x)"
  "\<lambda>fs x i. dir_add True junk d x i fs" "\<lambda>fs x. dir_remove True d x fs" for d junk
proof
  fix fs x i
  assume ok: "dir_ok fs (dir_inode d) \<and> length junk = 24"
  show "map_option (map_option (\<lambda>(e, ofs). inode_sector e)) (lookup_entry True fs d x) = Some (dir_names fs (dir_inode d) x)"
    using find_dir [of fs d x] ok by auto
  show "\<exists>fs'. dir_add True junk d x i fs = Some (True, fs') \<and> (dir_ok fs' (dir_inode d) \<and> length junk = 24) \<and>
      dir_names fs' (dir_inode d) = (dir_names fs (dir_inode d))(x \<mapsto> i) \<and> kept_file (dir_inode d) fs' = kept_file (dir_inode d) fs"
    if n: "has_room fs (dir_inode d)" "valid_name x" "dir_names fs (dir_inode d) x = None"
  proof -
    obtain d' where a: "dir_add True junk d x i fs = Some (True, fs\<lparr>fs_disk := d'\<rparr>)" "dir_ok (fs\<lparr>fs_disk := d'\<rparr>) (dir_inode d)"
      "dir_names (fs\<lparr>fs_disk := d'\<rparr>) (dir_inode d) = (dir_names fs (dir_inode d))(x \<mapsto> i)"
      using add_dir [of fs d x junk i] ok n by blast
    have "kept_file (dir_inode d) (fs\<lparr>fs_disk := d'\<rparr>) = kept_file (dir_inode d) fs" by (simp add: kept_file_def fun_eq_iff)
    then show ?thesis using a ok by blast
  qed
  show "dir_add True junk d x i fs = Some (False, fs)" if "dir_names fs (dir_inode d) x \<noteq> None"
    using add_dir_fails ok that by blast
  show "\<exists>fs'. dir_remove True d x fs = Some (True, fs') \<and> (dir_ok fs' (dir_inode d) \<and> length junk = 24) \<and>
      dir_names fs' (dir_inode d) = (dir_names fs (dir_inode d))(x := None)"
    if "dir_names fs (dir_inode d) x = Some i" "kept_file (dir_inode d) fs i"
    using remove_dir [of fs d x i] ok that unfolding kept_file_def by blast
  show "dir_remove True d x fs = Some (False, fs)" if "dir_names fs (dir_inode d) x = None" using remove_dir_missing ok that by blast
qed

section \<open>Properties\<close>


text \<open>C26. Reading a directory from its start with \<open>dir_readdir\<close> ends, and lists every name in it except the entry of
  the parent exactly once.\<close>

theorem readdir_lists_names:
  assumes "dir_ok fs (dir_inode d)" "dir_pos d = 0" "get_inode fs (dir_inode d) = Some n"
  shows "\<exists>xs. list_names (len (data n) div 24 + 1) fs d = Some xs \<and> distinct xs \<and> set xs = dom (dir_names fs (dir_inode d)) - {dotdot}"
proof -
  let ?es = "slots (fs_disk fs) (data n)"
  have r: "readable (fs_disk fs) (data n)" and ok: "names_ok ?es"
    using assms(1, 3) unfolding dir_ok_def dir_file_def writable_def by auto
  have f: "filter listed ?es = filter (\<lambda>e. entry_str e \<noteq> dotdot) (filter (\<lambda>e. in_use e = 1) ?es)" by (auto intro: filter_cong)
  have "\<forall>e \<in> set (filter listed ?es). take NAME_MAX (entry_str e) = entry_str e" using ok by (auto simp: names_ok_def used_names_def)
  then have m: "map (\<lambda>e. take NAME_MAX (entry_str e)) (filter listed ?es) = map entry_str (filter listed ?es)" by (meson map_cong)
  have "distinct (map entry_str (filter listed ?es))" unfolding f using ok by (simp add: names_ok_def used_names_def distinct_map_filter del: filter_filter)
  moreover have "dom (dir_names fs (dir_inode d)) = set (used_names ?es)"
    unfolding dir_names_def assms(3) using name_map_None [of ?es] by (auto simp: dom_def)
  then have "set (map entry_str (filter listed ?es)) = dom (dir_names fs (dir_inode d)) - {dotdot}" by (auto simp: used_names_def)
  moreover have "list_names (len (data n) div 24 + 1) fs d = Some (map entry_str (filter listed ?es))"
    using list_names_spec [OF assms(3) r, of 0 "len (data n) div 24 + 1"] assms(2) m by simp
  ultimately show ?thesis by blast
qed

text \<open>An empty directory of two slots in sector 1, with its block in sector 2, and an open empty file in sector 3.\<close>

definition ex_dir :: inode_disk where
  "ex_dir = \<lparr>inode_i = 1, data_length = 48, magic = 0x494e4f44, isdir = True,
     direct_block = 2 # replicate 121 0, indirect_block = 0, doubly_indirect_block = 0\<rparr>"

definition ex_dir_fs :: filesys where
  "ex_dir_fs = \<lparr>fs_disk = replicate 4 (replicate 512 0), free_map = \<lparr>bit_cnt = 4, bits = [15]\<rparr>, free_map_file = None,
     open_inodes = [\<lparr>sector = 1, open_cnt = 1, removed = False, deny_write_cnt = 0, data = ex_dir, inode_id = 1\<rparr>,
       \<lparr>sector = 3, open_cnt = 1, removed = False, deny_write_cnt = 0, data = ex_dir\<lparr>isdir := False, data_length := 0\<rparr>, inode_id = 2\<rparr>],
     next_iid = 3, indirect_sec_idx = [], doubly_sec_parent = [], doubly_sec_idx = []\<rparr>"

lemma ex_dir_writable: "writable (fs_disk ex_dir_fs) ex_dir"
proof -
  have n: "len ex_dir = 48" by (simp add: ex_dir_def)
  have b: "block_sector (fs_disk ex_dir_fs) ex_dir 0 = Some 2" "index_sectors (fs_disk ex_dir_fs) ex_dir 0 = {}"
    by (simp_all add: block_sector_def index_sectors_def nth_at_def ex_dir_def)
  have z: "k = 0" if "512 * k < (48 :: nat)" for k using that by simp
  have l: "unat (2 :: disk_sector) < length (fs_disk ex_dir_fs) \<and> (2 :: disk_sector) < 2 ^ 28 \<and> length (fs_disk ex_dir_fs ! unat (2 :: disk_sector)) = 512"
    by (simp add: ex_dir_fs_def)
  have "unat s < length (fs_disk ex_dir_fs) \<and> s < 2 ^ 28 \<and> length (fs_disk ex_dir_fs ! unat s) = 512"
    if "512 * k < (48 :: nat)" "block_sector (fs_disk ex_dir_fs) ex_dir k = Some s" for k s
    using that(2) l b(1) unfolding z [OF that(1)] by simp
  then have "readable (fs_disk ex_dir_fs) ex_dir"
    unfolding readable_def n using b(1) by (simp add: max_blocks_def ex_dir_def)
  then show ?thesis unfolding writable_def n using b(2) z by auto
qed

lemma ex_dir_slots: "e \<in> set (slots (fs_disk ex_dir_fs) ex_dir) \<Longrightarrow> unused e" "length (slots (fs_disk ex_dir_fs) ex_dir) = 2"
proof -
  show "length (slots (fs_disk ex_dir_fs) ex_dir) = 2" by (simp add: ex_dir_def)
  assume "e \<in> set (slots (fs_disk ex_dir_fs) ex_dir)"
  then obtain k where k: "k < 2" "e = decode_entry (slot_bytes (fs_disk ex_dir_fs) ex_dir k)" by (auto simp: slots_def ex_dir_def)
  have "file_byte (fs_disk ex_dir_fs) ex_dir i = 0" if "i < 48" for i
    using that by (simp add: file_byte_def block_sector_def nth_at_def ex_dir_def ex_dir_fs_def)
  then have "slot_bytes (fs_disk ex_dir_fs) ex_dir k = replicate 24 0" using k(1) by (intro nth_equalityI) (auto simp: slot_bytes_def)
  then show "unused e" using k(2) by (simp add: decode_entry_def numeral_eq_Suc)
qed

lemma ex_dir_ok:
  "dir_ok ex_dir_fs 1" "has_room ex_dir_fs 1" "dir_names ex_dir_fs 1 = (\<lambda>_. None)"
  "get_inode ex_dir_fs 1 = Some \<lparr>sector = 1, open_cnt = 1, removed = False, deny_write_cnt = 0, data = ex_dir, inode_id = 1\<rparr>"
proof -
  show g: "get_inode ex_dir_fs 1 = Some \<lparr>sector = 1, open_cnt = 1, removed = False, deny_write_cnt = 0, data = ex_dir, inode_id = 1\<rparr>"
    by (simp add: get_inode_def ex_dir_fs_def)
  have u: "filter (\<lambda>e. in_use e = 1) (slots (fs_disk ex_dir_fs) ex_dir) = []" using ex_dir_slots(1) by (auto simp: filter_empty_conv)
  have "names_ok (slots (fs_disk ex_dir_fs) ex_dir)" by (simp add: names_ok_def used_names_def u)
  then show "dir_ok ex_dir_fs 1" using g ex_dir_writable by (auto simp: dir_ok_def dir_file_def)
  show "dir_names ex_dir_fs 1 = (\<lambda>_. None)" using g u by (simp add: dir_names_def name_map_def)
  have "slots (fs_disk ex_dir_fs) ex_dir ! 0 \<in> set (slots (fs_disk ex_dir_fs) ex_dir)" using ex_dir_slots(2) by (intro nth_mem) simp
  then show "has_room ex_dir_fs 1" using g ex_dir_slots(1) unfolding has_room_def by auto
qed


theorem readdir_lists_names_witness:
  "list_names 3 ex_dir_fs \<lparr>dir_inode = 1, dir_pos = 0\<rparr> = Some []"
  using readdir_lists_names [of ex_dir_fs "\<lparr>dir_inode = 1, dir_pos = 0\<rparr>" "\<lparr>sector = 1, open_cnt = 1, removed = False, deny_write_cnt = 0, data = ex_dir, inode_id = 1\<rparr>"]
    ex_dir_ok by (simp add: ex_dir_def)

lemma tokens_rooted:
  assumes "f \<noteq> []" "slash \<notin> set f"
  shows "tokens {slash} (slash # f) = [f]"
proof -
  obtain a as where f: "f = a # as" using assms(1) by (cases f) auto
  have "takeWhile (\<lambda>c. c \<noteq> slash) as = as" "dropWhile (\<lambda>c. c \<noteq> slash) as = []" using assms(2) f by (auto simp: takeWhile_eq_all_conv dropWhile_eq_Nil_conv)
  then show ?thesis using assms(2) f by (simp add: tokens.simps del: dropWhile_eq_Nil_conv takeWhile_eq_all_conv)
qed

text \<open>An absolute name does not create a file in the root directory. Creating \<open>/f\<close> looks up the empty path, which is
  always the current directory: the call does what creating \<open>f\<close> does, after opening the root directory for
  nothing. Opening \<open>/f\<close> searches the root directory.\<close>

theorem create_absolute_in_current_directory:
  assumes "dir_open_root True fs = Some (Some r, fs1)" "get_inode fs (dir_inode c) = Some n" "\<not> removed n"
    "f \<noteq> []" "slash \<notin> set f" "length f < 14"
  shows "filesys_create True junk (Some c) inode0 (slash # f) sz fs = filesys_create True junk (Some c) inode0 f sz fs1 \<and>
    filesys_open True (Some c) inode0 (slash # f) fs = do { (_, p, fs2) \<leftarrow> dir_lookup True (Some c) (Some r) f None fs1; file_open True p fs2 }"
proof -
  obtain p where p: "inode_open True 1 fs = Some (p, fs1)" "p \<noteq> None"
    using assms(1) by (auto simp: dir_open_root_def dir_open_def inode_close_def bind_eq_Some_conv split: option.splits)
  obtain n1 where n1: "get_inode fs1 (dir_inode c) = Some n1" "\<not> removed n1" 
    using inode_open_get [OF p(1)] p(2) assms(2, 3) by (cases "dir_inode c = 1") auto
  have pp: "parse_path True (slash # f) = Some ([], f)" "parse_path True f = Some ([], f)"
    using assms(4-6) tokens_rooted [OF assms(4, 5)] by (simp_all add: parse_path_def)
  have tk: "take 1 f \<noteq> [slash]" using assms(4, 5) by (cases f) auto
  have "create_dir True (slash # f) [] (Some c) inode0 fs = create_dir True f [] (Some c) inode0 fs1"
    using assms(1-3) n1 tk by (simp add: create_dir_def dir_get_inode_def inode_get_isremoved_def dir_lookup_def)
  moreover have "create_dir True f [] (Some c) inode0 fs1 = Some (Some (Some \<lparr>dir_inode = dir_inode c, dir_pos = 0\<rparr>, fs1))"
    using n1 tk by (simp add: create_dir_def dir_get_inode_def inode_get_isremoved_def dir_lookup_def dir_open_def)
  ultimately have "filesys_create True junk (Some c) inode0 (slash # f) sz fs = filesys_create True junk (Some c) inode0 f sz fs1"
    using pp by (simp add: filesys_create_def)
  moreover have "filesys_open True (Some c) inode0 (slash # f) fs = do { (_, p, fs2) \<leftarrow> dir_lookup True (Some c) (Some r) f None fs1; file_open True p fs2 }"
    using pp assms(1-3) by (cases "dir_lookup True (Some c) (Some r) f None fs1") (auto simp: filesys_open_def dir_get_inode_def inode_get_isremoved_def)
  ultimately show ?thesis ..
qed

theorem create_absolute_in_current_directory_witness:
  "\<exists>r fs1. dir_open_root True ex_dir_fs = Some (Some r, fs1) \<and>
    filesys_create True [] (Some \<lparr>dir_inode = 1, dir_pos = 0\<rparr>) None [47, 97] 0 ex_dir_fs = filesys_create True [] (Some \<lparr>dir_inode = 1, dir_pos = 0\<rparr>) None [97] 0 fs1"
proof -
  obtain r fs1 where r: "dir_open_root True ex_dir_fs = Some (Some r, fs1)"
    using ex_dir_ok(4) by (auto simp: dir_open_root_def dir_open_def inode_open_def inode_reopen_def)
  show ?thesis using create_absolute_in_current_directory [OF r, of "\<lparr>dir_inode = 1, dir_pos = 0\<rparr>" _ "[97]" "[]" None 0] ex_dir_ok(4) r by simp
qed

end
