(* ===== verification/Palloc.thy ===== *)
theory Palloc
  imports Bitmap_Refine
begin

text \<open>
  The page allocator, \<open>threads/palloc.c\<close>: two pools of 4096-byte pages, each with a bitmap of
  its used pages. Addresses are natural numbers; \<open>ram\<close> is the contents of memory.
\<close>

section \<open>Operations\<close>

abbreviation PGSIZE :: nat where "PGSIZE \<equiv> 4096"

definition pg_ofs :: "nat \<Rightarrow> nat" where "pg_ofs va = va mod PGSIZE"
definition pg_no :: "nat \<Rightarrow> nat" where "pg_no va = va div PGSIZE"
definition pg_round_down :: "nat \<Rightarrow> nat" where "pg_round_down va = va div PGSIZE * PGSIZE"

record pool =
  used_map :: bitmap
  base :: nat

record pages =
  kernel_pool :: pool
  user_pool :: pool
  ram :: "nat \<Rightarrow> byte"

datatype palloc_flag = PAL_ASSERT | PAL_ZERO | PAL_USER

definition fill :: "nat \<Rightarrow> byte \<Rightarrow> nat \<Rightarrow> (nat \<Rightarrow> byte) \<Rightarrow> nat \<Rightarrow> byte" where
  "fill p v n r = (\<lambda>a. if p \<le> a \<and> a < p + n then v else r a)"

text \<open>\<open>block\<close> is the memory at the base of the pool that holds the bitmap.\<close>

definition init_pool :: "elem_type list \<Rightarrow> nat \<Rightarrow> nat \<Rightarrow> pool option" where
  "init_pool block start page_cnt = do {
     let bm_pages = u32 (bitmap_buf_size page_cnt + PGSIZE - 1) div PGSIZE;
     ASSERT (bm_pages \<le> page_cnt);
     let page_cnt = page_cnt - bm_pages;
     m \<leftarrow> bitmap_create_in_buf page_cnt block (bm_pages * PGSIZE);
     Some \<lparr>used_map = m, base = start + bm_pages * PGSIZE\<rparr>
   }"

definition palloc_init :: "elem_type list \<Rightarrow> elem_type list \<Rightarrow> nat \<Rightarrow> nat \<Rightarrow> nat \<Rightarrow> (nat \<Rightarrow> byte) \<Rightarrow> pages option" where
  "palloc_init kblock ublock free_start free_end user_page_limit r = do {
     let free_pages = (free_end - free_start) div PGSIZE;
     let user_pages = free_pages div 2;
     let user_pages = (if user_pages > user_page_limit then user_page_limit else user_pages);
     let kernel_pages = free_pages - user_pages;
     k \<leftarrow> init_pool kblock free_start kernel_pages;
     u \<leftarrow> init_pool ublock (free_start + kernel_pages * PGSIZE) user_pages;
     Some \<lparr>kernel_pool = k, user_pool = u, ram = r\<rparr>
   }"

definition get_pool :: "bool \<Rightarrow> pages \<Rightarrow> pool" where
  "get_pool user m = (if user then user_pool m else kernel_pool m)"

definition set_pool :: "bool \<Rightarrow> pool \<Rightarrow> pages \<Rightarrow> pages" where
  "set_pool user p m = (if user then m\<lparr>user_pool := p\<rparr> else m\<lparr>kernel_pool := p\<rparr>)"

text \<open>The result is the address of the pages, 0 for the null pointer.\<close>

definition palloc_get_multiple :: "palloc_flag set \<Rightarrow> nat \<Rightarrow> pages \<Rightarrow> (nat \<times> pages) option" where
  "palloc_get_multiple flags page_cnt m =
     (let user = (PAL_USER \<in> flags); p = get_pool user m in
      if page_cnt = 0 then Some (0, m)
      else do {
        (page_idx, b) \<leftarrow> bitmap_scan_and_flip (used_map p) 0 page_cnt False;
        let m = set_pool user (p\<lparr>used_map := b\<rparr>) m;
        let pages = (if page_idx \<noteq> BITMAP_ERROR then base p + PGSIZE * page_idx else 0);
        if pages \<noteq> 0 then
          Some (pages, if PAL_ZERO \<in> flags then m\<lparr>ram := fill pages 0 (PGSIZE * page_cnt) (ram m)\<rparr> else m)
        else do {
          ASSERT (PAL_ASSERT \<notin> flags);
          Some (0, m)
        }
      })"

definition palloc_get_page :: "palloc_flag set \<Rightarrow> pages \<Rightarrow> (nat \<times> pages) option" where
  "palloc_get_page flags m = palloc_get_multiple flags 1 m"

definition page_from_pool :: "pool \<Rightarrow> nat \<Rightarrow> bool" where
  "page_from_pool p page =
     (let page_no = pg_no page; start_page = pg_no (base p); end_page = start_page + bitmap_size (used_map p) in
      page_no \<ge> start_page \<and> page_no < end_page)"

definition palloc_free_multiple :: "nat \<Rightarrow> nat \<Rightarrow> pages \<Rightarrow> pages option" where
  "palloc_free_multiple pages page_cnt m = do {
     ASSERT (pg_ofs pages = 0);
     if pages = 0 \<or> page_cnt = 0 then Some m
     else do {
       user \<leftarrow> (if page_from_pool (kernel_pool m) pages then Some False
               else if page_from_pool (user_pool m) pages then Some True else None);
       let p = get_pool user m;
       let page_idx = pg_no pages - pg_no (base p);
       let m = m\<lparr>ram := fill pages 0xcc (PGSIZE * page_cnt) (ram m)\<rparr>;
       all \<leftarrow> bitmap_all (used_map p) page_idx page_cnt;
       ASSERT all;
       b \<leftarrow> bitmap_set_multiple (used_map p) page_idx page_cnt False;
       Some (set_pool user (p\<lparr>used_map := b\<rparr>) m)
     }
   }"

definition palloc_free_page :: "nat \<Rightarrow> pages \<Rightarrow> pages option" where
  "palloc_free_page page m = palloc_free_multiple page 1 m"

section \<open>The kernel pool\<close>

text \<open>The addresses of the pages in use.\<close>

definition used_pages :: "pages \<Rightarrow> nat set" where
  "used_pages m = (\<lambda>i. base (kernel_pool m) + PGSIZE * i) ` bitmap_used (used_map (kernel_pool m))"

definition pool_ok :: "pages \<Rightarrow> bool" where
  "pool_ok m \<longleftrightarrow> bitmap_ok (used_map (kernel_pool m)) \<and> 0 < base (kernel_pool m) \<and> base (kernel_pool m) mod PGSIZE = 0"

definition page_range :: "nat \<Rightarrow> nat \<Rightarrow> nat set" where
  "page_range a n = (\<lambda>i. a + PGSIZE * i) ` {..<n}"

lemma page_range_shift: "page_range (b + PGSIZE * i) n = (\<lambda>k. b + PGSIZE * k) ` {i..<i + n}"
proof -
  have "{i..<i + n} = (+) i ` {..<n}" by (simp add: image_add_atLeastLessThan lessThan_atLeast0 add.commute)
  then show ?thesis by (auto simp: page_range_def image_image algebra_simps)
qed

lemma used_pages_aligned: "pool_ok m \<Longrightarrow> a \<in> used_pages m \<Longrightarrow> a mod PGSIZE = 0 \<and> 0 < a"
  by (auto simp: used_pages_def pool_ok_def mod_add_left_eq [symmetric])

lemma get_pages:
  assumes "pool_ok m" "0 < n" "palloc_get_multiple F n m = Some (a, m')" and F: "PAL_USER \<notin> F"
  shows "pool_ok m'" "a = 0 \<Longrightarrow> used_pages m' = used_pages m"
    "a \<noteq> 0 \<Longrightarrow> a mod PGSIZE = 0 \<and> page_range a n \<inter> used_pages m = {} \<and> used_pages m' = used_pages m \<union> page_range a n"
proof -
  let ?p = "kernel_pool m"
  have ok: "bitmap_ok (used_map ?p)" "0 < base ?p" "base ?p mod PGSIZE = 0" using assms(1) by (simp_all add: pool_ok_def)
  obtain i b where sf: "bitmap_scan_and_flip (used_map ?p) 0 n False = Some (i, b)"
    using assms(2, 3) F by (auto simp: palloc_get_multiple_def get_pool_def Let_def bind_eq_Some_conv)
  have m': "kernel_pool m' = ?p\<lparr>used_map := b\<rparr>" "a = (if i \<noteq> BITMAP_ERROR then base ?p + PGSIZE * i else 0)"
    using assms(2, 3) sf F by (auto simp: palloc_get_multiple_def get_pool_def set_pool_def Let_def split: if_splits)
  have al: "bitmap_alloc n (used_map ?p) = Some (if i = BITMAP_ERROR then None else Some i, b)"
    using sf by (simp add: bitmap_alloc_def)
  have "pool_ok m' \<and> (a = 0 \<longrightarrow> used_pages m' = used_pages m) \<and>
    (a \<noteq> 0 \<longrightarrow> a mod PGSIZE = 0 \<and> page_range a n \<inter> used_pages m = {} \<and> used_pages m' = used_pages m \<union> page_range a n)"
  proof (cases "i = BITMAP_ERROR")
    case True
    then have "b = used_map ?p" using bm.alloc_None [OF ok(1) assms(2)] al by simp
    then show ?thesis using True m' assms(1) by (simp add: pool_ok_def used_pages_def)
  next
    case False
    then have s: "bitmap_ok b" "{i..<i + n} \<inter> bitmap_used (used_map ?p) = {}" "bitmap_used b = bitmap_used (used_map ?p) \<union> {i..<i + n}"
      using bm.alloc_Some [OF ok(1) assms(2), of i b] al by simp_all
    have pr: "page_range a n = (\<lambda>k. base ?p + PGSIZE * k) ` {i..<i + n}"
      using m'(2) False page_range_shift by simp
    have inj: "inj (\<lambda>k. base ?p + PGSIZE * k)" by (rule injI) simp
    have "page_range a n \<inter> used_pages m = {}"
      unfolding pr used_pages_def using s(2) inj by (simp add: image_Int [symmetric])
    moreover have "used_pages m' = used_pages m \<union> page_range a n"
      unfolding pr used_pages_def m'(1) using s(3) by (simp add: image_Un)
    moreover have "a mod PGSIZE = 0" using m'(2) ok(3) False by (simp add: mod_add_left_eq [symmetric])
    ultimately show ?thesis using s(1) ok m' False by (simp add: pool_ok_def)
  qed
  then show "pool_ok m'" "a = 0 \<Longrightarrow> used_pages m' = used_pages m"
    "a \<noteq> 0 \<Longrightarrow> a mod PGSIZE = 0 \<and> page_range a n \<inter> used_pages m = {} \<and> used_pages m' = used_pages m \<union> page_range a n" by auto
qed

lemma no_flags: "PAL_USER \<notin> {}"
  by simp

lemmas get_kernel_pages = get_pages [where F = "{}", OF _ _ _ no_flags]

lemma get_kernel_ram: "palloc_get_multiple {} n m = Some (a, m') \<Longrightarrow> ram m' = ram m"
  by (auto simp: palloc_get_multiple_def get_pool_def set_pool_def Let_def bind_eq_Some_conv split: if_splits)

lemma get_page_size:
  assumes "pool_ok m" "palloc_get_multiple F n m = Some (a, m')" "PAL_USER \<notin> F"
  shows "base (kernel_pool m') = base (kernel_pool m)" "bit_cnt (used_map (kernel_pool m')) = bit_cnt (used_map (kernel_pool m))"
proof -
  have "base (kernel_pool m') = base (kernel_pool m) \<and> bit_cnt (used_map (kernel_pool m')) = bit_cnt (used_map (kernel_pool m))"
  proof (cases "n = 0")
    case True
    then show ?thesis using assms(2) by (simp add: palloc_get_multiple_def Let_def)
  next
    case False
    then obtain i b where sf: "bitmap_scan_and_flip (used_map (kernel_pool m)) 0 n False = Some (i, b)"
      "kernel_pool m' = (kernel_pool m)\<lparr>used_map := b\<rparr>"
      using assms(2, 3) by (auto simp: palloc_get_multiple_def get_pool_def set_pool_def Let_def bind_eq_Some_conv split: if_splits)
    have "bitmap_ok (used_map (kernel_pool m))" using assms(1) by (simp add: pool_ok_def)
    then show ?thesis using sf bitmap_scan_and_flip_eq [of "used_map (kernel_pool m)" 0 n False] False by (auto split: option.splits)
  qed
  then show "base (kernel_pool m') = base (kernel_pool m)" "bit_cnt (used_map (kernel_pool m')) = bit_cnt (used_map (kernel_pool m))"
    by simp_all
qed

lemma get_zeroed_ram:
  "palloc_get_multiple {PAL_ZERO} n m = Some (a, m') \<Longrightarrow> ram m' = (if a = 0 then ram m else fill a 0 (PGSIZE * n) (ram m)) \<and> user_pool m' = user_pool m"
  by (auto simp: palloc_get_multiple_def get_pool_def set_pool_def Let_def bind_eq_Some_conv split: if_splits)

lemma get_kernel_total: "pool_ok m \<Longrightarrow> PAL_USER \<notin> F \<Longrightarrow> PAL_ASSERT \<notin> F \<Longrightarrow> \<exists>a m'. palloc_get_multiple F n m = Some (a, m')"
proof (cases "n = 0")
  case False
  assume m: "pool_ok m" and F: "PAL_USER \<notin> F" "PAL_ASSERT \<notin> F"
  obtain r b where "bitmap_alloc n (used_map (kernel_pool m)) = Some (r, b)"
    using bm.alloc_total [of "used_map (kernel_pool m)" n] m False by (auto simp: pool_ok_def)
  then show ?thesis using False F by (auto simp: bitmap_alloc_def palloc_get_multiple_def get_pool_def Let_def)
qed (simp add: palloc_get_multiple_def Let_def)

lemma free_kernel_pages:
  assumes "pool_ok m" "0 < n" "page_range a n \<subseteq> used_pages m"
  shows "\<exists>m'. palloc_free_multiple a n m = Some m' \<and> pool_ok m' \<and> used_pages m' = used_pages m - page_range a n \<and>
    ram m' = fill a 0xcc (PGSIZE * n) (ram m)"
proof -
  let ?p = "kernel_pool m" and ?b = "used_map (kernel_pool m)"
  have ok: "bitmap_ok ?b" "0 < base ?p" "base ?p mod PGSIZE = 0" using assms(1) by (simp_all add: pool_ok_def)
  have inj: "inj (\<lambda>k. base ?p + PGSIZE * k)" by (rule injI) simp
  have "a \<in> used_pages m" using assms(2, 3) by (force simp: page_range_def)
  then obtain i where i: "a = base ?p + PGSIZE * i" "i \<in> bitmap_used ?b" by (auto simp: used_pages_def)
  have pr: "page_range a n = (\<lambda>k. base ?p + PGSIZE * k) ` {i..<i + n}" using i(1) page_range_shift by simp
  have sub: "{i..<i + n} \<subseteq> bitmap_used ?b"
    using assms(3) inj unfolding pr used_pages_def by (simp add: inj_image_subset_iff)
  have "i + (n - 1) \<in> bitmap_used ?b" using sub assms(2) by auto
  then have range: "i + n \<le> bit_cnt ?b" using bm.used_bound [OF ok(1)] assms(2) by auto
  have "bools ?b ! (i + k)" if "k < n" for k
    using subsetD [OF sub, of "i + k"] that by (simp add: bitmap_used_def del: nth_bools)
  then have "bitmap_all ?b i n = Some True"
    using bitmap_contains_eq [OF ok(1) range, of False] by (auto simp: bitmap_all_def all_are_def)
  moreover obtain b' where b': "bitmap_set_multiple ?b i n False = Some b'" "bitmap_ok b'" "bitmap_used b' = bitmap_used ?b - {i..<i + n}"
    using bm.free_total [OF ok(1) range] by (auto simp: bitmap_free_def)
  moreover have "pg_no a - pg_no (base ?p) = i" "pg_ofs a = 0"
    using ok(3) by (auto simp: i(1) pg_no_def pg_ofs_def mod_add_left_eq [symmetric])
  moreover have "page_from_pool ?p a"
    using range assms(2) by (simp add: page_from_pool_def Let_def i(1) pg_no_def bitmap_size_def)
  moreover have "a \<noteq> 0" using i(1) ok(2) by simp
  ultimately have "palloc_free_multiple a n m =
      Some (m\<lparr>kernel_pool := ?p\<lparr>used_map := b'\<rparr>, ram := fill a 0xcc (PGSIZE * n) (ram m)\<rparr>)"
    using assms(2) by (simp add: palloc_free_multiple_def get_pool_def set_pool_def Let_def)
  moreover have "(\<lambda>k. base ?p + PGSIZE * k) ` bitmap_used b' = used_pages m - page_range a n"
    unfolding pr used_pages_def b'(3) using inj by (simp add: image_set_diff)
  ultimately show ?thesis using b'(2) ok by (simp add: pool_ok_def used_pages_def)
qed

end
