(* ===== verification/Malloc.thy ===== *)
theory Malloc
  imports Palloc
begin

text \<open>
  The block allocator, \<open>threads/malloc.c\<close>. Blocks of a size class are carved from one-page
  arenas; bigger requests get whole pages. The header at the start of an arena is kept
  in \<open>arenas\<close>, a map from page addresses to headers; an address without an entry has no
  valid magic number. A free list is the sequence of addresses of its blocks. The
  descriptors' locks are left out: every operation runs under the lock of its
  descriptor. \<open>size_t\<close> arithmetic wraps at 32 bits.
\<close>

section \<open>Operations\<close>

abbreviation (input) ARENA_SIZE :: nat where "ARENA_SIZE \<equiv> 12"

record desc =
  block_size :: nat
  blocks_per_arena :: nat
  free_list :: "nat list"

record arena =
  arena_desc :: "nat option"
  free_cnt :: nat

record heap =
  page_mem :: pages
  descs :: "desc list"
  arenas :: "nat \<Rightarrow> arena option"

fun init_descs :: "nat \<Rightarrow> nat \<Rightarrow> desc list" where
  "init_descs 0 sz = []"
| "init_descs (Suc n) sz =
     (if sz < PGSIZE div 2
      then \<lparr>block_size = sz, blocks_per_arena = (PGSIZE - ARENA_SIZE) div sz, free_list = []\<rparr> # init_descs n (sz * 2)
      else [])"

text \<open>The array has ten descriptors; the loop ends before it is full.\<close>

definition malloc_init :: "pages \<Rightarrow> heap" where
  "malloc_init m = \<lparr>page_mem = m, descs = init_descs 10 16, arenas = (\<lambda>a. None)\<rparr>"

definition arena_to_block :: "heap \<Rightarrow> nat \<Rightarrow> nat \<Rightarrow> nat option" where
  "arena_to_block h a idx = do {
     ASSERT (a \<noteq> 0);
     ar \<leftarrow> arenas h a;
     i \<leftarrow> arena_desc ar;
     ASSERT (idx < blocks_per_arena (descs h ! i));
     Some (a + ARENA_SIZE + idx * block_size (descs h ! i))
   }"

definition block_to_arena :: "heap \<Rightarrow> nat \<Rightarrow> nat option" where
  "block_to_arena h b = do {
     let a = pg_round_down b;
     ASSERT (a \<noteq> 0);
     ar \<leftarrow> arenas h a;
     (case arena_desc ar of
        None \<Rightarrow> ASSERT (pg_ofs b = ARENA_SIZE)
      | Some i \<Rightarrow> ASSERT (ARENA_SIZE \<le> pg_ofs b \<and> (pg_ofs b - ARENA_SIZE) mod block_size (descs h ! i) = 0));
     Some a
   }"

definition set_desc :: "nat \<Rightarrow> desc \<Rightarrow> heap \<Rightarrow> heap" where
  "set_desc i d h = h\<lparr>descs := (descs h)[i := d]\<rparr>"

definition find_desc :: "heap \<Rightarrow> nat \<Rightarrow> nat option" where
  "find_desc h sz = find (\<lambda>i. block_size (descs h ! i) \<ge> sz) [0..<length (descs h)]"

definition malloc_big :: "nat \<Rightarrow> heap \<Rightarrow> (nat \<times> heap) option" where
  "malloc_big sz h = do {
     let page_cnt = u32 (u32 (sz + ARENA_SIZE) + PGSIZE - 1) div PGSIZE;
     (a, m) \<leftarrow> palloc_get_multiple {} page_cnt (page_mem h);
     let h = h\<lparr>page_mem := m\<rparr>;
     if a = 0 then Some (0, h)
     else Some (a + ARENA_SIZE, h\<lparr>arenas := (arenas h)(a \<mapsto> \<lparr>arena_desc = None, free_cnt = page_cnt\<rparr>)\<rparr>)
   }"

text \<open>The blocks of a new arena, in the order in which they are appended to the free list.\<close>

definition arena_blocks :: "desc \<Rightarrow> nat \<Rightarrow> nat list" where
  "arena_blocks d a = map (\<lambda>k. a + ARENA_SIZE + k * block_size d) [0..<blocks_per_arena d]"

text \<open>\<open>None\<close> inside: no page was available.\<close>

definition new_arena :: "nat \<Rightarrow> heap \<Rightarrow> (bool \<times> heap) option" where
  "new_arena i h = do {
     (a, m) \<leftarrow> palloc_get_page {} (page_mem h);
     let h = h\<lparr>page_mem := m\<rparr>;
     let d = descs h ! i;
     if a = 0 then Some (False, h)
     else do {
       let h = h\<lparr>arenas := (arenas h)(a \<mapsto> \<lparr>arena_desc = Some i, free_cnt = blocks_per_arena d\<rparr>)\<rparr>;
       Some (True, set_desc i (d\<lparr>free_list := free_list d @ arena_blocks d a\<rparr>) h)
     }
   }"

definition pop_block :: "nat \<Rightarrow> heap \<Rightarrow> (nat \<times> heap) option" where
  "pop_block i h =
     (case free_list (descs h ! i) of [] \<Rightarrow> None
      | b # bs \<Rightarrow> do {
          let h = set_desc i ((descs h ! i)\<lparr>free_list := bs\<rparr>) h;
          a \<leftarrow> block_to_arena h b;
          ar \<leftarrow> arenas h a;
          Some (b, h\<lparr>arenas := (arenas h)(a \<mapsto> ar\<lparr>free_cnt := free_cnt ar - 1\<rparr>)\<rparr>)
        })"

definition malloc :: "nat \<Rightarrow> heap \<Rightarrow> (nat \<times> heap) option" where
  "malloc sz h =
     (if sz = 0 then Some (0, h)
      else case find_desc h sz of
        None \<Rightarrow> malloc_big sz h
      | Some i \<Rightarrow>
          if free_list (descs h ! i) = [] then do {
            (ok, h) \<leftarrow> new_arena i h;
            if ok then pop_block i h else Some (0, h)
          } else pop_block i h)"

definition calloc :: "nat \<Rightarrow> nat \<Rightarrow> heap \<Rightarrow> (nat \<times> heap) option" where
  "calloc a b h =
     (let sz = u32 (a * b) in
      if sz < a \<or> sz < b then Some (0, h)
      else do {
        (p, h) \<leftarrow> malloc sz h;
        Some (p, if p \<noteq> 0 then h\<lparr>page_mem := (page_mem h)\<lparr>ram := fill p 0 sz (ram (page_mem h))\<rparr>\<rparr> else h)
      })"

definition free :: "nat \<Rightarrow> heap \<Rightarrow> heap option" where
  "free p h =
     (if p = 0 then Some h
      else do {
        a \<leftarrow> block_to_arena h p;
        ar \<leftarrow> arenas h a;
        case arena_desc ar of
          None \<Rightarrow> do {
            m \<leftarrow> palloc_free_multiple a (free_cnt ar) (page_mem h);
            Some (h\<lparr>page_mem := m, arenas := (arenas h)(a := None)\<rparr>)
          }
        | Some i \<Rightarrow> do {
            let d = descs h ! i;
            let h = h\<lparr>page_mem := (page_mem h)\<lparr>ram := fill p 0xcc (block_size d) (ram (page_mem h))\<rparr>\<rparr>;
            let d = d\<lparr>free_list := p # free_list d\<rparr>;
            let ar = ar\<lparr>free_cnt := free_cnt ar + 1\<rparr>;
            if free_cnt ar \<ge> blocks_per_arena d then do {
              ASSERT (free_cnt ar = blocks_per_arena d);
              m \<leftarrow> palloc_free_page a (page_mem h);
              Some (set_desc i (d\<lparr>free_list := filter (\<lambda>b. b \<notin> set (arena_blocks d a)) (free_list d)\<rparr>)
                (h\<lparr>page_mem := m, arenas := (arenas h)(a := None)\<rparr>))
            } else Some (set_desc i d (h\<lparr>arenas := (arenas h)(a \<mapsto> ar)\<rparr>))
          }
      })"

definition block_bytes :: "heap \<Rightarrow> nat \<Rightarrow> nat option" where
  "block_bytes h p = do {
     a \<leftarrow> block_to_arena h p;
     ar \<leftarrow> arenas h a;
     Some (case arena_desc ar of Some i \<Rightarrow> block_size (descs h ! i) | None \<Rightarrow> PGSIZE * free_cnt ar - pg_ofs p)
   }"

definition realloc :: "nat \<Rightarrow> nat \<Rightarrow> heap \<Rightarrow> (nat \<times> heap) option" where
  "realloc old_block new_size h =
     (if new_size = 0 then do { h \<leftarrow> free old_block h; Some (0, h) }
      else do {
        (new_block, h) \<leftarrow> malloc new_size h;
        if old_block \<noteq> 0 \<and> new_block \<noteq> 0 then do {
          old_size \<leftarrow> block_bytes h old_block;
          let n = (if new_size < old_size then new_size else old_size);
          let r = ram (page_mem h);
          let h = h\<lparr>page_mem := (page_mem h)\<lparr>ram := (\<lambda>x. if new_block \<le> x \<and> x < new_block + n then r (old_block + (x - new_block)) else r x)\<rparr>\<rparr>;
          h \<leftarrow> free old_block h;
          Some (new_block, h)
        } else Some (new_block, h)
      })"

end
