(* ===== verification/Malloc_Inv.thy ===== *)
theory Malloc_Inv
  imports Malloc
begin

text \<open>
  The invariant of the block allocator: every arena owns pages that are in use, the pages
  of different arenas are different, a free list holds each block at most once and only
  blocks of arenas of its descriptor, and the count in an arena's header is the number of
  its blocks on the free list.
\<close>

section \<open>Descriptors and blocks\<close>

definition shape :: "heap \<Rightarrow> (nat \<times> nat) list" where
  "shape h = map (\<lambda>d. (block_size d, blocks_per_arena d)) (descs h)"

definition sizes :: "(nat \<times> nat) list" where
  "sizes = [(16, 255), (32, 127), (64, 63), (128, 31), (256, 15), (512, 7), (1024, 3)]"

lemma init_descs_numeral:
  "init_descs (numeral n) sz =
     (if sz < PGSIZE div 2
      then \<lparr>block_size = sz, blocks_per_arena = (PGSIZE - ARENA_SIZE) div sz, free_list = []\<rparr> # init_descs (pred_numeral n) (sz * 2)
      else [])"
  by (simp add: numeral_eq_Suc)

lemma shape_init: "shape (malloc_init m) = sizes"
  by (simp add: shape_def malloc_init_def sizes_def init_descs_numeral)

lemma desc_shape:
  assumes "shape h = sizes" "i < length (descs h)"
  shows "16 \<le> block_size (descs h ! i)" "0 < blocks_per_arena (descs h ! i)"
    "blocks_per_arena (descs h ! i) * block_size (descs h ! i) \<le> 4084"
proof -
  have "(block_size (descs h ! i), blocks_per_arena (descs h ! i)) = shape h ! i" using assms(2) by (simp add: shape_def)
  moreover have "shape h ! i \<in> set sizes" using assms by (metis length_map nth_mem shape_def)
  ultimately have "(block_size (descs h ! i), blocks_per_arena (descs h ! i)) \<in> set sizes" by simp
  then show "16 \<le> block_size (descs h ! i)" "0 < blocks_per_arena (descs h ! i)"
    "blocks_per_arena (descs h ! i) * block_size (descs h ! i) \<le> 4084" by (auto simp: sizes_def)
qed

definition desc_ok :: "desc \<Rightarrow> bool" where
  "desc_ok d \<longleftrightarrow> 16 \<le> block_size d \<and> 0 < blocks_per_arena d \<and> blocks_per_arena d * block_size d \<le> 4084"

lemma block_in_arena:
  assumes "desc_ok d" "a mod PGSIZE = 0" "b \<in> set (arena_blocks d a)"
  shows "pg_round_down b = a" "a + 12 \<le> b" "b + block_size d \<le> a + PGSIZE"
    "12 \<le> pg_ofs b \<and> (pg_ofs b - 12) mod block_size d = 0"
proof -
  obtain k where k: "k < blocks_per_arena d" "b = a + 12 + k * block_size d" using assms(3) by (auto simp: arena_blocks_def)
  have "(k + 1) * block_size d \<le> blocks_per_arena d * block_size d" using k(1) by (intro mult_le_mono1) simp
  then have le: "k * block_size d + block_size d \<le> 4084" using assms(1) by (simp add: desc_ok_def)
  obtain q where q: "a = PGSIZE * q" using assms(2) by (auto simp: mod_eq_0_iff_dvd elim: dvdE)
  have lt: "12 + k * block_size d < PGSIZE" using le assms(1) by (simp add: desc_ok_def)
  have b: "b = PGSIZE * q + (12 + k * block_size d)" using k(2) q by simp
  have dv: "b div PGSIZE = q" "b mod PGSIZE = 12 + k * block_size d" unfolding b using lt by simp_all
  show "pg_round_down b = a" by (simp add: pg_round_down_def dv q)
  show "a + 12 \<le> b" "b + block_size d \<le> a + PGSIZE" using k(2) le by simp_all
  show "12 \<le> pg_ofs b \<and> (pg_ofs b - 12) mod block_size d = 0" by (simp add: pg_ofs_def dv)
qed

lemma distinct_arena_blocks: "desc_ok d \<Longrightarrow> distinct (arena_blocks d a)"
  by (auto simp: arena_blocks_def distinct_map inj_on_def desc_ok_def)

lemma length_arena_blocks [simp]: "length (arena_blocks d a) = blocks_per_arena d"
  by (simp add: arena_blocks_def)

lemma arena_blocks_cong: "block_size d' = block_size d \<Longrightarrow> blocks_per_arena d' = blocks_per_arena d \<Longrightarrow> arena_blocks d' a = arena_blocks d a"
  by (simp add: arena_blocks_def)

lemma blocks_apart:
  assumes "desc_ok d" "b \<in> set (arena_blocks d a)" "c \<in> set (arena_blocks d a)" "b \<noteq> c"
  shows "b + block_size d \<le> c \<or> c + block_size d \<le> b"
proof -
  obtain k j where kj: "b = a + 12 + k * block_size d" "c = a + 12 + j * block_size d" using assms(2, 3) by (auto simp: arena_blocks_def)
  then have "k < j \<or> j < k" using assms(4) by (metis linorder_neq_iff)
  then have "(k + 1) * block_size d \<le> j * block_size d \<or> (j + 1) * block_size d \<le> k * block_size d"
    using mult_le_mono1 [of "k + 1" j "block_size d"] mult_le_mono1 [of "j + 1" k "block_size d"] by linarith
  then show ?thesis using kj by auto
qed

section \<open>The invariant\<close>

definition owned :: "arena \<Rightarrow> nat" where
  "owned ar = (case arena_desc ar of Some i \<Rightarrow> 1 | None \<Rightarrow> free_cnt ar)"

definition free_in :: "heap \<Rightarrow> nat \<Rightarrow> nat \<Rightarrow> nat set" where
  "free_in h i a = set (arena_blocks (descs h ! i) a) \<inter> set (free_list (descs h ! i))"

definition arena_ok :: "heap \<Rightarrow> nat \<Rightarrow> arena \<Rightarrow> bool" where
  "arena_ok h a ar \<longleftrightarrow> a mod PGSIZE = 0 \<and> 0 < a \<and> 0 < owned ar \<and> page_range a (owned ar) \<subseteq> used_pages (page_mem h) \<and>
     (\<forall>i. arena_desc ar = Some i \<longrightarrow> i < length (descs h) \<and> free_cnt ar = card (free_in h i a))"

definition list_ok :: "heap \<Rightarrow> nat \<Rightarrow> bool" where
  "list_ok h i \<longleftrightarrow> distinct (free_list (descs h ! i)) \<and>
     (\<forall>b \<in> set (free_list (descs h ! i)). \<exists>a ar. arenas h a = Some ar \<and> arena_desc ar = Some i \<and> b \<in> set (arena_blocks (descs h ! i) a))"

definition heap_inv :: "heap \<Rightarrow> bool" where
  "heap_inv h \<longleftrightarrow> pool_ok (page_mem h) \<and> shape h = sizes \<and> (\<forall>a ar. arenas h a = Some ar \<longrightarrow> arena_ok h a ar) \<and>
     (\<forall>a ar a' ar'. arenas h a = Some ar \<longrightarrow> arenas h a' = Some ar' \<longrightarrow> a \<noteq> a' \<longrightarrow> page_range a (owned ar) \<inter> page_range a' (owned ar') = {}) \<and>
     (\<forall>i < length (descs h). list_ok h i)"

text \<open>No arena is entirely free.\<close>

definition in_use :: "heap \<Rightarrow> nat \<Rightarrow> bool" where
  "in_use h a \<longleftrightarrow> (\<forall>ar i. arenas h a = Some ar \<longrightarrow> arena_desc ar = Some i \<longrightarrow> free_cnt ar < blocks_per_arena (descs h ! i))"

definition heap_ok :: "heap \<Rightarrow> bool" where
  "heap_ok h \<longleftrightarrow> heap_inv h \<and> (\<forall>a. in_use h a)"

text \<open>The allocated blocks.\<close>

fun live_in :: "heap \<Rightarrow> nat \<Rightarrow> nat option \<Rightarrow> nat \<Rightarrow> bool" where
  "live_in h a None b \<longleftrightarrow> b = a + 12"
| "live_in h a (Some i) b \<longleftrightarrow> b \<in> set (arena_blocks (descs h ! i) a) \<and> b \<notin> set (free_list (descs h ! i))"

definition live :: "heap \<Rightarrow> nat set" where
  "live h = {b. \<exists>a ar. arenas h a = Some ar \<and> live_in h a (arena_desc ar) b}"

lemma inv_desc: "heap_inv h \<Longrightarrow> i < length (descs h) \<Longrightarrow> desc_ok (descs h ! i)"
  using desc_shape [of h i] by (simp add: heap_inv_def desc_ok_def)

lemma shape_set_desc:
  "i < length (descs h) \<Longrightarrow> block_size d = block_size (descs h ! i) \<Longrightarrow> blocks_per_arena d = blocks_per_arena (descs h ! i) \<Longrightarrow>
    shape (set_desc i d h) = shape h"
  by (auto simp: shape_def set_desc_def map_update list_update_same_conv)

lemma round_down_big: "a mod PGSIZE = 0 \<Longrightarrow> pg_round_down (a + 12) = a \<and> pg_ofs (a + 12) = 12"
proof -
  assume "a mod PGSIZE = 0"
  then obtain q where "a = PGSIZE * q" by (auto simp: mod_eq_0_iff_dvd elim: dvdE)
  then show ?thesis by (simp add: pg_round_down_def pg_ofs_def)
qed

lemma block_arena:
  assumes "heap_inv h" "arenas h a = Some ar" "arena_desc ar = Some i" "b \<in> set (arena_blocks (descs h ! i) a)"
  shows "block_to_arena h b = Some a"
proof -
  have a: "a mod PGSIZE = 0" "0 < a" "i < length (descs h)" using assms(1-3) by (auto simp: heap_inv_def arena_ok_def)
  note bi = block_in_arena [OF inv_desc [OF assms(1) a(3)] a(1) assms(4)]
  show ?thesis using bi(1, 4) a(2) assms(2, 3) by (simp add: block_to_arena_def Let_def)
qed

lemma big_arena:
  assumes "heap_inv h" "arenas h a = Some ar" "arena_desc ar = None"
  shows "block_to_arena h (a + 12) = Some a"
proof -
  have a: "a mod PGSIZE = 0" "0 < a" using assms(1, 2) by (auto simp: heap_inv_def arena_ok_def)
  then show ?thesis using round_down_big [OF a(1)] assms(2, 3) by (simp add: block_to_arena_def Let_def)
qed

lemma init_heap_ok: "pool_ok m \<Longrightarrow> heap_ok (malloc_init m) \<and> live (malloc_init m) = {}"
proof -
  assume m: "pool_ok m"
  have fl: "free_list d = []" if "d \<in> set (init_descs n sz)" for d n sz
    using that by (induction n arbitrary: sz) (auto split: if_splits)
  have "list_ok (malloc_init m) i" if "i < length (descs (malloc_init m))" for i
    using fl [OF nth_mem, of i 10 16] that by (simp add: list_ok_def malloc_init_def del: init_descs.simps)
  then show ?thesis using m shape_init by (simp add: heap_ok_def heap_inv_def in_use_def live_def malloc_init_def)
qed

text \<open>The bytes of a block; the arenas and the memory of \<open>h\<close> are still there in \<open>h'\<close>.\<close>

definition extent :: "heap \<Rightarrow> nat \<Rightarrow> nat set" where
  "extent h b = {b..<b + the (block_bytes h b)}"

fun span :: "heap \<Rightarrow> arena \<Rightarrow> nat" where
  "span h ar = (case arena_desc ar of Some i \<Rightarrow> block_size (descs h ! i) | None \<Rightarrow> PGSIZE * free_cnt ar - 12)"

definition keeps_arenas :: "heap \<Rightarrow> heap \<Rightarrow> bool" where
  "keeps_arenas h h' \<longleftrightarrow> shape h' = shape h \<and>
     (\<forall>a ar. arenas h a = Some ar \<longrightarrow> (\<exists>ar'. arenas h' a = Some ar' \<and> arena_desc ar' = arena_desc ar \<and> owned ar' = owned ar))"

definition keeps :: "heap \<Rightarrow> heap \<Rightarrow> bool" where
  "keeps h h' \<longleftrightarrow> keeps_arenas h h' \<and> ram (page_mem h') = ram (page_mem h)"

lemma keeps_trans: "keeps h h' \<Longrightarrow> keeps h' h'' \<Longrightarrow> keeps h h''"
  unfolding keeps_def keeps_arenas_def by metis

lemma block_bytes_live:
  assumes "heap_inv h" "arenas h a = Some ar" "live_in h a (arena_desc ar) c"
  shows "block_bytes h c = Some (span h ar)" "block_to_arena h c = Some a"
proof -
  show 1: "block_to_arena h c = Some a"
    using block_arena [OF assms(1, 2)] big_arena [OF assms(1, 2)] assms(3) by (cases "arena_desc ar") auto
  have "a mod PGSIZE = 0" using assms(1, 2) by (simp add: heap_inv_def arena_ok_def)
  then have "arena_desc ar = None \<Longrightarrow> pg_ofs c = 12" using round_down_big [of a] assms(3) by simp
  then show "block_bytes h c = Some (span h ar)" using 1 assms(2) by (auto simp: block_bytes_def split: option.split)
qed

lemma shape_block_size: "shape h' = shape h \<Longrightarrow> i < length (descs h) \<Longrightarrow> block_size (descs h' ! i) = block_size (descs h ! i) \<and> blocks_per_arena (descs h' ! i) = blocks_per_arena (descs h ! i)"
proof -
  assume s: "shape h' = shape h" and i: "i < length (descs h)"
  have "length (descs h') = length (descs h)" using arg_cong [OF s, of length] by (simp add: shape_def)
  then show ?thesis using arg_cong [OF s, of "\<lambda>xs. xs ! i"] i by (simp add: shape_def)
qed

section \<open>Taking a block\<close>

lemma set_desc_views:
  assumes "i < length (descs h)" "block_size d = block_size (descs h ! i)" "blocks_per_arena d = blocks_per_arena (descs h ! i)"
  shows "arena_blocks (descs (set_desc i d h) ! j) x = arena_blocks (descs h ! j) x"
    "free_list (descs (set_desc i d h) ! j) = (if j = i then free_list d else free_list (descs h ! j))"
    "blocks_per_arena (descs (set_desc i d h) ! j) = blocks_per_arena (descs h ! j)"
    "length (descs (set_desc i d h)) = length (descs h)"
    "arenas (set_desc i d h) = arenas h" "page_mem (set_desc i d h) = page_mem h"
  using assms by (auto simp: set_desc_def nth_list_update intro: arena_blocks_cong)

lemma block_to_arena_set_desc:
  assumes "i < length (descs h)" "block_size d = block_size (descs h ! i)"
  shows "block_to_arena (set_desc i d h) b = block_to_arena h b"
proof -
  have "block_size ((descs h)[i := d] ! j) = block_size (descs h ! j)" for j using assms by (simp add: nth_list_update)
  then show ?thesis by (simp add: block_to_arena_def set_desc_def Let_def cong: option.case_cong)
qed

lemma inv_arena: "heap_inv h \<Longrightarrow> arenas h a = Some ar \<Longrightarrow> arena_ok h a ar"
  by (simp add: heap_inv_def)

lemma same_arena:
  assumes "heap_inv h" "arenas h a = Some ar" "arena_desc ar = Some i" "b \<in> set (arena_blocks (descs h ! i) a)"
    "arenas h a' = Some ar'" "arena_desc ar' = Some i'" "b \<in> set (arena_blocks (descs h ! i') a')"
  shows "a' = a"
  using block_arena [OF assms(1, 2, 3, 4)] block_arena [OF assms(1, 5, 6, 7)] by simp

lemma big_not_block:
  assumes "heap_inv h" "arenas h a = Some ar" "arena_desc ar = Some i" "b \<in> set (arena_blocks (descs h ! i) a)"
    "arenas h a' = Some ar'" "arena_desc ar' = None"
  shows "b \<noteq> a' + 12"
  using block_arena [OF assms(1, 2, 3, 4)] big_arena [OF assms(1, 5, 6)] assms(2, 3, 5, 6) by auto

lemma live_block:
  assumes "heap_inv h" "arenas h a = Some ar" "arena_desc ar = Some i" "b \<in> set (arena_blocks (descs h ! i) a)"
  shows "b \<in> live h \<longleftrightarrow> b \<notin> set (free_list (descs h ! i))"
proof
  assume "b \<in> live h"
  then obtain a' ar' where a': "arenas h a' = Some ar'" "live_in h a' (arena_desc ar') b" by (auto simp: live_def)
  show "b \<notin> set (free_list (descs h ! i))"
  proof (cases "arena_desc ar'")
    case None
    then show ?thesis using big_not_block [OF assms a'(1)] a'(2) by simp
  next
    case (Some j)
    then have "a' = a" using same_arena [OF assms a'(1)] a'(2) by simp
    then show ?thesis using a' Some assms(2, 3) by simp
  qed
next
  assume "b \<notin> set (free_list (descs h ! i))"
  then show "b \<in> live h" unfolding live_def using assms(2, 3, 4) by (intro CollectI exI [of _ a] exI [of _ ar]) simp
qed

definition popped :: "nat \<Rightarrow> nat \<Rightarrow> arena \<Rightarrow> nat list \<Rightarrow> heap \<Rightarrow> heap" where
  "popped i a ar bs h =
     (let h = set_desc i ((descs h ! i)\<lparr>free_list := bs\<rparr>) h in h\<lparr>arenas := (arenas h)(a \<mapsto> ar\<lparr>free_cnt := free_cnt ar - 1\<rparr>)\<rparr>)"

lemma popped_views:
  assumes "i < length (descs h)"
  shows "arena_blocks (descs (popped i a ar bs h) ! j) x = arena_blocks (descs h ! j) x"
    "free_list (descs (popped i a ar bs h) ! j) = (if j = i then bs else free_list (descs h ! j))"
    "blocks_per_arena (descs (popped i a ar bs h) ! j) = blocks_per_arena (descs h ! j)"
    "length (descs (popped i a ar bs h)) = length (descs h)"
    "arenas (popped i a ar bs h) = (arenas h)(a \<mapsto> ar\<lparr>free_cnt := free_cnt ar - 1\<rparr>)"
    "page_mem (popped i a ar bs h) = page_mem h" "shape (popped i a ar bs h) = shape h"
  using set_desc_views [OF assms, of "(descs h ! i)\<lparr>free_list := bs\<rparr>"]
    shape_set_desc [OF assms, of "(descs h ! i)\<lparr>free_list := bs\<rparr>"]
  by (simp_all add: popped_def Let_def shape_def)

lemma pop_block_runs:
  assumes "heap_inv h" "i < length (descs h)" "free_list (descs h ! i) = b # bs"
  shows "\<exists>a ar. arenas h a = Some ar \<and> arena_desc ar = Some i \<and> b \<in> set (arena_blocks (descs h ! i) a) \<and>
    pop_block i h = Some (b, popped i a ar bs h)"
proof -
  have "list_ok h i" using assms(1, 2) by (simp add: heap_inv_def)
  then obtain a ar where a: "arenas h a = Some ar" "arena_desc ar = Some i" "b \<in> set (arena_blocks (descs h ! i) a)"
    unfolding list_ok_def using assms(3) by (auto simp del: fun_upd_apply)
  have "block_to_arena (set_desc i ((descs h ! i)\<lparr>free_list := bs\<rparr>) h) b = block_to_arena h b"
    using block_to_arena_set_desc [OF assms(2)] by simp
  then have "pop_block i h = Some (b, popped i a ar bs h)"
    using block_arena [OF assms(1) a] a(1) assms(3) by (simp add: pop_block_def popped_def Let_def set_desc_def)
  then show ?thesis using a by blast
qed

lemma free_cnt_bounds:
  assumes "heap_inv h" "arenas h a = Some ar" "arena_desc ar = Some i"
  shows "free_cnt ar = card (free_in h i a)" "free_cnt ar \<le> blocks_per_arena (descs h ! i)" "i < length (descs h)"
proof -
  show 1: "free_cnt ar = card (free_in h i a)" "i < length (descs h)"
    using inv_arena [OF assms(1, 2)] assms(3) by (simp_all add: arena_ok_def)
  have "card (free_in h i a) \<le> card (set (arena_blocks (descs h ! i) a))"
    by (rule card_mono) (simp_all add: free_in_def)
  also have "\<dots> \<le> blocks_per_arena (descs h ! i)" using card_length [of "arena_blocks (descs h ! i) a"] by simp
  finally show "free_cnt ar \<le> blocks_per_arena (descs h ! i)" using 1 by simp
qed

lemma free_in_popped:
  assumes inv: "heap_inv h" and a: "arenas h a = Some ar" "arena_desc ar = Some i" "b \<in> set (arena_blocks (descs h ! i) a)"
    and fl: "free_list (descs h ! i) = b # bs" and x: "arenas h x = Some rx" "arena_desc rx = Some j"
  shows "free_in (popped i a ar bs h) j x = free_in h j x - {b}" "x \<noteq> a \<Longrightarrow> b \<notin> free_in h j x" "b \<in> free_in h i a"
proof -
  have len: "i < length (descs h)" using free_cnt_bounds(3) [OF inv a(1, 2)] .
  have d: "distinct (b # bs)" using inv len fl unfolding heap_inv_def list_ok_def by metis
  have "b \<notin> set (arena_blocks (descs h ! j) x)" if "j \<noteq> i \<or> x \<noteq> a"
    using same_arena [OF inv a x] that a x by auto
  then show "free_in (popped i a ar bs h) j x = free_in h j x - {b}" "x \<noteq> a \<Longrightarrow> b \<notin> free_in h j x" "b \<in> free_in h i a"
    using d fl a(3) by (auto simp: free_in_def popped_views [OF len])
qed

lemma popped_inv:
  assumes inv: "heap_inv h" and a: "arenas h a = Some ar" "arena_desc ar = Some i" "b \<in> set (arena_blocks (descs h ! i) a)"
    and fl: "free_list (descs h ! i) = b # bs"
  shows "heap_inv (popped i a ar bs h)"
proof -
  let ?h = "popped i a ar bs h"
  have len: "i < length (descs h)" using free_cnt_bounds(3) [OF inv a(1, 2)] .
  note v = popped_views [OF len]
  have old: "\<exists>ry. arenas h x = Some ry \<and> arena_desc ry = arena_desc rx \<and> owned ry = owned rx \<and>
      free_cnt rx = free_cnt ry - (if x = a then 1 else 0)" if "arenas ?h x = Some rx" for x rx
    using that a by (auto simp: v owned_def split: if_splits)
  have ok: "arena_ok ?h x rx" if x: "arenas ?h x = Some rx" for x rx
  proof -
    obtain ry where ry: "arenas h x = Some ry" "arena_desc ry = arena_desc rx" "owned ry = owned rx"
      "free_cnt rx = free_cnt ry - (if x = a then 1 else 0)" using old [OF x] by auto
    have "free_cnt rx = card (free_in ?h j x)" if "arena_desc rx = Some j" for j
    proof -
      have j: "arena_desc ry = Some j" using that ry(2) by simp
      note f = free_in_popped [OF inv a fl ry(1) j]
      have "x = a \<Longrightarrow> j = i" using ry(1) a j by simp
      then show ?thesis using f ry(4) free_cnt_bounds(1) [OF inv ry(1) j] by (cases "x = a") auto
    qed
    then show ?thesis using inv_arena [OF inv ry(1)] ry(2, 3) unfolding arena_ok_def v by simp
  qed
  have lo: "list_ok ?h j" if "j < length (descs h)" for j
  proof -
    have l: "list_ok h j" using inv that by (simp add: heap_inv_def)
    have ex: "\<exists>x rx. arenas ?h x = Some rx \<and> arena_desc rx = Some j \<and> c \<in> set (arena_blocks (descs h ! j) x)"
      if "c \<in> set (free_list (descs h ! j))" for c
    proof -
      obtain x rx where x: "arenas h x = Some rx" "arena_desc rx = Some j" "c \<in> set (arena_blocks (descs h ! j) x)"
        using l \<open>c \<in> set (free_list (descs h ! j))\<close> unfolding list_ok_def by blast
      show ?thesis
      proof (cases "x = a")
        case True
        then show ?thesis using x a by (intro exI [of _ a]) (simp add: v)
      qed (use x in \<open>auto simp: v\<close>)
    qed
    show ?thesis using l ex fl unfolding list_ok_def v by (cases "j = i") auto
  qed
  have dj: "page_range x (owned rx) \<inter> page_range y (owned ry) = {}"
    if "arenas ?h x = Some rx" "arenas ?h y = Some ry" "x \<noteq> y" for x y rx ry
    using old [OF that(1)] old [OF that(2)] that(3) inv unfolding heap_inv_def by metis
  show ?thesis using inv ok dj lo unfolding heap_inv_def v(4, 6, 7) by blast
qed

lemma popped_live:
  assumes inv: "heap_inv h" and a: "arenas h a = Some ar" "arena_desc ar = Some i" "b \<in> set (arena_blocks (descs h ! i) a)"
    and fl: "free_list (descs h ! i) = b # bs"
  shows "b \<notin> live h" "live (popped i a ar bs h) = insert b (live h)"
proof -
  have len: "i < length (descs h)" using free_cnt_bounds(3) [OF inv a(1, 2)] .
  note v = popped_views [OF len]
  have d: "b \<notin> set bs" using inv len fl unfolding heap_inv_def list_ok_def by (metis distinct.simps(2))
  show "b \<notin> live h" using live_block [OF inv a] fl by simp
  have li: "live_in (popped i a ar bs h) x (arena_desc rx) c \<longleftrightarrow> live_in h x (arena_desc rx) c \<or> c = b \<and> x = a"
    if x: "arenas h x = Some rx" for x rx c
  proof (cases "arena_desc rx")
    case None
    then show ?thesis using x a by auto
  next
    case (Some j)
    have "x = a" "j = i" if "b \<in> set (arena_blocks (descs h ! j) x)" "j = i \<or> x = a"
      using same_arena [OF inv a x Some that(1)] that x a Some by auto
    then show ?thesis using Some d fl a x by (auto simp: v)
  qed
  have "(\<exists>rx. arenas (popped i a ar bs h) x = Some rx \<and> live_in (popped i a ar bs h) x (arena_desc rx) c) \<longleftrightarrow>
      (\<exists>rx. arenas h x = Some rx \<and> (live_in h x (arena_desc rx) c \<or> c = b \<and> x = a))" for x c
    using li [of x _ c] a(1) by (auto simp: v(5))
  then show "live (popped i a ar bs h) = insert b (live h)"
    unfolding live_def using a(1) by (auto 4 3)
qed

lemma popped_in_use:
  assumes inv: "heap_inv h" and a: "arenas h a = Some ar" "arena_desc ar = Some i" "b \<in> set (arena_blocks (descs h ! i) a)"
    and fl: "free_list (descs h ! i) = b # bs"
  shows "in_use (popped i a ar bs h) x \<longleftrightarrow> x = a \<or> in_use h x"
proof -
  have len: "i < length (descs h)" using free_cnt_bounds(3) [OF inv a(1, 2)] .
  note v = popped_views [OF len]
  have "b \<in> free_in h i a" using a(3) fl by (simp add: free_in_def)
  then have "0 < free_cnt ar" using free_cnt_bounds(1) [OF inv a(1, 2)] by (auto simp: card_gt_0_iff free_in_def)
  then have "free_cnt ar - 1 < blocks_per_arena (descs h ! i)" using free_cnt_bounds(2) [OF inv a(1, 2)] by simp
  then show ?thesis using a by (auto simp: in_use_def v)
qed

lemma popped_keeps:
  assumes "i < length (descs h)" "arenas h a = Some ar" "arena_desc ar = Some i"
  shows "keeps h (popped i a ar bs h)"
  unfolding keeps_def keeps_arenas_def using assms by (auto simp: popped_views [OF assms(1)] owned_def)

section \<open>New arenas\<close>

definition add_arena :: "nat \<Rightarrow> arena \<Rightarrow> pages \<Rightarrow> heap \<Rightarrow> heap" where
  "add_arena a ar m h = h\<lparr>page_mem := m, arenas := (arenas h)(a \<mapsto> ar)\<rparr>"

lemma page_in_range: "0 < n \<Longrightarrow> a \<in> page_range a n"
  by (force simp: page_range_def)

lemma fresh_arena:
  assumes "heap_inv h" "0 < n" "page_range a n \<inter> used_pages (page_mem h) = {}"
  shows "arenas h a = None" "\<And>x rx. arenas h x = Some rx \<Longrightarrow> page_range a n \<inter> page_range x (owned rx) = {}"
proof -
  show disj: "page_range a n \<inter> page_range x (owned rx) = {}" if "arenas h x = Some rx" for x rx
    using inv_arena [OF assms(1) that] assms(3) unfolding arena_ok_def by blast
  show "arenas h a = None"
  proof (rule ccontr)
    assume "arenas h a \<noteq> None"
    then obtain ar where ar: "arenas h a = Some ar" by auto
    then have "0 < owned ar" using inv_arena [OF assms(1) ar] by (simp add: arena_ok_def)
    then show False using disj [OF ar] page_in_range [of n a] page_in_range [of "owned ar" a] assms(2) by blast
  qed
qed

lemma get_pages_inv:
  assumes "heap_inv h" "pool_ok m" "used_pages (page_mem h) \<subseteq> used_pages m"
  shows "heap_inv (h\<lparr>page_mem := m\<rparr>)"
proof -
  have "arena_ok (h\<lparr>page_mem := m\<rparr>) a ar" if "arenas h a = Some ar" for a ar
    using inv_arena [OF assms(1) that] assms(3) by (auto simp: arena_ok_def free_in_def)
  moreover have "list_ok (h\<lparr>page_mem := m\<rparr>) i \<longleftrightarrow> list_ok h i" for i by (simp add: list_ok_def)
  moreover have "shape (h\<lparr>page_mem := m\<rparr>) = shape h" by (simp add: shape_def)
  ultimately show ?thesis using assms(1, 2) unfolding heap_inv_def by simp
qed

lemma get_pages_live: "live (h\<lparr>page_mem := m\<rparr>) = live h"
proof -
  have "live_in (h\<lparr>page_mem := m\<rparr>) a d b \<longleftrightarrow> live_in h a d b" for a d b by (cases d) simp_all
  then show ?thesis by (simp add: live_def)
qed

lemma list_ok_mono:
  assumes "list_ok h i" "free_list (descs h' ! i) = free_list (descs h ! i)"
    "\<And>x. arena_blocks (descs h' ! i) x = arena_blocks (descs h ! i) x" "\<And>x rx. arenas h x = Some rx \<Longrightarrow> arenas h' x = Some rx"
  shows "list_ok h' i"
  using assms(1, 4) unfolding list_ok_def assms(2, 3) by blast

lemma live_add:
  assumes "arenas h a = None" "arenas h' = (arenas h)(a \<mapsto> ar)"
    "\<And>x rx c. arenas h x = Some rx \<Longrightarrow> live_in h' x (arena_desc rx) c = live_in h x (arena_desc rx) c"
  shows "live h' = {c. live_in h' a (arena_desc ar) c} \<union> live h"
proof -
  have "(\<exists>rx. arenas h' x = Some rx \<and> live_in h' x (arena_desc rx) c) \<longleftrightarrow>
      x = a \<and> live_in h' a (arena_desc ar) c \<or> (\<exists>rx. arenas h x = Some rx \<and> live_in h x (arena_desc rx) c)" for x c
    using assms(1) assms(3) [of x] by (auto simp: assms(2))
  then show ?thesis unfolding live_def by blast
qed

lemma disjoint_add:
  fixes R :: "nat \<Rightarrow> arena \<Rightarrow> nat set"
  assumes "\<forall>x rx y ry. A x = Some rx \<longrightarrow> A y = Some ry \<longrightarrow> x \<noteq> y \<longrightarrow> R x rx \<inter> R y ry = {}"
    and "\<And>x rx. A x = Some rx \<Longrightarrow> R a ar \<inter> R x rx = {}"
    and "(A(a \<mapsto> ar)) x = Some rx" "(A(a \<mapsto> ar)) y = Some ry" "x \<noteq> y"
  shows "R x rx \<inter> R y ry = {}"
proof (cases "x = a")
  case True
  then show ?thesis using assms(2) [of y ry] assms(3-5) by simp
next
  case False
  then show ?thesis using assms(2) [of x rx] assms(1, 3-5) by (cases "y = a") (simp_all add: Int_commute)
qed

lemma inv_disjoint:
  "heap_inv h \<Longrightarrow> \<forall>x rx y ry. arenas h x = Some rx \<longrightarrow> arenas h y = Some ry \<longrightarrow> x \<noteq> y \<longrightarrow>
    page_range x (owned rx) \<inter> page_range y (owned ry) = {}"
  by (simp add: heap_inv_def)

lemma add_big:
  assumes inv: "heap_inv h" and m: "pool_ok m" "used_pages m = used_pages (page_mem h) \<union> page_range a n"
    and a: "0 < n" "page_range a n \<inter> used_pages (page_mem h) = {}" "a mod PGSIZE = 0" "0 < a"
  defines "h' \<equiv> add_arena a \<lparr>arena_desc = None, free_cnt = n\<rparr> m h"
  shows "heap_inv h'" "a + 12 \<notin> live h" "live h' = insert (a + 12) (live h)" "(\<forall>x. in_use h x) \<Longrightarrow> in_use h' y"
proof -
  note fresh = fresh_arena [OF inv a(1, 2)]
  have ok0: "arena_ok h' x rx" if "arenas h x = Some rx" for x rx
    using inv_arena [OF inv that] m(2) by (auto simp: arena_ok_def free_in_def h'_def add_arena_def)
  moreover have "arena_ok h' a \<lparr>arena_desc = None, free_cnt = n\<rparr>"
    using a m(2) by (auto simp: arena_ok_def owned_def h'_def add_arena_def)
  ultimately have ok: "arena_ok h' x rx" if "arenas h' x = Some rx" for x rx
    using that by (auto simp: h'_def add_arena_def split: if_splits)
  have dj: "page_range x (owned rx) \<inter> page_range y (owned ry) = {}"
    if x: "arenas h' x = Some rx" and y: "arenas h' y = Some ry" and "x \<noteq> y" for x y rx ry
    using disjoint_add [OF inv_disjoint [OF inv], of a "\<lparr>arena_desc = None, free_cnt = n\<rparr>" x rx y ry] fresh(2) x y \<open>x \<noteq> y\<close>
    by (simp add: owned_def h'_def add_arena_def)
  have lo: "list_ok h' i" if "i < length (descs h)" for i
  proof -
    have "list_ok h i" using inv that by (simp add: heap_inv_def)
    then show ?thesis by (rule list_ok_mono) (use fresh(1) in \<open>auto simp: h'_def add_arena_def\<close>)
  qed
  show "heap_inv h'" using inv ok dj lo m(1) unfolding heap_inv_def by (simp add: h'_def add_arena_def shape_def)
  have li: "live_in h' x d c \<longleftrightarrow> live_in h x d c" for x d c by (cases d) (simp_all add: h'_def add_arena_def)
  show "live h' = insert (a + 12) (live h)"
    using live_add [OF fresh(1), of h' "\<lparr>arena_desc = None, free_cnt = n\<rparr>"] li by (auto simp: h'_def add_arena_def)
  show "a + 12 \<notin> live h"
  proof
    assume "a + 12 \<in> live h"
    then obtain x rx where x: "arenas h x = Some rx" "live_in h x (arena_desc rx) (a + 12)" by (auto simp: live_def)
    then have "block_to_arena h (a + 12) = Some x"
      using big_arena [OF inv x(1)] block_arena [OF inv x(1)] by (cases "arena_desc rx") auto
    then show False using fresh(1) x(1) round_down_big [OF a(3)] by (auto simp: block_to_arena_def Let_def split: if_splits)
  qed
  show "in_use h' y" if "\<forall>x. in_use h x" using that by (auto simp: in_use_def h'_def add_arena_def)
qed

definition add_small :: "nat \<Rightarrow> nat \<Rightarrow> pages \<Rightarrow> heap \<Rightarrow> heap" where
  "add_small i a m h = set_desc i ((descs h ! i)\<lparr>free_list := arena_blocks (descs h ! i) a\<rparr>)
     (add_arena a \<lparr>arena_desc = Some i, free_cnt = blocks_per_arena (descs h ! i)\<rparr> m h)"

lemma add_small_views:
  assumes "i < length (descs h)"
  shows "arena_blocks (descs (add_small i a m h) ! j) x = arena_blocks (descs h ! j) x"
    "free_list (descs (add_small i a m h) ! j) = (if j = i then arena_blocks (descs h ! i) a else free_list (descs h ! j))"
    "blocks_per_arena (descs (add_small i a m h) ! j) = blocks_per_arena (descs h ! j)"
    "length (descs (add_small i a m h)) = length (descs h)"
    "arenas (add_small i a m h) = (arenas h)(a \<mapsto> \<lparr>arena_desc = Some i, free_cnt = blocks_per_arena (descs h ! i)\<rparr>)"
    "page_mem (add_small i a m h) = m" "shape (add_small i a m h) = shape h"
  using set_desc_views [of i "add_arena a \<lparr>arena_desc = Some i, free_cnt = blocks_per_arena (descs h ! i)\<rparr> m h" "(descs h ! i)\<lparr>free_list := arena_blocks (descs h ! i) a\<rparr>"]
    shape_set_desc [of i "add_arena a \<lparr>arena_desc = Some i, free_cnt = blocks_per_arena (descs h ! i)\<rparr> m h" "(descs h ! i)\<lparr>free_list := arena_blocks (descs h ! i) a\<rparr>"] assms
  by (simp_all add: add_small_def add_arena_def shape_def)

lemma fresh_blocks:
  assumes inv: "heap_inv h" and a: "0 < n" "page_range a n \<inter> used_pages (page_mem h) = {}" "a mod PGSIZE = 0" "i < length (descs h)"
    and x: "arenas h x = Some rx" "arena_desc rx = Some j"
  shows "set (arena_blocks (descs h ! i) a) \<inter> set (arena_blocks (descs h ! j) x) = {}"
proof -
  have False if "b \<in> set (arena_blocks (descs h ! i) a)" "b \<in> set (arena_blocks (descs h ! j) x)" for b
  proof -
    have "j < length (descs h)" "x mod PGSIZE = 0" using inv_arena [OF inv x(1)] x(2) by (simp_all add: arena_ok_def)
    then have "a = x"
      using block_in_arena(1) [OF inv_desc [OF inv a(4)] a(3) that(1)] block_in_arena(1) [OF inv_desc [OF inv] _ that(2)] by simp
    then show False using fresh_arena(1) [OF inv a(1, 2)] x(1) by simp
  qed
  then show ?thesis by blast
qed

lemma add_small_ok:
  assumes inv: "heap_inv h" and m: "pool_ok m" "used_pages m = used_pages (page_mem h) \<union> page_range a 1"
    and a: "page_range a 1 \<inter> used_pages (page_mem h) = {}" "a mod PGSIZE = 0" "0 < a"
    and i: "i < length (descs h)" "free_list (descs h ! i) = []"
  defines "h' \<equiv> add_small i a m h"
  shows "heap_inv h'" "live h' = live h" "x \<noteq> a \<Longrightarrow> in_use h x \<Longrightarrow> in_use h' x"
proof -
  note fresh = fresh_arena [OF inv zero_less_one a(1)] and fb = fresh_blocks [OF inv zero_less_one a(1, 2) i(1)]
  note v = add_small_views [OF i(1), of a m, folded h'_def]
  have d: "desc_ok (descs h ! i)" using inv_desc [OF inv i(1)] .
  have fi: "free_in h' j x = free_in h j x" if "arenas h x = Some rx" "arena_desc rx = Some j" for j x rx
    using fb [OF that] i(2) by (auto simp: free_in_def v)
  have ok0: "arena_ok h' x rx" if "arenas h x = Some rx" for x rx
    using inv_arena [OF inv that] m(2) fi [OF that] by (auto simp: arena_ok_def v)
  have "free_in h' i a = set (arena_blocks (descs h ! i) a)" by (simp add: free_in_def v)
  then have oka: "arena_ok h' a \<lparr>arena_desc = Some i, free_cnt = blocks_per_arena (descs h ! i)\<rparr>"
    using a i(1) m(2) distinct_card [OF distinct_arena_blocks [OF d]] by (auto simp: arena_ok_def owned_def v)
  have ok: "arena_ok h' x rx" if "arenas h' x = Some rx" for x rx
    using that ok0 oka by (cases "x = a") (simp_all add: v)
  have dj: "page_range x (owned rx) \<inter> page_range y (owned ry) = {}"
    if x: "arenas h' x = Some rx" and y: "arenas h' y = Some ry" and "x \<noteq> y" for x y rx ry
    using disjoint_add [OF inv_disjoint [OF inv], of a "\<lparr>arena_desc = Some i, free_cnt = blocks_per_arena (descs h ! i)\<rparr>" x rx y ry]
      fresh(2) x y \<open>x \<noteq> y\<close> by (simp add: owned_def v)
  have lo: "list_ok h' j" if "j < length (descs h)" for j
  proof (cases "j = i")
    case True
    then show ?thesis using distinct_arena_blocks [OF d] by (auto simp: list_ok_def v)
  next
    case False
    have "list_ok h j" using inv that by (simp add: heap_inv_def)
    then show ?thesis by (rule list_ok_mono) (use False fresh(1) in \<open>auto simp: v\<close>)
  qed
  show "heap_inv h'" using inv ok dj lo m(1) unfolding heap_inv_def by (simp add: v)
  have li: "live_in h' x (arena_desc rx) c \<longleftrightarrow> live_in h x (arena_desc rx) c" if "arenas h x = Some rx" for x rx c
    using fb [OF that] i(2) by (cases "arena_desc rx") (auto simp: v)
  show "live h' = live h" using live_add [OF fresh(1) v(5) li] by (simp add: v)
  show "x \<noteq> a \<Longrightarrow> in_use h x \<Longrightarrow> in_use h' x" by (simp add: in_use_def v)
qed

lemma add_keeps:
  assumes "arenas h a = None" "ram m = ram (page_mem h)"
  shows "keeps h (add_arena a ar m h)" "i < length (descs h) \<Longrightarrow> keeps h (add_small i a m h)"
  unfolding keeps_def keeps_arenas_def using assms by (auto simp: add_arena_def shape_def add_small_views [unfolded shape_def])

lemma page_mem_keeps: "ram m = ram (page_mem h) \<Longrightarrow> keeps h (h\<lparr>page_mem := m\<rparr>)"
  by (simp add: keeps_def keeps_arenas_def shape_def)

section \<open>Allocation\<close>

lemma pop_block_ok:
  assumes inv: "heap_inv h" and i: "i < length (descs h)" "free_list (descs h ! i) \<noteq> []"
    and use: "\<And>x. in_use h x \<or> (\<forall>b \<in> set (free_list (descs h ! i)). pg_round_down b = x)"
  shows "\<exists>b h'. pop_block i h = Some (b, h') \<and> heap_ok h' \<and> b \<noteq> 0 \<and> b \<notin> live h \<and> live h' = insert b (live h) \<and>
    keeps h h' \<and> block_bytes h' b = Some (block_size (descs h ! i))"
proof -
  obtain b bs where fl: "free_list (descs h ! i) = b # bs" using i(2) by (cases "free_list (descs h ! i)") auto
  obtain a ar where a: "arenas h a = Some ar" "arena_desc ar = Some i" "b \<in> set (arena_blocks (descs h ! i) a)"
    and p: "pop_block i h = Some (b, popped i a ar bs h)" using pop_block_runs [OF inv i(1) fl] by auto
  have am: "a mod PGSIZE = 0" using inv_arena [OF inv a(1)] by (simp add: arena_ok_def)
  note bi = block_in_arena [OF inv_desc [OF inv i(1)] am a(3)]
  have "in_use (popped i a ar bs h) x" for x using use [of x] popped_in_use [OF inv a fl, of x] bi(1) fl by auto
  then have "heap_ok (popped i a ar bs h)" using popped_inv [OF inv a fl] by (simp add: heap_ok_def)
  moreover have "block_bytes (popped i a ar bs h) b = Some (block_size (descs h ! i))"
  proof -
    note v = popped_views [OF i(1), of a ar bs]
    have "live_in (popped i a ar bs h) a (Some i) b"
      using a(3) inv i(1) fl unfolding heap_inv_def list_ok_def by (metis distinct.simps(2) live_in.simps(2) v(1, 2))
    then show ?thesis
      using block_bytes_live(1) [OF popped_inv [OF inv a fl], of a "ar\<lparr>free_cnt := free_cnt ar - 1\<rparr>" b] a(2) shape_block_size [OF v(7) i(1)]
      by (simp add: v)
  qed
  ultimately show ?thesis using p bi(2) popped_live [OF inv a fl] popped_keeps [OF i(1) a(1, 2)] by auto
qed

lemma zero_not_live: "0 \<notin> live h"
proof
  assume "0 \<in> live h"
  then obtain x rx where x: "arenas h x = Some rx" "live_in h x (arena_desc rx) 0" by (auto simp: live_def)
  then show False by (cases "arena_desc rx") (auto simp: arena_blocks_def)
qed

lemma malloc_big_ok:
  assumes h: "heap_ok h" and sz: "0 < u32 (4095 + u32 (sz + 12)) div PGSIZE"
  shows "\<exists>b h'. malloc_big sz h = Some (b, h') \<and> heap_ok h' \<and> b \<notin> live h \<and> live h' = (if b = 0 then live h else insert b (live h)) \<and>
    keeps h h' \<and> (b \<noteq> 0 \<longrightarrow> block_bytes h' b = Some (PGSIZE * (u32 (4095 + u32 (sz + 12)) div PGSIZE) - 12))"
proof -
  let ?n = "u32 (4095 + u32 (sz + 12)) div PGSIZE"
  have inv: "heap_inv h" and pl: "pool_ok (page_mem h)" using h by (simp_all add: heap_ok_def heap_inv_def)
  obtain a m where g: "palloc_get_multiple {} ?n (page_mem h) = Some (a, m)" using get_kernel_total [OF pl, of "{}"] by blast
  note gk = get_kernel_pages [OF pl sz g]
  show ?thesis
  proof (cases "a = 0")
    case True
    have "heap_ok (h\<lparr>page_mem := m\<rparr>)"
      using get_pages_inv [OF inv gk(1)] gk(2) True h by (simp add: heap_ok_def in_use_def)
    then show ?thesis using g True zero_not_live [of h] get_pages_live [of m h] page_mem_keeps [OF get_kernel_ram [OF g]]
      by (simp add: malloc_big_def Let_def)
  next
    case False
    have r: "malloc_big sz h = Some (a + 12, add_arena a \<lparr>arena_desc = None, free_cnt = ?n\<rparr> m h)"
      using g False by (simp add: malloc_big_def Let_def add_arena_def)
    have ab: "page_range a ?n \<inter> used_pages (page_mem h) = {}" "a mod PGSIZE = 0" "0 < a" "used_pages m = used_pages (page_mem h) \<union> page_range a ?n"
      using gk(3) [OF False] False by auto
    note big = add_big [OF inv gk(1) ab(4) sz ab(1-3)]
    have "\<forall>x. in_use h x" using h by (simp add: heap_ok_def)
    then have "heap_ok (add_arena a \<lparr>arena_desc = None, free_cnt = ?n\<rparr> m h)" using big(1, 4) by (simp add: heap_ok_def)
    moreover have "block_bytes (add_arena a \<lparr>arena_desc = None, free_cnt = ?n\<rparr> m h) (a + 12) = Some (PGSIZE * ?n - 12)"
      using block_bytes_live(1) [OF big(1), of a "\<lparr>arena_desc = None, free_cnt = ?n\<rparr>" "a + 12"] by (simp add: add_arena_def)
    moreover have "keeps h (add_arena a \<lparr>arena_desc = None, free_cnt = ?n\<rparr> m h)"
      using add_keeps(1) [OF fresh_arena(1) [OF inv sz ab(1)] get_kernel_ram [OF g]] .
    ultimately show ?thesis using r big(2, 3) by (intro exI [of _ "a + 12"] exI conjI) simp_all
  qed
qed

lemma find_desc_Some: "find_desc h sz = Some i \<Longrightarrow> i < length (descs h) \<and> sz \<le> block_size (descs h ! i)"
  by (auto simp: find_desc_def find_Some_iff)

lemma new_arena_runs:
  assumes "heap_inv h" "free_list (descs h ! i) = []" "palloc_get_multiple {} 1 (page_mem h) = Some (a, m)"
  shows "new_arena i h = Some (if a = 0 then (False, h\<lparr>page_mem := m\<rparr>) else (True, add_small i a m h))"
  using assms(2, 3) by (simp add: new_arena_def palloc_get_page_def add_small_def add_arena_def Let_def)

lemma malloc_small_ok:
  assumes h: "heap_ok h" and i: "i < length (descs h)" and e: "free_list (descs h ! i) = []"
  shows "\<exists>b h'. new_arena i h \<bind> (\<lambda>(ok, h). if ok then pop_block i h else Some (0, h)) = Some (b, h') \<and> heap_ok h' \<and> b \<notin> live h \<and>
    live h' = (if b = 0 then live h else insert b (live h)) \<and> keeps h h' \<and> (b \<noteq> 0 \<longrightarrow> block_bytes h' b = Some (block_size (descs h ! i)))"
proof -
  have inv: "heap_inv h" and pl: "pool_ok (page_mem h)" and use: "\<And>x. in_use h x"
    using h by (simp_all add: heap_ok_def heap_inv_def)
  obtain a m where g: "palloc_get_multiple {} 1 (page_mem h) = Some (a, m)" using get_kernel_total [OF pl, of "{}"] by blast
  note gk = get_kernel_pages [OF pl zero_less_one g] and run = new_arena_runs [OF inv e g]
  show ?thesis
  proof (cases "a = 0")
    case True
    have "heap_ok (h\<lparr>page_mem := m\<rparr>)"
      using get_pages_inv [OF inv gk(1)] gk(2) True use by (simp add: heap_ok_def in_use_def)
    then show ?thesis using run True zero_not_live [of h] get_pages_live [of m h] page_mem_keeps [OF get_kernel_ram [OF g]] by simp
  next
    case False
    have ab: "page_range a 1 \<inter> used_pages (page_mem h) = {}" "a mod PGSIZE = 0" "0 < a" "used_pages m = used_pages (page_mem h) \<union> page_range a 1"
      using gk(3) [OF False] False by auto
    note sm = add_small_ok [OF inv gk(1) ab(4) ab(1-3) i e]
    note v = add_small_views [OF i, of a m]
    have d: "desc_ok (descs h ! i)" using inv_desc [OF inv i] .
    have ne: "free_list (descs (add_small i a m h) ! i) \<noteq> []"
      using d length_arena_blocks [of "descs h ! i" a] by (auto simp: v desc_ok_def simp del: length_arena_blocks)
    have "in_use (add_small i a m h) x \<or> (\<forall>b \<in> set (free_list (descs (add_small i a m h) ! i)). pg_round_down b = x)" for x
      using sm(3) [OF _ use [of x]] block_in_arena(1) [OF d ab(2)] by (cases "x = a") (auto simp: v)
    then obtain b h' where "pop_block i (add_small i a m h) = Some (b, h')" "heap_ok h'" "b \<noteq> 0"
      "b \<notin> live (add_small i a m h)" "live h' = insert b (live (add_small i a m h))"
      "keeps (add_small i a m h) h'" "block_bytes h' b = Some (block_size (descs (add_small i a m h) ! i))"
      using pop_block_ok [OF sm(1) _ ne] i by (auto simp: v(4))
    moreover have "keeps h (add_small i a m h)"
      using add_keeps(2) [OF fresh_arena(1) [OF inv zero_less_one ab(1)] get_kernel_ram [OF g] i] .
    ultimately show ?thesis using run False sm(2) shape_block_size [OF v(7) i] keeps_trans by simp
  qed
qed

lemma malloc_ok:
  assumes h: "heap_ok h" and sz: "0 < sz" "sz + 4107 < 2 ^ 32"
  shows "\<exists>b h'. malloc sz h = Some (b, h') \<and> heap_ok h' \<and> b \<notin> live h \<and> live h' = (if b = 0 then live h else insert b (live h)) \<and>
    keeps h h' \<and> (b \<noteq> 0 \<longrightarrow> (\<exists>n\<ge>sz. block_bytes h' b = Some n))"
proof (cases "find_desc h sz")
  case None
  have "0 < u32 (4095 + u32 (sz + 12)) div PGSIZE" using sz by (simp add: u32_def div_greater_zero_iff)
  moreover have "sz \<le> PGSIZE * (u32 (4095 + u32 (sz + 12)) div PGSIZE) - 12" using sz by (simp add: u32_def)
  moreover have "malloc sz h = malloc_big sz h" using sz(1) None by (simp add: malloc_def)
  ultimately show ?thesis using malloc_big_ok [OF h, of sz] by metis
next
  case (Some i)
  have i: "i < length (descs h)" and bs: "sz \<le> block_size (descs h ! i)" using find_desc_Some [OF Some] by simp_all
  show ?thesis
  proof (cases "free_list (descs h ! i) = []")
    case True
    have "malloc sz h = new_arena i h \<bind> (\<lambda>(ok, h). if ok then pop_block i h else Some (0, h))"
      using sz(1) Some True by (simp add: malloc_def)
    then show ?thesis using malloc_small_ok [OF h i True] bs by metis
  next
    case False
    have "heap_inv h" "\<And>x. in_use h x" using h by (simp_all add: heap_ok_def)
    then obtain b h' where "pop_block i h = Some (b, h')" "heap_ok h'" "b \<noteq> 0" "b \<notin> live h" "live h' = insert b (live h)"
      "keeps h h'" "block_bytes h' b = Some (block_size (descs h ! i))"
      using pop_block_ok [OF _ i False] by blast
    then show ?thesis using Some False sz(1) bs by (simp add: malloc_def)
  qed
qed

end
