(* ===== verification/Malloc_Props.thy ===== *)
theory Malloc_Props
  imports Malloc_Inv
begin

text \<open>
  Releasing blocks, the bytes of blocks, and the contract of the allocator: a block that
  \<open>malloc\<close> returns overlaps no allocated block, and \<open>free\<close> gives back exactly one.
\<close>

lemma heap_okI: "heap_inv h \<Longrightarrow> (\<And>x. in_use h x) \<Longrightarrow> heap_ok h"
  by (simp add: heap_ok_def)

section \<open>Returning an arena\<close>

definition blocks_of :: "heap \<Rightarrow> nat \<Rightarrow> arena \<Rightarrow> nat set" where
  "blocks_of h a ar = (case arena_desc ar of None \<Rightarrow> {} | Some i \<Rightarrow> set (arena_blocks (descs h ! i) a))"

lemma shape_length: "shape h' = shape h \<Longrightarrow> length (descs h') = length (descs h)"
  by (auto simp: shape_def dest: map_eq_imp_length_eq)

lemma shape_blocks: "shape h' = shape h \<Longrightarrow> i < length (descs h) \<Longrightarrow> arena_blocks (descs h' ! i) x = arena_blocks (descs h ! i) x"
  using shape_block_size by (blast intro: arena_blocks_cong)

lemma blocks_of_other:
  assumes "heap_inv h" "arenas h a = Some ar" "arenas h x = Some rx" "arena_desc rx = Some j" "x \<noteq> a" "c \<in> set (arena_blocks (descs h ! j) x)"
  shows "c \<notin> blocks_of h a ar"
  using same_arena [OF assms(1, 2) _ _ assms(3, 4, 6)] assms(5) by (auto simp: blocks_of_def split: option.splits)

lemma remove_arena:
  assumes inv: "heap_inv h" and a: "arenas h a = Some ar"
    and h': "arenas h' = (arenas h)(a := None)" "shape h' = shape h" "pool_ok (page_mem h')"
      "used_pages (page_mem h') = used_pages (page_mem h) - page_range a (owned ar)"
    and fl: "\<And>j. j < length (descs h) \<Longrightarrow> free_list (descs h' ! j) = filter (\<lambda>b. b \<notin> blocks_of h a ar) (free_list (descs h ! j))"
  shows "heap_inv h'" "live h' = live h - {c. live_in h a (arena_desc ar) c}" "(\<And>x. in_use h x) \<Longrightarrow> in_use h' y"
proof -
  note len = shape_length [OF h'(2)] and blk = shape_blocks [OF h'(2)]
  have old: "arenas h x = Some rx \<and> x \<noteq> a" if "arenas h' x = Some rx" for x rx
    using that h'(1) by (auto split: if_splits)
  have jlen: "j < length (descs h)" if "arenas h x = Some rx" "arena_desc rx = Some j" for x rx j
    using free_cnt_bounds(3) [OF inv that] .
  have fi: "free_in h' j x = free_in h j x" if "arenas h x = Some rx" "arena_desc rx = Some j" "x \<noteq> a" for x rx j
    using blocks_of_other [OF inv a that] jlen [OF that(1, 2)] by (auto simp: free_in_def blk fl)
  have ok: "arena_ok h' x rx" if x: "arenas h' x = Some rx" for x rx
  proof -
    have x': "arenas h x = Some rx" "x \<noteq> a" using old [OF x] by simp_all
    have "page_range x (owned rx) \<inter> page_range a (owned ar) = {}" using inv_disjoint [OF inv] x' a by blast
    then show ?thesis using inv_arena [OF inv x'(1)] fi [OF x'(1) _ x'(2)] h'(4) len by (auto simp: arena_ok_def)
  qed
  have lo: "list_ok h' j" if j: "j < length (descs h)" for j
  proof -
    have l: "list_ok h j" using inv j by (simp add: heap_inv_def)
    have "\<exists>x rx. arenas h' x = Some rx \<and> arena_desc rx = Some j \<and> c \<in> set (arena_blocks (descs h ! j) x)"
      if c: "c \<in> set (free_list (descs h ! j))" "c \<notin> blocks_of h a ar" for c
    proof -
      obtain x rx where x: "arenas h x = Some rx" "arena_desc rx = Some j" "c \<in> set (arena_blocks (descs h ! j) x)"
        using l c(1) unfolding list_ok_def by blast
      then have "x \<noteq> a" using a c(2) by (auto simp: blocks_of_def)
      then show ?thesis using x h'(1) by auto
    qed
    then show ?thesis using l by (simp add: list_ok_def blk [OF j] fl [OF j])
  qed
  have dj: "page_range x (owned rx) \<inter> page_range y (owned ry) = {}"
    if "arenas h' x = Some rx" "arenas h' y = Some ry" "x \<noteq> y" for x y rx ry
    using inv_disjoint [OF inv] old [OF that(1)] old [OF that(2)] that(3) by blast
  have "shape h' = sizes" using inv h'(2) by (simp add: heap_inv_def)
  then show "heap_inv h'" using ok dj lo h'(3) len unfolding heap_inv_def by simp
  have li: "live_in h' x (arena_desc rx) c = live_in h x (arena_desc rx) c" if "arenas h x = Some rx" "x \<noteq> a" for x rx c
    using blocks_of_other [OF inv a that(1) _ that(2), of _ c] jlen [OF that(1)] by (cases "arena_desc rx") (auto simp: blk fl)
  have uniq: "x = a" if "arenas h x = Some rx" "live_in h x (arena_desc rx) c" "live_in h a (arena_desc ar) c" for x rx c
    using block_bytes_live(2) [OF inv that(1, 2)] block_bytes_live(2) [OF inv a that(3)] by simp
  have "(\<exists>rx. arenas h' x = Some rx \<and> live_in h' x (arena_desc rx) c) \<longleftrightarrow>
      (\<exists>rx. arenas h x = Some rx \<and> live_in h x (arena_desc rx) c) \<and> \<not> live_in h a (arena_desc ar) c" for x c
  proof (cases "x = a")
    case True
    then show ?thesis using h'(1) a by auto
  next
    case False
    then show ?thesis using h'(1) li [OF _ False] uniq by fastforce
  qed
  then show "live h' = live h - {c. live_in h a (arena_desc ar) c}" unfolding live_def by blast
  show "in_use h' y" if "\<And>x. in_use h x"
    using that old jlen shape_block_size [OF h'(2)] unfolding in_use_def by metis
qed

section \<open>The bytes of blocks\<close>

lemma extent_in_arena:
  assumes "heap_inv h" "arenas h a = Some ar" "live_in h a (arena_desc ar) c"
  shows "extent h c \<subseteq> {a..<a + PGSIZE * owned ar}"
proof -
  note bb = block_bytes_live(1) [OF assms]
  have a: "a mod PGSIZE = 0" "0 < owned ar" using inv_arena [OF assms(1, 2)] by (simp_all add: arena_ok_def)
  show ?thesis
  proof (cases "arena_desc ar")
    case None
    then show ?thesis using bb assms(3) a(2) by (auto simp: extent_def owned_def)
  next
    case (Some i)
    have "i < length (descs h)" using free_cnt_bounds(3) [OF assms(1, 2) Some] .
    then show ?thesis using block_in_arena(2, 3) [OF inv_desc [OF assms(1)] a(1)] bb assms(3) Some
      by (fastforce simp: extent_def owned_def)
  qed
qed

lemma byte_page:
  assumes "a mod PGSIZE = 0" "y \<in> {a..<a + PGSIZE * n}"
  shows "pg_round_down y \<in> page_range a n"
proof -
  obtain q where q: "a = PGSIZE * q" using assms(1) by (auto simp: mod_eq_0_iff_dvd elim: dvdE)
  have "q \<le> y div PGSIZE" "y div PGSIZE < q + n"
    using assms(2) by (auto simp: q less_eq_div_iff_mult_less_eq div_less_iff_less_mult algebra_simps)
  then have "pg_round_down y = a + PGSIZE * (y div PGSIZE - q)" "y div PGSIZE - q < n"
    by (auto simp: pg_round_down_def q algebra_simps)
  then show ?thesis by (auto simp: page_range_def)
qed

lemma arena_bytes_disjoint:
  assumes "heap_inv h" "arenas h x = Some rx" "arenas h y = Some ry" "x \<noteq> y"
  shows "{x..<x + PGSIZE * owned rx} \<inter> {y..<y + PGSIZE * owned ry} = {}"
proof -
  have m: "x mod PGSIZE = 0" "y mod PGSIZE = 0"
    using inv_arena [OF assms(1, 2)] inv_arena [OF assms(1, 3)] by (simp_all add: arena_ok_def)
  have "page_range x (owned rx) \<inter> page_range y (owned ry) = {}" using inv_disjoint [OF assms(1)] assms(2-4) by blast
  then show ?thesis using byte_page [OF m(1), of _ "owned rx"] byte_page [OF m(2), of _ "owned ry"] by fast
qed

lemma live_extents_disjoint:
  assumes inv: "heap_inv h" and "b \<in> live h" "c \<in> live h" "b \<noteq> c"
  shows "extent h b \<inter> extent h c = {}"
proof -
  obtain x rx y ry where x: "arenas h x = Some rx" "live_in h x (arena_desc rx) b" and y: "arenas h y = Some ry" "live_in h y (arena_desc ry) c"
    using assms(2, 3) by (auto simp: live_def)
  show ?thesis
  proof (cases "x = y")
    case False
    then show ?thesis
      using arena_bytes_disjoint [OF inv x(1) y(1)] extent_in_arena [OF inv x] extent_in_arena [OF inv y] by blast
  next
    case True
    then obtain i where i: "arena_desc rx = Some i" using x y assms(4) by (cases "arena_desc rx") auto
    have e: "extent h b = {b..<b + block_size (descs h ! i)}" "extent h c = {c..<c + block_size (descs h ! i)}"
      using block_bytes_live(1) [OF inv x] block_bytes_live(1) [OF inv y] i True x(1) y(1) by (simp_all add: extent_def)
    have "i < length (descs h)" using free_cnt_bounds(3) [OF inv x(1) i] .
    then show ?thesis using blocks_apart [OF inv_desc [OF inv], of i b x c] x y i True assms(4) e by auto
  qed
qed

text \<open>A block whose arena is still there keeps its bytes.\<close>

lemma extent_kept:
  assumes "heap_inv h" "heap_inv h'" "shape h' = shape h" "arenas h a = Some ar" "arenas h' a = Some ar'"
    "arena_desc ar' = arena_desc ar" "owned ar' = owned ar" "live_in h a (arena_desc ar) c" "live_in h' a (arena_desc ar) c"
  shows "extent h' c = extent h c"
proof -
  have "span h' ar' = span h ar"
    using assms(6, 7) shape_block_size [OF assms(3) free_cnt_bounds(3) [OF assms(1, 4)]]
    by (cases "arena_desc ar") (simp_all add: owned_def)
  then show ?thesis
    using block_bytes_live(1) [OF assms(1, 4, 8)] block_bytes_live(1) [OF assms(2, 5)] assms(6, 9) by (simp add: extent_def)
qed

lemma live_arena:
  assumes "heap_inv h" "c \<in> live h" "arenas h a = Some ar" "block_to_arena h c = Some a"
  shows "live_in h a (arena_desc ar) c"
  using assms block_bytes_live(2) [OF assms(1)] by (fastforce simp: live_def)

lemma keeps_extent:
  assumes "heap_inv h" "heap_inv h'" "keeps_arenas h h'" "c \<in> live h" "c \<in> live h'"
  shows "extent h' c = extent h c"
proof -
  obtain a ar where a: "arenas h a = Some ar" "live_in h a (arena_desc ar) c" using assms(4) by (auto simp: live_def)
  then obtain ar' where ar': "arenas h' a = Some ar'" "arena_desc ar' = arena_desc ar" "owned ar' = owned ar" and s: "shape h' = shape h"
    using assms(3) unfolding keeps_arenas_def by blast
  have "block_to_arena h' c = Some a"
    using block_arena [OF assms(2) ar'(1)] big_arena [OF assms(2) ar'(1)] a(2) ar'(2) shape_blocks [OF s free_cnt_bounds(3) [OF assms(1) a(1)]]
    by (cases "arena_desc ar") auto
  then have "live_in h' a (arena_desc ar) c" using live_arena [OF assms(2, 5) ar'(1)] ar'(2) by simp
  then show ?thesis using extent_kept [OF assms(1, 2) s a(1) ar' a(2)] by simp
qed

section \<open>Releasing a block\<close>

text \<open>Every block allocated in \<open>h'\<close> has the bytes and the contents it had in \<open>h\<close>.\<close>

definition undisturbed :: "heap \<Rightarrow> heap \<Rightarrow> bool" where
  "undisturbed h h' \<longleftrightarrow> (\<forall>c \<in> live h'. extent h' c = extent h c \<and> (\<forall>y \<in> extent h c. ram (page_mem h') y = ram (page_mem h) y))"

lemma remove_undisturbed:
  assumes inv: "heap_inv h" "heap_inv h'" and a: "arenas h a = Some ar"
    and h': "arenas h' = (arenas h)(a := None)" "shape h' = shape h" "live h' \<subseteq> live h"
    and r: "\<And>y. y \<notin> {a..<a + PGSIZE * owned ar} \<Longrightarrow> ram (page_mem h') y = ram (page_mem h) y"
  shows "undisturbed h h'"
  unfolding undisturbed_def
proof (intro ballI conjI)
  fix c assume c: "c \<in> live h'"
  obtain x rx where x: "arenas h' x = Some rx" "live_in h' x (arena_desc rx) c" using c by (auto simp: live_def)
  then have x': "arenas h x = Some rx" "x \<noteq> a" using h'(1) by (auto split: if_splits)
  have "block_to_arena h c = Some x"
    using block_arena [OF inv(1) x'(1)] big_arena [OF inv(1) x'(1)] x(2) shape_blocks [OF h'(2) free_cnt_bounds(3) [OF inv(1) x'(1)]]
    by (cases "arena_desc rx") auto
  then have lx: "live_in h x (arena_desc rx) c" using live_arena [OF inv(1) _ x'(1)] c h'(3) by blast
  show "extent h' c = extent h c" by (rule extent_kept [OF inv h'(2) x'(1) x(1) refl refl lx x(2)])
  fix y assume "y \<in> extent h c"
  then have "y \<notin> {a..<a + PGSIZE * owned ar}"
    using extent_in_arena [OF inv(1) x'(1) lx] arena_bytes_disjoint [OF inv(1) x'(1) a x'(2)] by blast
  then show "ram (page_mem h') y = ram (page_mem h) y" by (rule r)
qed

lemma free_big:
  assumes h: "heap_ok h" and a: "arenas h a = Some ar" "arena_desc ar = None"
  shows "\<exists>h'. free (a + 12) h = Some h' \<and> heap_ok h' \<and> live h' = live h - {a + 12} \<and> undisturbed h h'"
proof -
  have inv: "heap_inv h" using h by (simp add: heap_ok_def)
  have o: "owned ar = free_cnt ar" using a(2) by (simp add: owned_def)
  have ao: "0 < free_cnt ar" "page_range a (free_cnt ar) \<subseteq> used_pages (page_mem h)"
    using inv_arena [OF inv a(1)] o by (simp_all add: arena_ok_def)
  have "pool_ok (page_mem h)" using inv by (simp add: heap_inv_def)
  then obtain m where m: "palloc_free_multiple a (free_cnt ar) (page_mem h) = Some m" "pool_ok m"
    "used_pages m = used_pages (page_mem h) - page_range a (owned ar)" "ram m = fill a 0xcc (PGSIZE * free_cnt ar) (ram (page_mem h))"
    using free_kernel_pages [OF _ ao] o by auto
  let ?h = "h\<lparr>page_mem := m, arenas := (arenas h)(a := None)\<rparr>"
  have v: "arenas ?h = (arenas h)(a := None)" "shape ?h = shape h" "page_mem ?h = m" by (simp_all add: shape_def)
  have f: "free (a + 12) h = Some ?h" using big_arena [OF inv a] a m(1) by (simp add: free_def)
  note ra = remove_arena [OF inv a(1) v(1, 2)]
  have "heap_inv ?h" "live ?h = live h - {c. live_in h a (arena_desc ar) c}" "\<And>y. in_use ?h y"
    using ra m(2, 3) h a(2) by (simp_all add: blocks_of_def heap_ok_def v(3))
  moreover have "undisturbed h ?h"
    by (rule remove_undisturbed [OF inv calculation(1) a(1) v(1, 2)]) (use calculation(2) o m(4) in \<open>auto simp: fill_def\<close>)
  ultimately show ?thesis using f a(2) by (auto intro: heap_okI)
qed

text \<open>A block goes back to the free list of its arena.\<close>

definition pushed :: "nat \<Rightarrow> nat \<Rightarrow> arena \<Rightarrow> nat \<Rightarrow> heap \<Rightarrow> heap" where
  "pushed i a ar b h =
     (let d = descs h ! i in
      set_desc i (d\<lparr>free_list := b # free_list d\<rparr>)
        (h\<lparr>page_mem := (page_mem h)\<lparr>ram := fill b 0xcc (block_size d) (ram (page_mem h))\<rparr>, arenas := (arenas h)(a \<mapsto> ar\<lparr>free_cnt := free_cnt ar + 1\<rparr>)\<rparr>))"

lemma pushed_views:
  assumes "i < length (descs h)"
  shows "arena_blocks (descs (pushed i a ar b h) ! j) x = arena_blocks (descs h ! j) x"
    "free_list (descs (pushed i a ar b h) ! j) = (if j = i then b # free_list (descs h ! i) else free_list (descs h ! j))"
    "blocks_per_arena (descs (pushed i a ar b h) ! j) = blocks_per_arena (descs h ! j)"
    "length (descs (pushed i a ar b h)) = length (descs h)"
    "arenas (pushed i a ar b h) = (arenas h)(a \<mapsto> ar\<lparr>free_cnt := free_cnt ar + 1\<rparr>)"
    "page_mem (pushed i a ar b h) = (page_mem h)\<lparr>ram := fill b 0xcc (block_size (descs h ! i)) (ram (page_mem h))\<rparr>"
    "shape (pushed i a ar b h) = shape h"
  using set_desc_views [of i "h\<lparr>page_mem := (page_mem h)\<lparr>ram := fill b 0xcc (block_size (descs h ! i)) (ram (page_mem h))\<rparr>, arenas := (arenas h)(a \<mapsto> ar\<lparr>free_cnt := free_cnt ar + 1\<rparr>)\<rparr>" "(descs h ! i)\<lparr>free_list := b # free_list (descs h ! i)\<rparr>"]
    shape_set_desc [of i "h\<lparr>page_mem := (page_mem h)\<lparr>ram := fill b 0xcc (block_size (descs h ! i)) (ram (page_mem h))\<rparr>, arenas := (arenas h)(a \<mapsto> ar\<lparr>free_cnt := free_cnt ar + 1\<rparr>)\<rparr>" "(descs h ! i)\<lparr>free_list := b # free_list (descs h ! i)\<rparr>"] assms
  by (simp_all add: pushed_def Let_def shape_def)

lemma ram_used [simp]: "used_pages (m\<lparr>ram := r\<rparr>) = used_pages m" "pool_ok (m\<lparr>ram := r\<rparr>) = pool_ok m"
  by (simp_all add: used_pages_def pool_ok_def)

lemma pushed_inv:
  assumes inv: "heap_inv h" and a: "arenas h a = Some ar" "arena_desc ar = Some i" and b: "live_in h a (Some i) b"
  shows "heap_inv (pushed i a ar b h)" "live (pushed i a ar b h) = live h - {b}"
    "in_use (pushed i a ar b h) x \<longleftrightarrow> (if x = a then free_cnt ar + 1 < blocks_per_arena (descs h ! i) else in_use h x)"
proof -
  let ?h = "pushed i a ar b h"
  have len: "i < length (descs h)" using free_cnt_bounds(3) [OF inv a] .
  note v = pushed_views [OF len, of a ar b]
  have ba: "b \<in> set (arena_blocks (descs h ! i) a)" "b \<notin> set (free_list (descs h ! i))" using b by simp_all
  have other: "b \<notin> set (arena_blocks (descs h ! j) x)" if "arenas h x = Some rx" "arena_desc rx = Some j" "x \<noteq> a" for x rx j
    using same_arena [OF inv a ba(1) that(1, 2)] that(3) by blast
  have fi: "free_in ?h j x = (if x = a then insert b (free_in h i a) else free_in h j x)" if "arenas h x = Some rx" "arena_desc rx = Some j" for x rx j
  proof (cases "x = a")
    case True
    then have "j = i" using that a by simp
    then show ?thesis using True ba(1) by (auto simp: free_in_def v)
  next
    case False
    then show ?thesis using other [OF that False] by (auto simp: free_in_def v)
  qed
  have bf: "b \<notin> free_in h i a" "finite (free_in h i a)" using ba(2) by (simp_all add: free_in_def)
  have oka: "arena_ok ?h a (ar\<lparr>free_cnt := free_cnt ar + 1\<rparr>)"
    using inv_arena [OF inv a(1)] a fi [OF a] bf by (simp add: arena_ok_def owned_def v)
  have ok: "arena_ok ?h x rx" if x: "arenas ?h x = Some rx" for x rx
  proof (cases "x = a")
    case True
    then show ?thesis using x oka by (simp add: v)
  next
    case False
    then have "arenas h x = Some rx" using x by (simp add: v)
    then show ?thesis using inv_arena [OF inv, of x rx] fi [of x rx] False by (simp add: arena_ok_def v)
  qed
  have dj: "page_range x (owned rx) \<inter> page_range y (owned ry) = {}" if "arenas ?h x = Some rx" "arenas ?h y = Some ry" "x \<noteq> y" for x y rx ry
  proof -
    have "\<exists>rz. arenas h z = Some rz \<and> owned rz = owned w" if "arenas ?h z = Some w" for z w
      using that a by (auto simp: v owned_def split: if_splits)
    then show ?thesis using that inv_disjoint [OF inv] by metis
  qed
  have lo: "list_ok ?h j" if j: "j < length (descs h)" for j
  proof -
    have l: "list_ok h j" using inv j by (simp add: heap_inv_def)
    have "\<exists>x rx. arenas ?h x = Some rx \<and> arena_desc rx = Some j \<and> c \<in> set (arena_blocks (descs h ! j) x)"
      if c: "c \<in> set (free_list (descs h ! j)) \<or> c = b \<and> j = i" for c
    proof -
      obtain x rx where x: "arenas h x = Some rx" "arena_desc rx = Some j" "c \<in> set (arena_blocks (descs h ! j) x)"
        using l c a ba(1) unfolding list_ok_def by blast
      have "\<exists>rz. arenas ?h x = Some rz \<and> arena_desc rz = arena_desc rx" using x(1) a(1) unfolding v(5) by auto
      then show ?thesis using x by auto
    qed
    then show ?thesis using l ba(2) unfolding list_ok_def v by (cases "j = i") simp_all
  qed
  show "heap_inv ?h" using inv ok dj lo unfolding heap_inv_def by (simp add: v)
  have li: "live_in ?h x (arena_desc rx) c \<longleftrightarrow> live_in h x (arena_desc rx) c \<and> c \<noteq> b" if x: "arenas h x = Some rx" for x rx c
  proof (cases "arena_desc rx")
    case None
    then show ?thesis using big_not_block [OF inv a ba(1) x] by auto
  next
    case (Some j)
    have "x = a \<longrightarrow> j = i" using x a Some by auto
    then show ?thesis using ba other [OF x Some] unfolding Some live_in.simps v by (cases "x = a") auto
  qed
  have "(\<exists>rx. arenas ?h x = Some rx \<and> live_in ?h x (arena_desc rx) c) \<longleftrightarrow> (\<exists>rx. arenas h x = Some rx \<and> live_in h x (arena_desc rx) c) \<and> c \<noteq> b" for x c
    using li [of x _ c] a(1) by (cases "x = a") (auto simp: v(5) simp del: live_in.simps)
  then show "live ?h = live h - {b}" unfolding live_def by blast
  show "in_use ?h x \<longleftrightarrow> (if x = a then free_cnt ar + 1 < blocks_per_arena (descs h ! i) else in_use h x)"
    using a by (auto simp: in_use_def v)
qed

lemma free_small_runs:
  assumes inv: "heap_inv h" and a: "arenas h a = Some ar" "arena_desc ar = Some i" and b: "live_in h a (Some i) b" and n: "b \<noteq> 0"
  shows "free b h =
    (if free_cnt ar + 1 \<ge> blocks_per_arena (descs h ! i)
     then do {
       ASSERT (free_cnt ar + 1 = blocks_per_arena (descs h ! i));
       m \<leftarrow> palloc_free_page a (page_mem (pushed i a ar b h));
       Some (set_desc i ((descs h ! i)\<lparr>free_list := filter (\<lambda>c. c \<notin> set (arena_blocks (descs h ! i) a)) (b # free_list (descs h ! i))\<rparr>)
         (h\<lparr>page_mem := m, arenas := (arenas h)(a := None)\<rparr>))
     }
     else Some (pushed i a ar b h))"
proof -
  have "block_to_arena h b = Some a" using block_arena [OF inv a] b by simp
  moreover have "arena_blocks ((descs h ! i)\<lparr>free_list := b # free_list (descs h ! i)\<rparr>) a = arena_blocks (descs h ! i) a"
    by (rule arena_blocks_cong) simp_all
  ultimately show ?thesis using a n by (simp add: free_def pushed_def Let_def set_desc_def)
qed

lemma last_block:
  assumes inv: "heap_inv h" and a: "arenas h a = Some ar" "arena_desc ar = Some i" and b: "live_in h a (Some i) b"
    and full: "free_cnt ar + 1 = blocks_per_arena (descs h ! i)"
  shows "live_in h a (Some i) c \<longleftrightarrow> c = b"
proof -
  note fb = free_cnt_bounds [OF inv a]
  have "insert b (free_in h i a) = set (arena_blocks (descs h ! i) a)"
  proof (rule card_subset_eq)
    show "insert b (free_in h i a) \<subseteq> set (arena_blocks (descs h ! i) a)" using b by (auto simp: free_in_def)
    have "b \<notin> free_in h i a" "finite (free_in h i a)" using b by (simp_all add: free_in_def)
    then show "card (insert b (free_in h i a)) = card (set (arena_blocks (descs h ! i) a))"
      using full fb(1) distinct_card [OF distinct_arena_blocks [OF inv_desc [OF inv fb(3)]]] by simp
  qed simp
  then show ?thesis using b by (auto simp: free_in_def)
qed

lemma free_small_last:
  assumes h: "heap_ok h" and a: "arenas h a = Some ar" "arena_desc ar = Some i" and b: "live_in h a (Some i) b" and n: "b \<noteq> 0"
    and full: "free_cnt ar + 1 = blocks_per_arena (descs h ! i)"
  shows "\<exists>h'. free b h = Some h' \<and> heap_ok h' \<and> live h' = live h - {b} \<and> undisturbed h h'"
proof -
  have inv: "heap_inv h" using h by (simp add: heap_ok_def)
  have len: "i < length (descs h)" using free_cnt_bounds(3) [OF inv a] .
  note v = pushed_views [OF len, of a ar b]
  have o: "owned ar = 1" using a(2) by (simp add: owned_def)
  have pr: "page_range a 1 \<subseteq> used_pages (page_mem (pushed i a ar b h))" using inv_arena [OF inv a(1)] o by (simp add: arena_ok_def v)
  have "pool_ok (page_mem (pushed i a ar b h))" using inv by (simp add: heap_inv_def v)
  then obtain m where m: "palloc_free_page a (page_mem (pushed i a ar b h)) = Some m" "pool_ok m"
    "used_pages m = used_pages (page_mem h) - page_range a (owned ar)" "ram m = fill a 0xcc (PGSIZE * 1) (ram (page_mem (pushed i a ar b h)))"
    using free_kernel_pages [OF _ zero_less_one pr] o by (auto simp: palloc_free_page_def v)
  let ?d = "(descs h ! i)\<lparr>free_list := filter (\<lambda>c. c \<notin> set (arena_blocks (descs h ! i) a)) (b # free_list (descs h ! i))\<rparr>"
  let ?k = "h\<lparr>page_mem := m, arenas := (arenas h)(a := None)\<rparr>"
  let ?h = "set_desc i ?d ?k"
  have f: "free b h = Some ?h" using free_small_runs [OF inv a b n] full m(1) by simp
  have "shape ?h = shape ?k" by (rule shape_set_desc) (use len in simp_all)
  then have w: "arenas ?h = (arenas h)(a := None)" "page_mem ?h = m" "shape ?h = shape h"
    by (simp_all add: set_desc_def shape_def)
  have fl: "free_list (descs ?h ! j) = filter (\<lambda>c. c \<notin> blocks_of h a ar) (free_list (descs h ! j))" if j: "j < length (descs h)" for j
  proof (cases "j = i")
    case True
    then show ?thesis using set_desc_views(2) [of i ?k ?d j] len b a(2) by (simp add: blocks_of_def)
  next
    case False
    have "list_ok h j" using inv j by (simp add: heap_inv_def)
    then have "c \<notin> blocks_of h a ar" if "c \<in> set (free_list (descs h ! j))" for c
      using that blocks_of_other [OF inv a(1)] False a unfolding list_ok_def by (metis option.inject)
    then show ?thesis using set_desc_views(2) [of i ?k ?d j] len False by simp
  qed
  note ra = remove_arena [OF inv a(1) w(1, 3), unfolded w(2), OF m(2, 3) fl]
  have lv: "live ?h = live h - {b}" using ra(2) last_block [OF inv a b full] a(2) by simp
  have use: "in_use ?h y" for y using ra(3) h by (simp add: heap_ok_def)
  have "undisturbed h ?h"
  proof (rule remove_undisturbed [OF inv ra(1) a(1) w(1, 3)])
    show "live ?h \<subseteq> live h" using lv by blast
    fix y assume y: "y \<notin> {a..<a + PGSIZE * owned ar}"
    have "extent h b \<subseteq> {a..<a + PGSIZE * owned ar}" using extent_in_arena [OF inv a(1), of b] b a(2) by simp
    moreover have "extent h b = {b..<b + block_size (descs h ! i)}" using block_bytes_live(1) [OF inv a(1), of b] b a(2) by (simp add: extent_def)
    ultimately have "\<not> (b \<le> y \<and> y < b + block_size (descs h ! i))" using y by auto
    then show "ram (page_mem ?h) y = ram (page_mem h) y" unfolding w(2) m(4) v(6) using y o by (auto simp: fill_def)
  qed
  then show ?thesis using f lv heap_okI [OF ra(1) use] by blast
qed

lemma free_ok:
  assumes h: "heap_ok h" and b: "b \<in> live h"
  shows "\<exists>h'. free b h = Some h' \<and> heap_ok h' \<and> live h' = live h - {b} \<and> undisturbed h h'"
proof -
  have inv: "heap_inv h" using h by (simp add: heap_ok_def)
  have n: "b \<noteq> 0" using b zero_not_live [of h] by (cases "b = 0") simp_all
  obtain a ar where a: "arenas h a = Some ar" "live_in h a (arena_desc ar) b" using b by (auto simp: live_def)
  show ?thesis
  proof (cases "arena_desc ar")
    case None
    then show ?thesis using free_big [OF h a(1) None] a(2) by simp
  next
    case (Some i)
    have li: "live_in h a (Some i) b" using a(2) Some by simp
    have "free_cnt ar < blocks_per_arena (descs h ! i)" using h a(1) Some by (simp add: heap_ok_def in_use_def)
    then consider "free_cnt ar + 1 = blocks_per_arena (descs h ! i)" | "free_cnt ar + 1 < blocks_per_arena (descs h ! i)" by linarith
    then show ?thesis
    proof cases
      case 1
      then show ?thesis using free_small_last [OF h a(1) Some li n] by simp
    next
      case 2
      have len: "i < length (descs h)" using free_cnt_bounds(3) [OF inv a(1) Some] .
      note pi = pushed_inv [OF inv a(1) Some li] and v = pushed_views [OF len, of a ar b]
      have f: "free b h = Some (pushed i a ar b h)" using free_small_runs [OF inv a(1) Some li n] 2 by simp
      have ok: "heap_ok (pushed i a ar b h)" using h 2 by (intro heap_okI pi(1)) (simp add: pi(3) heap_ok_def)
      have "keeps_arenas h (pushed i a ar b h)" using a(1) Some by (auto simp: keeps_arenas_def v owned_def)
      then have "extent (pushed i a ar b h) c = extent h c" if "c \<in> live h - {b}" for c
        using keeps_extent [OF inv pi(1)] that pi(2) by simp
      moreover have "extent h b = {b..<b + block_size (descs h ! i)}" using block_bytes_live(1) [OF inv a] Some by (simp add: extent_def)
      then have "ram (page_mem (pushed i a ar b h)) y = ram (page_mem h) y" if "c \<in> live h - {b}" "y \<in> extent h c" for c y
        using live_extents_disjoint [OF inv b, of c] that by (auto simp: v fill_def)
      ultimately have "undisturbed h (pushed i a ar b h)" unfolding undisturbed_def pi(2) by blast
      then show ?thesis using f ok pi(2) by blast
    qed
  qed
qed

section \<open>The contract\<close>

locale block_allocator =
  fixes ok :: "'h \<Rightarrow> bool" and allocated :: "'h \<Rightarrow> nat set" and area :: "'h \<Rightarrow> nat \<Rightarrow> nat set"
    and contents :: "'h \<Rightarrow> nat \<Rightarrow> byte" and limit :: nat
    and alloc :: "nat \<Rightarrow> 'h \<Rightarrow> (nat \<times> 'h) option" and release :: "nat \<Rightarrow> 'h \<Rightarrow> 'h option"
  assumes null: "0 \<notin> allocated h"
    and apart: "ok h \<Longrightarrow> b \<in> allocated h \<Longrightarrow> c \<in> allocated h \<Longrightarrow> b \<noteq> c \<Longrightarrow> area h b \<inter> area h c = {}"
    and alloc_law: "ok h \<Longrightarrow> 0 < n \<Longrightarrow> n < limit \<Longrightarrow>
      \<exists>b h'. alloc n h = Some (b, h') \<and> ok h' \<and> b \<notin> allocated h \<and>
        allocated h' = (if b = 0 then allocated h else insert b (allocated h)) \<and> (b \<noteq> 0 \<longrightarrow> {b..<b + n} \<subseteq> area h' b) \<and>
        (\<forall>c \<in> allocated h. area h' c = area h c \<and> (\<forall>y \<in> area h c. contents h' y = contents h y))"
    and release_law: "ok h \<Longrightarrow> b \<in> allocated h \<Longrightarrow>
      \<exists>h'. release b h = Some h' \<and> ok h' \<and> allocated h' = allocated h - {b} \<and>
        (\<forall>c \<in> allocated h'. area h' c = area h c \<and> (\<forall>y \<in> area h c. contents h' y = contents h y))"
begin

lemma alloc_apart:
  assumes "ok h" "0 < n" "n < limit"
  shows "\<exists>b h'. alloc n h = Some (b, h') \<and> ok h' \<and> allocated h' = (if b = 0 then allocated h else insert b (allocated h)) \<and>
    (\<forall>c \<in> allocated h. b \<noteq> c \<and> (b \<noteq> 0 \<longrightarrow> {b..<b + n} \<inter> area h c = {}) \<and> area h' c = area h c \<and> (\<forall>y \<in> area h c. contents h' y = contents h y))"
proof -
  obtain b h' where r: "alloc n h = Some (b, h')" "ok h'" "b \<notin> allocated h"
    "allocated h' = (if b = 0 then allocated h else insert b (allocated h))" "b \<noteq> 0 \<longrightarrow> {b..<b + n} \<subseteq> area h' b"
    "\<forall>c \<in> allocated h. area h' c = area h c \<and> (\<forall>y \<in> area h c. contents h' y = contents h y)"
    using alloc_law [OF assms] by blast
  have "{b..<b + n} \<inter> area h c = {}" if "b \<noteq> 0" "c \<in> allocated h" for c
    using apart [OF r(2), of b c] r(3-6) that by (auto split: if_splits)
  then show ?thesis using r by blast
qed

lemma alloc_release:
  assumes "ok h" "0 < n" "n < limit" "alloc n h = Some (b, h')" "b \<noteq> 0"
  shows "\<exists>h''. release b h' = Some h'' \<and> ok h'' \<and> allocated h'' = allocated h \<and>
    (\<forall>c \<in> allocated h. area h'' c = area h c \<and> (\<forall>y \<in> area h c. contents h'' y = contents h y))"
proof -
  have a: "ok h'" "b \<notin> allocated h" "allocated h' = insert b (allocated h)"
    "\<forall>c \<in> allocated h. area h' c = area h c \<and> (\<forall>y \<in> area h c. contents h' y = contents h y)"
    using alloc_law [OF assms(1-3)] assms(4, 5) by auto
  then obtain h'' where "release b h' = Some h''" "ok h''" "allocated h'' = allocated h"
    "\<forall>c \<in> allocated h''. area h'' c = area h' c \<and> (\<forall>y \<in> area h' c. contents h'' y = contents h' y)"
    using release_law [OF a(1), of b] by auto
  then show ?thesis using a(4) by auto
qed

end

definition memory :: "heap \<Rightarrow> nat \<Rightarrow> byte" where
  "memory h = ram (page_mem h)"

abbreviation MALLOC_LIMIT :: nat where "MALLOC_LIMIT \<equiv> 2 ^ 32 - 4107"

interpretation ma: block_allocator heap_ok live extent memory MALLOC_LIMIT malloc free
proof unfold_locales
  show "0 \<notin> live h" for h by (rule zero_not_live)
  show "extent h b \<inter> extent h c = {}" if "heap_ok h" "b \<in> live h" "c \<in> live h" "b \<noteq> c" for h b c
    using live_extents_disjoint that by (simp add: heap_ok_def)
  show "\<exists>b h'. malloc n h = Some (b, h') \<and> heap_ok h' \<and> b \<notin> live h \<and> live h' = (if b = 0 then live h else insert b (live h)) \<and>
      (b \<noteq> 0 \<longrightarrow> {b..<b + n} \<subseteq> extent h' b) \<and> (\<forall>c \<in> live h. extent h' c = extent h c \<and> (\<forall>y \<in> extent h c. memory h' y = memory h y))"
    if h: "heap_ok h" and n: "0 < n" "n < MALLOC_LIMIT" for n h
  proof -
    obtain b h' where r: "malloc n h = Some (b, h')" "heap_ok h'" "b \<notin> live h" "live h' = (if b = 0 then live h else insert b (live h))"
      "keeps h h'" "b \<noteq> 0 \<longrightarrow> (\<exists>k\<ge>n. block_bytes h' b = Some k)"
      using malloc_ok [OF h n(1)] n(2) by auto
    have "extent h' c = extent h c" if "c \<in> live h" for c
      using keeps_extent [of h h' c] h r that by (auto simp: heap_ok_def keeps_def)
    moreover have "b \<noteq> 0 \<longrightarrow> {b..<b + n} \<subseteq> extent h' b" using r(6) by (auto simp: extent_def)
    moreover have "memory h' = memory h" using r(5) by (simp add: keeps_def memory_def)
    ultimately show ?thesis using r by auto
  qed
  show "\<exists>h'. free b h = Some h' \<and> heap_ok h' \<and> live h' = live h - {b} \<and>
      (\<forall>c \<in> live h'. extent h' c = extent h c \<and> (\<forall>y \<in> extent h c. memory h' y = memory h y))"
    if "heap_ok h" "b \<in> live h" for h b
    using free_ok [OF that] by (simp add: undisturbed_def memory_def)
qed

text \<open>Writing into memory changes neither the blocks nor their bytes.\<close>

definition set_ram :: "(nat \<Rightarrow> byte) \<Rightarrow> heap \<Rightarrow> heap" where
  "set_ram r h = h\<lparr>page_mem := (page_mem h)\<lparr>ram := r\<rparr>\<rparr>"

lemma set_ram_views:
  "memory (set_ram r h) = r" "live (set_ram r h) = live h" "extent (set_ram r h) = extent h" "block_bytes (set_ram r h) = block_bytes h"
proof -
  show "memory (set_ram r h) = r" by (simp add: memory_def set_ram_def)
  show "live (set_ram r h) = live h" unfolding set_ram_def by (rule get_pages_live)
  show b: "block_bytes (set_ram r h) = block_bytes h"
    by (simp add: fun_eq_iff block_bytes_def block_to_arena_def set_ram_def Let_def cong: option.case_cong)
  show "extent (set_ram r h) = extent h" by (simp add: fun_eq_iff extent_def b)
qed

lemma set_ram_ok: "heap_ok h \<Longrightarrow> heap_ok (set_ram r h)"
  using get_pages_inv [of h "(page_mem h)\<lparr>ram := r\<rparr>"]
  by (auto simp: heap_ok_def in_use_def set_ram_def heap_inv_def [of h])

lemma live_bytes: "heap_ok h \<Longrightarrow> b \<in> live h \<Longrightarrow> \<exists>k. block_bytes h b = Some k"
  using block_bytes_live(1) by (fastforce simp: heap_ok_def live_def)

lemma extent_bytes: "block_bytes h b = Some k \<Longrightarrow> extent h b = {b..<b + k}"
  by (simp add: extent_def)

section \<open>Properties\<close>

definition demo_pages :: pages where
  "demo_pages = \<lparr>kernel_pool = \<lparr>used_map = \<lparr>bit_cnt = 4, bits = [0]\<rparr>, base = 0xc0100000\<rparr>,
     user_pool = \<lparr>used_map = \<lparr>bit_cnt = 0, bits = []\<rparr>, base = 0xc0200000\<rparr>, ram = (\<lambda>_. 0)\<rparr>"

lemma demo_heap_ok: "heap_ok (malloc_init demo_pages)"
  using init_heap_ok [of demo_pages] by (simp add: demo_pages_def pool_ok_def bitmap_ok_def)

definition demo_used :: pages where
  "demo_used = demo_pages\<lparr>kernel_pool := \<lparr>used_map = \<lparr>bit_cnt = 4, bits = [1]\<rparr>, base = 0xc0100000\<rparr>\<rparr>"

lemma demo_used_pages: "used_pages demo_pages = {}" "used_pages demo_used = {0xc0100000}"
proof -
  have "bitmap_used \<lparr>bit_cnt = 4, bits = [0]\<rparr> = {}" by (simp add: bitmap_used_def bools_def bit_at_def)
  then show "used_pages demo_pages = {}" by (simp add: used_pages_def demo_pages_def)
  have "bitmap_used \<lparr>bit_cnt = 4, bits = [1]\<rparr> = {0}"
    by (auto simp: bitmap_used_def bools_def bit_at_def bit_1_iff)
  then show "used_pages demo_used = {0xc0100000}" by (simp add: used_pages_def demo_used_def)
qed

definition demo_heap :: heap where
  "demo_heap = add_arena 0xc0100000 \<lparr>arena_desc = None, free_cnt = 1\<rparr> demo_used (malloc_init demo_pages)"

lemma demo_heap: "heap_ok demo_heap" "0xc010000c \<in> live demo_heap" "block_bytes demo_heap 0xc010000c = Some 4084"
proof -
  have inv: "heap_inv (malloc_init demo_pages)" and u: "\<And>x. in_use (malloc_init demo_pages) x" using demo_heap_ok by (simp_all add: heap_ok_def)
  have pm: "page_mem (malloc_init demo_pages) = demo_pages" by (simp add: malloc_init_def)
  have pr: "page_range 0xc0100000 1 = {0xc0100000}" by (simp add: page_range_def lessThan_Suc)
  have po: "pool_ok demo_used" by (simp add: demo_used_def pool_ok_def bitmap_ok_def)
  note b = add_big [OF inv po, where a = "0xc0100000" and n = 1, folded demo_heap_def, unfolded pm demo_used_pages pr, simplified]
  show "heap_ok demo_heap" using b u by (intro heap_okI) auto
  show "0xc010000c \<in> live demo_heap" using b by simp
  show "block_bytes demo_heap 0xc010000c = Some 4084"
    using block_bytes_live(1) [of demo_heap "0xc0100000" "\<lparr>arena_desc = None, free_cnt = 1\<rparr>" "0xc010000c"] b by (simp add: demo_heap_def add_arena_def)
qed

text \<open>C4. On a heap that satisfies the invariant, \<open>malloc\<close> of a size below the wrap-around of its
  page count never stops the kernel: it returns a null pointer and allocates nothing, or a
  block of at least that many bytes that overlaps no allocated block. The other blocks keep
  their bytes and contents, and the invariant holds afterwards.\<close>

theorem malloc_fresh_block:
  assumes "heap_ok h" "0 < n" "n < MALLOC_LIMIT"
  shows "\<exists>b h'. malloc n h = Some (b, h') \<and> heap_ok h' \<and> live h' = (if b = 0 then live h else insert b (live h)) \<and>
    (\<forall>c \<in> live h. b \<noteq> c \<and> (b \<noteq> 0 \<longrightarrow> {b..<b + n} \<inter> extent h c = {}) \<and> extent h' c = extent h c \<and>
      (\<forall>y \<in> extent h c. memory h' y = memory h y))"
  using ma.alloc_apart [OF assms] .

theorem malloc_fresh_block_witness:
  "\<exists>b h'. malloc 100 (malloc_init demo_pages) = Some (b, h') \<and> heap_ok h' \<and>
    live h' = (if b = 0 then live (malloc_init demo_pages) else insert b (live (malloc_init demo_pages)))"
  using malloc_fresh_block [OF demo_heap_ok, of 100] by auto

text \<open>C20. A block from \<open>malloc\<close> can be given back with \<open>free\<close>, which restores the set of allocated
  blocks and leaves the bytes and contents of every other block alone, also when the call
  returns a whole arena to the page allocator.\<close>

theorem malloc_free_roundtrip:
  assumes "heap_ok h" "0 < n" "n < MALLOC_LIMIT" "malloc n h = Some (b, h')" "b \<noteq> 0"
  shows "\<exists>h''. free b h' = Some h'' \<and> heap_ok h'' \<and> live h'' = live h \<and>
    (\<forall>c \<in> live h. extent h'' c = extent h c \<and> (\<forall>y \<in> extent h c. memory h'' y = memory h y))"
  using ma.alloc_release [OF assms] .

theorem malloc_free_roundtrip_witness:
  "\<exists>b h'. malloc 2000 (malloc_init demo_pages) = Some (b, h') \<and>
    (b \<noteq> 0 \<longrightarrow> (\<exists>h''. free b h' = Some h'' \<and> heap_ok h'' \<and> live h'' = live (malloc_init demo_pages)))"
  using malloc_free_roundtrip [OF demo_heap_ok, of 2000] ma.alloc_apart [OF demo_heap_ok, of 2000] by fastforce

text \<open>\<open>realloc\<close> of an allocated block to a positive size returns a null pointer and changes
  nothing, or moves the block: the old one is free, the new one is a fresh block of the new
  size that begins with the bytes of the old one, up to the smaller of the two sizes.\<close>

theorem realloc_moves:
  assumes h: "heap_ok h" and b: "b \<in> live h" "block_bytes h b = Some k" and n: "0 < n" "n < MALLOC_LIMIT"
  shows "\<exists>c h'. realloc b n h = Some (c, h') \<and> heap_ok h' \<and>
    (if c = 0 then live h' = live h
     else c \<notin> live h \<and> live h' = insert c (live h - {b}) \<and> {c..<c + n} \<subseteq> extent h' c \<and> (\<forall>j < min n k. memory h' (c + j) = memory h (b + j)))"
proof -
  obtain c h1 where m: "malloc n h = Some (c, h1)" "heap_ok h1" "c \<notin> live h" "live h1 = (if c = 0 then live h else insert c (live h))"
    "c \<noteq> 0 \<longrightarrow> {c..<c + n} \<subseteq> extent h1 c" and fr: "\<forall>d \<in> live h. extent h1 d = extent h d \<and> (\<forall>y \<in> extent h d. memory h1 y = memory h y)"
    using ma.alloc_law [OF h n] by blast
  show ?thesis
  proof (cases "c = 0")
    case True
    then show ?thesis using m n by (simp add: realloc_def)
  next
    case False
    have bl: "b \<in> live h1" "b \<noteq> 0" using b(1) m(4) False zero_not_live [of h] by auto
    obtain k' where "block_bytes h1 b = Some k'" using live_bytes [OF m(2) bl(1)] by blast
    moreover have "card (extent h1 b) = card (extent h b)" using fr b(1) by simp
    ultimately have k: "block_bytes h1 b = Some k" using b(2) by (simp add: extent_def)
    define r where "r = memory h1"
    define h2 where "h2 = set_ram (\<lambda>x. if c \<le> x \<and> x < c + min n k then r (b + (x - c)) else r x) h1"
    have h2: "heap_ok h2" "live h2 = live h1" "extent h2 = extent h1" using set_ram_ok [OF m(2)] set_ram_views unfolding h2_def by simp_all
    obtain h3 where f: "free b h2 = Some h3" "heap_ok h3" "live h3 = live h1 - {b}"
      "\<forall>d \<in> live h3. extent h3 d = extent h1 d \<and> (\<forall>y \<in> extent h1 d. memory h3 y = memory h2 y)"
      using ma.release_law [OF h2(1), of b] bl(1) h2(2, 3) by auto
    have mk: "min n k = (if n < k then n else k)" by (simp add: min_def)
    have run: "realloc b n h = Some (c, h3)"
      using m(1) n(1) False bl(2) k f(1) [unfolded h2_def set_ram_def r_def memory_def mk]
      by (cases "n < k") (simp_all add: realloc_def Let_def)
    have cl: "c \<in> live h3" using f(3) m(3, 4) False b(1) by auto
    have e: "extent h3 c = extent h1 c" "\<forall>y \<in> extent h1 c. memory h3 y = memory h2 y" using f(4) cl by blast+
    have "memory h3 (c + j) = memory h (b + j)" if j: "j < min n k" for j
    proof -
      have "c + j \<in> extent h1 c" using m(5) False j by auto
      then have "memory h3 (c + j) = memory h2 (c + j)" using e(2) by blast
      also have "\<dots> = memory h1 (b + j)" using j by (simp add: h2_def set_ram_views r_def)
      also have "\<dots> = memory h (b + j)" using fr b j extent_bytes [OF b(2)] by simp
      finally show ?thesis .
    qed
    moreover have "live h3 = insert c (live h - {b})" using f(3) m(3, 4) False b(1) by auto
    ultimately show ?thesis using run f(2) False m(3, 5) e(1) by auto
  qed
qed

theorem realloc_moves_witness:
  "\<exists>c h'. realloc 0xc010000c 40 demo_heap = Some (c, h') \<and> heap_ok h' \<and>
    (if c = 0 then live h' = live demo_heap
     else live h' = insert c (live demo_heap - {0xc010000c}) \<and> (\<forall>j < 40. memory h' (c + j) = memory demo_heap (0xc010000c + j)))"
proof -
  obtain c h' where "realloc 0xc010000c 40 demo_heap = Some (c, h')" "heap_ok h'" 
    "if c = 0 then live h' = live demo_heap
     else c \<notin> live demo_heap \<and> live h' = insert c (live demo_heap - {0xc010000c}) \<and> {c..<c + 40} \<subseteq> extent h' c \<and> (\<forall>j < min 40 4084. memory h' (c + j) = memory demo_heap (0xc010000c + j))"
    using realloc_moves [OF demo_heap, of 40] by auto
  then show ?thesis by (auto split: if_splits)
qed

text \<open>Sizes wrap at 32 bits: a request for more than 4 GB - 12 bytes is served like one for 4084
  bytes, by a single page, and the overflow check of \<open>calloc\<close> lets a product through that has
  wrapped, so that an array of 65537 times 65537 bytes gets 131073 bytes.\<close>

theorem malloc_size_wraps:
  assumes "shape h = sizes" "2 ^ 32 - 12 < n" "n < 2 ^ 32"
  shows "malloc n h = malloc 4084 h \<and> calloc 65537 65537 h = calloc 1 131073 h"
proof -
  have nd: "find_desc h k = None" if "1024 < k" for k
  proof -
    have "block_size (descs h ! i) \<le> 1024" if "i < length (descs h)" for i
    proof -
      have "shape h ! i \<in> set sizes" using assms(1) that by (metis length_map nth_mem shape_def)
      then show ?thesis using that by (auto simp: shape_def sizes_def)
    qed
    then show ?thesis using that by (fastforce simp: find_desc_def find_None_iff)
  qed
  have "u32 (n + 12) = n + 12 - 2 ^ 32" using assms(2, 3) by (simp add: u32_def mod_if)
  then have "u32 (u32 (n + 12) + PGSIZE - 1) div PGSIZE = u32 (u32 (4084 + 12) + PGSIZE - 1) div PGSIZE"
    using assms(2, 3) by (auto simp: u32_def div_nat_eqI)
  then have "malloc_big n h = malloc_big 4084 h" unfolding malloc_big_def by metis
  then have "malloc n h = malloc 4084 h" using assms(2) nd by (simp add: malloc_def)
  moreover have "calloc 65537 65537 h = calloc 1 131073 h" by (simp add: calloc_def u32_def Let_def)
  ultimately show ?thesis by simp
qed

theorem malloc_size_wraps_witness:
  "malloc 0xffffffff demo_heap = malloc 4084 demo_heap \<and> calloc 65537 65537 demo_heap = calloc 1 131073 demo_heap"
  using malloc_size_wraps [of demo_heap "0xffffffff"] demo_heap(1) by (simp add: heap_ok_def heap_inv_def)

end
