(* ===== verification/Pagedir.thy ===== *)
theory Pagedir
  imports Palloc
begin

text \<open>
  Page directories, \<open>userprog/pagedir.c\<close> with \<open>threads/pte.h\<close> and \<open>threads/vaddr.h\<close>. Directories and page
  tables are pages of little-endian 32-bit entries in the memory of the page allocator,
  addressed by kernel virtual addresses. \<open>cr3\<close> is the page directory base register; loading it
  empties the translation lookaside buffer.
\<close>

unbundle bit_operations_syntax

section \<open>Addresses and entries\<close>

abbreviation PHYS_BASE :: nat where "PHYS_BASE \<equiv> 0xc0000000"

definition is_user_vaddr :: "nat \<Rightarrow> bool" where "is_user_vaddr v \<longleftrightarrow> v < PHYS_BASE"
definition is_kernel_vaddr :: "nat \<Rightarrow> bool" where "is_kernel_vaddr v \<longleftrightarrow> PHYS_BASE \<le> v"

definition ptov :: "nat \<Rightarrow> nat option" where
  "ptov paddr = do { ASSERT (paddr < PHYS_BASE); Some (paddr + PHYS_BASE) }"

definition vtop :: "nat \<Rightarrow> nat option" where
  "vtop vaddr = do { ASSERT (is_kernel_vaddr vaddr); Some (vaddr - PHYS_BASE) }"

definition pd_no :: "nat \<Rightarrow> nat" where "pd_no va = va div 2 ^ 22"
definition pt_no :: "nat \<Rightarrow> nat" where "pt_no va = va div 2 ^ 12 mod 2 ^ 10"

type_synonym entry = "32 word"

definition PTE_ADDR :: entry where "PTE_ADDR = 0xfffff000"
definition PTE_P :: entry where "PTE_P = 1"
definition PTE_W :: entry where "PTE_W = 2"
definition PTE_U :: entry where "PTE_U = 4"
definition PTE_A :: entry where "PTE_A = 0x20"
definition PTE_D :: entry where "PTE_D = 0x40"

definition pde_create :: "nat \<Rightarrow> entry option" where
  "pde_create pt = do {
     ASSERT (pg_ofs pt = 0);
     p \<leftarrow> vtop pt;
     Some (word_of_nat p OR PTE_U OR PTE_P OR PTE_W)
   }"

definition pde_get_pt :: "entry \<Rightarrow> nat option" where
  "pde_get_pt pde = do {
     ASSERT (pde AND PTE_P \<noteq> 0);
     ptov (unat (pde AND PTE_ADDR))
   }"

definition pte_create_kernel :: "nat \<Rightarrow> bool \<Rightarrow> entry option" where
  "pte_create_kernel page writable = do {
     ASSERT (pg_ofs page = 0);
     p \<leftarrow> vtop page;
     Some (word_of_nat p OR PTE_P OR (if writable then PTE_W else 0))
   }"

definition pte_create_user :: "nat \<Rightarrow> bool \<Rightarrow> entry option" where
  "pte_create_user page writable = do { e \<leftarrow> pte_create_kernel page writable; Some (e OR PTE_U) }"

definition pte_get_page :: "entry \<Rightarrow> nat option" where
  "pte_get_page pte = ptov (unat (pte AND PTE_ADDR))"

section \<open>Operations\<close>

text \<open>An entry of a table in memory.\<close>

definition rd32 :: "(nat \<Rightarrow> byte) \<Rightarrow> nat \<Rightarrow> entry" where
  "rd32 r a = ucast (r a) OR push_bit 8 (ucast (r (a + 1))) OR push_bit 16 (ucast (r (a + 2))) OR push_bit 24 (ucast (r (a + 3)))"

definition wr32 :: "nat \<Rightarrow> entry \<Rightarrow> (nat \<Rightarrow> byte) \<Rightarrow> nat \<Rightarrow> byte" where
  "wr32 a w r = r(a := ucast w, a + 1 := ucast (drop_bit 8 w), a + 2 := ucast (drop_bit 16 w), a + 3 := ucast (drop_bit 24 w))"

record mmu =
  phys :: pages
  cr3 :: nat
  tlb :: "nat set"
  base_page_dir :: nat
  ram_pages :: nat

definition get_entry :: "mmu \<Rightarrow> nat \<Rightarrow> entry" where
  "get_entry m a = rd32 (ram (phys m)) a"

definition set_entry :: "nat \<Rightarrow> entry \<Rightarrow> mmu \<Rightarrow> mmu" where
  "set_entry a e m = m\<lparr>phys := (phys m)\<lparr>ram := wr32 a e (ram (phys m))\<rparr>\<rparr>"

definition pagedir_create :: "mmu \<Rightarrow> (nat \<times> mmu) option" where
  "pagedir_create m = do {
     (pd, p) \<leftarrow> palloc_get_page {} (phys m);
     let b = base_page_dir m;
     if pd \<noteq> 0 then
       Some (pd, m\<lparr>phys := p\<lparr>ram := (\<lambda>x. if pd \<le> x \<and> x < pd + PGSIZE then ram p (b + (x - pd)) else ram p x)\<rparr>\<rparr>)
     else Some (pd, m\<lparr>phys := p\<rparr>)
   }"

fun free_ptes :: "nat \<Rightarrow> nat list \<Rightarrow> pages \<Rightarrow> pages option" where
  "free_ptes pt [] p = Some p"
| "free_ptes pt (j # js) p =
     (let pte = rd32 (ram p) (pt + 4 * j) in
      if pte AND PTE_P \<noteq> 0 then do {
        page \<leftarrow> pte_get_page pte;
        p \<leftarrow> palloc_free_page page p;
        free_ptes pt js p
      } else free_ptes pt js p)"

fun free_pdes :: "nat \<Rightarrow> nat list \<Rightarrow> pages \<Rightarrow> pages option" where
  "free_pdes pd [] p = Some p"
| "free_pdes pd (i # is) p =
     (let pde = rd32 (ram p) (pd + 4 * i) in
      if pde AND PTE_P \<noteq> 0 then do {
        pt \<leftarrow> pde_get_pt pde;
        p \<leftarrow> free_ptes pt [0..<PGSIZE div 4] p;
        p \<leftarrow> palloc_free_page pt p;
        free_pdes pd is p
      } else free_pdes pd is p)"

definition pagedir_destroy :: "nat \<Rightarrow> mmu \<Rightarrow> mmu option" where
  "pagedir_destroy pd m =
     (if pd = 0 then Some m
      else do {
        ASSERT (pd \<noteq> base_page_dir m);
        p \<leftarrow> free_pdes pd [0..<pd_no PHYS_BASE] (phys m);
        p \<leftarrow> palloc_free_page pd p;
        Some (m\<lparr>phys := p\<rparr>)
      })"

text \<open>The result is the address of the entry, 0 for the null pointer.\<close>

definition lookup_page :: "nat \<Rightarrow> nat \<Rightarrow> bool \<Rightarrow> mmu \<Rightarrow> (nat \<times> mmu) option" where
  "lookup_page pd vaddr create m = do {
     ASSERT (pd \<noteq> 0);
     ASSERT (\<not> create \<or> is_user_vaddr vaddr);
     let pde = pd + 4 * pd_no vaddr;
     (found, m) \<leftarrow>
       (if get_entry m pde = 0 then
          if create then do {
            (pt, p) \<leftarrow> palloc_get_page {PAL_ZERO} (phys m);
            let m = m\<lparr>phys := p\<rparr>;
            if pt = 0 then Some (False, m)
            else do { e \<leftarrow> pde_create pt; Some (True, set_entry pde e m) }
          } else Some (False, m)
        else Some (True, m));
     if found then do {
       pt \<leftarrow> pde_get_pt (get_entry m pde);
       Some (pt + 4 * pt_no vaddr, m)
     } else Some (0, m)
   }"

definition pagedir_activate :: "nat \<Rightarrow> mmu \<Rightarrow> mmu option" where
  "pagedir_activate pd m = do {
     p \<leftarrow> vtop (if pd = 0 then base_page_dir m else pd);
     Some (m\<lparr>cr3 := p, tlb := {}\<rparr>)
   }"

definition active_pd :: "mmu \<Rightarrow> nat option" where
  "active_pd m = ptov (cr3 m)"

definition invalidate_pagedir :: "nat \<Rightarrow> mmu \<Rightarrow> mmu option" where
  "invalidate_pagedir pd m = do {
     a \<leftarrow> active_pd m;
     if a = pd then pagedir_activate pd m else Some m
   }"

definition pagedir_set_page :: "nat \<Rightarrow> nat \<Rightarrow> nat \<Rightarrow> bool \<Rightarrow> mmu \<Rightarrow> (bool \<times> mmu) option" where
  "pagedir_set_page pd upage kpage writable m = do {
     ASSERT (pg_ofs upage = 0);
     ASSERT (pg_ofs kpage = 0);
     ASSERT (is_user_vaddr upage);
     p \<leftarrow> vtop kpage;
     ASSERT (p div 2 ^ 12 < ram_pages m);
     ASSERT (pd \<noteq> base_page_dir m);
     (pte, m) \<leftarrow> lookup_page pd upage True m;
     if pte \<noteq> 0 then do {
       ASSERT (get_entry m pte AND PTE_P = 0);
       e \<leftarrow> pte_create_user kpage writable;
       Some (True, set_entry pte e m)
     } else Some (False, m)
   }"

definition pagedir_get_page :: "nat \<Rightarrow> nat \<Rightarrow> mmu \<Rightarrow> nat option" where
  "pagedir_get_page pd uaddr m = do {
     ASSERT (is_user_vaddr uaddr);
     (pte, m) \<leftarrow> lookup_page pd uaddr False m;
     if pte \<noteq> 0 \<and> get_entry m pte AND PTE_P \<noteq> 0 then do {
       page \<leftarrow> pte_get_page (get_entry m pte);
       Some (page + pg_ofs uaddr)
     } else Some 0
   }"

definition pagedir_clear_page :: "nat \<Rightarrow> nat \<Rightarrow> mmu \<Rightarrow> mmu option" where
  "pagedir_clear_page pd upage m = do {
     ASSERT (pg_ofs upage = 0);
     ASSERT (is_user_vaddr upage);
     (pte, m) \<leftarrow> lookup_page pd upage False m;
     if pte \<noteq> 0 \<and> get_entry m pte AND PTE_P \<noteq> 0 then
       invalidate_pagedir pd (set_entry pte (get_entry m pte AND NOT PTE_P) m)
     else Some m
   }"

definition pagedir_is_dirty :: "nat \<Rightarrow> nat \<Rightarrow> mmu \<Rightarrow> bool option" where
  "pagedir_is_dirty pd vpage m = do {
     (pte, m) \<leftarrow> lookup_page pd vpage False m;
     Some (pte \<noteq> 0 \<and> get_entry m pte AND PTE_D \<noteq> 0)
   }"

definition pagedir_set_dirty :: "nat \<Rightarrow> nat \<Rightarrow> bool \<Rightarrow> mmu \<Rightarrow> mmu option" where
  "pagedir_set_dirty pd vpage dirty m = do {
     (pte, m) \<leftarrow> lookup_page pd vpage False m;
     if pte \<noteq> 0 then
       if dirty then Some (set_entry pte (get_entry m pte OR PTE_D) m)
       else invalidate_pagedir pd (set_entry pte (get_entry m pte AND NOT PTE_D) m)
     else Some m
   }"

definition pagedir_is_accessed :: "nat \<Rightarrow> nat \<Rightarrow> mmu \<Rightarrow> bool option" where
  "pagedir_is_accessed pd vpage m = do {
     (pte, m) \<leftarrow> lookup_page pd vpage False m;
     Some (pte \<noteq> 0 \<and> get_entry m pte AND PTE_A \<noteq> 0)
   }"

definition pagedir_set_accessed :: "nat \<Rightarrow> nat \<Rightarrow> bool \<Rightarrow> mmu \<Rightarrow> mmu option" where
  "pagedir_set_accessed pd vpage accessed m = do {
     (pte, m) \<leftarrow> lookup_page pd vpage False m;
     if pte \<noteq> 0 then
       if accessed then Some (set_entry pte (get_entry m pte OR PTE_A) m)
       else invalidate_pagedir pd (set_entry pte (get_entry m pte AND NOT PTE_A) m)
     else Some m
   }"

text \<open>The mapping of a page by the loader and the page fault handler; \<open>pd\<close> is the page directory of the
  current thread.\<close>

definition install_page :: "nat \<Rightarrow> nat \<Rightarrow> nat \<Rightarrow> bool \<Rightarrow> mmu \<Rightarrow> (bool \<times> mmu) option" where
  "install_page pd upage kpage writable m = do {
     k \<leftarrow> pagedir_get_page pd upage m;
     if k = 0 then pagedir_set_page pd upage kpage writable m else Some (False, m)
   }"

definition install_fault_page :: "nat \<Rightarrow> nat \<Rightarrow> nat \<Rightarrow> bool \<Rightarrow> mmu \<Rightarrow> (bool \<times> mmu) option" where
  "install_fault_page pd fault_addr new_frame write m = do {
     k \<leftarrow> pagedir_get_page pd fault_addr m;
     if k = 0 then pagedir_set_page pd fault_addr new_frame write m else Some (False, m)
   }"

end
