(* ===== verification/Pagedir_Props.thy ===== *)
theory Pagedir_Props
  imports Pagedir
begin

text \<open>
  Page directories implement address spaces: a well-formed directory is a map from user
  pages to frames, the operations change exactly the page they name, and directories that
  share no tables do not affect each other.
\<close>

section \<open>Entries\<close>

lemma rd_wr_same: "rd32 (wr32 a w r) a = w"
proof (rule bit_word_eqI)
  fix n assume "n < LENGTH(32)"
  then show "bit (rd32 (wr32 a w r) a) n = bit w n"
    unfolding rd32_def wr32_def by (cases "n < 16"; cases "n < 24") (auto simp: bit_simps)
qed

lemma rd_wr_other: "b + 4 \<le> a \<or> a + 4 \<le> b \<Longrightarrow> rd32 (wr32 a w r) b = rd32 r b"
  unfolding rd32_def wr32_def by auto

lemma addr_mask: "PTE_ADDR = NOT (mask 12)"
  by (simp add: PTE_ADDR_def mask_eq_exp_minus_1)

lemma bit_addr: "bit (x AND PTE_ADDR) i \<longleftrightarrow> 12 \<le> i \<and> bit x i"
  using bit_imp_le_length [of x i] by (auto simp: addr_mask bit_simps)

lemma flag_bit:
  "(x AND PTE_P = 0) = (\<not> bit x 0)" "(x AND PTE_D = 0) = (\<not> bit x 6)" "(x AND PTE_A = 0) = (\<not> bit x 5)"
  "bit PTE_P i = (i = 0)" "bit PTE_W i = (i = 1)" "bit PTE_U i = (i = 2)" "bit PTE_A i = (i = 5)" "bit PTE_D i = (i = 6)"
proof -
  have e: "PTE_P = 2 ^ 0" "PTE_W = 2 ^ 1" "PTE_U = 2 ^ 2" "PTE_A = 2 ^ 5" "PTE_D = 2 ^ 6"
    by (simp_all add: PTE_P_def PTE_W_def PTE_U_def PTE_A_def PTE_D_def)
  show "(x AND PTE_P = 0) = (\<not> bit x 0)" "(x AND PTE_D = 0) = (\<not> bit x 6)" "(x AND PTE_A = 0) = (\<not> bit x 5)"
    unfolding e by (rule and_exp_eq_0_iff_not_bit)+
  show "bit PTE_P i = (i = 0)" "bit PTE_W i = (i = 1)" "bit PTE_U i = (i = 2)" "bit PTE_A i = (i = 5)" "bit PTE_D i = (i = 6)"
    unfolding e bit_exp_iff by auto
qed

lemma frame_back:
  fixes f :: entry
  assumes "n mod PGSIZE = 0" "n < 2 ^ 32" "\<And>i. bit f i \<Longrightarrow> i < 12"
  shows "unat ((word_of_nat n OR f) AND PTE_ADDR) = n"
proof -
  have "(word_of_nat n OR f) AND PTE_ADDR = (word_of_nat n :: 32 word)"
  proof (rule bit_word_eqI)
    fix i assume "i < LENGTH(32)"
    have "take_bit 12 n = 0" using assms(1) by (simp add: take_bit_eq_mod)
    then have "\<not> bit n i" if "i < 12" using that by (metis bit_take_bit_iff bit_0_eq bot_apply bot_bool_def)
    then show "bit ((word_of_nat n OR f) AND PTE_ADDR) i = bit (word_of_nat n :: 32 word) i"
      unfolding bit_addr using assms(3) [of i] by (cases "i < 12") (auto simp: bit_simps)
  qed
  then show ?thesis using assms(2) by (simp add: unat_of_nat)
qed

lemma addr_keep:
  fixes f :: entry
  assumes "\<And>i. bit f i \<Longrightarrow> i < 12"
  shows "(x OR f) AND PTE_ADDR = x AND PTE_ADDR" "(x AND NOT f) AND PTE_ADDR = x AND PTE_ADDR"
proof -
  have "bit ((x OR f) AND PTE_ADDR) i = bit (x AND PTE_ADDR) i" "bit ((x AND NOT f) AND PTE_ADDR) i = bit (x AND PTE_ADDR) i" for i
    unfolding bit_addr using assms [of i] by (auto simp: bit_or_iff bit_and_iff bit_not_iff dest: bit_imp_le_length)
  then show "(x OR f) AND PTE_ADDR = x AND PTE_ADDR" "(x AND NOT f) AND PTE_ADDR = x AND PTE_ADDR"
    by (auto intro: bit_word_eqI)
qed

text \<open>Entries of different slots or tables do not overlap.\<close>

lemma slot_page:
  assumes "t mod PGSIZE = 0" "j < 1024" "k < 4"
  shows "pg_round_down (t + 4 * j + k) = t"
proof -
  obtain q where "t = PGSIZE * q" using assms(1) by (auto simp: mod_eq_0_iff_dvd elim: dvdE)
  moreover have "4 * j + k < PGSIZE" using assms(2, 3) by simp
  ultimately show ?thesis by (simp add: pg_round_down_def add.assoc)
qed

lemma slots_apart:
  assumes "t mod PGSIZE = 0" "j < 1024" "s mod PGSIZE = 0" "k < 1024" "t \<noteq> s \<or> j \<noteq> k"
  shows "t + 4 * j + 4 \<le> s + 4 * k \<or> s + 4 * k + 4 \<le> t + 4 * j"
proof (cases "t = s")
  case True
  then show ?thesis using assms(5) by linarith
next
  case False
  then consider "t + PGSIZE \<le> s" | "s + PGSIZE \<le> t"
    using assms(1, 3) by (metis mod_eq_0_iff_dvd dvd_add_right_iff linorder_neqE_nat nat_le_iff_add dvd_imp_le less_imp_add_positive add_left_mono)
  then show ?thesis using assms(2, 4) by cases simp_all
qed

lemma entry_set:
  assumes "t mod PGSIZE = 0" "j < 1024" "s mod PGSIZE = 0" "k < 1024"
  shows "get_entry (set_entry (t + 4 * j) e m) (s + 4 * k) = (if t = s \<and> j = k then e else get_entry m (s + 4 * k))"
  using rd_wr_same rd_wr_other [of "s + 4 * k" "t + 4 * j"] slots_apart [OF assms(3, 4, 1, 2)]
  by (auto simp: get_entry_def set_entry_def)

lemma entry_fill:
  assumes "s mod PGSIZE = 0" "k < 1024" "a mod PGSIZE = 0"
  shows "rd32 (fill a 0 PGSIZE r) (s + 4 * k) = (if s = a then 0 else rd32 r (s + 4 * k))"
proof -
  obtain q where q: "a = PGSIZE * q" using assms(3) by (auto simp: mod_eq_0_iff_dvd elim: dvdE)
  have in_page: "(a \<le> y \<and> y < a + PGSIZE) \<longleftrightarrow> pg_round_down y = a" for y
    unfolding q pg_round_down_def using div_nat_eqI [of PGSIZE q y] by auto
  have "fill a 0 PGSIZE r (s + 4 * k + i) = (if s = a then 0 else r (s + 4 * k + i))" if "i < 4" for i
    unfolding fill_def in_page slot_page [OF assms(1, 2) that] by simp
  from this [of 0] this [of 1] this [of 2] this [of 3] show ?thesis by (simp add: rd32_def)
qed

section \<open>Well-formed directories\<close>

definition mm_ok :: "mmu \<Rightarrow> bool" where
  "mm_ok m \<longleftrightarrow> pool_ok (phys m) \<and> PHYS_BASE \<le> base (kernel_pool (phys m)) \<and>
     base (kernel_pool (phys m)) + PGSIZE * bit_cnt (used_map (kernel_pool (phys m))) \<le> 2 ^ 32"

abbreviation tabs :: "mmu \<Rightarrow> nat set" where "tabs m \<equiv> used_pages (phys m)"

definition pde :: "mmu \<Rightarrow> nat \<Rightarrow> nat \<Rightarrow> entry" where
  "pde m pd i = get_entry m (pd + 4 * i)"

definition pt_of :: "mmu \<Rightarrow> nat \<Rightarrow> nat \<Rightarrow> nat" where
  "pt_of m pd i = unat (pde m pd i AND PTE_ADDR) + PHYS_BASE"

definition pte :: "mmu \<Rightarrow> nat \<Rightarrow> nat \<Rightarrow> nat \<Rightarrow> entry" where
  "pte m pd i j = get_entry m (pt_of m pd i + 4 * j)"

definition slot_ok :: "mmu \<Rightarrow> nat \<Rightarrow> nat \<Rightarrow> bool" where
  "slot_ok m pd i \<longleftrightarrow> pde m pd i = 0 \<or>
     bit (pde m pd i) 0 \<and> pt_of m pd i \<in> tabs m - {pd} \<and>
     (\<forall>j < 1024. bit (pte m pd i j) 0 \<longrightarrow> unat (pte m pd i j AND PTE_ADDR) < PHYS_BASE)"

definition dir_ok :: "mmu \<Rightarrow> nat \<Rightarrow> bool" where
  "dir_ok m pd \<longleftrightarrow> pd \<in> tabs m \<and> (\<forall>i < 768. slot_ok m pd i) \<and>
     (\<forall>i < 768. \<forall>j < 768. pde m pd i \<noteq> 0 \<longrightarrow> pde m pd j \<noteq> 0 \<longrightarrow> pt_of m pd i = pt_of m pd j \<longrightarrow> i = j)"

text \<open>The pages that hold the directory and its tables.\<close>

definition dir_pages :: "mmu \<Rightarrow> nat \<Rightarrow> nat set" where
  "dir_pages m pd = insert pd (pt_of m pd ` {i. i < 768 \<and> pde m pd i \<noteq> 0})"

text \<open>The address that a user address is mapped to, 0 if it is not mapped.\<close>

definition walk :: "mmu \<Rightarrow> nat \<Rightarrow> nat \<Rightarrow> nat" where
  "walk m pd v =
     (if pde m pd (pd_no v) = 0 \<or> \<not> bit (pte m pd (pd_no v) (pt_no v)) 0 then 0
      else unat (pte m pd (pd_no v) (pt_no v) AND PTE_ADDR) + PHYS_BASE + pg_ofs v)"

lemma tab_page:
  assumes "mm_ok m" "a \<in> tabs m"
  shows "a mod PGSIZE = 0" "PHYS_BASE \<le> a" "a + PGSIZE \<le> 2 ^ 32"
proof -
  let ?p = "kernel_pool (phys m)"
  have ok: "pool_ok (phys m)" using assms(1) by (simp add: mm_ok_def)
  then show "a mod PGSIZE = 0" using used_pages_aligned assms(2) by blast
  obtain i where i: "a = base ?p + PGSIZE * i" "i \<in> bitmap_used (used_map ?p)" using assms(2) by (auto simp: used_pages_def)
  have "i < bit_cnt (used_map ?p)" using i(2) by (simp add: bitmap_used_def)
  then show "PHYS_BASE \<le> a" "a + PGSIZE \<le> 2 ^ 32" using i(1) assms(1) by (auto simp: mm_ok_def)
qed

lemma user_no: "v < PHYS_BASE \<Longrightarrow> pd_no v < 768" "pt_no v < 1024"
  by (simp_all add: pd_no_def pt_no_def)

lemma page_no:
  "pg_round_down u = pg_round_down v \<longleftrightarrow> pd_no u = pd_no v \<and> pt_no u = pt_no v"
proof -
  have p: "pd_no u = u div PGSIZE div 1024" "pt_no u = u div PGSIZE mod 1024" for u
    by (simp_all add: pd_no_def pt_no_def div_mult2_eq [symmetric])
  have "u div PGSIZE = pd_no u * 1024 + pt_no u" for u unfolding p by (rule div_mult_mod_eq [symmetric])
  then have "u div PGSIZE = v div PGSIZE" if "pd_no u = pd_no v" "pt_no u = pt_no v" using that by metis
  moreover have "pd_no u = pd_no v \<and> pt_no u = pt_no v" if "u div PGSIZE = v div PGSIZE" using that by (simp add: p)
  ultimately show ?thesis by (auto simp: pg_round_down_def)
qed

lemma pt_page:
  assumes "mm_ok m" "dir_ok m pd" "i < 768" "pde m pd i \<noteq> 0"
  shows "pt_of m pd i \<in> tabs m" "pt_of m pd i \<noteq> pd" "pde_get_pt (pde m pd i) = Some (pt_of m pd i)"
proof -
  have s: "bit (pde m pd i) 0" "pt_of m pd i \<in> tabs m - {pd}" using assms(2-4) by (auto simp: dir_ok_def slot_ok_def)
  then show "pt_of m pd i \<in> tabs m" "pt_of m pd i \<noteq> pd" by simp_all
  have "pt_of m pd i < 2 ^ 32" using tab_page(3) [OF assms(1)] s(2) by fastforce
  then show "pde_get_pt (pde m pd i) = Some (pt_of m pd i)" using s(1) by (simp add: pde_get_pt_def ptov_def pt_of_def flag_bit)
qed

lemma lookup_existing:
  assumes "mm_ok m" "dir_ok m pd" "v < PHYS_BASE"
  shows "lookup_page pd v False m = Some (if pde m pd (pd_no v) = 0 then 0 else pt_of m pd (pd_no v) + 4 * pt_no v, m)"
    "pde m pd (pd_no v) \<noteq> 0 \<Longrightarrow> lookup_page pd v True m = Some (pt_of m pd (pd_no v) + 4 * pt_no v, m)"
proof -
  have "pd \<in> tabs m" using assms(2) by (simp add: dir_ok_def)
  then have "pd \<noteq> 0" using tab_page(2) [OF assms(1)] by fastforce
  moreover note p = pt_page(3) [OF assms(1, 2) user_no(1) [OF assms(3)]]
  ultimately show "lookup_page pd v False m = Some (if pde m pd (pd_no v) = 0 then 0 else pt_of m pd (pd_no v) + 4 * pt_no v, m)"
    "pde m pd (pd_no v) \<noteq> 0 \<Longrightarrow> lookup_page pd v True m = Some (pt_of m pd (pd_no v) + 4 * pt_no v, m)"
    using assms(3) unfolding pde_def by (auto simp: lookup_page_def Let_def is_user_vaddr_def)
qed

lemma get_page_walk:
  assumes "mm_ok m" "dir_ok m pd" "v < PHYS_BASE"
  shows "pagedir_get_page pd v m = Some (walk m pd v)"
proof (cases "pde m pd (pd_no v) = 0")
  case True
  then show ?thesis using lookup_existing(1) [OF assms] assms(3) by (simp add: pagedir_get_page_def is_user_vaddr_def walk_def)
next
  case False
  have "pt_of m pd (pd_no v) \<noteq> 0" by (simp add: pt_of_def)
  moreover have "bit (pte m pd (pd_no v) (pt_no v)) 0 \<longrightarrow> unat (pte m pd (pd_no v) (pt_no v) AND PTE_ADDR) < PHYS_BASE"
    using assms(2) False user_no [of v] assms(3) by (auto simp: dir_ok_def slot_ok_def)
  ultimately show ?thesis using lookup_existing(1) [OF assms] assms(3) False
    by (auto simp: pagedir_get_page_def is_user_vaddr_def walk_def pte_get_page_def ptov_def flag_bit pte_def)
qed

text \<open>A directory depends on the entries of its own pages only.\<close>

lemma dir_frame:
  assumes "mm_ok m" "dir_ok m pd" "tabs m \<subseteq> tabs m'"
    and e: "\<And>t j. t \<in> dir_pages m pd \<Longrightarrow> j < 1024 \<Longrightarrow> get_entry m' (t + 4 * j) = get_entry m (t + 4 * j)"
  shows "dir_ok m' pd" "dir_pages m' pd = dir_pages m pd" "v < PHYS_BASE \<Longrightarrow> walk m' pd v = walk m pd v"
proof -
  have p: "pde m' pd i = pde m pd i" if "i < 768" for i
    using e [of pd i] that by (simp add: dir_pages_def pde_def)
  then have t: "pt_of m' pd i = pt_of m pd i" if "i < 768" for i using that by (simp add: pt_of_def)
  have q: "pte m' pd i j = pte m pd i j" if "i < 768" "j < 1024" "pde m pd i \<noteq> 0" for i j
    using e [of "pt_of m pd i" j] that t by (auto simp: dir_pages_def pte_def)
  have "slot_ok m' pd i" if "i < 768" for i
    using assms(2, 3) that p t q [OF that] by (auto simp: dir_ok_def slot_ok_def)
  then show "dir_ok m' pd" using assms(2, 3) p t by (auto simp: dir_ok_def)
  show "dir_pages m' pd = dir_pages m pd" using p t by (auto simp: dir_pages_def)
  show "v < PHYS_BASE \<Longrightarrow> walk m' pd v = walk m pd v" using p q user_no [of v] by (auto simp: walk_def)
qed

lemma dir_pages_tabs: "dir_ok m pd \<Longrightarrow> dir_pages m pd \<subseteq> tabs m"
  by (auto simp: dir_pages_def dir_ok_def slot_ok_def)

section \<open>Changing entries\<close>

lemma set_entry_views [simp]:
  "tabs (set_entry a e m) = tabs m" "mm_ok (set_entry a e m) = mm_ok m" "cr3 (set_entry a e m) = cr3 m" "tlb (set_entry a e m) = tlb m"
  "base_page_dir (set_entry a e m) = base_page_dir m" "ram_pages (set_entry a e m) = ram_pages m"
  by (simp_all add: set_entry_def mm_ok_def pool_ok_def used_pages_def)

lemma set_pte:
  assumes mm: "mm_ok m" and d: "dir_ok m pd" and i: "i < 768" "pde m pd i \<noteq> 0" and j: "j < 1024"
    and e: "bit e 0 \<longrightarrow> unat (e AND PTE_ADDR) < PHYS_BASE"
  defines "m' \<equiv> set_entry (pt_of m pd i + 4 * j) e m"
  shows "dir_ok m' pd" "dir_pages m' pd = dir_pages m pd" "\<And>k. k < 768 \<Longrightarrow> pde m' pd k = pde m pd k"
    "\<And>k l. k < 768 \<Longrightarrow> l < 1024 \<Longrightarrow> pde m pd k \<noteq> 0 \<Longrightarrow> pte m' pd k l = (if k = i \<and> l = j then e else pte m pd k l)"
proof -
  note t = pt_page [OF mm d i]
  have tm: "pt_of m pd i mod PGSIZE = 0" using tab_page(1) [OF mm t(1)] .
  have pd: "pd mod PGSIZE = 0" using tab_page(1) [OF mm] d by (simp add: dir_ok_def)
  show p: "pde m' pd k = pde m pd k" if "k < 768" for k
    using entry_set [OF tm j pd, of k e m] that t(2) by (simp add: m'_def pde_def)
  then have pt: "pt_of m' pd k = pt_of m pd k" if "k < 768" for k using that by (simp add: pt_of_def)
  have inj: "pt_of m pd k = pt_of m pd i \<longleftrightarrow> k = i" if "k < 768" "pde m pd k \<noteq> 0" for k
    using d that i by (auto simp: dir_ok_def)
  show q: "pte m' pd k l = (if k = i \<and> l = j then e else pte m pd k l)" if k: "k < 768" "l < 1024" "pde m pd k \<noteq> 0" for k l
    using entry_set [OF tm j tab_page(1) [OF mm pt_page(1) [OF mm d k(1, 3)]] k(2), of e m] inj [OF k(1, 3)] pt [OF k(1)]
    by (auto simp: m'_def pte_def)
  have "slot_ok m' pd k" if k: "k < 768" for k
  proof -
    have "slot_ok m pd k" "tabs m' = tabs m" using d k by (simp_all add: dir_ok_def m'_def)
    then show ?thesis using p [OF k] pt [OF k] q [OF k] e unfolding slot_ok_def by auto
  qed
  then show "dir_ok m' pd" using d p pt by (auto simp: dir_ok_def m'_def)
  show "dir_pages m' pd = dir_pages m pd" using p pt by (auto simp: dir_pages_def)
qed

lemma set_pte_walk:
  assumes "mm_ok m" "dir_ok m pd" "u < PHYS_BASE" "pde m pd (pd_no u) \<noteq> 0" "bit e 0 \<longrightarrow> unat (e AND PTE_ADDR) < PHYS_BASE" "v < PHYS_BASE"
  shows "walk (set_entry (pt_of m pd (pd_no u) + 4 * pt_no u) e m) pd v =
    (if pg_round_down v = pg_round_down u then (if bit e 0 then unat (e AND PTE_ADDR) + PHYS_BASE + pg_ofs v else 0) else walk m pd v)"
  using set_pte(3, 4) [OF assms(1, 2) user_no(1) [OF assms(3)] assms(4) user_no(2) assms(5)] user_no [of v] assms(4, 6)
  by (auto simp: walk_def page_no)

lemma set_entry_other:
  assumes mm: "mm_ok m" and t: "t \<in> tabs m" "j < 1024" and d: "dir_ok m pd'" "t \<notin> dir_pages m pd'"
  shows "dir_ok (set_entry (t + 4 * j) e m) pd'" "dir_pages (set_entry (t + 4 * j) e m) pd' = dir_pages m pd'"
    "v < PHYS_BASE \<Longrightarrow> walk (set_entry (t + 4 * j) e m) pd' v = walk m pd' v"
proof -
  have e: "get_entry (set_entry (t + 4 * j) e m) (s + 4 * k) = get_entry m (s + 4 * k)" if "s \<in> dir_pages m pd'" "k < 1024" for s k
    using entry_set [OF tab_page(1) [OF mm t(1)] t(2) tab_page(1) [OF mm] that(2)] that d dir_pages_tabs by fastforce
  note f = dir_frame [OF mm d(1) _ e]
  show "dir_ok (set_entry (t + 4 * j) e m) pd'" "dir_pages (set_entry (t + 4 * j) e m) pd' = dir_pages m pd'"
    "v < PHYS_BASE \<Longrightarrow> walk (set_entry (t + 4 * j) e m) pd' v = walk m pd' v" using f by simp_all
qed

section \<open>New tables\<close>

lemma zeroed_page:
  assumes mm: "mm_ok m" and g: "palloc_get_multiple {PAL_ZERO} 1 (phys m) = Some (a, p)"
  defines "m1 \<equiv> m\<lparr>phys := p\<rparr>"
  shows "mm_ok m1" "a = 0 \<Longrightarrow> tabs m1 = tabs m" "a \<noteq> 0 \<Longrightarrow> a \<notin> tabs m \<and> tabs m1 = insert a (tabs m)"
    "\<And>s k. s mod PGSIZE = 0 \<Longrightarrow> k < 1024 \<Longrightarrow> get_entry m1 (s + 4 * k) = (if a \<noteq> 0 \<and> s = a then 0 else get_entry m (s + 4 * k))"
proof -
  have po: "pool_ok (phys m)" using mm by (simp add: mm_ok_def)
  have z: "PAL_USER \<notin> {PAL_ZERO}" by simp
  note gp = get_pages [OF po zero_less_one g z] and r = get_zeroed_ram [OF g]
  have pr: "page_range a 1 = {a}" by (simp add: page_range_def lessThan_Suc)
  show "a = 0 \<Longrightarrow> tabs m1 = tabs m" "a \<noteq> 0 \<Longrightarrow> a \<notin> tabs m \<and> tabs m1 = insert a (tabs m)"
    using gp(2, 3) [unfolded pr] by (auto simp: m1_def)
  have "base (kernel_pool p) = base (kernel_pool (phys m)) \<and> bit_cnt (used_map (kernel_pool p)) = bit_cnt (used_map (kernel_pool (phys m)))"
    using get_page_size [OF po g z] by simp
  then show "mm_ok m1" using mm gp(1) by (simp add: mm_ok_def m1_def)
  show "get_entry m1 (s + 4 * k) = (if a \<noteq> 0 \<and> s = a then 0 else get_entry m (s + 4 * k))" if "s mod PGSIZE = 0" "k < 1024" for s k
    using entry_fill [OF that, of a] r gp(3) by (auto simp: get_entry_def m1_def)
qed

text \<open>What a change to one directory leaves alone.\<close>

definition isolated :: "mmu \<Rightarrow> mmu \<Rightarrow> nat \<Rightarrow> bool" where
  "isolated m m' pd \<longleftrightarrow> (\<forall>pd'. dir_ok m pd' \<longrightarrow> dir_pages m pd' \<inter> dir_pages m pd = {} \<longrightarrow>
     dir_ok m' pd' \<and> dir_pages m' pd' \<inter> dir_pages m' pd = {} \<and> (\<forall>v < PHYS_BASE. walk m' pd' v = walk m pd' v))"

lemma isolated_trans: "isolated m m' pd \<Longrightarrow> isolated m' m'' pd \<Longrightarrow> isolated m m'' pd"
  by (simp add: isolated_def)

lemma new_table:
  assumes mm: "mm_ok m" and d: "dir_ok m pd" and i: "i < 768" "pde m pd i = 0"
    and g: "palloc_get_multiple {PAL_ZERO} 1 (phys m) = Some (a, p)" "a \<noteq> 0"
  shows "\<exists>e. pde_create a = Some e \<and> (let m' = set_entry (pd + 4 * i) e (m\<lparr>phys := p\<rparr>) in
    mm_ok m' \<and> dir_ok m' pd \<and> pde m' pd i \<noteq> 0 \<and> pt_of m' pd i = a \<and> (\<forall>v < PHYS_BASE. walk m' pd v = walk m pd v) \<and> isolated m m' pd)"
proof -
  define m1 where "m1 = m\<lparr>phys := p\<rparr>"
  note z = zeroed_page [OF mm g(1), folded m1_def]
  have at: "a \<in> tabs m1" "a \<notin> tabs m" "tabs m1 = insert a (tabs m)" using z(3) g(2) by auto
  note ap = tab_page [OF z(1) at(1)]
  have pdt: "pd \<in> tabs m" "pd mod PGSIZE = 0" "pd \<noteq> a" using d at(2) tab_page(1) [OF mm] by (auto simp: dir_ok_def)
  define e where "e = word_of_nat (a - PHYS_BASE) OR (PTE_U OR PTE_P OR PTE_W)"
  have e: "pde_create a = Some e" using ap by (simp add: pde_create_def pg_ofs_def vtop_def is_kernel_vaddr_def e_def or.assoc)
  have al: "(a - PHYS_BASE) mod PGSIZE = 0" using ap(1, 2) by (simp add: mod_eq_0_iff_dvd dvd_diff_nat)
  have "unat (e AND PTE_ADDR) = a - PHYS_BASE"
    unfolding e_def by (rule frame_back [OF al]) (use ap(3) in \<open>auto simp: bit_or_iff flag_bit\<close>)
  then have eb: "unat (e AND PTE_ADDR) + PHYS_BASE = a" using ap(2) by simp
  have e0: "bit e 0" by (simp add: e_def bit_or_iff flag_bit)
  then have en: "e \<noteq> 0" by auto
  define m' where "m' = set_entry (pd + 4 * i) e m1"
  have i1: "i < 1024" using i(1) by simp
  have ent: "get_entry m' (s + 4 * k) = (if s = pd \<and> k = i then e else if s = a then 0 else get_entry m (s + 4 * k))"
    if "s mod PGSIZE = 0" "k < 1024" for s k
    using entry_set [OF pdt(2) i1 that] z(4) [OF that] g(2) pdt(3) by (auto simp: m'_def)
  have p: "pde m' pd k = (if k = i then e else pde m pd k)" if "k < 768" for k
    using ent [OF pdt(2), of k] that pdt(3) by (simp add: pde_def)
  have pt: "pt_of m' pd k = (if k = i then a else pt_of m pd k)" if "k < 768" for k
    using p [OF that] eb by (simp add: pt_of_def)
  have old: "pt_of m pd k \<in> tabs m \<and> pt_of m pd k \<noteq> pd \<and> pt_of m pd k \<noteq> a" if "k < 768" "pde m pd k \<noteq> 0" for k
    using pt_page(1, 2) [OF mm d that] at(2) by auto
  have q: "pte m' pd k l = (if k = i then 0 else pte m pd k l)" if k: "k < 768" "l < 1024" "k = i \<or> pde m pd k \<noteq> 0" for k l
    using ent [of "pt_of m' pd k" l] k ap(1) pt [OF k(1)] old [of k] tab_page(1) [OF mm] pdt(3) by (auto simp: pte_def)
  have "slot_ok m' pd k" if k: "k < 768" for k
  proof (cases "k = i")
    case True
    then show ?thesis using p [OF k] pt [OF k] q [OF k] e0 at(1) pdt(3) by (simp add: slot_ok_def m'_def)
  next
    case False
    have "slot_ok m pd k" using d k by (simp add: dir_ok_def)
    then show ?thesis using False p [OF k] pt [OF k] q [OF k] at(3) by (auto simp: slot_ok_def m'_def)
  qed
  moreover have "pt_of m' pd k = pt_of m' pd l \<Longrightarrow> k = l" if "k < 768" "l < 768" "pde m' pd k \<noteq> 0" "pde m' pd l \<noteq> 0" for k l
    using that p pt old d unfolding dir_ok_def by (metis (no_types))
  ultimately have dok: "dir_ok m' pd" using pdt(1) at(3) by (auto simp: dir_ok_def m'_def)
  have w: "walk m' pd v = walk m pd v" if "v < PHYS_BASE" for v
    using p q user_no [of v] that i(2) by (auto simp: walk_def)
  have pages: "dir_pages m' pd = insert a (dir_pages m pd)"
  proof -
    have "{k. k < 768 \<and> pde m' pd k \<noteq> 0} = insert i {k. k < 768 \<and> pde m pd k \<noteq> 0}" using p i(1) en by (auto split: if_splits)
    moreover have "pt_of m' pd ` {k. k < 768 \<and> pde m pd k \<noteq> 0} = pt_of m pd ` {k. k < 768 \<and> pde m pd k \<noteq> 0}"
      using pt i(2) by (intro image_cong) auto
    ultimately show ?thesis using pt [OF i(1)] by (simp add: dir_pages_def insert_commute)
  qed
  have "isolated m m' pd"
    unfolding isolated_def
  proof (intro allI impI)
    fix pd' assume d': "dir_ok m pd'" "dir_pages m pd' \<inter> dir_pages m pd = {}"
    have nt: "t \<noteq> pd \<and> t \<noteq> a \<and> t mod PGSIZE = 0" if "t \<in> dir_pages m pd'" for t
      using that d' dir_pages_tabs [OF d'(1)] at(2) tab_page(1) [OF mm] by (auto simp: dir_pages_def)
    have "get_entry m' (t + 4 * j) = get_entry m (t + 4 * j)" if "t \<in> dir_pages m pd'" "j < 1024" for t j
      using ent [of t j] nt [OF that(1)] that(2) by simp
    note f = dir_frame [OF mm d'(1) _ this]
    have sub: "tabs m \<subseteq> tabs m'" using at(3) by (auto simp: m'_def)
    show "dir_ok m' pd' \<and> dir_pages m' pd' \<inter> dir_pages m' pd = {} \<and> (\<forall>v < PHYS_BASE. walk m' pd' v = walk m pd' v)"
      using f [OF sub] d'(2) nt by (auto simp: pages)
  qed
  moreover have "mm_ok m'" using z(1) by (simp add: m'_def)
  ultimately show ?thesis using e dok p [OF i(1)] pt [OF i(1)] en w unfolding m'_def m1_def by (auto simp: Let_def)
qed

lemma lookup_create:
  assumes mm: "mm_ok m" and d: "dir_ok m pd" and v: "v < PHYS_BASE"
  shows "\<exists>t m'. lookup_page pd v True m = Some (t, m') \<and> mm_ok m' \<and> dir_ok m' pd \<and> (\<forall>u < PHYS_BASE. walk m' pd u = walk m pd u) \<and>
    isolated m m' pd \<and> (t \<noteq> 0 \<longrightarrow> pde m' pd (pd_no v) \<noteq> 0 \<and> t = pt_of m' pd (pd_no v) + 4 * pt_no v)"
proof (cases "pde m pd (pd_no v) = 0")
  case False
  then show ?thesis using lookup_existing(2) [OF mm d v False] mm d by (simp add: isolated_def)
next
  case True
  let ?i = "pd_no v"
  have i: "?i < 768" using user_no(1) [OF v] .
  have "pd \<in> tabs m" using d by (simp add: dir_ok_def)
  then have pd: "pd \<noteq> 0" using tab_page(2) [OF mm] by fastforce
  have po: "pool_ok (phys m)" using mm by (simp add: mm_ok_def)
  obtain a p where g: "palloc_get_multiple {PAL_ZERO} 1 (phys m) = Some (a, p)"
    using get_kernel_total [OF po, of "{PAL_ZERO}" 1] by auto
  show ?thesis
  proof (cases "a = 0")
    case False
    obtain e where e: "pde_create a = Some e" and m': "mm_ok (set_entry (pd + 4 * ?i) e (m\<lparr>phys := p\<rparr>))"
      "dir_ok (set_entry (pd + 4 * ?i) e (m\<lparr>phys := p\<rparr>)) pd" "pde (set_entry (pd + 4 * ?i) e (m\<lparr>phys := p\<rparr>)) pd ?i \<noteq> 0"
      "pt_of (set_entry (pd + 4 * ?i) e (m\<lparr>phys := p\<rparr>)) pd ?i = a"
      "\<forall>u < PHYS_BASE. walk (set_entry (pd + 4 * ?i) e (m\<lparr>phys := p\<rparr>)) pd u = walk m pd u"
      "isolated m (set_entry (pd + 4 * ?i) e (m\<lparr>phys := p\<rparr>)) pd"
      using new_table [OF mm d i True g False] by (auto simp: Let_def)
    have "lookup_page pd v True m = Some (a + 4 * pt_no v, set_entry (pd + 4 * ?i) e (m\<lparr>phys := p\<rparr>))"
      using pd v True g False e pt_page(3) [OF m'(1, 2) i m'(3)] m'(4)
      by (simp add: lookup_page_def Let_def is_user_vaddr_def pde_def palloc_get_page_def)
    then show ?thesis using m' by auto
  next
    case a0: True
    note z = zeroed_page [OF mm g]
    have e: "get_entry (m\<lparr>phys := p\<rparr>) (t + 4 * j) = get_entry m (t + 4 * j)" if "dir_ok m x" "t \<in> dir_pages m x" "j < 1024" for x t j
      using z(4) [OF tab_page(1) [OF mm] that(3), of t] a0 that dir_pages_tabs by auto
    have f: "dir_ok (m\<lparr>phys := p\<rparr>) x" "dir_pages (m\<lparr>phys := p\<rparr>) x = dir_pages m x"
      "\<And>u. u < PHYS_BASE \<Longrightarrow> walk (m\<lparr>phys := p\<rparr>) x u = walk m x u" if "dir_ok m x" for x
      using dir_frame [OF mm that _ e [OF that]] z(2) a0 by auto
    have "lookup_page pd v True m = Some (0, m\<lparr>phys := p\<rparr>)"
      using pd v True g a0 by (simp add: lookup_page_def Let_def is_user_vaddr_def pde_def palloc_get_page_def)
    then show ?thesis using z(1) f [OF d] f by (auto simp: isolated_def)
  qed
qed

lemma lookup_keeps: "lookup_page pd v c m = Some (t, m') \<Longrightarrow> cr3 m' = cr3 m \<and> tlb m' = tlb m \<and> base_page_dir m' = base_page_dir m \<and> ram_pages m' = ram_pages m"
  by (auto simp: lookup_page_def Let_def bind_eq_Some_conv split: if_splits)

section \<open>Mapping a page\<close>

lemma user_entry:
  assumes "k mod PGSIZE = 0" "PHYS_BASE \<le> k" "k < 2 ^ 32"
  shows "\<exists>e. pte_create_user k w = Some e \<and> bit e 0 \<and> unat (e AND PTE_ADDR) + PHYS_BASE = k"
proof -
  define f where "f = PTE_P OR (if w then PTE_W else 0) OR PTE_U"
  have al: "(k - PHYS_BASE) mod PGSIZE = 0" using assms(1, 2) by (simp add: mod_eq_0_iff_dvd dvd_diff_nat)
  have "unat ((word_of_nat (k - PHYS_BASE) OR f) AND PTE_ADDR) = k - PHYS_BASE"
    by (rule frame_back [OF al]) (use assms(3) in \<open>auto simp: f_def bit_or_iff flag_bit split: if_splits\<close>)
  moreover have "pte_create_user k w = Some (word_of_nat (k - PHYS_BASE) OR f)"
    using assms by (simp add: pte_create_user_def pte_create_kernel_def pg_ofs_def vtop_def is_kernel_vaddr_def f_def or.assoc)
  ultimately show ?thesis using assms(2) by (intro exI conjI) (auto simp: f_def bit_or_iff flag_bit)
qed

lemma set_page_ok:
  assumes mm: "mm_ok m" and d: "dir_ok m pd" "pd \<noteq> base_page_dir m" and u: "u mod PGSIZE = 0" "u < PHYS_BASE" "walk m pd u = 0"
    and k: "k mod PGSIZE = 0" "PHYS_BASE \<le> k" "k < 2 ^ 32" "(k - PHYS_BASE) div 2 ^ 12 < ram_pages m"
  shows "\<exists>ok m'. pagedir_set_page pd u k w m = Some (ok, m') \<and> mm_ok m' \<and> dir_ok m' pd \<and> isolated m m' pd \<and>
    (\<forall>v < PHYS_BASE. walk m' pd v = (if ok \<and> pg_round_down v = u then k + pg_ofs v else walk m pd v))"
proof -
  obtain t m1 where l: "lookup_page pd u True m = Some (t, m1)" "mm_ok m1" "dir_ok m1 pd" "\<forall>v < PHYS_BASE. walk m1 pd v = walk m pd v" "isolated m m1 pd"
    "t \<noteq> 0 \<longrightarrow> pde m1 pd (pd_no u) \<noteq> 0 \<and> t = pt_of m1 pd (pd_no u) + 4 * pt_no u" using lookup_create [OF mm d(1) u(2)] by blast
  obtain e where e: "pte_create_user k w = Some e" "bit e 0" "unat (e AND PTE_ADDR) + PHYS_BASE = k" using user_entry [OF k(1-3)] by blast
  have pre: "pagedir_set_page pd u k w m =
      (if t \<noteq> 0 then do { ASSERT (get_entry m1 t AND PTE_P = 0); Some (True, set_entry t e m1) } else Some (False, m1))"
    using u(1, 2) k d(2) l(1) e(1) by (simp add: pagedir_set_page_def pg_ofs_def is_user_vaddr_def vtop_def is_kernel_vaddr_def)
  show ?thesis
  proof (cases "t = 0")
    case True
    then show ?thesis using pre l by (intro exI [of _ False] exI [of _ m1]) simp
  next
    case False
    then have t: "pde m1 pd (pd_no u) \<noteq> 0" "t = pt_of m1 pd (pd_no u) + 4 * pt_no u" using l(6) by auto
    have "walk m1 pd u = 0" using l(4) u(2, 3) by simp
    then have np: "\<not> bit (get_entry m1 t) 0" using t by (auto simp: walk_def pte_def split: if_splits)
    have ep: "bit e 0 \<longrightarrow> unat (e AND PTE_ADDR) < PHYS_BASE" using e(3) k(3) by simp
    note sp = set_pte [OF l(2, 3) user_no(1) [OF u(2)] t(1) user_no(2) [of u] ep, folded t(2)]
    note sw = set_pte_walk [OF l(2, 3) u(2) t(1) ep, folded t(2)]
    note pt = pt_page [OF l(2, 3) user_no(1) [OF u(2)] t(1)]
    have ptp: "pt_of m1 pd (pd_no u) \<in> dir_pages m1 pd" using user_no(1) [OF u(2)] t(1) by (auto simp: dir_pages_def)
    have "isolated m1 (set_entry t e m1) pd"
      unfolding isolated_def t(2) using set_entry_other [OF l(2) pt(1) user_no(2)] ptp sp(2) [unfolded t(2)] by blast
    then have "isolated m (set_entry t e m1) pd" using l(5) isolated_trans by blast
    moreover have "pagedir_set_page pd u k w m = Some (True, set_entry t e m1)" using pre False np by (simp add: flag_bit)
    moreover have "pg_round_down u = u" using u(1) div_mult_mod_eq [of u PGSIZE] by (simp add: pg_round_down_def)
    ultimately show ?thesis using sp(1) l(2, 4) sw e(2, 3) by (intro exI [of _ True] exI) auto
  qed
qed

section \<open>Changing the flags of a page\<close>

text \<open>An entry that keeps its address; it may lose the present bit.\<close>

lemma change_flags:
  assumes mm: "mm_ok m" and d: "dir_ok m pd" and u: "u < PHYS_BASE" "pde m pd (pd_no u) \<noteq> 0"
    and e: "e AND PTE_ADDR = pte m pd (pd_no u) (pt_no u) AND PTE_ADDR" "bit e 0 \<longrightarrow> bit (pte m pd (pd_no u) (pt_no u)) 0"
  defines "m' \<equiv> set_entry (pt_of m pd (pd_no u) + 4 * pt_no u) e m"
  shows "mm_ok m'" "dir_ok m' pd" "isolated m m' pd" "pde m' pd (pd_no u) \<noteq> 0" "pte m' pd (pd_no u) (pt_no u) = e"
    "\<And>v. v < PHYS_BASE \<Longrightarrow> walk m' pd v = (if pg_round_down v = pg_round_down u \<and> \<not> bit e 0 then 0 else walk m pd v)"
proof -
  have i: "pd_no u < 768" using user_no(1) [OF u(1)] .
  have ep: "bit e 0 \<longrightarrow> unat (e AND PTE_ADDR) < PHYS_BASE"
    using d i u(2) e user_no(2) [of u] by (auto simp: dir_ok_def slot_ok_def)
  note sp = set_pte [OF mm d i u(2) user_no(2) [of u] ep, folded m'_def]
  note pt = pt_page [OF mm d i u(2)]
  show "mm_ok m'" using mm by (simp add: m'_def)
  show "dir_ok m' pd" by (rule sp(1))
  show "pde m' pd (pd_no u) \<noteq> 0" "pte m' pd (pd_no u) (pt_no u) = e" using sp(3, 4) i u(2) user_no(2) [of u] by simp_all
  have "pt_of m pd (pd_no u) \<in> dir_pages m pd" using i u(2) by (auto simp: dir_pages_def)
  then show "isolated m m' pd"
    unfolding isolated_def sp(2) using set_entry_other [OF mm pt(1) user_no(2)] by (fastforce simp: m'_def)
  show "walk m' pd v = (if pg_round_down v = pg_round_down u \<and> \<not> bit e 0 then 0 else walk m pd v)" if "v < PHYS_BASE" for v
    using set_pte_walk [OF mm d u ep that, folded m'_def] e u(2) by (auto simp: walk_def page_no)
qed

lemma invalidate_ok:
  assumes "cr3 m < PHYS_BASE" "PHYS_BASE \<le> pd"
  shows "\<exists>m'. invalidate_pagedir pd m = Some m' \<and> phys m' = phys m \<and> cr3 m' = cr3 m \<and> base_page_dir m' = base_page_dir m \<and> ram_pages m' = ram_pages m \<and>
    tlb m' = (if cr3 m + PHYS_BASE = pd then {} else tlb m)"
  using assms by (auto simp: invalidate_pagedir_def active_pd_def ptov_def pagedir_activate_def vtop_def is_kernel_vaddr_def)

lemma phys_only:
  assumes "phys m' = phys m"
  shows "mm_ok m' = mm_ok m" "dir_ok m' = dir_ok m" "dir_pages m' = dir_pages m" "walk m' = walk m" "pde m' = pde m" "pte m' = pte m"
proof -
  have g: "get_entry m' = get_entry m" using assms by (simp add: fun_eq_iff get_entry_def)
  then show p: "pde m' = pde m" by (simp add: fun_eq_iff pde_def)
  then have t: "pt_of m' = pt_of m" by (simp add: fun_eq_iff pt_of_def)
  then show q: "pte m' = pte m" by (simp add: fun_eq_iff pte_def g)
  show "mm_ok m' = mm_ok m" "dir_ok m' = dir_ok m" "dir_pages m' = dir_pages m" "walk m' = walk m"
    using assms by (simp_all add: fun_eq_iff mm_ok_def dir_ok_def slot_ok_def dir_pages_def walk_def p q t)
qed

lemma clear_page_ok:
  assumes mm: "mm_ok m" and d: "dir_ok m pd" and u: "u mod PGSIZE = 0" "u < PHYS_BASE" and c: "cr3 m < PHYS_BASE"
  shows "\<exists>m'. pagedir_clear_page pd u m = Some m' \<and> mm_ok m' \<and> dir_ok m' pd \<and> isolated m m' pd \<and>
    (\<forall>v < PHYS_BASE. walk m' pd v = (if pg_round_down v = u then 0 else walk m pd v)) \<and>
    cr3 m' = cr3 m \<and> base_page_dir m' = base_page_dir m \<and> ram_pages m' = ram_pages m \<and>
    tlb m' = (if walk m pd u \<noteq> 0 \<and> cr3 m + PHYS_BASE = pd then {} else tlb m)"
proof -
  let ?e = "pte m pd (pd_no u) (pt_no u)"
  have ru: "pg_round_down u = u" using u(1) div_mult_mod_eq [of u PGSIZE] by (simp add: pg_round_down_def)
  have pdb: "PHYS_BASE \<le> pd" using tab_page(2) [OF mm] d by (simp add: dir_ok_def)
  have same: "isolated m m pd" by (simp add: isolated_def)
  have pres: "walk m pd u \<noteq> 0 \<longleftrightarrow> pde m pd (pd_no u) \<noteq> 0 \<and> bit ?e 0" by (auto simp: walk_def)
  have wz: "pg_round_down v = u \<Longrightarrow> walk m pd u = 0 \<Longrightarrow> walk m pd v = 0" for v using ru page_no [of v u] by (auto simp: walk_def)
  show ?thesis
  proof (cases "walk m pd u = 0")
    case True
    then have "pagedir_clear_page pd u m = Some m"
      using lookup_existing(1) [OF mm d u(2)] u pres by (auto simp: pagedir_clear_page_def pg_ofs_def is_user_vaddr_def flag_bit pte_def)
    then show ?thesis using mm d same True wz by auto
  next
    case False
    then have p: "pde m pd (pd_no u) \<noteq> 0" "bit ?e 0" using pres by auto
    let ?m = "set_entry (pt_of m pd (pd_no u) + 4 * pt_no u) (?e AND NOT PTE_P) m"
    have e: "(?e AND NOT PTE_P) AND PTE_ADDR = ?e AND PTE_ADDR" "bit (?e AND NOT PTE_P) 0 \<longrightarrow> bit ?e 0" "\<not> bit (?e AND NOT PTE_P) 0"
      using addr_keep(2) [of PTE_P] by (auto simp: flag_bit bit_and_iff bit_not_iff)
    note cf = change_flags [OF mm d u(2) p(1) e(1, 2)]
    obtain m' where m': "invalidate_pagedir pd ?m = Some m'" "phys m' = phys ?m" "cr3 m' = cr3 ?m" "base_page_dir m' = base_page_dir ?m" "ram_pages m' = ram_pages ?m"
      "tlb m' = (if cr3 ?m + PHYS_BASE = pd then {} else tlb ?m)" using invalidate_ok [of ?m pd] c pdb by auto
    have "pagedir_clear_page pd u m = invalidate_pagedir pd ?m"
      using lookup_existing(1) [OF mm d u(2)] u p pt_page(3) [OF mm d user_no(1) [OF u(2)] p(1)]
      by (auto simp: pagedir_clear_page_def pg_ofs_def is_user_vaddr_def flag_bit pte_def pt_of_def)
    then show ?thesis using m' cf phys_only [OF m'(2)] e(3) False ru by (auto simp: isolated_def)
  qed
qed

lemma flag_ops:
  assumes mm: "mm_ok m" and d: "dir_ok m pd" and u: "u < PHYS_BASE" "walk m pd u \<noteq> 0" and c: "cr3 m < PHYS_BASE"
  shows "\<exists>m'. pagedir_set_dirty pd u b m = Some m' \<and> mm_ok m' \<and> dir_ok m' pd \<and> isolated m m' pd \<and>
      (\<forall>v < PHYS_BASE. walk m' pd v = walk m pd v) \<and> pagedir_is_dirty pd u m' = Some b \<and> pagedir_is_accessed pd u m' = pagedir_is_accessed pd u m" (is ?D)
    "\<exists>m'. pagedir_set_accessed pd u b m = Some m' \<and> mm_ok m' \<and> dir_ok m' pd \<and> isolated m m' pd \<and>
      (\<forall>v < PHYS_BASE. walk m' pd v = walk m pd v) \<and> pagedir_is_accessed pd u m' = Some b \<and> pagedir_is_dirty pd u m' = pagedir_is_dirty pd u m" (is ?A)
proof -
  let ?e = "pte m pd (pd_no u) (pt_no u)" and ?t = "pt_of m pd (pd_no u) + 4 * pt_no u"
  have p: "pde m pd (pd_no u) \<noteq> 0" "bit ?e 0" using u(2) by (auto simp: walk_def split: if_splits)
  have pdb: "PHYS_BASE \<le> pd" using tab_page(2) [OF mm] d by (simp add: dir_ok_def)
  have t0: "pt_of m' pd i \<noteq> 0" for m' i by (simp add: pt_of_def)
  have tst: "pagedir_is_dirty pd u m' = Some (bit (pte m' pd (pd_no u) (pt_no u)) 6)" "pagedir_is_accessed pd u m' = Some (bit (pte m' pd (pd_no u) (pt_no u)) 5)"
    if "mm_ok m'" "dir_ok m' pd" "pde m' pd (pd_no u) \<noteq> 0" for m'
    using lookup_existing(1) [OF that(1, 2) u(1)] that(3) t0 by (simp_all add: pagedir_is_dirty_def pagedir_is_accessed_def flag_bit pte_def)
  have upd: "\<exists>m'. (if b then Some (set_entry ?t (?e OR f) m) else invalidate_pagedir pd (set_entry ?t (?e AND NOT f) m)) = Some m' \<and> mm_ok m' \<and> dir_ok m' pd \<and>
      isolated m m' pd \<and> (\<forall>v < PHYS_BASE. walk m' pd v = walk m pd v) \<and> pde m' pd (pd_no u) \<noteq> 0 \<and>
      pte m' pd (pd_no u) (pt_no u) = (if b then ?e OR f else ?e AND NOT f)"
    if f: "\<forall>i. bit f i \<longrightarrow> i < 12 \<and> i \<noteq> 0" for f
  proof (cases b)
    case True
    have "(?e OR f) AND PTE_ADDR = ?e AND PTE_ADDR" using addr_keep(1) f by blast
    then show ?thesis using change_flags [OF mm d u(1) p(1), of "?e OR f"] p(2) True by (auto simp: bit_or_iff)
  next
    case False
    have a: "(?e AND NOT f) AND PTE_ADDR = ?e AND PTE_ADDR" using addr_keep(2) f by blast
    have b0: "bit (?e AND NOT f) 0" using f p(2) by (auto simp: bit_and_iff bit_not_iff)
    note cf = change_flags [OF mm d u(1) p(1) a]
    obtain m' where m': "invalidate_pagedir pd (set_entry ?t (?e AND NOT f) m) = Some m'" "phys m' = phys (set_entry ?t (?e AND NOT f) m)"
      using invalidate_ok [of "set_entry ?t (?e AND NOT f) m" pd] c pdb by auto
    then show ?thesis using cf p(2) phys_only [OF m'(2)] False b0 by (auto simp: isolated_def)
  qed
  have fb: "\<forall>i. bit PTE_D i \<longrightarrow> i < 12 \<and> i \<noteq> 0" "\<forall>i. bit PTE_A i \<longrightarrow> i < 12 \<and> i \<noteq> 0" by (simp_all add: flag_bit)
  have run: "pagedir_set_dirty pd u b m = (if b then Some (set_entry ?t (?e OR PTE_D) m) else invalidate_pagedir pd (set_entry ?t (?e AND NOT PTE_D) m))"
    "pagedir_set_accessed pd u b m = (if b then Some (set_entry ?t (?e OR PTE_A) m) else invalidate_pagedir pd (set_entry ?t (?e AND NOT PTE_A) m))"
    using lookup_existing(1) [OF mm d u(1)] p(1) t0 by (simp_all add: pagedir_set_dirty_def pagedir_set_accessed_def pte_def)
  obtain m1 where m1: "(if b then Some (set_entry ?t (?e OR PTE_D) m) else invalidate_pagedir pd (set_entry ?t (?e AND NOT PTE_D) m)) = Some m1"
    "mm_ok m1" "dir_ok m1 pd" "isolated m m1 pd" "\<forall>v < PHYS_BASE. walk m1 pd v = walk m pd v" "pde m1 pd (pd_no u) \<noteq> 0"
    "pte m1 pd (pd_no u) (pt_no u) = (if b then ?e OR PTE_D else ?e AND NOT PTE_D)" using upd [OF fb(1)] by blast
  then show ?D unfolding run(1) using tst [OF m1(2, 3, 6)] tst [OF mm d p(1)]
    by (intro exI [of _ m1]) (simp add: flag_bit bit_or_iff bit_and_iff bit_not_iff)
  obtain m2 where m2: "(if b then Some (set_entry ?t (?e OR PTE_A) m) else invalidate_pagedir pd (set_entry ?t (?e AND NOT PTE_A) m)) = Some m2"
    "mm_ok m2" "dir_ok m2 pd" "isolated m m2 pd" "\<forall>v < PHYS_BASE. walk m2 pd v = walk m pd v" "pde m2 pd (pd_no u) \<noteq> 0"
    "pte m2 pd (pd_no u) (pt_no u) = (if b then ?e OR PTE_A else ?e AND NOT PTE_A)" using upd [OF fb(2)] by blast
  then show ?A unfolding run(2) using tst [OF m2(2, 3, 6)] tst [OF mm d p(1)]
    by (intro exI [of _ m2]) (simp add: flag_bit bit_or_iff bit_and_iff bit_not_iff)
qed

section \<open>Address spaces\<close>

locale address_space =
  fixes good :: "'m \<Rightarrow> bool" and frame_ok :: "'m \<Rightarrow> nat \<Rightarrow> bool" and at :: "'m \<Rightarrow> nat \<Rightarrow> nat"
    and map_page :: "nat \<Rightarrow> nat \<Rightarrow> bool \<Rightarrow> 'm \<Rightarrow> (bool \<times> 'm) option" and unmap_page :: "nat \<Rightarrow> 'm \<Rightarrow> 'm option"
  assumes map_law: "good m \<Longrightarrow> u mod PGSIZE = 0 \<Longrightarrow> u < PHYS_BASE \<Longrightarrow> at m u = 0 \<Longrightarrow> frame_ok m k \<Longrightarrow>
      \<exists>ok m'. map_page u k w m = Some (ok, m') \<and> good m' \<and> (\<forall>v < PHYS_BASE. at m' v = (if ok \<and> pg_round_down v = u then k + pg_ofs v else at m v))"
    and unmap_law: "good m \<Longrightarrow> u mod PGSIZE = 0 \<Longrightarrow> u < PHYS_BASE \<Longrightarrow>
      \<exists>m'. unmap_page u m = Some m' \<and> good m' \<and> (\<forall>v < PHYS_BASE. at m' v = (if pg_round_down v = u then 0 else at m v))"
    and whole_page: "good m \<Longrightarrow> at m (pg_round_down v) = 0 \<Longrightarrow> at m v = 0"
begin

lemma map_unmap:
  assumes "good m" "u mod PGSIZE = 0" "u < PHYS_BASE" "at m u = 0" "frame_ok m k"
  shows "\<exists>ok m' m''. map_page u k w m = Some (ok, m') \<and> unmap_page u m' = Some m'' \<and> good m'' \<and>
    (ok \<longrightarrow> (\<forall>i < PGSIZE. u + i < PHYS_BASE \<longrightarrow> at m' (u + i) = k + i)) \<and> (\<forall>v < PHYS_BASE. at m'' v = at m v)"
proof -
  obtain ok m' where m': "map_page u k w m = Some (ok, m')" "good m'"
    "\<forall>v < PHYS_BASE. at m' v = (if ok \<and> pg_round_down v = u then k + pg_ofs v else at m v)" using map_law [OF assms] by blast
  obtain m'' where m'': "unmap_page u m' = Some m''" "good m''" "\<forall>v < PHYS_BASE. at m'' v = (if pg_round_down v = u then 0 else at m' v)"
    using unmap_law [OF m'(2) assms(2, 3)] by blast
  have "at m v = 0" if "pg_round_down v = u" for v using whole_page [OF assms(1)] that assms(4) by blast
  then have "at m'' v = at m v" if "v < PHYS_BASE" for v using m'(3) m''(3) that by auto
  moreover have "pg_round_down (u + i) = u \<and> pg_ofs (u + i) = i" if "i < PGSIZE" for i
    using assms(2) that by (auto simp: pg_round_down_def pg_ofs_def mod_eq_0_iff_dvd elim!: dvdE)
  ultimately show ?thesis using m' m'' by auto
qed

end

definition dir_state :: "nat \<Rightarrow> mmu \<Rightarrow> bool" where
  "dir_state pd m \<longleftrightarrow> mm_ok m \<and> dir_ok m pd \<and> pd \<noteq> base_page_dir m \<and> cr3 m < PHYS_BASE"

definition frame_ok :: "mmu \<Rightarrow> nat \<Rightarrow> bool" where
  "frame_ok m k \<longleftrightarrow> k mod PGSIZE = 0 \<and> PHYS_BASE \<le> k \<and> k < 2 ^ 32 \<and> (k - PHYS_BASE) div 2 ^ 12 < ram_pages m"

lemma set_page_keeps: "pagedir_set_page pd u k w m = Some (ok, m') \<Longrightarrow> cr3 m' = cr3 m \<and> base_page_dir m' = base_page_dir m"
  by (auto simp: pagedir_set_page_def Let_def bind_eq_Some_conv dest: lookup_keeps split: if_splits)

lemma walk_page: "walk m pd (pg_round_down v) = 0 \<Longrightarrow> walk m pd v = 0"
  using page_no [of "pg_round_down v" v] by (auto simp: walk_def pg_round_down_def split: if_splits)

interpretation pdm: address_space "dir_state pd" frame_ok "\<lambda>m. walk m pd" "pagedir_set_page pd" "pagedir_clear_page pd" for pd :: nat
proof unfold_locales
  fix m u k w
  assume "dir_state pd m" "u mod PGSIZE = 0" "u < PHYS_BASE" "walk m pd u = 0" "frame_ok m k"
  then show "\<exists>ok m'. pagedir_set_page pd u k w m = Some (ok, m') \<and> dir_state pd m' \<and>
      (\<forall>v < PHYS_BASE. walk m' pd v = (if ok \<and> pg_round_down v = u then k + pg_ofs v else walk m pd v))"
    using set_page_ok [of m pd u k w] set_page_keeps unfolding dir_state_def frame_ok_def by metis
next
  fix m u
  assume "dir_state pd m" "u mod PGSIZE = 0" "u < PHYS_BASE"
  then show "\<exists>m'. pagedir_clear_page pd u m = Some m' \<and> dir_state pd m' \<and> (\<forall>v < PHYS_BASE. walk m' pd v = (if pg_round_down v = u then 0 else walk m pd v))"
    using clear_page_ok [of m pd u] unfolding dir_state_def by metis
next
  fix m v
  assume "walk m pd (pg_round_down v) = 0"
  then show "walk m pd v = 0" by (rule walk_page)
qed

lemma invalidate_cr3: "invalidate_pagedir pd m = Some m' \<Longrightarrow> cr3 m' < PHYS_BASE"
  by (auto simp: invalidate_pagedir_def active_pd_def ptov_def pagedir_activate_def vtop_def bind_eq_Some_conv split: if_splits)

lemma set_dirty_cr3:
  assumes "pagedir_set_dirty pd u b m = Some m'" "cr3 m < PHYS_BASE"
  shows "cr3 m' < PHYS_BASE"
  using assms invalidate_cr3 lookup_keeps by (fastforce simp: pagedir_set_dirty_def bind_eq_Some_conv split: if_splits)

section \<open>Properties\<close>

definition demo_mmu :: mmu where
  "demo_mmu = \<lparr>phys = \<lparr>kernel_pool = \<lparr>used_map = \<lparr>bit_cnt = 4, bits = [1]\<rparr>, base = 0xc0100000\<rparr>,
     user_pool = \<lparr>used_map = \<lparr>bit_cnt = 0, bits = []\<rparr>, base = 0xc0200000\<rparr>, ram = (\<lambda>_. 0)\<rparr>,
     cr3 = 0x100000, tlb = {0x8048000}, base_page_dir = 0xc0001000, ram_pages = 1024\<rparr>"

lemma demo_mmu: "dir_state 0xc0100000 demo_mmu" "frame_ok demo_mmu 0xc0200000" "walk demo_mmu 0xc0100000 v = 0"
proof -
  have "bitmap_used \<lparr>bit_cnt = 4, bits = [1]\<rparr> = {0}" by (auto simp: bitmap_used_def bools_def bit_at_def bit_1_iff)
  then have t: "tabs demo_mmu = {0xc0100000}" by (simp add: used_pages_def demo_mmu_def)
  have p: "pde demo_mmu 0xc0100000 i = 0" for i by (simp add: pde_def get_entry_def rd32_def demo_mmu_def)
  then have "dir_ok demo_mmu 0xc0100000" by (simp add: dir_ok_def slot_ok_def t)
  moreover have "mm_ok demo_mmu" by (simp add: mm_ok_def demo_mmu_def pool_ok_def bitmap_ok_def)
  ultimately show "dir_state 0xc0100000 demo_mmu" by (simp add: dir_state_def demo_mmu_def)
  show "frame_ok demo_mmu 0xc0200000" by (simp add: frame_ok_def demo_mmu_def)
  show "walk demo_mmu 0xc0100000 v = 0" by (simp add: walk_def p)
qed

text \<open>C21. \<open>install_page\<close> on a well-formed directory never stops the kernel. It maps the page to the frame, and every
  address of the page to its byte of the frame, or it reports failure; it fails for a page that
  is mapped. Every other page keeps its mapping, in this directory and in every directory
  that shares no table with it, also when a page table had to be allocated.\<close>

theorem install_page_maps:
  assumes d: "dir_state pd m" and u: "u mod PGSIZE = 0" "u < PHYS_BASE" and k: "frame_ok m k"
  shows "\<exists>ok m'. install_page pd u k w m = Some (ok, m') \<and> dir_state pd m' \<and> (ok \<longrightarrow> pagedir_get_page pd u m = Some 0) \<and>
    (\<forall>v < PHYS_BASE. pagedir_get_page pd v m' = (if ok \<and> pg_round_down v = u then Some (k + pg_ofs v) else pagedir_get_page pd v m)) \<and>
    (\<forall>pd' v. dir_ok m pd' \<longrightarrow> dir_pages m pd' \<inter> dir_pages m pd = {} \<longrightarrow> v < PHYS_BASE \<longrightarrow> pagedir_get_page pd' v m' = pagedir_get_page pd' v m)"
proof -
  have mm: "mm_ok m" "dir_ok m pd" "pd \<noteq> base_page_dir m" using d by (simp_all add: dir_state_def)
  note g = get_page_walk [OF mm(1)]
  show ?thesis
  proof (cases "walk m pd u = 0")
    case False
    then show ?thesis using g [OF mm(2) u(2)] d by (intro exI [of _ False] exI [of _ m]) (simp add: install_page_def)
  next
    case True
    have f: "k mod PGSIZE = 0" "PHYS_BASE \<le> k" "k < 2 ^ 32" "(k - PHYS_BASE) div 2 ^ 12 < ram_pages m" using k by (simp_all add: frame_ok_def)
    obtain ok m' where m': "pagedir_set_page pd u k w m = Some (ok, m')" "mm_ok m'" "dir_ok m' pd" "isolated m m' pd"
      "\<forall>v < PHYS_BASE. walk m' pd v = (if ok \<and> pg_round_down v = u then k + pg_ofs v else walk m pd v)"
      using set_page_ok [OF mm u True f] by blast
    have "dir_state pd m'" using m' d set_page_keeps [OF m'(1)] by (simp add: dir_state_def)
    moreover have "install_page pd u k w m = Some (ok, m')" using g [OF mm(2) u(2)] True m'(1) by (simp add: install_page_def)
    ultimately show ?thesis using g m' get_page_walk [OF m'(2)] mm(2) u(2) True
      by (intro exI [of _ ok] exI [of _ m']) (simp add: isolated_def)
  qed
qed

theorem install_page_maps_witness:
  "\<exists>ok m'. install_page 0xc0100000 0x8048000 0xc0200000 True demo_mmu = Some (ok, m') \<and> (ok \<longrightarrow> pagedir_get_page 0xc0100000 0x8048010 m' = Some 0xc0200010)"
proof -
  obtain ok m' where "install_page 0xc0100000 0x8048000 0xc0200000 True demo_mmu = Some (ok, m')"
    "\<forall>v < PHYS_BASE. pagedir_get_page 0xc0100000 v m' =
       (if ok \<and> pg_round_down v = 0x8048000 then Some (0xc0200000 + pg_ofs v) else pagedir_get_page 0xc0100000 v demo_mmu)"
    using install_page_maps [OF demo_mmu(1) _ _ demo_mmu(2), of "0x8048000" True] by auto
  then show ?thesis by (simp add: pg_round_down_def pg_ofs_def)
qed

text \<open>C22. \<open>pagedir_clear_page\<close> undoes \<open>pagedir_set_page\<close>: after the two calls every user address is mapped as
  before, and when the page was mapped in the active directory no translation is left in
  the translation lookaside buffer.\<close>

theorem map_unmap_roundtrip:
  assumes d: "dir_state pd m" and u: "u mod PGSIZE = 0" "u < PHYS_BASE" "pagedir_get_page pd u m = Some 0" and k: "frame_ok m k"
  shows "\<exists>ok m' m''. pagedir_set_page pd u k w m = Some (ok, m') \<and> pagedir_clear_page pd u m' = Some m'' \<and> dir_state pd m'' \<and>
    (ok \<longrightarrow> (\<forall>i < PGSIZE. u + i < PHYS_BASE \<longrightarrow> pagedir_get_page pd (u + i) m' = Some (k + i))) \<and>
    (\<forall>v < PHYS_BASE. pagedir_get_page pd v m'' = pagedir_get_page pd v m) \<and> (ok \<and> active_pd m = Some pd \<longrightarrow> tlb m'' = {})"
proof -
  have mm: "mm_ok m" "dir_ok m pd" using d by (simp_all add: dir_state_def)
  have z: "walk m pd u = 0" using get_page_walk [OF mm u(2)] u(3) by simp
  obtain ok m' m'' where r: "pagedir_set_page pd u k w m = Some (ok, m')" "pagedir_clear_page pd u m' = Some m''" "dir_state pd m''"
    "ok \<longrightarrow> (\<forall>i < PGSIZE. u + i < PHYS_BASE \<longrightarrow> walk m' pd (u + i) = k + i)" "\<forall>v < PHYS_BASE. walk m'' pd v = walk m pd v"
    using pdm.map_unmap [OF d u(1, 2) z k] by blast
  have m': "dir_state pd m'" using pdm.map_law [OF d u(1, 2) z k, of w] r(1) by auto
  then have mm': "mm_ok m'" "dir_ok m' pd" "cr3 m' < PHYS_BASE" by (simp_all add: dir_state_def)
  have mm'': "mm_ok m''" "dir_ok m'' pd" using r(3) by (simp_all add: dir_state_def)
  have "tlb m'' = {}" if "ok" "active_pd m = Some pd"
  proof -
    have "walk m' pd u = k" "0 < k" using r(4) that(1) u(2) k by (auto simp: frame_ok_def dest: spec [of _ 0])
    moreover have "cr3 m' + PHYS_BASE = pd" using that(2) set_page_keeps [OF r(1)] d by (simp add: active_pd_def ptov_def dir_state_def)
    ultimately show ?thesis using clear_page_ok [OF mm'(1, 2) u(1, 2) mm'(3)] r(2) by auto
  qed
  then show ?thesis using r get_page_walk [OF mm] get_page_walk [OF mm'(1, 2)] get_page_walk [OF mm'']
    by (intro exI [of _ ok] exI [of _ m'] exI [of _ m'']) simp
qed

theorem map_unmap_roundtrip_witness:
  "\<exists>ok m' m''. pagedir_set_page 0xc0100000 0x8048000 0xc0200000 False demo_mmu = Some (ok, m') \<and> pagedir_clear_page 0xc0100000 0x8048000 m' = Some m'' \<and>
    (ok \<longrightarrow> pagedir_get_page 0xc0100000 0x8048000 m' = Some 0xc0200000 \<and> tlb m'' = {})"
proof -
  have g: "pagedir_get_page 0xc0100000 0x8048000 demo_mmu = Some 0"
    using get_page_walk [of demo_mmu "0xc0100000" "0x8048000"] demo_mmu by (simp add: dir_state_def)
  have a: "active_pd demo_mmu = Some 0xc0100000" by (simp add: active_pd_def ptov_def demo_mmu_def)
  obtain ok m' m'' where "pagedir_set_page 0xc0100000 0x8048000 0xc0200000 False demo_mmu = Some (ok, m')" "pagedir_clear_page 0xc0100000 0x8048000 m' = Some m''"
    "ok \<longrightarrow> (\<forall>i < PGSIZE. 0x8048000 + i < PHYS_BASE \<longrightarrow> pagedir_get_page 0xc0100000 (0x8048000 + i) m' = Some (0xc0200000 + i))" "ok \<longrightarrow> tlb m'' = {}"
    using map_unmap_roundtrip [OF demo_mmu(1) _ _ g demo_mmu(2), of False] a by auto
  then show ?thesis by (auto dest: spec [of _ 0])
qed

text \<open>The dirty and accessed bits of a mapped page read back as they were set, independently of each
  other, and setting or clearing them changes no mapping of this or another directory.\<close>

theorem dirty_accessed_bits:
  assumes d: "dir_state pd m" and u: "u < PHYS_BASE" "pagedir_get_page pd u m \<noteq> Some 0"
  shows "\<exists>m'. pagedir_set_dirty pd u b m = Some m' \<and> dir_ok m' pd \<and> pagedir_is_dirty pd u m' = Some b \<and>
    pagedir_is_accessed pd u m' = pagedir_is_accessed pd u m \<and> (\<forall>v < PHYS_BASE. pagedir_get_page pd v m' = pagedir_get_page pd v m) \<and>
    (\<exists>m''. pagedir_set_accessed pd u c m' = Some m'' \<and> pagedir_is_accessed pd u m'' = Some c \<and> pagedir_is_dirty pd u m'' = Some b \<and>
      (\<forall>v < PHYS_BASE. pagedir_get_page pd v m'' = pagedir_get_page pd v m) \<and>
      (\<forall>pd' v. dir_ok m pd' \<longrightarrow> dir_pages m pd' \<inter> dir_pages m pd = {} \<longrightarrow> v < PHYS_BASE \<longrightarrow> pagedir_get_page pd' v m'' = pagedir_get_page pd' v m))"
proof -
  have mm: "mm_ok m" "dir_ok m pd" "cr3 m < PHYS_BASE" using d by (simp_all add: dir_state_def)
  have w: "walk m pd u \<noteq> 0" using get_page_walk [OF mm(1, 2) u(1)] u(2) by simp
  obtain m' where m': "pagedir_set_dirty pd u b m = Some m'" "mm_ok m'" "dir_ok m' pd" "isolated m m' pd" "\<forall>v < PHYS_BASE. walk m' pd v = walk m pd v"
    "pagedir_is_dirty pd u m' = Some b" "pagedir_is_accessed pd u m' = pagedir_is_accessed pd u m" using flag_ops(1) [OF mm(1, 2) u(1) w mm(3)] by blast
  have c': "cr3 m' < PHYS_BASE" by (rule set_dirty_cr3 [OF m'(1) mm(3)])
  have w': "walk m' pd u \<noteq> 0" using w m'(5) u(1) by simp
  obtain m'' where m'': "pagedir_set_accessed pd u c m' = Some m''" "mm_ok m''" "dir_ok m'' pd" "isolated m' m'' pd" "\<forall>v < PHYS_BASE. walk m'' pd v = walk m' pd v"
    "pagedir_is_accessed pd u m'' = Some c" "pagedir_is_dirty pd u m'' = pagedir_is_dirty pd u m'" using flag_ops(2) [OF m'(2, 3) u(1) w' c'] by blast
  have "isolated m m'' pd" using isolated_trans m'(4) m''(4) by blast
  then show ?thesis using m' m'' get_page_walk [OF mm(1)] get_page_walk [OF m'(2)] get_page_walk [OF m''(2)] mm(2)
    by (intro exI [of _ m'] conjI exI [of _ m'']) (simp_all add: isolated_def)
qed

definition demo_mapped :: mmu where
  "demo_mapped = set_entry (0xc0101000 + 4 * 72) 0x200007 (set_entry (0xc0100000 + 4 * 32) 0x101007
     (demo_mmu\<lparr>phys := (phys demo_mmu)\<lparr>kernel_pool := \<lparr>used_map = \<lparr>bit_cnt = 4, bits = [3]\<rparr>, base = 0xc0100000\<rparr>\<rparr>\<rparr>))"

lemma demo_mapped: "dir_state 0xc0100000 demo_mapped" "walk demo_mapped 0xc0100000 0x8048000 = 0xc0200000"
proof -
  let ?m = "demo_mmu\<lparr>phys := (phys demo_mmu)\<lparr>kernel_pool := \<lparr>used_map = \<lparr>bit_cnt = 4, bits = [3]\<rparr>, base = 0xc0100000\<rparr>\<rparr>\<rparr>"
  have three: "(3 :: 32 word) = mask 2" by (simp add: mask_eq_exp_minus_1)
  have "bit (3 :: 32 word) i \<longleftrightarrow> i = 0 \<or> i = 1" for i unfolding three bit_mask_iff by auto
  moreover have "bools \<lparr>bit_cnt = 4, bits = [3]\<rparr> ! i = bit (3 :: 32 word) i" if "i < 4" for i
    using that by (simp add: bit_at_def)
  ultimately have "i < 4 \<and> bools \<lparr>bit_cnt = 4, bits = [3]\<rparr> ! i \<longleftrightarrow> i = 0 \<or> i = 1" for i
    by (cases "i < 4") (blast, linarith)
  then have "bitmap_used \<lparr>bit_cnt = 4, bits = [3]\<rparr> = {0, 1}" by (simp add: bitmap_used_def set_eq_iff)
  then have "tabs ?m = {0xc0100000, 0xc0101000}" by (simp add: used_pages_def demo_mmu_def)
  then have t: "tabs demo_mapped = {0xc0100000, 0xc0101000}" by (simp add: demo_mapped_def)
  have z: "get_entry ?m a = 0" for a by (simp add: get_entry_def rd32_def demo_mmu_def)
  have e: "get_entry demo_mapped (s + 4 * k) = (if s = 0xc0101000 \<and> k = 72 then 0x200007 else if s = 0xc0100000 \<and> k = 32 then 0x101007 else 0)"
    if "s mod PGSIZE = 0" "k < 1024" for s k
    using entry_set [of "0xc0101000" 72 s k "0x200007" "set_entry (0xc0100000 + 4 * 32) 0x101007 ?m"]
      entry_set [of "0xc0100000" 32 s k "0x101007" ?m] z [of "s + 4 * k"] that unfolding demo_mapped_def by auto
  have p: "pde demo_mapped 0xc0100000 i = (if i = 32 then 0x101007 else 0)" if "i < 768" for i
    using e [of "0xc0100000" i] that by (simp add: pde_def)
  have pt: "pt_of demo_mapped 0xc0100000 32 = 0xc0101000" by (simp add: pt_of_def p PTE_ADDR_def)
  have q: "pte demo_mapped 0xc0100000 32 j = (if j = 72 then 0x200007 else 0)" if "j < 1024" for j
    using e [of "0xc0101000" j] that by (simp add: pte_def pt)
  have b: "bit (0x101007 :: 32 word) 0" "bit (0x200007 :: 32 word) 0" by simp_all
  have "slot_ok demo_mapped 0xc0100000 i" if "i < 768" for i
    using that p q b by (auto simp: slot_ok_def t pt PTE_ADDR_def)
  then have "dir_ok demo_mapped 0xc0100000" using p by (simp add: dir_ok_def t)
  moreover have "mm_ok ?m" by (simp add: mm_ok_def demo_mmu_def pool_ok_def bitmap_ok_def)
  then have "mm_ok demo_mapped" by (simp add: demo_mapped_def)
  ultimately show "dir_state 0xc0100000 demo_mapped" by (simp add: dir_state_def demo_mapped_def demo_mmu_def)
  show "walk demo_mapped 0xc0100000 0x8048000 = 0xc0200000"
    using p q b by (simp add: walk_def pd_no_def pt_no_def pg_ofs_def PTE_ADDR_def)
qed

theorem dirty_accessed_bits_witness:
  "\<exists>m'. pagedir_set_dirty 0xc0100000 0x8048000 True demo_mapped = Some m' \<and> pagedir_is_dirty 0xc0100000 0x8048000 m' = Some True"
proof -
  have "pagedir_get_page 0xc0100000 0x8048000 demo_mapped \<noteq> Some 0"
    using get_page_walk [of demo_mapped "0xc0100000" "0x8048000"] demo_mapped by (simp add: dir_state_def)
  then show ?thesis using dirty_accessed_bits [OF demo_mapped(1), of "0x8048000" True False] by auto
qed

end
