(* ===== verification/Swap.thy ===== *)
theory Swap
  imports Pagedir_Props Sup_Page File
begin

text \<open>
  The frame table, swapping and the page fault handler (\<open>vm/frame.c\<close>, \<open>vm/swap.c\<close>, \<open>userprog/exception.c\<close>). The supplementary page
  table of a thread is the finite map that the hash table is proved to be; a pointer to one of
  its entries is the thread and the address, and \<open>None\<close> a pointer to something else. The two locks are
  flags that say whether the current thread holds them. Memory that the kernel reads through a user
  address must be mapped: the fault would be handled with the swap lock held, and that stops the kernel.
\<close>

section \<open>State\<close>

type_synonym spte_ref = "nat \<times> 32 word"

record frame_table_entry =
  frame :: nat
  owner :: nat
  fte_spte :: "spte_ref option"
  fte_mmapped :: bool

record vm =
  vm_mmu :: mmu
  swap_device :: disk
  swap_table :: bitmap
  swap_lock :: bool
  filesys_lock :: bool
  frame_table :: "frame_table_entry list"
  spt :: "spte_ref \<Rightarrow> sup_page_table_entry option"
  pagedir :: "nat \<Rightarrow> nat"
  current :: nat
  vm_fs :: filesys
  vm_files :: "32 word \<Rightarrow> open_file option"

abbreviation vm_ram :: "vm \<Rightarrow> nat \<Rightarrow> byte" where
  "vm_ram v \<equiv> ram (phys (vm_mmu v))"

definition set_ram :: "(nat \<Rightarrow> byte) \<Rightarrow> vm \<Rightarrow> vm" where
  "set_ram r v = v\<lparr>vm_mmu := (vm_mmu v)\<lparr>phys := (phys (vm_mmu v))\<lparr>ram := r\<rparr>\<rparr>\<rparr>"

definition set_spte :: "spte_ref \<Rightarrow> sup_page_table_entry \<Rightarrow> vm \<Rightarrow> vm" where
  "set_spte k e v = v\<lparr>spt := (spt v)(k \<mapsto> e)\<rparr>"

definition put_bytes :: "nat \<Rightarrow> byte list \<Rightarrow> (nat \<Rightarrow> byte) \<Rightarrow> nat \<Rightarrow> byte" where
  "put_bytes a bs r = (\<lambda>x. if a \<le> x \<and> x < a + length bs then bs ! (x - a) else r x)"

definition get_bytes :: "(nat \<Rightarrow> byte) \<Rightarrow> nat \<Rightarrow> nat \<Rightarrow> byte list" where
  "get_bytes r a n = map r [a..<a + n]"

text \<open>A table for which there is no memory faults at its first use.\<close>

definition swap_init :: "bool \<Rightarrow> elem_type list option \<Rightarrow> vm \<Rightarrow> vm option" where
  "swap_init mem_ok blk v = do {
     b \<leftarrow> bitmap_create mem_ok blk 8192;
     b \<leftarrow> b;
     Some (v\<lparr>swap_table := b, swap_lock := False\<rparr>)
   }"

definition frame_init :: "vm \<Rightarrow> vm" where
  "frame_init v = v\<lparr>frame_table := []\<rparr>"

text \<open>\<open>mem_ok\<close> says whether \<open>malloc\<close> succeeds; a null pointer is written through.\<close>

definition allocate_frame :: "bool \<Rightarrow> nat \<Rightarrow> spte_ref option \<Rightarrow> vm \<Rightarrow> vm option" where
  "allocate_frame mem_ok frame_addr ref v = do {
     ASSERT mem_ok;
     Some (v\<lparr>frame_table := frame_table v @ [\<lparr>frame = frame_addr, owner = current v, fte_spte = ref, fte_mmapped = False\<rparr>]\<rparr>)
   }"

section \<open>The swap device\<close>

fun read_sectors :: "nat list \<Rightarrow> nat \<Rightarrow> 32 word \<Rightarrow> disk \<Rightarrow> (nat \<Rightarrow> byte) \<Rightarrow> (nat \<Rightarrow> byte) option" where
  "read_sectors [] a idx d r = Some r"
| "read_sectors (i # is') a idx d r = do {
     bs \<leftarrow> disk_read d (idx + of_nat i);
     read_sectors is' a idx d (put_bytes (a + 512 * i) bs r)
   }"

fun write_sectors :: "nat list \<Rightarrow> nat \<Rightarrow> 32 word \<Rightarrow> (nat \<Rightarrow> byte) \<Rightarrow> disk \<Rightarrow> disk option" where
  "write_sectors [] a idx r d = Some d"
| "write_sectors (i # is') a idx r d = do {
     d \<leftarrow> disk_write d (idx + of_nat i) (get_bytes r (a + 512 * i) 512);
     write_sectors is' a idx r d
   }"

definition read_from_disk :: "nat \<Rightarrow> 32 word \<Rightarrow> vm \<Rightarrow> vm option" where
  "read_from_disk a index v = do {
     r \<leftarrow> read_sectors [0..<8] a index (swap_device v) (vm_ram v);
     Some (set_ram r v)
   }"

definition write_to_disk :: "nat \<Rightarrow> 32 word \<Rightarrow> vm \<Rightarrow> vm option" where
  "write_to_disk a index v = do {
     d \<leftarrow> write_sectors [0..<8] a index (vm_ram v) (swap_device v);
     Some (v\<lparr>swap_device := d\<rparr>)
   }"

section \<open>Eviction\<close>

text \<open>The bytes at a user address, through the page directory of the current thread.\<close>

fun read_user :: "nat \<Rightarrow> nat \<Rightarrow> vm \<Rightarrow> byte list option" where
  "read_user a 0 v = Some []"
| "read_user a (Suc n) v = do {
     k \<leftarrow> pagedir_get_page (pagedir v (current v)) a (vm_mmu v);
     ASSERT (k \<noteq> 0);
     bs \<leftarrow> read_user (a + 1) n v;
     Some (vm_ram v k # bs)
   }"

text \<open>Writing a modified page of a mapped file back.\<close>

definition write_back :: "bool \<Rightarrow> sup_page_table_entry \<Rightarrow> vm \<Rightarrow> vm option" where
  "write_back mem_ok e v = do {
     ASSERT (\<not> filesys_lock v);
     f \<leftarrow> vm_files v (file_ptr e);
     bs \<leftarrow> read_user (unat (user_vaddr e)) (unat (page_read_bytes e)) v;
     (_, fs) \<leftarrow> file_write_at mem_ok f bs (sint (page_read_bytes e)) (sint (file_ofs e)) (vm_fs v);
     Some (v\<lparr>vm_fs := fs\<rparr>)
   }"

definition swap_out :: "bool \<Rightarrow> vm \<Rightarrow> (bool \<times> vm) option" where
  "swap_out mem_ok v = do {
     ASSERT (\<not> swap_lock v);
     let v = v\<lparr>swap_lock := True\<rparr>;
     case frame_table v of
       [] \<Rightarrow> None
     | fte # fts \<Rightarrow> do {
         let v = v\<lparr>frame_table := fts\<rparr>;
         ref \<leftarrow> fte_spte fte;
         e \<leftarrow> spt v ref;
         let e = e\<lparr>swapped := True\<rparr>;
         let v = set_spte ref e v;
         m \<leftarrow> pagedir_clear_page (pagedir v (current v)) (unat (user_vaddr e)) (vm_mmu v);
         let v = v\<lparr>vm_mmu := m\<rparr>;
         v \<leftarrow>
           (if mmapped e then (if spte_dirty e then write_back mem_ok e v else Some v)
            else if \<not> load_executable e \<or> spte_writable e then do {
              starting_idx \<leftarrow> bitmap_scan (swap_table v) 0 8 False;
              v \<leftarrow> write_to_disk (frame fte) (of_nat starting_idx) v;
              b \<leftarrow> bitmap_set_multiple (swap_table v) starting_idx 8 True;
              Some (set_spte ref (e\<lparr>disk_sector_idx := of_nat starting_idx\<rparr>) (v\<lparr>swap_table := b\<rparr>))
            } else Some v);
         p \<leftarrow> palloc_free_page (frame fte) (phys (vm_mmu v));
         Some (True, v\<lparr>vm_mmu := (vm_mmu v)\<lparr>phys := p\<rparr>, swap_lock := False\<rparr>)
       }
   }"

section \<open>Bringing a page in\<close>

text \<open>Reading a page from its file and clearing the rest of the frame; the result has the number of bytes read.\<close>

definition read_page :: "bool \<Rightarrow> sup_page_table_entry \<Rightarrow> nat \<Rightarrow> vm \<Rightarrow> (int \<times> vm) option" where
  "read_page mem_ok e kpage v = do {
     f \<leftarrow> vm_files v (file_ptr e);
     bs \<leftarrow> file_read_at mem_ok f (sint (page_read_bytes e)) (sint (file_ofs e)) (vm_fs v);
     Some (int (length bs), set_ram (put_bytes kpage bs (vm_ram v)) v)
   }"

definition clear_rest :: "sup_page_table_entry \<Rightarrow> nat \<Rightarrow> vm \<Rightarrow> vm" where
  "clear_rest e kpage v = set_ram (fill (kpage + unat (page_read_bytes e)) 0 (unat (4096 - page_read_bytes e)) (vm_ram v)) v"

definition swap_in :: "bool \<Rightarrow> 32 word \<Rightarrow> nat \<Rightarrow> vm \<Rightarrow> (bool \<times> vm) option" where
  "swap_in mem_ok vaddr kpage v = do {
     ASSERT (\<not> swap_lock v);
     let v = v\<lparr>swap_lock := True\<rparr>;
     let ref = (current v, vaddr);
     e \<leftarrow> spt v ref;
     if \<not> swapped e then Some (False, v)
     else do {
       v \<leftarrow> allocate_frame mem_ok kpage (Some ref) v;
       let e = e\<lparr>swapped := False\<rparr>;
       let v = set_spte ref e v;
       v \<leftarrow>
         (if mmapped e then do { (_, v) \<leftarrow> read_page mem_ok e kpage v; Some (clear_rest e kpage v) }
          else if \<not> load_executable e \<or> spte_writable e then do {
            v \<leftarrow> read_from_disk kpage (disk_sector_idx e) v;
            b \<leftarrow> bitmap_set_multiple (swap_table v) (unat (disk_sector_idx e)) 8 False;
            Some (v\<lparr>swap_table := b\<rparr>)
          } else do { (_, v) \<leftarrow> read_page mem_ok e kpage v; Some (clear_rest e kpage v) });
       Some (True, v\<lparr>swap_lock := False\<rparr>)
     }
   }"

section \<open>The page fault handler\<close>

text \<open>Getting a user page, evicting others until there is one.\<close>

partial_function (option) get_frame :: "bool \<Rightarrow> vm \<Rightarrow> (nat \<times> vm) option" where
  "get_frame mem_ok v = do {
     (kpage, p) \<leftarrow> palloc_get_page {PAL_USER} (phys (vm_mmu v));
     let v = v\<lparr>vm_mmu := (vm_mmu v)\<lparr>phys := p\<rparr>\<rparr>;
     if kpage = 0 then do { (_, v) \<leftarrow> swap_out mem_ok v; get_frame mem_ok v } else Some (kpage, v)
   }"

text \<open>The instruction is restarted, or the process exits with status -1.\<close>

datatype fault_end = Restart vm | Exit

definition check_userptr_pf :: "nat \<Rightarrow> bool" where
  "check_userptr_pf p \<longleftrightarrow> p \<noteq> 0 \<and> is_user_vaddr p"

definition install_current :: "nat \<Rightarrow> nat \<Rightarrow> bool \<Rightarrow> vm \<Rightarrow> (bool \<times> vm) option" where
  "install_current a kpage writable v = do {
     (ok, m) \<leftarrow> install_fault_page (pagedir v (current v)) a kpage writable (vm_mmu v);
     Some (ok, v\<lparr>vm_mmu := m\<rparr>)
   }"

text \<open>The page has an entry \<open>e\<close>: it is read from its file or from the swap device, and marked when the access writes.\<close>

definition fault_load :: "bool \<Rightarrow> spte_ref \<Rightarrow> nat \<Rightarrow> sup_page_table_entry \<Rightarrow> vm \<Rightarrow> vm option" where
  "fault_load mem_ok ref kpage e v = do {
     (n, v) \<leftarrow> read_page mem_ok e kpage v;
     v \<leftarrow> (if n \<noteq> sint (page_read_bytes e) then do {
              p \<leftarrow> palloc_free_page kpage (phys (vm_mmu v));
              Some (v\<lparr>vm_mmu := (vm_mmu v)\<lparr>phys := p\<rparr>\<rparr>)
            } else Some v);
     let v = clear_rest e kpage v;
     (_, v) \<leftarrow> install_current (unat (snd ref)) kpage (spte_writable e) v;
     v \<leftarrow> allocate_frame mem_ok kpage (Some ref) v;
     Some (set_spte ref (e\<lparr>loaded := True\<rparr>) v)
   }"

definition fault_swapped :: "bool \<Rightarrow> spte_ref \<Rightarrow> nat \<Rightarrow> vm \<Rightarrow> vm option" where
  "fault_swapped mem_ok ref kpage v = do {
     (_, v) \<leftarrow> swap_in mem_ok (snd ref) kpage v;
     e \<leftarrow> spt v ref;
     (_, v) \<leftarrow> install_current (unat (snd ref)) kpage (spte_writable e) v;
     Some (set_spte ref (e\<lparr>loaded := True\<rparr>) v)
   }"

definition fault_mark :: "spte_ref \<Rightarrow> vm \<Rightarrow> vm option" where
  "fault_mark ref v = do {
     m \<leftarrow> pagedir_set_dirty (pagedir v (current v)) (unat (snd ref)) True (vm_mmu v);
     e \<leftarrow> spt v ref;
     Some (set_spte ref (e\<lparr>spte_dirty := True\<rparr>) (v\<lparr>vm_mmu := m\<rparr>))
   }"

definition fault_known :: "bool \<Rightarrow> bool \<Rightarrow> 32 word \<Rightarrow> sup_page_table_entry \<Rightarrow> vm \<Rightarrow> fault_end option" where
  "fault_known mem_ok write a e v =
     (let ref = (current v, a) in
      if write \<and> \<not> spte_writable e then Some Exit
      else if mmapped e \<and> mid e = 0 then Some Exit
      else do {
        (kpage, v) \<leftarrow> get_frame mem_ok v;
        e \<leftarrow> spt v ref;
        v \<leftarrow> (if \<not> swapped e then fault_load mem_ok ref kpage e v else fault_swapped mem_ok ref kpage v);
        v \<leftarrow> (if write then fault_mark ref v else Some v);
        Some (Restart v)
      })"

text \<open>The page has none: the stack grows when the address is not more than 32 bytes below the stack
  pointer. \<open>blank\<close> is the block that \<open>malloc\<close> returns for the new entry; \<open>allocate_page\<close> returns the address of its own
  local variable, not that of the entry.\<close>

definition fault_unknown :: "bool \<Rightarrow> sup_page_table_entry \<Rightarrow> 32 word \<Rightarrow> nat \<Rightarrow> 32 word \<Rightarrow> vm \<Rightarrow> fault_end option" where
  "fault_unknown mem_ok blank esp fault_addr a v =
     (if esp - 32 \<le> of_nat fault_addr then do {
        (new_frame, v) \<leftarrow> get_frame mem_ok v;
        (ok, v) \<leftarrow> install_current (unat a) new_frame True v;
        if \<not> ok then Some Exit
        else do {
          ASSERT mem_ok;
          let ref = (current v, a);
          let v = (if spt v ref = None then set_spte ref (blank\<lparr>user_vaddr := a, access_time := 0, swapped := False, spte_dirty := False,
            spte_accessed := False, load_executable := False, mmapped := False\<rparr>) v else v);
          v \<leftarrow> allocate_frame mem_ok new_frame None v;
          Some (Restart v)
        }
      } else Some Exit)"

definition page_fault :: "bool \<Rightarrow> sup_page_table_entry \<Rightarrow> bool \<Rightarrow> 32 word \<Rightarrow> nat \<Rightarrow> vm \<Rightarrow> fault_end option" where
  "page_fault mem_ok blank write esp fault_addr v =
     (if \<not> check_userptr_pf fault_addr then Some Exit
      else
        let a = of_nat (pg_round_down fault_addr) in
        case spt v (current v, a) of
          Some e \<Rightarrow> fault_known mem_ok write a e v
        | None \<Rightarrow> fault_unknown mem_ok blank esp fault_addr a v)"

end
