(* ===== verification/Swap_Props.thy ===== *)
theory Swap_Props
  imports Swap
begin

text \<open>
  Eviction and return of a page: what was in the frame comes back, the swap slots of other pages are not
  touched, and the locks are released. Then two ways in which eviction goes wrong.
\<close>

section \<open>Sectors\<close>

definition swap_disk_ok :: "disk \<Rightarrow> nat \<Rightarrow> bool" where
  "swap_disk_ok d n \<longleftrightarrow> n \<le> length d \<and> length d \<le> 2 ^ 28 \<and> (\<forall>s < length d. length (d ! s) = 512)"

lemma sector_no:
  assumes "i + k < n" "swap_disk_ok d n"
  shows "unat (of_nat i + of_nat k :: 32 word) = i + k" "disk_read d (of_nat i + of_nat k) = Some (d ! (i + k))"
    "disk_write d (of_nat i + of_nat k) bs = Some (d[i + k := take 512 bs])"
proof -
  have l: "i + k < 2 ^ 28" "i + k < length d" using assms by (auto simp: swap_disk_ok_def)
  have e: "(of_nat i + of_nat k :: 32 word) = of_nat (i + k)" by simp
  show u: "unat (of_nat i + of_nat k :: 32 word) = i + k" unfolding e using l(1) by (intro unat_of_nat_less) simp
  have "unat (2 ^ 28 :: 32 word) = 2 ^ 28" by simp
  then have "(of_nat i + of_nat k :: 32 word) < 2 ^ 28" unfolding word_less_nat_alt u using l(1) by simp
  then show "disk_read d (of_nat i + of_nat k) = Some (d ! (i + k))" "disk_write d (of_nat i + of_nat k) bs = Some (d[i + k := take 512 bs])"
    using l(2) u by (simp_all add: disk_read_def disk_write_def)
qed

lemma length_get_bytes [simp]: "length (get_bytes r a n) = n"
  by (simp add: get_bytes_def)

lemma disk_ok_update: "swap_disk_ok d n \<Longrightarrow> length bs = 512 \<Longrightarrow> swap_disk_ok (d[s := bs]) n"
  by (cases "s < length d") (auto simp: swap_disk_ok_def nth_list_update)

lemma write_sectors_spec:
  "k \<le> 8 \<Longrightarrow> i + 8 \<le> n \<Longrightarrow> swap_disk_ok d n \<Longrightarrow> \<exists>d'. write_sectors [k..<8] a (of_nat i) r d = Some d' \<and> swap_disk_ok d' n \<and>
    (\<forall>s. d' ! s = (if i + k \<le> s \<and> s < i + 8 then get_bytes r (a + 512 * (s - i)) 512 else d ! s))"
proof (induction "8 - k" arbitrary: k d)
  case 0
  then show ?case by auto
next
  case (Suc m)
  then have k: "k < 8" "m = 8 - Suc k" by simp_all
  let ?d = "d[i + k := get_bytes r (a + 512 * k) 512]"
  have w: "disk_write d (of_nat i + of_nat k) (get_bytes r (a + 512 * k) 512) = Some ?d"
    using sector_no(3) [of i k n d] k Suc.prems by simp
  have "swap_disk_ok ?d n" using disk_ok_update [OF Suc.prems(3)] by simp
  then obtain d' where d': "write_sectors [Suc k..<8] a (of_nat i) r ?d = Some d'" "swap_disk_ok d' n"
    "\<forall>s. d' ! s = (if i + Suc k \<le> s \<and> s < i + 8 then get_bytes r (a + 512 * (s - i)) 512 else ?d ! s)"
    using Suc.hyps(1) [OF k(2), of ?d] k Suc.prems by auto
  have "i + k < length d" using Suc.prems k by (auto simp: swap_disk_ok_def)
  then have "\<forall>s. d' ! s = (if i + k \<le> s \<and> s < i + 8 then get_bytes r (a + 512 * (s - i)) 512 else d ! s)"
    using d'(3) k by (auto simp: nth_list_update)
  moreover have "write_sectors [k..<8] a (of_nat i) r d = Some d'" using w d'(1) k by (simp add: upt_conv_Cons)
  ultimately show ?case using d'(2) by blast
qed

lemma read_sectors_spec:
  "k \<le> 8 \<Longrightarrow> i + 8 \<le> n \<Longrightarrow> swap_disk_ok d n \<Longrightarrow> \<exists>r'. read_sectors [k..<8] a (of_nat i) d r = Some r' \<and>
    (\<forall>x. r' x = (if a + 512 * k \<le> x \<and> x < a + 4096 then d ! (i + (x - a) div 512) ! ((x - a) mod 512) else r x))"
proof (induction "8 - k" arbitrary: k r)
  case 0
  then show ?case by auto
next
  case (Suc m)
  then have k: "k < 8" "m = 8 - Suc k" by simp_all
  let ?r = "put_bytes (a + 512 * k) (d ! (i + k)) r"
  have w: "disk_read d (of_nat i + of_nat k) = Some (d ! (i + k))" using sector_no(2) [of i k n d] k Suc.prems by simp
  have l: "length (d ! (i + k)) = 512" using Suc.prems k by (simp add: swap_disk_ok_def)
  obtain r' where r': "read_sectors [Suc k..<8] a (of_nat i) d ?r = Some r'"
    "\<forall>x. r' x = (if a + 512 * Suc k \<le> x \<and> x < a + 4096 then d ! (i + (x - a) div 512) ! ((x - a) mod 512) else ?r x)"
    using Suc.hyps(1) [OF k(2), of ?r] k Suc.prems by auto
  have "r' x = (if a + 512 * k \<le> x \<and> x < a + 4096 then d ! (i + (x - a) div 512) ! ((x - a) mod 512) else r x)" for x
  proof (cases "a + 512 * k \<le> x \<and> x < a + 512 * Suc k")
    case True
    then obtain y where x: "x = a + 512 * k + y" using le_Suc_ex by blast
    have y: "x - a = 512 * k + y" "y < 512" "x - (a + 512 * k) = y" using True by (simp_all add: x)
    have "(x - a) div 512 = k" "(x - a) mod 512 = y" unfolding y(1) using y(2) by simp_all
    moreover have "x < a + 4096" using True k by simp
    ultimately show ?thesis using True r'(2) y l by (simp add: put_bytes_def)
  next
    case False
    then show ?thesis using r'(2) k l by (auto simp: put_bytes_def)
  qed
  moreover have "read_sectors [k..<8] a (of_nat i) d r = Some r'" using w r'(1) k by (simp add: upt_conv_Cons)
  ultimately show ?case by blast
qed

section \<open>Slots and frames\<close>

lemma swap_slot:
  assumes "bitmap_ok b" "j + 8 \<le> bit_cnt b" "{j..<j + 8} \<inter> bitmap_used b = {}"
  shows "\<exists>i b'. bitmap_scan b 0 8 False = Some i \<and> bitmap_set_multiple b i 8 True = Some b' \<and> bitmap_ok b' \<and> bit_cnt b' = bit_cnt b \<and>
    i + 8 \<le> bit_cnt b \<and> {i..<i + 8} \<inter> bitmap_used b = {} \<and> bitmap_used b' = bitmap_used b \<union> {i..<i + 8}"
proof -
  obtain i b' where a: "bitmap_alloc 8 b = Some (Some i, b')" using bm.alloc_finds_free [OF assms(1) _ assms(2, 3)] by auto
  note s = bm.alloc_Some [OF assms(1) _ a]
  obtain i' where sc: "bitmap_scan b 0 8 False = Some i'" using bitmap_scan_eq [OF assms(1), of 0 8 False] by simp
  then have "bitmap_scan b 0 8 False = Some i \<and> bitmap_set_multiple b i 8 True = Some b'"
    using a by (auto simp: bitmap_alloc_def bitmap_scan_and_flip_def bind_eq_Some_conv split: if_splits)
  then show ?thesis using s by (auto simp: Un_commute)
qed

definition user_pages :: "pages \<Rightarrow> nat set" where
  "user_pages p = (\<lambda>i. base (user_pool p) + PGSIZE * i) ` bitmap_used (used_map (user_pool p))"

text \<open>The pools are well-formed and the user pool has no page of the kernel pool.\<close>

definition pools_ok :: "pages \<Rightarrow> bool" where
  "pools_ok p \<longleftrightarrow> bitmap_ok (used_map (user_pool p)) \<and> base (user_pool p) mod PGSIZE = 0 \<and> 0 < base (user_pool p) \<and>
     (\<forall>i < bit_cnt (used_map (user_pool p)). \<not> page_from_pool (kernel_pool p) (base (user_pool p) + PGSIZE * i))"

lemma free_user_page:
  assumes "pools_ok p" "a \<in> user_pages p"
  shows "\<exists>p'. palloc_free_page a p = Some p' \<and> kernel_pool p' = kernel_pool p \<and> user_pages p' = user_pages p - {a} \<and>
    ram p' = fill a 0xcc PGSIZE (ram p)"
proof -
  let ?p = "user_pool p" and ?b = "used_map (user_pool p)"
  have ok: "bitmap_ok ?b" "0 < base ?p" "base ?p mod PGSIZE = 0" using assms(1) by (simp_all add: pools_ok_def)
  obtain i where i: "a = base ?p + PGSIZE * i" "i \<in> bitmap_used ?b" using assms(2) by (auto simp: user_pages_def)
  have range: "i + 1 \<le> bit_cnt ?b" using bm.used_bound [OF ok(1)] i(2) by auto
  have "bitmap_all ?b i 1 = Some True"
    using bitmap_contains_eq [OF ok(1) range, of False] i(2) by (auto simp: bitmap_all_def all_are_def bitmap_used_def simp del: nth_bools)
  moreover obtain b' where b': "bitmap_set_multiple ?b i 1 False = Some b'" "bitmap_used b' = bitmap_used ?b - {i..<i + 1}"
    using bm.free_total [OF ok(1) range] by (auto simp: bitmap_free_def)
  moreover have "pg_no a - pg_no (base ?p) = i" "pg_ofs a = 0"
    using ok(3) by (auto simp: i(1) pg_no_def pg_ofs_def mod_add_left_eq [symmetric])
  moreover have "page_from_pool ?p a" "\<not> page_from_pool (kernel_pool p) a"
    using range assms(1) by (simp_all add: page_from_pool_def Let_def i(1) pg_no_def bitmap_size_def pools_ok_def)
  moreover have "a \<noteq> 0" using i(1) ok(2) by simp
  ultimately have f: "palloc_free_page a p = Some (p\<lparr>user_pool := ?p\<lparr>used_map := b'\<rparr>, ram := fill a 0xcc PGSIZE (ram p)\<rparr>)"
    by (simp add: palloc_free_page_def palloc_free_multiple_def get_pool_def set_pool_def Let_def)
  have "inj (\<lambda>k. base ?p + PGSIZE * k)" by (rule injI) simp
  then have "(\<lambda>k. base ?p + PGSIZE * k) ` bitmap_used b' = user_pages p - {a}"
    unfolding b'(2) user_pages_def i(1) by (simp add: image_set_diff)
  then show ?thesis using f by (simp add: user_pages_def)
qed

text \<open>Unmapping a page changes memory only in the tables of the directory.\<close>

lemma clear_page_ram:
  assumes d: "dir_state pd m" and u: "u mod PGSIZE = 0" "u < PHYS_BASE" and m': "pagedir_clear_page pd u m = Some m'"
  shows "kernel_pool (phys m') = kernel_pool (phys m)" "user_pool (phys m') = user_pool (phys m)"
    "\<And>x. pg_round_down x \<notin> tabs m \<Longrightarrow> ram (phys m') x = ram (phys m) x"
proof -
  have mm: "mm_ok m" "dir_ok m pd" using d by (simp_all add: dir_state_def)
  have inv: "invalidate_pagedir pd n = Some n' \<Longrightarrow> phys n' = phys n" for n n'
    by (auto simp: invalidate_pagedir_def pagedir_activate_def bind_eq_Some_conv split: if_splits)
  let ?t = "pt_of m pd (pd_no u)"
  obtain e where "phys m' = phys m \<or> pde m pd (pd_no u) \<noteq> 0 \<and> phys m' = phys (set_entry (?t + 4 * pt_no u) e m)"
    using m' lookup_existing(1) [OF mm u(2)] by (auto simp: pagedir_clear_page_def bind_eq_Some_conv split: if_splits dest: inv)
  moreover have "ram (phys (set_entry (?t + 4 * pt_no u) e m)) x = ram (phys m) x" if "pg_round_down x \<notin> tabs m" "pde m pd (pd_no u) \<noteq> 0" for x
  proof -
    have t: "?t \<in> tabs m" using pt_page(1) [OF mm user_no(1) [OF u(2)] that(2)] .
    have "x \<noteq> ?t + 4 * pt_no u + k" if "k < 4" for k
      using slot_page [OF tab_page(1) [OF mm(1) t] user_no(2) that] t \<open>pg_round_down x \<notin> tabs m\<close> by metis
    from this [of 0] this [of 1] this [of 2] this [of 3] show ?thesis by (simp add: set_entry_def wr32_def)
  qed
  ultimately show "kernel_pool (phys m') = kernel_pool (phys m)" "user_pool (phys m') = user_pool (phys m)"
    "\<And>x. pg_round_down x \<notin> tabs m \<Longrightarrow> ram (phys m') x = ram (phys m) x"
    by (auto simp: set_entry_def)
qed

section \<open>Evicting a page\<close>

text \<open>The oldest frame holds the page at \<open>a\<close> of a thread \<open>t\<close>, its contents go to the swap device, and there is room.\<close>

definition evictable :: "vm \<Rightarrow> frame_table_entry \<Rightarrow> nat \<Rightarrow> 32 word \<Rightarrow> sup_page_table_entry \<Rightarrow> bool" where
  "evictable v fte t a e \<longleftrightarrow> \<not> swap_lock v \<and> (\<exists>fts. frame_table v = fte # fts) \<and> fte_spte fte = Some (t, a) \<and> spt v (t, a) = Some e \<and>
     user_vaddr e = a \<and> \<not> mmapped e \<and> (\<not> load_executable e \<or> spte_writable e) \<and> unat a mod PGSIZE = 0 \<and> unat a < PHYS_BASE \<and>
     dir_state (pagedir v (current v)) (vm_mmu v) \<and> pools_ok (phys (vm_mmu v)) \<and> frame fte \<in> user_pages (phys (vm_mmu v)) \<and>
     frame fte mod PGSIZE = 0 \<and> frame fte \<notin> tabs (vm_mmu v) \<and>
     bitmap_ok (swap_table v) \<and> swap_disk_ok (swap_device v) (bit_cnt (swap_table v)) \<and>
     (\<exists>j. j + 8 \<le> bit_cnt (swap_table v) \<and> {j..<j + 8} \<inter> bitmap_used (swap_table v) = {})"

lemma in_page:
  assumes "f mod PGSIZE = 0" "i < PGSIZE"
  shows "pg_round_down (f + i) = f"
proof -
  obtain q where "f = PGSIZE * q" using assms(1) by (auto simp: mod_eq_0_iff_dvd elim: dvdE)
  then show ?thesis using assms(2) by (simp add: pg_round_down_def)
qed

text \<open>What eviction does: slot \<open>i\<close> of the swap device gets the frame.\<close>

lemma swap_out_spec:
  assumes "evictable v fte t a e"
  shows "\<exists>i v1. swap_out m v = Some (True, v1) \<and> i + 8 \<le> bit_cnt (swap_table v) \<and> {i..<i + 8} \<inter> bitmap_used (swap_table v) = {} \<and>
    bitmap_ok (swap_table v1) \<and> bit_cnt (swap_table v1) = bit_cnt (swap_table v) \<and> bitmap_used (swap_table v1) = bitmap_used (swap_table v) \<union> {i..<i + 8} \<and>
    swap_disk_ok (swap_device v1) (bit_cnt (swap_table v)) \<and>
    (\<forall>s. swap_device v1 ! s = (if i \<le> s \<and> s < i + 8 then get_bytes (vm_ram v) (frame fte + 512 * (s - i)) 512 else swap_device v ! s)) \<and>
    spt v1 = (spt v)((t, a) \<mapsto> e\<lparr>swapped := True, disk_sector_idx := of_nat i\<rparr>) \<and> \<not> swap_lock v1 \<and> filesys_lock v1 = filesys_lock v \<and>
    frame_table v1 = tl (frame_table v) \<and> current v1 = current v \<and> pagedir v1 = pagedir v \<and>
    user_pages (phys (vm_mmu v1)) = user_pages (phys (vm_mmu v)) - {frame fte} \<and>
    (\<exists>m1. pagedir_clear_page (pagedir v (current v)) (unat a) (vm_mmu v) = Some m1 \<and>
       vm_mmu v1 = m1\<lparr>phys := phys (vm_mmu v1)\<rparr> \<and> kernel_pool (phys (vm_mmu v1)) = kernel_pool (phys m1) \<and>
       ram (phys (vm_mmu v1)) = fill (frame fte) 0xcc PGSIZE (ram (phys m1)))"
proof -
  note ev = assms [unfolded evictable_def]
  let ?pd = "pagedir v (current v)" and ?m = "vm_mmu v" and ?f = "frame fte"
  obtain fts where fts: "frame_table v = fte # fts" using ev by blast
  have d: "dir_state ?pd ?m" and u: "unat a mod PGSIZE = 0" "unat a < PHYS_BASE" using ev by auto
  obtain m1 where m1: "pagedir_clear_page ?pd (unat a) ?m = Some m1"
    using clear_page_ok [of ?m ?pd "unat a"] d u unfolding dir_state_def by blast
  note cr = clear_page_ram [OF d u m1]
  have nt: "?f mod PGSIZE = 0" "?f \<notin> tabs ?m" using ev by auto
  have fr: "get_bytes (ram (phys m1)) (?f + 512 * k) 512 = get_bytes (vm_ram v) (?f + 512 * k) 512" if "k < 8" for k
  proof -
    have "ram (phys m1) x = vm_ram v x" if "?f + 512 * k \<le> x" "x < ?f + 512 * k + 512" for x
    proof (rule cr(3))
      have "x - ?f < PGSIZE" using that \<open>k < 8\<close> by linarith
      then have "pg_round_down (?f + (x - ?f)) = ?f" by (rule in_page [OF nt(1)])
      then show "pg_round_down x \<notin> tabs ?m" using that nt(2) by simp
    qed
    then show ?thesis by (simp add: get_bytes_def)
  qed
  obtain j where j: "j + 8 \<le> bit_cnt (swap_table v)" "{j..<j + 8} \<inter> bitmap_used (swap_table v) = {}" using ev by blast
  have bo: "bitmap_ok (swap_table v)" and dk: "swap_disk_ok (swap_device v) (bit_cnt (swap_table v))" using ev by auto
  obtain i b' where ib: "bitmap_scan (swap_table v) 0 8 False = Some i" "bitmap_set_multiple (swap_table v) i 8 True = Some b'" "bitmap_ok b'"
    "bit_cnt b' = bit_cnt (swap_table v)" "i + 8 \<le> bit_cnt (swap_table v)" "{i..<i + 8} \<inter> bitmap_used (swap_table v) = {}"
    "bitmap_used b' = bitmap_used (swap_table v) \<union> {i..<i + 8}" using swap_slot [OF bo j] by blast
  obtain d' where d': "write_sectors [0..<8] ?f (of_nat i) (ram (phys m1)) (swap_device v) = Some d'" "swap_disk_ok d' (bit_cnt (swap_table v))"
    "\<forall>s. d' ! s = (if i + 0 \<le> s \<and> s < i + 8 then get_bytes (ram (phys m1)) (?f + 512 * (s - i)) 512 else swap_device v ! s)"
    using write_sectors_spec [of 0 i _ "swap_device v" ?f "ram (phys m1)"] ib(5) dk by blast
  have ds: "d' ! s = (if i \<le> s \<and> s < i + 8 then get_bytes (vm_ram v) (?f + 512 * (s - i)) 512 else swap_device v ! s)" for s
    using d'(3) fr [of "s - i"] by auto
  have po: "pools_ok (phys m1)" "?f \<in> user_pages (phys m1)" using ev cr(1, 2) by (auto simp: pools_ok_def user_pages_def)
  obtain p where p: "palloc_free_page ?f (phys m1) = Some p" "kernel_pool p = kernel_pool (phys m1)" "user_pages p = user_pages (phys m1) - {?f}"
    "ram p = fill ?f 0xcc PGSIZE (ram (phys m1))" using free_user_page [OF po] by blast
  have up: "user_pages (phys m1) = user_pages (phys ?m)" using cr(2) by (simp add: user_pages_def)
  let ?e = "e\<lparr>swapped := True, disk_sector_idx := of_nat i\<rparr>"
  define v1 where "v1 = v\<lparr>vm_mmu := m1\<lparr>phys := p\<rparr>, swap_device := d', swap_table := b', swap_lock := False, frame_table := fts, spt := (spt v)((t, a) \<mapsto> ?e)\<rparr>"
  have "swap_out m v = Some (True, v1)"
    using ev fts m1 ib(1, 2) d'(1) p(1) by (simp add: swap_out_def write_to_disk_def set_spte_def Let_def v1_def)
  moreover have "vm_mmu v1 = m1\<lparr>phys := phys (vm_mmu v1)\<rparr>" "kernel_pool (phys (vm_mmu v1)) = kernel_pool (phys m1)"
    "ram (phys (vm_mmu v1)) = fill ?f 0xcc PGSIZE (ram (phys m1))" using p by (simp_all add: v1_def)
  ultimately show ?thesis using m1 ib d'(2) ds p(3) up fts by (intro exI [of _ i] exI [of _ v1]) (simp add: v1_def)
qed

text \<open>Freeing the frame does not touch the tables of any directory.\<close>

lemma swap_walk:
  assumes "evictable v fte t a e" "swap_out m v = Some (True, v1)" "pagedir_clear_page (pagedir v (current v)) (unat a) (vm_mmu v) = Some m1"
    "dir_ok m1 pd" "u < PHYS_BASE"
  shows "pagedir_get_page pd u (vm_mmu v1) = Some (walk m1 pd u)"
proof -
  let ?f = "frame fte"
  have ev: "dir_state (pagedir v (current v)) (vm_mmu v)" "unat a mod PGSIZE = 0" "unat a < PHYS_BASE" "?f mod PGSIZE = 0" "?f \<notin> tabs (vm_mmu v)"
    using assms(1) by (simp_all add: evictable_def)
  have m1: "kernel_pool (phys (vm_mmu v1)) = kernel_pool (phys m1)" "ram (phys (vm_mmu v1)) = fill ?f 0xcc PGSIZE (ram (phys m1))"
    using swap_out_spec [OF assms(1), of m] assms(2, 3) by auto
  have c: "mm_ok m1"
    using clear_page_ok [of "vm_mmu v" "pagedir v (current v)" "unat a"] ev assms(3) unfolding dir_state_def by auto
  have t1: "tabs (vm_mmu v1) = tabs m1" using m1(1) by (simp add: used_pages_def)
  have nt: "?f \<notin> tabs m1" using ev(5) clear_page_ram(1) [OF ev(1-3) assms(3)] by (simp add: used_pages_def)
  have ge: "get_entry (vm_mmu v1) (s + 4 * j) = get_entry m1 (s + 4 * j)" if s: "s \<in> dir_pages m1 pd" "j < 1024" for s j
  proof -
    have st: "s \<in> tabs m1" using dir_pages_tabs [OF assms(4)] s(1) by blast
    have "\<not> (?f \<le> s + 4 * j + i \<and> s + 4 * j + i < ?f + PGSIZE)" if "i < 4" for i
    proof
      assume x: "?f \<le> s + 4 * j + i \<and> s + 4 * j + i < ?f + PGSIZE"
      then have "pg_round_down (?f + (s + 4 * j + i - ?f)) = ?f" by (intro in_page [OF ev(4)]) linarith
      then show False using slot_page [OF tab_page(1) [OF c st] s(2) that] nt st x by simp
    qed
    then have fl: "fill ?f 0xcc PGSIZE (ram (phys m1)) (s + 4 * j + i) = ram (phys m1) (s + 4 * j + i)" if "i < 4" for i
      using that unfolding fill_def by presburger
    from fl [of 0] fl [of 1] fl [of 2] fl [of 3] show ?thesis unfolding get_entry_def rd32_def m1(2) by simp
  qed
  have mm: "mm_ok (vm_mmu v1)" using c m1(1) by (simp add: mm_ok_def pool_ok_def)
  note f = dir_frame [OF c assms(4) _ ge]
  show ?thesis using get_page_walk [OF mm f(1) assms(5)] f(3) [of u] assms(5) t1 by simp
qed

lemma unmapped:
  assumes "evictable v fte t a e" "swap_out m v = Some (True, v1)"
  shows "pagedir_get_page (pagedir v (current v)) (unat a) (vm_mmu v1) = Some 0"
proof -
  let ?pd = "pagedir v (current v)"
  have ev: "dir_state ?pd (vm_mmu v)" "unat a mod PGSIZE = 0" "unat a < PHYS_BASE" using assms(1) by (simp_all add: evictable_def)
  obtain m1 where m1: "pagedir_clear_page ?pd (unat a) (vm_mmu v) = Some m1" "dir_ok m1 ?pd" "walk m1 ?pd (unat a) = 0"
    using clear_page_ok [of "vm_mmu v" ?pd "unat a"] ev in_page [OF ev(2), of 0] unfolding dir_state_def by auto
  show ?thesis using swap_walk [OF assms m1(1, 2) ev(3)] m1(3) by simp
qed

section \<open>Properties\<close>

text \<open>C6. Eviction is transparent. When the oldest frame holds a page of the current thread that has no file to be read from again,
  \<open>swap_out\<close> unmaps it, frees the frame, and leaves the sectors of every other slot as they were; the following \<open>swap_in\<close> brings
  exactly the bytes of the page into the frame it is given, frees the slot and registers the frame. Both release
  the swap lock.\<close>

theorem swap_roundtrip:
  assumes "evictable v fte (current v) a e"
  shows "\<exists>v1. swap_out m v = Some (True, v1) \<and> pagedir_get_page (pagedir v (current v)) (unat a) (vm_mmu v1) = Some 0 \<and>
    frame fte \<notin> user_pages (phys (vm_mmu v1)) \<and> (\<forall>s \<in> bitmap_used (swap_table v). swap_device v1 ! s = swap_device v ! s) \<and> \<not> swap_lock v1 \<and>
    (\<forall>kpage. \<exists>v2. swap_in True a kpage v1 = Some (True, v2) \<and> (\<forall>i < PGSIZE. vm_ram v2 (kpage + i) = vm_ram v (frame fte + i)) \<and>
       bitmap_used (swap_table v2) = bitmap_used (swap_table v) \<and> map_option swapped (spt v2 (current v, a)) = Some False \<and>
       frame (List.last (frame_table v2)) = kpage \<and> \<not> swap_lock v2)"
proof -
  have ev: "\<not> mmapped e" "\<not> load_executable e \<or> spte_writable e" "bitmap_ok (swap_table v)" using assms by (simp_all add: evictable_def)
  obtain i v1 where so: "swap_out m v = Some (True, v1)" "i + 8 \<le> bit_cnt (swap_table v)" "{i..<i + 8} \<inter> bitmap_used (swap_table v) = {}"
    "bitmap_ok (swap_table v1)" "bit_cnt (swap_table v1) = bit_cnt (swap_table v)" "bitmap_used (swap_table v1) = bitmap_used (swap_table v) \<union> {i..<i + 8}"
    "swap_disk_ok (swap_device v1) (bit_cnt (swap_table v))"
    "\<forall>s. swap_device v1 ! s = (if i \<le> s \<and> s < i + 8 then get_bytes (vm_ram v) (frame fte + 512 * (s - i)) 512 else swap_device v ! s)"
    "spt v1 = (spt v)((current v, a) \<mapsto> e\<lparr>swapped := True, disk_sector_idx := of_nat i\<rparr>)" "\<not> swap_lock v1" "current v1 = current v"
    "user_pages (phys (vm_mmu v1)) = user_pages (phys (vm_mmu v)) - {frame fte}"
    using swap_out_spec [OF assms, of m] by blast
  have ret: "\<exists>v2. swap_in True a kpage v1 = Some (True, v2) \<and> (\<forall>i < PGSIZE. vm_ram v2 (kpage + i) = vm_ram v (frame fte + i)) \<and>
       bitmap_used (swap_table v2) = bitmap_used (swap_table v) \<and> map_option swapped (spt v2 (current v, a)) = Some False \<and>
       frame (List.last (frame_table v2)) = kpage \<and> \<not> swap_lock v2" for kpage
  proof -
    obtain r' where r': "read_sectors [0..<8] kpage (of_nat i) (swap_device v1) (vm_ram v1) = Some r'"
      "\<forall>x. r' x = (if kpage + 512 * 0 \<le> x \<and> x < kpage + 4096 then swap_device v1 ! (i + (x - kpage) div 512) ! ((x - kpage) mod 512) else vm_ram v1 x)"
      using read_sectors_spec [of 0 i _ "swap_device v1" kpage "vm_ram v1"] so(2, 7) by blast
    obtain b where b: "bitmap_set_multiple (swap_table v1) i 8 False = Some b" "bitmap_used b = bitmap_used (swap_table v1) - {i..<i + 8}"
      using bm.free_total [OF so(4), of i 8] so(2, 5) by (auto simp: bitmap_free_def)
    have ui: "unat (of_nat i :: 32 word) = i" using so(2) ev(3) by (intro unat_of_nat_less) (auto simp: bitmap_ok_def)
    have same: "r' (kpage + j) = vm_ram v (frame fte + j)" if "j < PGSIZE" for j
    proof -
      have q: "j div 512 < 8" "j mod 512 < 512" using that by auto
      then have "swap_device v1 ! (i + j div 512) = get_bytes (vm_ram v) (frame fte + 512 * (j div 512)) 512" using so(8) by simp
      then have "swap_device v1 ! (i + j div 512) ! (j mod 512) = vm_ram v (frame fte + 512 * (j div 512) + j mod 512)" using q by (simp add: get_bytes_def)
      also have "frame fte + 512 * (j div 512) + j mod 512 = frame fte + j" by (simp add: add.assoc)
      finally show ?thesis using r'(2) that by simp
    qed
    have bu: "bitmap_used b = bitmap_used (swap_table v)" using b(2) so(3, 6) by blast
    show ?thesis using so(9-11) ev(1, 2) r'(1) b(1) bu ui same
      by (simp add: swap_in_def allocate_frame_def read_from_disk_def set_spte_def set_ram_def Let_def)
  qed
  have "\<forall>s \<in> bitmap_used (swap_table v). swap_device v1 ! s = swap_device v ! s" using so(3, 8) by auto
  then show ?thesis using so(1, 10, 12) unmapped [OF assms so(1)] ret by blast
qed

text \<open>C40. Eviction unmaps the page from the wrong process. When the oldest frame belongs to another process, \<open>swap_out\<close> clears the
  address in the page directory of the current thread: the owner keeps its mapping to a frame that is free again and will be given to
  someone else.\<close>

theorem swap_out_leaves_mapping:
  assumes "evictable v fte t a e" "dir_ok (vm_mmu v) (pagedir v t)"
    "dir_pages (vm_mmu v) (pagedir v t) \<inter> dir_pages (vm_mmu v) (pagedir v (current v)) = {}"
    "pagedir_get_page (pagedir v t) (unat a) (vm_mmu v) = Some (frame fte)"
  shows "\<exists>v1. swap_out m v = Some (True, v1) \<and> map_option swapped (spt v1 (t, a)) = Some True \<and>
    frame fte \<notin> user_pages (phys (vm_mmu v1)) \<and> pagedir_get_page (pagedir v t) (unat a) (vm_mmu v1) = Some (frame fte)"
proof -
  let ?pd = "pagedir v (current v)"
  have ev: "dir_state ?pd (vm_mmu v)" "unat a mod PGSIZE = 0" "unat a < PHYS_BASE" using assms(1) by (simp_all add: evictable_def)
  obtain v1 where so: "swap_out m v = Some (True, v1)" "user_pages (phys (vm_mmu v1)) = user_pages (phys (vm_mmu v)) - {frame fte}" "map_option swapped (spt v1 (t, a)) = Some True"
    using swap_out_spec [OF assms(1), of m] by auto
  have mm: "mm_ok (vm_mmu v)" using ev(1) by (simp add: dir_state_def)
  obtain m1 where m1: "pagedir_clear_page ?pd (unat a) (vm_mmu v) = Some m1" "isolated (vm_mmu v) m1 ?pd"
    using clear_page_ok [of "vm_mmu v" ?pd "unat a"] ev unfolding dir_state_def by auto
  have o: "dir_ok m1 (pagedir v t)" "walk m1 (pagedir v t) (unat a) = walk (vm_mmu v) (pagedir v t) (unat a)"
    using m1(2) assms(2, 3) ev(3) unfolding isolated_def by blast+
  have "walk (vm_mmu v) (pagedir v t) (unat a) = frame fte" using get_page_walk [OF mm assms(2) ev(3)] assms(4) by simp
  then show ?thesis using so swap_walk [OF assms(1) so(1) m1(1) o(1) ev(3)] o(2) by auto
qed

text \<open>A modified page of a mapped file cannot be evicted. \<open>swap_out\<close> first unmaps the page and then reads its contents through
  the user address; the fault is taken with the swap lock held and stops the kernel.\<close>

theorem swap_out_mapped_file_stops:
  assumes "frame_table v = fte # fts" "fte_spte fte = Some (current v, a)" "spt v (current v, a) = Some e"
    "user_vaddr e = a" "mmapped e" "spte_dirty e" "0 < page_read_bytes e" "unat a mod PGSIZE = 0" "unat a < PHYS_BASE"
    "dir_state (pagedir v (current v)) (vm_mmu v)"
  shows "swap_out m v = None"
proof -
  let ?pd = "pagedir v (current v)"
  obtain m1 where m1: "pagedir_clear_page ?pd (unat a) (vm_mmu v) = Some m1" "mm_ok m1" "dir_ok m1 ?pd" "walk m1 ?pd (unat a) = 0"
    using clear_page_ok [of "vm_mmu v" ?pd "unat a"] assms(8-10) in_page [OF assms(8), of 0] unfolding dir_state_def by auto
  have g: "pagedir_get_page ?pd (unat a) m1 = Some 0" using get_page_walk [OF m1(2, 3) assms(9)] m1(4) by simp
  obtain n where n: "unat (page_read_bytes e) = Suc n" using assms(7) by (metis gr0_implies_Suc unat_gt_0 word_neq_0_conv)
  show ?thesis using assms(1-6) m1(1) g n by (auto simp: swap_out_def write_back_def set_spte_def Let_def)
qed

section \<open>Witnesses\<close>

text \<open>Thread 1 has the directory at \<open>0xc0100000\<close>, thread 2 that at \<open>0xc0101000\<close>, which maps the page \<open>0x8048000\<close> to the only user page.\<close>

definition swap_mmu :: mmu where
  "swap_mmu = set_entry (0xc0101000 + 4 * 32) 0x102007 (set_entry (0xc0102000 + 4 * 72) 0x200007
     \<lparr>phys = \<lparr>kernel_pool = \<lparr>used_map = \<lparr>bit_cnt = 4, bits = [7]\<rparr>, base = 0xc0100000\<rparr>,
        user_pool = \<lparr>used_map = \<lparr>bit_cnt = 1, bits = [1]\<rparr>, base = 0xc0200000\<rparr>, ram = (\<lambda>_. 0)\<rparr>,
      cr3 = 0x100000, tlb = {}, base_page_dir = 0xc0001000, ram_pages = 1024\<rparr>)"

definition swap_vm :: "nat \<Rightarrow> sup_page_table_entry \<Rightarrow> vm" where
  "swap_vm t e = \<lparr>vm_mmu = swap_mmu, swap_device = replicate 8 (replicate 512 0), swap_table = \<lparr>bit_cnt = 8, bits = [0]\<rparr>, swap_lock = False,
     filesys_lock = False, frame_table = [\<lparr>frame = 0xc0200000, owner = t, fte_spte = Some (t, 0x8048000), fte_mmapped = False\<rparr>],
     spt = [(t, 0x8048000) \<mapsto> e], pagedir = (\<lambda>k. if k = 1 then 0xc0100000 else 0xc0101000), current = 1, vm_fs = two_sectors, vm_files = (\<lambda>_. None)\<rparr>"

lemma swap_mmu_entry:
  assumes "s mod PGSIZE = 0" "k < 1024"
  shows "get_entry swap_mmu (s + 4 * k) =
    (if s = 0xc0101000 \<and> k = 32 then 0x102007 else if s = 0xc0102000 \<and> k = 72 then 0x200007 else 0)"
proof -
  let ?m = "\<lparr>phys = \<lparr>kernel_pool = \<lparr>used_map = \<lparr>bit_cnt = 4, bits = [7]\<rparr>, base = 0xc0100000\<rparr>,
        user_pool = \<lparr>used_map = \<lparr>bit_cnt = 1, bits = [1]\<rparr>, base = 0xc0200000\<rparr>, ram = (\<lambda>_. 0)\<rparr>,
      cr3 = 0x100000, tlb = {}, base_page_dir = 0xc0001000, ram_pages = 1024\<rparr>"
  have "get_entry ?m a = 0" for a by (simp add: get_entry_def rd32_def)
  then show ?thesis unfolding swap_mmu_def using assms
      entry_set [of "0xc0101000" 32 s k "0x102007"] entry_set [of "0xc0102000" 72 s k "0x200007" ?m] by auto
qed

lemma swap_mmu_pools: "tabs swap_mmu = {0xc0100000, 0xc0101000, 0xc0102000}" "user_pages (phys swap_mmu) = {0xc0200000}" "pools_ok (phys swap_mmu)" "mm_ok swap_mmu"
proof -
  have b: "bit (7 :: 32 word) i \<longleftrightarrow> i < 3" for i
  proof -
    have e: "(7 :: 32 word) = mask 3" by (simp add: mask_eq_exp_minus_1)
    show ?thesis unfolding e by (auto simp: bit_mask_iff)
  qed
  have "bit_at \<lparr>bit_cnt = 4, bits = [7]\<rparr> i \<longleftrightarrow> i < 3" if "i < 4" for i using that b [of i] by (simp add: bit_at_def)
  then have "bitmap_used \<lparr>bit_cnt = 4, bits = [7]\<rparr> = {0..<3}" by (auto simp: bitmap_used_def)
  moreover have "bitmap_used \<lparr>bit_cnt = 1, bits = [1]\<rparr> = {0}" by (auto simp: bitmap_used_def bools_def bit_at_def bit_1_iff)
  moreover have "{0..<3 :: nat} = {0, 1, 2}" by auto
  ultimately show "tabs swap_mmu = {0xc0100000, 0xc0101000, 0xc0102000}" "user_pages (phys swap_mmu) = {0xc0200000}"
    by (simp_all add: used_pages_def user_pages_def swap_mmu_def set_entry_def)
  show "pools_ok (phys swap_mmu)" by (simp add: pools_ok_def bitmap_ok_def swap_mmu_def set_entry_def page_from_pool_def pg_no_def Let_def bitmap_size_def)
  show "mm_ok swap_mmu" by (simp add: mm_ok_def pool_ok_def bitmap_ok_def swap_mmu_def set_entry_def)
qed

lemma swap_mmu_dirs: "dir_state 0xc0100000 swap_mmu" "dir_ok swap_mmu 0xc0101000"
  "dir_pages swap_mmu 0xc0101000 \<inter> dir_pages swap_mmu 0xc0100000 = {}" "walk swap_mmu 0xc0101000 0x8048000 = 0xc0200000"
proof -
  have p: "pde swap_mmu 0xc0100000 i = 0" "pde swap_mmu 0xc0101000 i = (if i = 32 then 0x102007 else 0)" if "i < 768" for i
    using swap_mmu_entry [of "0xc0100000" i] swap_mmu_entry [of "0xc0101000" i] that by (simp_all add: pde_def)
  have t: "pt_of swap_mmu 0xc0101000 32 = 0xc0102000" using p(2) [of 32] by (simp add: pt_of_def PTE_ADDR_def)
  have e: "pte swap_mmu 0xc0101000 32 j = (if j = 72 then 0x200007 else 0)" if "j < 1024" for j
    using swap_mmu_entry [of "0xc0102000" j] that by (simp add: pte_def t)
  have o: "bit (0x102007 :: 32 word) 0" "bit (0x200007 :: 32 word) 0" "unat ((0x200007 :: 32 word) AND PTE_ADDR) = 0x200000" by (simp_all add: PTE_ADDR_def bit_0)
  have "dir_ok swap_mmu 0xc0100000" unfolding dir_ok_def slot_ok_def using p(1) swap_mmu_pools(1) by simp
  then show "dir_state 0xc0100000 swap_mmu" using swap_mmu_pools(4) by (simp add: dir_state_def swap_mmu_def set_entry_def)
  have "slot_ok swap_mmu 0xc0101000 i" if "i < 768" for i
    using p(2) [OF that] t e o swap_mmu_pools(1) by (cases "i = 32") (auto simp: slot_ok_def)
  then show "dir_ok swap_mmu 0xc0101000" unfolding dir_ok_def using p(2) swap_mmu_pools(1) by (auto split: if_splits)
  have "{i. i < 768 \<and> pde swap_mmu 0xc0101000 i \<noteq> 0} = {32}" "{i. i < 768 \<and> pde swap_mmu 0xc0100000 i \<noteq> 0} = {}" using p by (auto split: if_splits)
  then show "dir_pages swap_mmu 0xc0101000 \<inter> dir_pages swap_mmu 0xc0100000 = {}" unfolding dir_pages_def by (simp only: image_insert image_empty t) simp
  have "pd_no 0x8048000 = 32" "pt_no 0x8048000 = 72" "pg_ofs 0x8048000 = 0" by (simp_all add: pd_no_def pt_no_def pg_ofs_def)
  then show "walk swap_mmu 0xc0101000 0x8048000 = 0xc0200000" using p(2) [of 32] e [of 72] o by (simp add: walk_def)
qed

lemma swap_vm_evictable:
  "evictable (swap_vm t (blank_entry 0x8048000)) \<lparr>frame = 0xc0200000, owner = t, fte_spte = Some (t, 0x8048000), fte_mmapped = False\<rparr> t 0x8048000 (blank_entry 0x8048000)"
proof -
  have "bitmap_used \<lparr>bit_cnt = 8, bits = [0]\<rparr> = {}" by (simp add: bitmap_used_def bools_def bit_at_def)
  then have "\<exists>j. j + 8 \<le> 8 \<and> {j..<j + 8} \<inter> bitmap_used \<lparr>bit_cnt = 8, bits = [0]\<rparr> = {}" by (intro exI [of _ 0]) simp
  then show ?thesis using swap_mmu_pools swap_mmu_dirs(1)
    by (simp add: evictable_def swap_vm_def blank_entry_def bitmap_ok_def swap_disk_ok_def)
qed

theorem swap_roundtrip_witness:
  "\<exists>v1 v2. swap_out True (swap_vm 1 (blank_entry 0x8048000)) = Some (True, v1) \<and> swap_in True 0x8048000 0xc0200000 v1 = Some (True, v2) \<and>
    vm_ram v2 0xc0200005 = vm_ram (swap_vm 1 (blank_entry 0x8048000)) 0xc0200005"
proof -
  let ?v = "swap_vm 1 (blank_entry 0x8048000)"
  have c: "current ?v = 1" by (simp add: swap_vm_def)
  note e = swap_vm_evictable [of 1]
  obtain v1 v2 where "swap_out True ?v = Some (True, v1)" "swap_in True 0x8048000 0xc0200000 v1 = Some (True, v2)"
    and r: "\<forall>i < PGSIZE. vm_ram v2 (0xc0200000 + i) = vm_ram ?v (frame \<lparr>frame = 0xc0200000, owner = 1, fte_spte = Some (1, 0x8048000), fte_mmapped = False\<rparr> + i)"
    using swap_roundtrip [of ?v _ "0x8048000" "blank_entry 0x8048000" True, unfolded c, OF e] by blast
  moreover have "vm_ram v2 0xc0200005 = vm_ram ?v 0xc0200005" using r [rule_format, of 5] by simp
  ultimately show ?thesis by blast
qed

theorem swap_out_leaves_mapping_witness:
  "\<exists>v1. swap_out True (swap_vm 2 (blank_entry 0x8048000)) = Some (True, v1) \<and> 0xc0200000 \<notin> user_pages (phys (vm_mmu v1)) \<and>
    pagedir_get_page 0xc0101000 0x8048000 (vm_mmu v1) = Some 0xc0200000"
proof -
  let ?v = "swap_vm 2 (blank_entry 0x8048000)"
  have v: "vm_mmu ?v = swap_mmu" "pagedir ?v 2 = 0xc0101000" "pagedir ?v (current ?v) = 0xc0100000" by (simp_all add: swap_vm_def)
  have "pagedir_get_page 0xc0101000 0x8048000 swap_mmu = Some 0xc0200000"
    using get_page_walk [OF swap_mmu_pools(4) swap_mmu_dirs(2), of "0x8048000"] swap_mmu_dirs(4) by simp
  then show ?thesis using swap_out_leaves_mapping [OF swap_vm_evictable [of 2], of True] swap_mmu_dirs(2, 3) unfolding v by auto
qed

theorem swap_out_mapped_file_stops_witness:
  "swap_out True (swap_vm 1 ((blank_entry 0x8048000)\<lparr>mmapped := True, spte_dirty := True, page_read_bytes := 10\<rparr>)) = None"
  using swap_out_mapped_file_stops [of "swap_vm 1 ((blank_entry 0x8048000)\<lparr>mmapped := True, spte_dirty := True, page_read_bytes := 10\<rparr>)"
    "\<lparr>frame = 0xc0200000, owner = 1, fte_spte = Some (1, 0x8048000), fte_mmapped = False\<rparr>" "[]" "0x8048000"] swap_mmu_dirs(1)
  by (simp add: swap_vm_def blank_entry_def)

end
