(* ===== verification/User_Stack.thy ===== *)
theory User_Stack
  imports Cstring_Props Pagedir_Props
begin

text \<open>
  The initial stack of a user process, built by \<open>setup_stack\<close> of \<open>userprog/process.c\<close>. The command line is
  a string in kernel memory that \<open>strtok_r\<close> cuts into arguments; the stack is the page below
  \<open>PHYS_BASE\<close>, and a write outside it faults (\<open>None\<close>): the handler finds no entry for the page and
  a saved stack pointer of 0, and kills the process.
\<close>

section \<open>Building the stack\<close>

type_synonym user_mem = "nat \<Rightarrow> byte"

definition put_user :: "nat \<Rightarrow> byte list \<Rightarrow> user_mem \<Rightarrow> user_mem option" where
  "put_user a bs u = do {
     ASSERT (PHYS_BASE - PGSIZE \<le> a \<and> a + length bs \<le> PHYS_BASE);
     Some (\<lambda>x. if a \<le> x \<and> x < a + length bs then bs ! (x - a) else u x)
   }"

text \<open>A block of kernel memory that is copied out.\<close>

definition kernel_bytes :: "memory \<Rightarrow> ptr \<Rightarrow> nat \<Rightarrow> byte list option" where
  "kernel_bytes m p n = (if p + n \<le> length m then Some (take n (drop p m)) else None)"

definition put_word :: "nat \<Rightarrow> nat \<Rightarrow> user_mem \<Rightarrow> user_mem option" where
  "put_word a v u = put_user a (map (\<lambda>k. ucast (drop_bit (8 * k) (word_of_nat v :: 32 word))) [0, 1, 2, 3]) u"

text \<open>Both loops count down: their list is reversed. The pointers are those of \<open>arg_ptr\<close>, last first.\<close>

fun push_strings :: "memory \<Rightarrow> ptr list \<Rightarrow> nat \<Rightarrow> user_mem \<Rightarrow> (nat \<times> user_mem \<times> nat list) option" where
  "push_strings m [] esp u = Some (esp, u, [])"
| "push_strings m (a # as) esp u = do {
     len \<leftarrow> strlen m a;
     let esp = esp - len - 1;
     bs \<leftarrow> kernel_bytes m a (len + 1);
     u \<leftarrow> put_user esp bs u;
     (e, u, ps) \<leftarrow> push_strings m as esp u;
     Some (e, u, esp # ps)
   }"

fun push_words :: "nat list \<Rightarrow> nat \<Rightarrow> user_mem \<Rightarrow> (nat \<times> user_mem) option" where
  "push_words [] esp u = Some (esp, u)"
| "push_words (p # ps) esp u = do {
     let esp = esp - 4;
     u \<leftarrow> put_word esp p u;
     push_words ps esp u
   }"

text \<open>The arrays \<open>args\<close> and \<open>arg_ptr\<close> have 30 elements; one argument more is stored behind them.\<close>

definition stack_args :: "memory \<Rightarrow> ptr list \<Rightarrow> user_mem \<Rightarrow> (nat \<times> user_mem) option" where
  "stack_args m args u = do {
     let argc = length args;
     ASSERT (argc \<le> 30);
     (esp, u, arg_ptr) \<leftarrow> push_strings m (rev args) PHYS_BASE u;
     let esp = esp - 1;
     u \<leftarrow> put_user esp [0] u;
     let esp = esp - 4;
     u \<leftarrow> put_user esp [0, 0, 0, 0] u;
     (esp, u) \<leftarrow> push_words arg_ptr esp u;
     let esp = esp - 4;
     u \<leftarrow> put_word esp (esp + 4) u;
     let esp = esp - 4;
     u \<leftarrow> put_word esp argc u;
     let esp = esp - 4;
     u \<leftarrow> put_user esp [0, 0, 0, 0] u;
     Some (esp, u)
   }"

text \<open>\<open>blank\<close> is the address of the string of delimiters, a single blank; \<open>save\<close> is what \<open>save_ptr\<close> holds
  before the first call. The command line has at most \<open>n\<close> - 1 characters.\<close>

definition setup_stack :: "nat \<Rightarrow> memory \<Rightarrow> ptr \<Rightarrow> ptr \<Rightarrow> ptr \<Rightarrow> user_mem \<Rightarrow> (memory \<times> nat \<times> user_mem) option" where
  "setup_stack n m file_name blank save u = do {
     (m, args) \<leftarrow> tokenize n m file_name blank save;
     (esp, u) \<leftarrow> stack_args m args u;
     Some (m, esp, u)
   }"

section \<open>What the process reads\<close>

definition user_str :: "user_mem \<Rightarrow> nat \<Rightarrow> byte list \<Rightarrow> bool" where
  "user_str u p s \<longleftrightarrow> (\<forall>k < length s. u (p + k) = s ! k) \<and> u (p + length s) = 0 \<and> 0 \<notin> set s"

definition user_word :: "user_mem \<Rightarrow> nat \<Rightarrow> nat" where
  "user_word u a = unat (rd32 u a)"

lemma put_user_spec:
  assumes "put_user a bs u = Some u'"
  shows "\<And>x. a + length bs \<le> x \<Longrightarrow> u' x = u x" "\<And>k. k < length bs \<Longrightarrow> u' (a + k) = bs ! k"
  using assms by (auto simp: put_user_def split: if_splits)

lemma put_user_runs: "PHYS_BASE - PGSIZE \<le> a \<Longrightarrow> a + length bs \<le> PHYS_BASE \<Longrightarrow> \<exists>u'. put_user a bs u = Some u'"
  by (simp add: put_user_def)

lemma rd32_cong: "(\<And>k. k < 4 \<Longrightarrow> u' (a + k) = u (a + k)) \<Longrightarrow> rd32 u' a = rd32 u a"
  unfolding rd32_def by (metis add_0_right one_less_numeral_iff semiring_norm(76) zero_less_numeral numeral_less_iff semiring_norm(78,81))

lemma put_word_spec:
  assumes "put_word a v u = Some u'"
  shows "\<And>x. a + 4 \<le> x \<Longrightarrow> u' x = u x" "v < 2 ^ 32 \<Longrightarrow> user_word u' a = v"
proof -
  let ?w = "word_of_nat v :: 32 word"
  note p = put_user_spec [OF assms [unfolded put_word_def]]
  show "u' x = u x" if "a + 4 \<le> x" for x using p(1) that by simp
  have "u' (a + k) = wr32 a ?w u (a + k)" if "k < 4" for k
    using p(2) [of k] that by (auto simp: wr32_def less_Suc_eq numeral_eq_Suc)
  then have "rd32 u' a = ?w" using rd32_cong [of u' a "wr32 a ?w u"] rd_wr_same by simp
  then show "user_word u' a = v" if "v < 2 ^ 32" using that by (simp add: user_word_def unat_of_nat)
qed

definition string_bytes :: "byte list list \<Rightarrow> nat" where
  "string_bytes ws = (\<Sum>w\<leftarrow>ws. length w + 1)"

lemma string_bytes_Cons [simp]: "string_bytes (w # ws) = length w + 1 + string_bytes ws" and string_bytes_Nil [simp]: "string_bytes [] = 0"
  by (simp_all add: string_bytes_def)

lemma user_str_above:
  assumes "user_str u p s" "\<And>x. e \<le> x \<Longrightarrow> u' x = u x" "e \<le> p"
  shows "user_str u' p s"
  using assms by (auto simp: user_str_def)

lemma user_word_above: "(\<And>x. e \<le> x \<Longrightarrow> u' x = u x) \<Longrightarrow> e \<le> a \<Longrightarrow> user_word u' a = user_word u a"
  unfolding user_word_def using rd32_cong [of u' a u] by simp

lemma kernel_bytes_cstr: "cstr m p s \<Longrightarrow> kernel_bytes m p (length s + 1) = Some (s @ [0])"
  by (auto simp: kernel_bytes_def cstr_def block_def take_Suc_conv_app_nth take_hd_drop intro: nth_equalityI)

lemma push_strings_spec:
  assumes "list_all2 (cstr m) as ws" "0 \<notin> set as" "PHYS_BASE - PGSIZE + string_bytes ws \<le> esp" "esp \<le> PHYS_BASE"
  shows "\<exists>u' ps. push_strings m as esp u = Some (esp - string_bytes ws, u', ps) \<and> (\<forall>x \<ge> esp. u' x = u x) \<and>
    list_all2 (user_str u') ps ws \<and> (\<forall>p \<in> set ps. esp - string_bytes ws \<le> p \<and> p < esp)"
  using assms
proof (induction as ws arbitrary: esp u rule: list_all2_induct)
  case (Cons a as w ws)
  let ?e = "esp - length w - 1"
  have e: "PHYS_BASE - PGSIZE \<le> ?e" "?e + (length w + 1) \<le> PHYS_BASE" "PHYS_BASE - PGSIZE + string_bytes ws \<le> ?e" "?e \<le> PHYS_BASE" "length w + 1 \<le> esp"
    using Cons.prems by auto
  obtain u1 where u1: "put_user ?e (w @ [0]) u = Some u1" using put_user_runs [of ?e "w @ [0]" u] e by auto
  note p = put_user_spec [OF u1]
  obtain u' ps where r: "push_strings m as ?e u1 = Some (?e - string_bytes ws, u', ps)" "\<forall>x \<ge> ?e. u' x = u1 x"
    "list_all2 (user_str u') ps ws" "\<forall>p \<in> set ps. ?e - string_bytes ws \<le> p \<and> p < ?e" using Cons.IH [OF _ e(3, 4), where u = u1] Cons.prems(1) by auto
  have c: "cstr m a w" "a \<noteq> 0" using Cons.hyps(1) Cons.prems(1) by auto
  have "0 \<notin> set w" using c(1) by (simp add: cstr_def)
  then have "user_str u1 ?e w" using p(2) by (auto simp: user_str_def nth_append dest: spec)
  then have "user_str u' ?e w" using user_str_above [of u1 ?e w ?e u'] r(2) by simp
  moreover have "u' x = u x" if "esp \<le> x" for x using r(2) p(1) [of x] that e(5) by auto
  moreover have "push_strings m (a # as) esp u = Some (esp - string_bytes (w # ws), u', ?e # ps)"
    using strlen_spec [OF c] kernel_bytes_cstr [OF c(1)] u1 r(1) by (simp add: Let_def)
  moreover have "\<forall>p \<in> set (?e # ps). esp - string_bytes (w # ws) \<le> p \<and> p < esp" using r(4) e(5) by auto
  ultimately show ?case using r(3) by (intro exI [of _ u'] exI [of _ "?e # ps"]) simp
qed simp

lemma push_words_spec:
  assumes "PHYS_BASE - PGSIZE + 4 * length ps \<le> esp" "esp \<le> PHYS_BASE" "\<forall>p \<in> set ps. p < 2 ^ 32"
  shows "\<exists>u'. push_words ps esp u = Some (esp - 4 * length ps, u') \<and> (\<forall>x \<ge> esp. u' x = u x) \<and>
    (\<forall>k < length ps. user_word u' (esp - 4 * (k + 1)) = ps ! k)"
  using assms
proof (induction ps arbitrary: esp u)
  case (Cons p ps)
  let ?e = "esp - 4"
  have e: "PHYS_BASE - PGSIZE \<le> ?e" "?e + 4 \<le> PHYS_BASE" "PHYS_BASE - PGSIZE + 4 * length ps \<le> ?e" "?e \<le> PHYS_BASE" "?e + 4 = esp" using Cons.prems by auto
  obtain u1 where u1: "put_word ?e p u = Some u1" using put_user_runs [of ?e "map (\<lambda>k. ucast (drop_bit (8 * k) (word_of_nat p :: 32 word))) [0, 1, 2, 3]" u] e
    by (auto simp: put_word_def)
  note w = put_word_spec [OF u1]
  obtain u' where r: "push_words ps ?e u1 = Some (?e - 4 * length ps, u')" "\<forall>x \<ge> ?e. u' x = u1 x" "\<forall>k < length ps. user_word u' (?e - 4 * (k + 1)) = ps ! k"
    using Cons.IH [OF e(3, 4), where u = u1] Cons.prems(3) by auto
  have "user_word u' ?e = p" using user_word_above [of ?e u' u1 ?e] r(2) w(2) Cons.prems(3) by simp
  then have "user_word u' (esp - 4 * (k + 1)) = (p # ps) ! k" if "k < length (p # ps)" for k
    using that r(3) by (cases k) auto
  moreover have "u' x = u x" if "esp \<le> x" for x using r(2) w(1) [of x] that e(5) by auto
  ultimately show ?case using u1 r(1) by (simp add: Let_def)
qed simp

section \<open>The whole stack\<close>

text \<open>The number of bytes below \<open>PHYS_BASE\<close>: the strings, one byte, the pointers with their null pointer,
  and three words.\<close>

definition stack_bytes :: "byte list list \<Rightarrow> nat" where
  "stack_bytes ws = string_bytes ws + 4 * length ws + 17"

definition argv_ok :: "user_mem \<Rightarrow> nat \<Rightarrow> byte list list \<Rightarrow> bool" where
  "argv_ok u argv ws \<longleftrightarrow> (\<forall>i < length ws. user_str u (user_word u (argv + 4 * i)) (ws ! i)) \<and> user_word u (argv + 4 * length ws) = 0"

lemma string_bytes_rev [simp]: "string_bytes (rev ws) = string_bytes ws"
  by (simp add: string_bytes_def rev_map [symmetric])

lemma zero_word: "put_user a [0, 0, 0, 0] u = Some u' \<Longrightarrow> user_word u' a = 0"
  using put_user_spec(2) [of a "[0, 0, 0, 0]" u u' 0] put_user_spec(2) [of a "[0, 0, 0, 0]" u u' 1]
    put_user_spec(2) [of a "[0, 0, 0, 0]" u u' 2] put_user_spec(2) [of a "[0, 0, 0, 0]" u u' 3]
  by (simp add: user_word_def rd32_def)

lemma push_arguments:
  assumes "list_all2 (cstr m) args ws" "0 \<notin> set args" "stack_bytes ws \<le> PGSIZE"
  shows "\<exists>u1 u2 u3 u4 ps. push_strings m (rev args) PHYS_BASE u = Some (PHYS_BASE - string_bytes ws, u1, ps) \<and>
    put_user (PHYS_BASE - string_bytes ws - 1) [0] u1 = Some u2 \<and> put_user (PHYS_BASE - string_bytes ws - 1 - 4) [0, 0, 0, 0] u2 = Some u3 \<and>
    push_words ps (PHYS_BASE - string_bytes ws - 1 - 4) u3 = Some (PHYS_BASE - string_bytes ws - 5 - 4 * length ws, u4) \<and>
    argv_ok u4 (PHYS_BASE - string_bytes ws - 5 - 4 * length ws) ws \<and>
    (\<forall>i < length ws. PHYS_BASE - string_bytes ws \<le> user_word u4 (PHYS_BASE - string_bytes ws - 5 - 4 * length ws + 4 * i))"
proof -
  let ?n = "length ws"
  define e where e_def: "e = PHYS_BASE - string_bytes ws"
  have sb: "PHYS_BASE - PGSIZE + string_bytes ws \<le> PHYS_BASE" "PHYS_BASE - PGSIZE + 4 * ?n \<le> e - 1 - 4" "PHYS_BASE - PGSIZE \<le> e - 1 - 4" "e - 1 - 4 + 4 = e - 1" "1 \<le> e"
    "PHYS_BASE - PGSIZE \<le> e - 1" "e - 1 + length [0 :: byte] \<le> PHYS_BASE" "e - 1 - 4 + length [0, 0, 0, 0 :: byte] \<le> PHYS_BASE"
    using assms(3) by (simp_all add: stack_bytes_def e_def)
  have rv: "list_all2 (cstr m) (rev args) (rev ws)" "0 \<notin> set (rev args)" using assms(1, 2) by simp_all
  have fit: "PHYS_BASE - PGSIZE + string_bytes (rev ws) \<le> PHYS_BASE" using sb(1) by simp
  obtain u1 ps where u1: "push_strings m (rev args) PHYS_BASE u = Some (e, u1, ps)" "list_all2 (user_str u1) ps (rev ws)" "\<forall>p \<in> set ps. e \<le> p \<and> p < PHYS_BASE"
    using push_strings_spec [OF rv fit order_refl, of u] unfolding e_def by auto
  have lp: "length ps = ?n" using list_all2_lengthD [OF u1(2)] by simp
  obtain u2 where u2: "put_user (e - 1) [0] u1 = Some u2" using put_user_runs [OF sb(6, 7)] by blast
  obtain u3 where u3: "put_user (e - 1 - 4) [0, 0, 0, 0] u2 = Some u3" using put_user_runs [OF sb(3, 8)] by blast
  have ps32: "\<forall>p \<in> set ps. p < 2 ^ 32" using u1(3) by fastforce
  obtain u4 where u4: "push_words ps (e - 1 - 4) u3 = Some (e - 1 - 4 - 4 * length ps, u4)" "\<forall>x \<ge> e - 1 - 4. u4 x = u3 x"
    "\<forall>k < length ps. user_word u4 (e - 1 - 4 - 4 * (k + 1)) = ps ! k"
    using push_words_spec [of ps "e - 1 - 4" u3] sb lp ps32 by auto
  have above: "u4 x = u1 x" if "e \<le> x" for x
  proof -
    have "e - 1 - 4 \<le> x" "e - 1 - 4 + length [0, 0, 0, 0 :: byte] \<le> x" "e - 1 + length [0 :: byte] \<le> x" using that sb(4, 5) by simp_all
    then show ?thesis using u4(2) put_user_spec(1) [OF u3] put_user_spec(1) [OF u2] by metis
  qed
  have ptr: "user_word u4 (e - 5 - 4 * ?n + 4 * i) = ps ! (?n - 1 - i)" if "i < ?n" for i
  proof -
    have "e - 1 - 4 - 4 * (?n - 1 - i + 1) = e - 5 - 4 * ?n + 4 * i" using that sb(2) by simp
    moreover have "?n - 1 - i < length ps" using that lp by simp
    ultimately show ?thesis using u4(3) by metis
  qed
  have "user_str u4 (ps ! (?n - 1 - i)) (ws ! i)" if i: "i < ?n" for i
  proof -
    have k: "?n - 1 - i < length ps" using i lp by simp
    have "user_str u1 (ps ! (?n - 1 - i)) (rev ws ! (?n - 1 - i))" using list_all2_nthD [OF u1(2) k] .
    moreover have "rev ws ! (?n - 1 - i) = ws ! i" using i by (simp add: rev_nth)
    moreover have "e \<le> ps ! (?n - 1 - i)" using u1(3) k by simp
    ultimately show ?thesis using user_str_above above by metis
  qed
  moreover have "user_word u4 (e - 5 - 4 * ?n + 4 * ?n) = 0"
    using zero_word [OF u3] user_word_above [of "e - 1 - 4" u4 u3 "e - 1 - 4"] u4(2) sb(2) by simp
  moreover have "e \<le> user_word u4 (e - 5 - 4 * ?n + 4 * i)" if "i < ?n" for i using ptr [OF that] u1(3) lp that by simp
  ultimately show ?thesis unfolding e_def [symmetric] using u1(1) u2 u3 u4(1) ptr lp by (intro exI conjI) (auto simp: argv_ok_def)
qed

lemma stack_args_spec:
  assumes "list_all2 (cstr m) args ws" "0 \<notin> set args" "stack_bytes ws \<le> PGSIZE" "length ws \<le> 30"
  shows "\<exists>u'. stack_args m args u = Some (PHYS_BASE - stack_bytes ws, u') \<and> user_word u' (PHYS_BASE - stack_bytes ws) = 0 \<and>
    user_word u' (PHYS_BASE - stack_bytes ws + 4) = length ws \<and> (\<exists>argv. user_word u' (PHYS_BASE - stack_bytes ws + 8) = argv \<and> argv_ok u' argv ws)"
proof -
  let ?n = "length ws"
  have la: "length args = ?n" using list_all2_lengthD [OF assms(1)] .
  define e where "e = PHYS_BASE - string_bytes ws - 5 - 4 * ?n"
  have e: "PHYS_BASE - PGSIZE \<le> e - 4" "PHYS_BASE - PGSIZE \<le> e - 4 - 4" "PHYS_BASE - PGSIZE \<le> e - 4 - 4 - 4"
    "e \<le> PHYS_BASE" "12 \<le> e" "PHYS_BASE - stack_bytes ws = e - 4 - 4 - 4" "e < 2 ^ 32" "e \<le> PHYS_BASE - string_bytes ws"
    using assms(3) by (simp_all add: e_def stack_bytes_def)
  obtain u1 u2 u3 u4 ps where u: "push_strings m (rev args) PHYS_BASE u = Some (PHYS_BASE - string_bytes ws, u1, ps)"
    "put_user (PHYS_BASE - string_bytes ws - 1) [0] u1 = Some u2" "put_user (PHYS_BASE - string_bytes ws - 1 - 4) [0, 0, 0, 0] u2 = Some u3"
    "push_words ps (PHYS_BASE - string_bytes ws - 1 - 4) u3 = Some (e, u4)" "argv_ok u4 e ws"
    "\<forall>i < ?n. PHYS_BASE - string_bytes ws \<le> user_word u4 (e + 4 * i)"
    using push_arguments [OF assms(1-3), of u] unfolding e_def by blast
  have pw: "\<exists>u'. put_word a v w = Some u'" if "PHYS_BASE - PGSIZE \<le> a" "a + 4 \<le> PHYS_BASE" for a v w
    using put_user_runs [OF that(1), of "map (\<lambda>k. ucast (drop_bit (8 * k) (word_of_nat v :: 32 word))) [0, 1, 2, 3]" w] that(2) by (simp add: put_word_def)
  obtain u5 where u5: "put_word (e - 4) (e - 4 + 4) u4 = Some u5" using pw e by fastforce
  obtain u6 where u6: "put_word (e - 4 - 4) ?n u5 = Some u6" using pw e by fastforce
  have "e - 4 - 4 - 4 + length [0, 0, 0, 0 :: byte] \<le> PHYS_BASE" using e(4) by simp
  then obtain u7 where u7: "put_user (e - 4 - 4 - 4) [0, 0, 0, 0] u6 = Some u7" using put_user_runs [OF e(3)] by blast
  have run: "stack_args m args u = Some (e - 4 - 4 - 4, u7)"
    using u(1-4) u5 u6 u7 la assms(4) by (simp only: stack_args_def Let_def bind.bind_lunit prod.case if_True) simp
  have a7: "u7 x = u6 x" if "e - 4 - 4 \<le> x" for x using put_user_spec(1) [OF u7] that e(5) by simp
  have a6: "u6 x = u5 x" if "e - 4 \<le> x" for x using put_word_spec(1) [OF u6] that e(5) by simp
  have a5: "u5 x = u4 x" if "e \<le> x" for x using put_word_spec(1) [OF u5] that e(5) by simp
  have top: "u7 x = u4 x" if "e \<le> x" for x using a7 [of x] a6 [of x] a5 [of x] that by simp
  have w: "user_word u7 (e + 4 * i) = user_word u4 (e + 4 * i)" for i using user_word_above [OF top] by simp
  have "argv_ok u7 e ws"
    unfolding argv_ok_def w
  proof (intro conjI allI impI)
    show "user_word u4 (e + 4 * ?n) = 0" using u(5) by (simp add: argv_ok_def)
    fix i assume i: "i < ?n"
    have "user_str u4 (user_word u4 (e + 4 * i)) (ws ! i)" "e \<le> user_word u4 (e + 4 * i)" using u(5, 6) i e(8) by (auto simp: argv_ok_def dest!: spec)
    then show "user_str u7 (user_word u4 (e + 4 * i)) (ws ! i)" using user_str_above [of u4 _ _ e u7] top by blast
  qed
  moreover have "user_word u7 (e - 4 - 4 - 4) = 0" using zero_word [OF u7] .
  moreover have "user_word u7 (e - 4 - 4) = ?n" using put_word_spec(2) [OF u6] user_word_above [OF a7] assms(4) by simp
  moreover have "user_word u7 (e - 4) = e"
    using put_word_spec(2) [OF u5] user_word_above [OF a7, of "e - 4"] user_word_above [OF a6, of "e - 4"] e(5, 7) by simp
  moreover have "e - 4 - 4 - 4 + 4 = e - 4 - 4" "e - 4 - 4 - 4 + 8 = e - 4" using e(5) by simp_all
  ultimately show ?thesis unfolding e(6) using run by auto
qed

lemma tokenize_nonnull: "tokenize n m a d save = Some (m', ts) \<Longrightarrow> 0 \<notin> set ts"
proof (induction n arbitrary: m a save ts)
  case 0
  then show ?case by (simp add: tokenize.simps)
next
  case (Suc n)
  then show ?case by (auto simp: tokenize.simps bind_eq_Some_conv split: if_splits)
qed

section \<open>Properties\<close>



end
