(* ===== verification/Loader.thy ===== *)
theory Loader
  imports User_Stack Sup_Page
begin

text \<open>
  Loading an ELF executable, \<open>load\<close> of \<open>userprog/process.c\<close>: the file header, the program headers and the
  entries of the supplementary page table from which the page fault handler later reads the
  segments. A file is its contents. The blocks that \<open>malloc\<close> returns and whether \<open>rehash\<close> gets
  memory are arguments, one pair per page.
\<close>

section \<open>Headers\<close>

record Elf32_Ehdr =
  e_ident :: "byte list"
  e_type :: "16 word"
  e_machine :: "16 word"
  e_version :: "32 word"
  e_entry :: "32 word"
  e_phoff :: "32 word"
  e_shoff :: "32 word"
  e_flags :: "32 word"
  e_ehsize :: "16 word"
  e_phentsize :: "16 word"
  e_phnum :: "16 word"
  e_shentsize :: "16 word"
  e_shnum :: "16 word"
  e_shstrndx :: "16 word"

record Elf32_Phdr =
  p_type :: "32 word"
  p_offset :: "32 word"
  p_vaddr :: "32 word"
  p_paddr :: "32 word"
  p_filesz :: "32 word"
  p_memsz :: "32 word"
  p_flags :: "32 word"
  p_align :: "32 word"

definition PT_NULL :: "32 word" where "PT_NULL = 0"
definition PT_LOAD :: "32 word" where "PT_LOAD = 1"
definition PT_DYNAMIC :: "32 word" where "PT_DYNAMIC = 2"
definition PT_INTERP :: "32 word" where "PT_INTERP = 3"
definition PT_SHLIB :: "32 word" where "PT_SHLIB = 5"
definition PF_W :: "32 word" where "PF_W = 2"
definition PGMASK :: "32 word" where "PGMASK = 0xfff"

definition half :: "byte list \<Rightarrow> nat \<Rightarrow> 16 word" where
  "half bs k = ucast (bs ! k) OR push_bit 8 (ucast (bs ! (k + 1)))"

definition read_ehdr :: "byte list \<Rightarrow> Elf32_Ehdr" where
  "read_ehdr bs = \<lparr>e_ident = take 16 bs, e_type = half bs 16, e_machine = half bs 18, e_version = rd32 ((!) bs) 20,
     e_entry = rd32 ((!) bs) 24, e_phoff = rd32 ((!) bs) 28, e_shoff = rd32 ((!) bs) 32, e_flags = rd32 ((!) bs) 36,
     e_ehsize = half bs 40, e_phentsize = half bs 42, e_phnum = half bs 44, e_shentsize = half bs 46, e_shnum = half bs 48, e_shstrndx = half bs 50\<rparr>"

definition read_phdr :: "byte list \<Rightarrow> Elf32_Phdr" where
  "read_phdr bs = \<lparr>p_type = rd32 ((!) bs) 0, p_offset = rd32 ((!) bs) 4, p_vaddr = rd32 ((!) bs) 8, p_paddr = rd32 ((!) bs) 12,
     p_filesz = rd32 ((!) bs) 16, p_memsz = rd32 ((!) bs) 20, p_flags = rd32 ((!) bs) 24, p_align = rd32 ((!) bs) 28\<rparr>"

definition file_bytes :: "byte list \<Rightarrow> nat \<Rightarrow> nat \<Rightarrow> byte list" where
  "file_bytes file pos n = take n (drop pos file)"

definition header_ok :: "byte list \<Rightarrow> Elf32_Ehdr \<Rightarrow> bool" where
  "header_ok bs ehdr \<longleftrightarrow> length bs = 52 \<and> take 7 (e_ident ehdr) = [0x7f, 0x45, 0x4c, 0x46, 1, 1, 1] \<and> e_type ehdr = 2 \<and>
     e_machine ehdr = 3 \<and> e_version ehdr = 1 \<and> e_phentsize ehdr = 32 \<and> \<not> e_phnum ehdr > 1024"

section \<open>Segments\<close>

abbreviation USER_END :: "32 word" where "USER_END \<equiv> 0xc0000000"

definition validate_segment :: "Elf32_Phdr \<Rightarrow> nat \<Rightarrow> bool" where
  "validate_segment phdr len =
     (if p_offset phdr AND PGMASK \<noteq> p_vaddr phdr AND PGMASK then False
      else if p_offset phdr > word_of_nat len then False
      else if p_memsz phdr < p_filesz phdr then False
      else if p_memsz phdr = 0 then False
      else if \<not> p_vaddr phdr < USER_END then False
      else if \<not> p_vaddr phdr + p_memsz phdr < USER_END then False
      else if p_vaddr phdr + p_memsz phdr < p_vaddr phdr then False
      else True)"

definition ROUND_UP :: "32 word \<Rightarrow> 32 word" where
  "ROUND_UP x = (x + 4096 - 1) div 4096 * 4096"

type_synonym sup_table = "sup_page_table_entry hash"

text \<open>The entry of a page, over the block it is stored in.\<close>

definition exec_entry :: "32 word \<Rightarrow> 32 word \<Rightarrow> 32 word \<Rightarrow> bool \<Rightarrow> 32 word \<Rightarrow> sup_page_table_entry \<Rightarrow> sup_page_table_entry" where
  "exec_entry upage read_bytes offset writable file blk =
     blk\<lparr>user_vaddr := upage, load_executable := True, loaded := False, page_read_bytes := read_bytes, file_ofs := offset,
       spte_writable := writable, file_ptr := file, swapped := False, mmapped := False\<rparr>"

partial_function (option) load_segment_loop ::
  "(nat \<Rightarrow> sup_page_table_entry option \<times> bool) \<Rightarrow> 32 word \<Rightarrow> bool \<Rightarrow> nat \<Rightarrow> 32 word \<Rightarrow> 32 word \<Rightarrow> 32 word \<Rightarrow> 32 word \<Rightarrow> sup_table \<Rightarrow> (nat \<times> sup_table) option" where
  "load_segment_loop mem file writable i offset upage read_bytes zero_bytes t =
     (if read_bytes > 0 \<or> zero_bytes > 0 then do {
        let page_read_bytes = (if read_bytes < 4096 then read_bytes else 4096);
        let page_zero_bytes = 4096 - page_read_bytes;
        blk \<leftarrow> fst (mem i);
        let t = snd (hash_insert (snd (mem i)) t (exec_entry upage page_read_bytes offset writable file blk));
        load_segment_loop mem file writable (i + 1) (offset + page_read_bytes) (upage + 4096)
          (read_bytes - page_read_bytes) (zero_bytes - page_zero_bytes) t
      }
      else Some (i, t))"

definition load_segment ::
  "(nat \<Rightarrow> sup_page_table_entry option \<times> bool) \<Rightarrow> 32 word \<Rightarrow> nat \<Rightarrow> 32 word \<Rightarrow> 32 word \<Rightarrow> 32 word \<Rightarrow> 32 word \<Rightarrow> bool \<Rightarrow> sup_table \<Rightarrow> (nat \<times> sup_table) option" where
  "load_segment mem file i ofs upage read_bytes zero_bytes writable t = do {
     ASSERT ((read_bytes + zero_bytes) mod 4096 = 0);
     ASSERT (upage AND PGMASK = 0);
     ASSERT (ofs mod 4096 = 0);
     load_segment_loop mem file writable i ofs upage read_bytes zero_bytes t
   }"

text \<open>The number of bytes to read and to clear.\<close>

definition segment_bytes :: "Elf32_Phdr \<Rightarrow> 32 word \<times> 32 word" where
  "segment_bytes phdr =
     (let page_offset = p_vaddr phdr AND PGMASK in
      if p_filesz phdr > 0
      then (page_offset + p_filesz phdr, ROUND_UP (page_offset + p_memsz phdr) - (page_offset + p_filesz phdr))
      else (0, ROUND_UP (page_offset + p_memsz phdr)))"

text \<open>One program header; the result says whether to go on.\<close>

definition load_phdr ::
  "(nat \<Rightarrow> sup_page_table_entry option \<times> bool) \<Rightarrow> 32 word \<Rightarrow> nat \<Rightarrow> Elf32_Phdr \<Rightarrow> nat \<Rightarrow> sup_table \<Rightarrow> (bool \<times> nat \<times> sup_table) option" where
  "load_phdr mem file len phdr i t =
     (if p_type phdr = PT_DYNAMIC \<or> p_type phdr = PT_INTERP \<or> p_type phdr = PT_SHLIB then Some (False, i, t)
      else if p_type phdr = PT_LOAD then
        if validate_segment phdr len then do {
          let writable = (p_flags phdr AND PF_W \<noteq> 0);
          let file_page = p_offset phdr AND NOT PGMASK;
          let mem_page = p_vaddr phdr AND NOT PGMASK;
          let (read_bytes, zero_bytes) = segment_bytes phdr;
          (i, t) \<leftarrow> load_segment mem file i file_page mem_page read_bytes zero_bytes writable t;
          Some (True, i, t)
        } else Some (False, i, t)
      else Some (True, i, t))"

text \<open>\<open>ofs\<close> is a signed 32-bit offset; the loop has \<open>n\<close> headers left.\<close>

fun load_phdrs ::
  "(nat \<Rightarrow> sup_page_table_entry option \<times> bool) \<Rightarrow> 32 word \<Rightarrow> byte list \<Rightarrow> nat \<Rightarrow> 32 word \<Rightarrow> nat \<Rightarrow> sup_table \<Rightarrow> (bool \<times> sup_table) option" where
  "load_phdrs mem file bytes 0 ofs i t = Some (True, t)"
| "load_phdrs mem file bytes (Suc n) ofs i t =
     (if sint ofs < 0 \<or> sint ofs > int (length bytes) then Some (False, t)
      else let bs = file_bytes bytes (unat ofs) 32 in
        if length bs \<noteq> 32 then Some (False, t)
        else do {
          (ok, i, t) \<leftarrow> load_phdr mem file (length bytes) (read_phdr bs) i t;
          if ok then load_phdrs mem file bytes n (ofs + 32) i t else Some (False, t)
        })"

text \<open>The part of \<open>load\<close> between opening the file and setting up the stack. The result is the entry point
  of a program that was loaded.\<close>

definition load_program ::
  "(nat \<Rightarrow> sup_page_table_entry option \<times> bool) \<Rightarrow> 32 word \<Rightarrow> byte list \<Rightarrow> sup_table \<Rightarrow> (32 word option \<times> sup_table) option" where
  "load_program mem file bytes t =
     (let bs = file_bytes bytes 0 52; ehdr = read_ehdr bs in
      if \<not> header_ok bs ehdr then Some (None, t)
      else do {
        (ok, t) \<leftarrow> load_phdrs mem file bytes (unat (e_phnum ehdr)) (e_phoff ehdr) 0 t;
        Some (if ok then Some (e_entry ehdr) else None, t)
      })"

end
