(* ===== verification/Loader_Props.thy ===== *)
theory Loader_Props
  imports Loader
begin

text \<open>
  What loading a program leaves in the supplementary page table: a valid segment lies in user
  memory, and each of its pages gets an entry that tells the fault handler which bytes of the
  file to read.
\<close>

section \<open>Valid segments\<close>

lemma page_mask: "PGMASK = mask 12"
  by (simp add: PGMASK_def mask_eq_exp_minus_1)

lemma mask_offset: "unat (x AND PGMASK) = unat x mod 4096" for x :: "32 word"
  by (simp add: page_mask take_bit_eq_mask [symmetric] unsigned_take_bit_eq take_bit_eq_mod unat_mod)

lemma mask_page: "unat (x AND NOT PGMASK) = unat x div 4096 * 4096" for x :: "32 word"
proof -
  have "x AND NOT PGMASK = push_bit 12 (drop_bit 12 x)" unfolding page_mask by (rule bit_word_eqI) (auto simp: bit_simps)
  moreover have "unat (drop_bit 12 x) * 2 ^ 12 \<le> unat x" by (simp add: unat_drop_bit)
  then have "unat (drop_bit 12 x) * 2 ^ 12 < 2 ^ LENGTH(32)" by (rule le_less_trans) (rule unsigned_less)
  ultimately show ?thesis by (simp add: unat_push_bit unat_drop_bit)
qed

text \<open>The pages of a segment: from the page of its first byte up to the page of its last byte.\<close>

definition segment_pages :: "Elf32_Phdr \<Rightarrow> nat" where
  "segment_pages phdr = (unat (p_vaddr phdr) mod 4096 + unat (p_memsz phdr) + 4095) div 4096"

lemma valid_segment:
  assumes "validate_segment phdr len"
  shows "unat (p_vaddr phdr) + unat (p_memsz phdr) < PHYS_BASE" "0 < unat (p_memsz phdr)" "unat (p_filesz phdr) \<le> unat (p_memsz phdr)"
    "unat (p_offset phdr) mod 4096 = unat (p_vaddr phdr) mod 4096" "unat (p_vaddr phdr AND NOT PGMASK) + 4096 * segment_pages phdr \<le> PHYS_BASE"
proof -
  let ?v = "p_vaddr phdr" and ?m = "p_memsz phdr"
  have v: "p_offset phdr AND PGMASK = ?v AND PGMASK" "p_filesz phdr \<le> ?m" "?m \<noteq> 0" "?v + ?m < USER_END" "?v \<le> ?v + ?m"
    using assms by (auto simp: validate_segment_def not_less split: if_splits)
  have s: "unat (?v + ?m) = unat ?v + unat ?m" using v(5) by (metis unat_plus_simple)
  have "unat (?v + ?m) < unat USER_END" using v(4) by (simp only: word_less_nat_alt)
  then show b: "unat ?v + unat ?m < PHYS_BASE" by (simp add: s)
  show "0 < unat ?m" using v(3) by (simp add: unat_gt_0)
  show "unat (p_filesz phdr) \<le> unat ?m" using v(2) by (simp add: word_le_nat_alt)
  show "unat (p_offset phdr) mod 4096 = unat ?v mod 4096" using arg_cong [OF v(1), of unat] by (simp add: mask_offset)
  have "unat ?v div 4096 * 4096 + 4096 * segment_pages phdr = 4096 * (unat ?v div 4096 + (unat ?v mod 4096 + unat ?m + 4095) div 4096)"
    by (simp add: segment_pages_def)
  also have "\<dots> = 4096 * ((4096 * (unat ?v div 4096) + (unat ?v mod 4096 + unat ?m + 4095)) div 4096)" by (simp only: div_mult_self4 [symmetric] mult.commute)
  also have "\<dots> \<le> PHYS_BASE" using b by (simp add: mult_div_mod_eq add.assoc [symmetric])
  finally show "unat (?v AND NOT PGMASK) + 4096 * segment_pages phdr \<le> PHYS_BASE" by (simp add: mask_page)
qed

lemma segment_sizes:
  assumes "validate_segment phdr len" "segment_bytes phdr = (r, z)"
  shows "unat r + unat z = 4096 * segment_pages phdr" "unat r = (if p_filesz phdr > 0 then unat (p_vaddr phdr) mod 4096 + unat (p_filesz phdr) else 0)"
proof -
  let ?o = "p_vaddr phdr AND PGMASK"
  note v = valid_segment [OF assms(1)]
  have o: "unat ?o = unat (p_vaddr phdr) mod 4096" "unat ?o \<le> unat (p_vaddr phdr)" by (simp_all add: mask_offset)
  have om: "unat (?o + p_memsz phdr) = unat ?o + unat (p_memsz phdr)" "unat (?o + p_filesz phdr) = unat ?o + unat (p_filesz phdr)"
    using v(1, 3) o(2) by (auto intro!: unat_plus_less)
  have "unat (?o + p_memsz phdr + 4096 - 1) = unat ?o + unat (p_memsz phdr) + 4095"
  proof -
    have n: "unat (4095 :: 32 word) = 4095" by simp
    have "?o + p_memsz phdr + 4096 - 1 = ?o + p_memsz phdr + 4095" by simp
    moreover have "unat (?o + p_memsz phdr + 4095) = unat (?o + p_memsz phdr) + unat (4095 :: 32 word)" using om v(1) o(2) by (intro unat_plus_less) simp
    ultimately show ?thesis by (simp only: om(1) n)
  qed
  then have "unat (ROUND_UP (?o + p_memsz phdr)) = 4096 * segment_pages phdr"
    using v(1) o unat_mult_less [of "(?o + p_memsz phdr + 4096 - 1) div 4096" 4096]
    by (simp add: ROUND_UP_def unat_div segment_pages_def mask_offset mult.commute)
  moreover have "unat ?o + unat (p_filesz phdr) \<le> 4096 * segment_pages phdr"
    using v(3) o(1) by (simp add: segment_pages_def)
  ultimately show "unat r + unat z = 4096 * segment_pages phdr" "unat r = (if p_filesz phdr > 0 then unat (p_vaddr phdr) mod 4096 + unat (p_filesz phdr) else 0)"
    using assms(2) om(2) o(1) by (auto simp: segment_bytes_def Let_def unat_minus_le word_le_nat_alt split: if_splits)
qed

section \<open>The pages of a segment\<close>

text \<open>The entry of page \<open>k\<close> of a segment with \<open>r\<close> bytes in the file.\<close>

definition segment_entry :: "(nat \<Rightarrow> sup_page_table_entry option \<times> bool) \<Rightarrow> 32 word \<Rightarrow> bool \<Rightarrow> nat \<Rightarrow> 32 word \<Rightarrow> 32 word \<Rightarrow> nat \<Rightarrow> nat \<Rightarrow> sup_page_table_entry" where
  "segment_entry mem file w i ofs upage r k =
     exec_entry (upage + word_of_nat (4096 * k)) (word_of_nat (min (r - 4096 * k) 4096)) (ofs + word_of_nat (min (4096 * k) r)) w file (the (fst (mem (i + k))))"

text \<open>Page \<open>k\<close> of the \<open>n\<close> pages from \<open>v\<close> that holds the address \<open>a\<close>.\<close>

definition page_at :: "32 word \<Rightarrow> nat \<Rightarrow> 32 word \<Rightarrow> nat option" where
  "page_at v n a = (if unat (a - v) mod 4096 = 0 \<and> unat (a - v) < 4096 * n then Some (unat (a - v) div 4096) else None)"

lemma page_at_0 [simp]: "page_at v 0 a = None"
  by (simp add: page_at_def)

lemma page_at_Suc:
  assumes "4096 * Suc n \<le> 2 ^ 32"
  shows "page_at v (Suc n) a = (if a = v then Some 0 else map_option Suc (page_at (v + 4096) n a))"
proof (cases "a = v")
  case False
  define x where "x = unat (a - v)"
  have x: "0 < x" "x < 2 ^ 32" using False unat_less_width [of "a - v"] by (simp_all add: x_def unat_gt_0)
  have f: "unat (4096 :: 32 word) = 4096" by simp
  have y: "unat (a - (v + 4096)) = (if 4096 \<le> x then x - 4096 else 2 ^ 32 + x - 4096)"
  proof -
    have eq: "a - (v + 4096) = (a - v) - 4096" by simp
    show ?thesis unfolding eq using unat_sub_if' [of "a - v" 4096] by (simp add: x_def)
  qed
  show ?thesis
  proof (cases "4096 \<le> x")
    case True
    then have "(x - 4096) mod 4096 = x mod 4096" "x div 4096 = Suc ((x - 4096) div 4096)" by (simp_all add: le_mod_geq le_div_geq)
    then show ?thesis using False True y by (auto simp: page_at_def x_def [symmetric])
  next
    case lt: False
    have "\<not> 2 ^ 32 + x - 4096 < 4096 * n" using assms x by simp
    then show ?thesis using False lt y x by (auto simp: page_at_def x_def [symmetric])
  qed
qed (simp add: page_at_def)

lemma hash_insert_lookup:
  assumes "pt.table_ok t"
  shows "pt.table_ok (snd (hash_insert mo t e))"
    "pt.lookup (snd (hash_insert mo t e)) a = (if pt.lookup t a = None \<and> a = user_vaddr e then Some e else pt.lookup t a)"
  using table_step_refines [OF assms, of mo "Insert e"] by auto

lemma load_segment_loop_spec:
  assumes "unat r + unat z = 4096 * n" "4096 * n \<le> 2 ^ 32" "pt.table_ok t" "\<forall>k. fst (mem k) \<noteq> None"
  shows "\<exists>t'. load_segment_loop mem file w i ofs v r z t = Some (i + n, t') \<and> pt.table_ok t' \<and>
    (\<forall>a. pt.lookup t' a = (case (pt.lookup t a, page_at v n a) of (None, Some k) \<Rightarrow> Some (segment_entry mem file w i ofs v (unat r) k) | _ \<Rightarrow> pt.lookup t a))"
  using assms
proof (induction n arbitrary: i ofs v r z t)
  case 0
  then have "r = 0" "z = 0" by (simp_all add: unat_eq_0)
  then show ?case using 0 by (subst load_segment_loop.simps) (auto split: option.split)
next
  case (Suc n)
  define p where "p = (if r < 4096 then r else 4096)"
  have f: "unat (4096 :: 32 word) = 4096" by simp
  have up: "unat p = min (unat r) 4096" unfolding p_def word_less_nat_alt f by (simp add: f)
  have pl: "p \<le> r" "p \<le> 4096" using up unfolding word_le_nat_alt f by simp_all
  have zl: "4096 - p \<le> z" using Suc.prems(1) up unfolding word_le_nat_alt unat_minus_le [OF pl(2)] f by simp
  have nz: "0 < r \<or> 0 < z" using Suc.prems(1) by (auto simp: word_neq_0_conv [symmetric])
  obtain b where b: "fst (mem i) = Some b" using Suc.prems(4) by blast
  define e where "e = exec_entry v p ofs w file b"
  let ?t = "snd (hash_insert (snd (mem i)) t e)"
  note hi = hash_insert_lookup [OF Suc.prems(3), of "snd (mem i)" e]
  have rz: "unat (r - p) + unat (z - (4096 - p)) = 4096 * n"
    using Suc.prems(1) up by (simp add: unat_minus_le [OF pl(1)] unat_minus_le [OF zl] unat_minus_le [OF pl(2)] f)
  obtain t' where t': "load_segment_loop mem file w (i + 1) (ofs + p) (v + 4096) (r - p) (z - (4096 - p)) ?t = Some (i + 1 + n, t')" "pt.table_ok t'"
    "\<forall>a. pt.lookup t' a = (case (pt.lookup ?t a, page_at (v + 4096) n a) of (None, Some k) \<Rightarrow> Some (segment_entry mem file w (i + 1) (ofs + p) (v + 4096) (unat (r - p)) k) | _ \<Rightarrow> pt.lookup ?t a)"
    using Suc.IH [OF rz _ hi(1) Suc.prems(4), of "i + 1" "ofs + p" "v + 4096"] Suc.prems(2) by auto
  have run: "load_segment_loop mem file w i ofs v r z t = Some (i + Suc n, t')"
    using nz b t'(1) by (subst load_segment_loop.simps) (simp add: Let_def e_def p_def [symmetric])
  have ve: "user_vaddr e = v" by (simp add: e_def exec_entry_def)
  have s0: "segment_entry mem file w i ofs v (unat r) 0 = e"
  proof -
    have "(word_of_nat (min (unat r) 4096) :: 32 word) = p" unfolding up [symmetric] by simp
    then show ?thesis by (simp add: segment_entry_def e_def b)
  qed
  have sS: "segment_entry mem file w (i + 1) (ofs + p) (v + 4096) (unat (r - p)) k = segment_entry mem file w i ofs v (unat r) (Suc k)" for k
  proof -
    have "ofs + p + word_of_nat (min (4096 * k) (unat (r - p))) = ofs + word_of_nat (min (4096 * Suc k) (unat r))"
    proof -
      have "min (4096 * Suc k) (unat r) = unat p + min (4096 * k) (unat (r - p))" unfolding unat_minus_le [OF pl(1)] up by simp
      then show ?thesis by (simp add: algebra_simps)
    qed
    moreover have "min (unat (r - p) - 4096 * k) 4096 = min (unat r - 4096 * Suc k) 4096" unfolding unat_minus_le [OF pl(1)] up by simp
    ultimately show ?thesis by (simp add: segment_entry_def algebra_simps)
  qed
  have "pt.lookup t' a = (case (pt.lookup t a, page_at v (Suc n) a) of (None, Some k) \<Rightarrow> Some (segment_entry mem file w i ofs v (unat r) k) | _ \<Rightarrow> pt.lookup t a)" for a
    using t'(3) hi(2) [of a] ve s0 sS page_at_Suc [OF Suc.prems(2), of v a] by (auto split: option.splits)
  then show ?case using run t'(2) by blast
qed

section \<open>Loading a segment\<close>

lemma load_segment_spec:
  assumes "validate_segment phdr len" "segment_bytes phdr = (r, z)" "pt.table_ok t" "\<forall>k. fst (mem k) \<noteq> None"
  shows "\<exists>t'. load_segment mem file i (p_offset phdr AND NOT PGMASK) (p_vaddr phdr AND NOT PGMASK) r z w t = Some (i + segment_pages phdr, t') \<and> pt.table_ok t' \<and>
    (\<forall>a. pt.lookup t' a = (case (pt.lookup t a, page_at (p_vaddr phdr AND NOT PGMASK) (segment_pages phdr) a) of
       (None, Some k) \<Rightarrow> Some (segment_entry mem file w i (p_offset phdr AND NOT PGMASK) (p_vaddr phdr AND NOT PGMASK) (unat r) k) | _ \<Rightarrow> pt.lookup t a))"
proof -
  note sz = segment_sizes(1) [OF assms(1, 2)] and b = valid_segment(5) [OF assms(1)]
  have le: "4096 * segment_pages phdr \<le> 2 ^ 32" using b by simp
  have lt: "unat r + unat z < 2 ^ 32" using sz b by simp
  have "unat ((r + z) mod 4096) = 0" using lt by (simp add: unat_mod unat_plus_less sz)
  then have 1: "(r + z) mod 4096 = 0" by (simp add: unat_eq_0)
  have 2: "(p_vaddr phdr AND NOT PGMASK) AND PGMASK = 0" by (simp add: bit_eq_iff bit_simps)
  have "unat ((p_offset phdr AND NOT PGMASK) mod 4096) = 0" unfolding unat_mod mask_page by simp
  then have 3: "(p_offset phdr AND NOT PGMASK) mod 4096 = 0" by (simp add: unat_eq_0)
  show ?thesis using load_segment_loop_spec [OF sz le assms(3, 4)] 1 2 3 by (simp add: load_segment_def)
qed

text \<open>C23. A program header of type \<open>PT_LOAD\<close> that \<open>validate_segment\<close> accepts is loaded: no assertion of
  \<open>load_segment\<close> fails, its loop ends, all its pages lie below \<open>PHYS_BASE\<close>, and in the table each
  page that had no entry gets one with the file offset, the number of bytes to read and
  the protection of that page of the segment, while every other entry stays as it was.\<close>

theorem load_phdr_entries:
  assumes "p_type phdr = PT_LOAD" "validate_segment phdr len" "segment_bytes phdr = (r, z)" "pt.table_ok t" "\<forall>k. fst (mem k) \<noteq> None"
  shows "\<exists>t'. load_phdr mem file len phdr i t = Some (True, i + segment_pages phdr, t') \<and> pt.table_ok t' \<and>
    unat (p_vaddr phdr AND NOT PGMASK) + 4096 * segment_pages phdr \<le> PHYS_BASE \<and>
    (\<forall>a. pt.lookup t' a = (case (pt.lookup t a, page_at (p_vaddr phdr AND NOT PGMASK) (segment_pages phdr) a) of
       (None, Some k) \<Rightarrow> Some (segment_entry mem file (p_flags phdr AND PF_W \<noteq> 0) i (p_offset phdr AND NOT PGMASK) (p_vaddr phdr AND NOT PGMASK) (unat r) k)
     | _ \<Rightarrow> pt.lookup t a))"
proof -
  obtain t' where "load_segment mem file i (p_offset phdr AND NOT PGMASK) (p_vaddr phdr AND NOT PGMASK) r z (p_flags phdr AND PF_W \<noteq> 0) t = Some (i + segment_pages phdr, t')"
    "pt.table_ok t'" and t': "\<forall>a. pt.lookup t' a = (case (pt.lookup t a, page_at (p_vaddr phdr AND NOT PGMASK) (segment_pages phdr) a) of
       (None, Some k) \<Rightarrow> Some (segment_entry mem file (p_flags phdr AND PF_W \<noteq> 0) i (p_offset phdr AND NOT PGMASK) (p_vaddr phdr AND NOT PGMASK) (unat r) k)
     | _ \<Rightarrow> pt.lookup t a)"
    using load_segment_spec [OF assms(2-5)] by blast
  then have "load_phdr mem file len phdr i t = Some (True, i + segment_pages phdr, t') \<and> pt.table_ok t'"
    using assms(1-3) by (simp add: load_phdr_def PT_LOAD_def PT_DYNAMIC_def PT_INTERP_def PT_SHLIB_def Let_def)
  then show ?thesis using t' valid_segment(5) [OF assms(2)] by blast
qed

text \<open>A segment of 16 bytes in the file and of 4112 bytes in memory.\<close>

definition sample_phdr :: Elf32_Phdr where
  "sample_phdr = \<lparr>p_type = 1, p_offset = 0x1000, p_vaddr = 0x8048000, p_paddr = 0x8048000, p_filesz = 0x10, p_memsz = 0x1010, p_flags = 6, p_align = 0x1000\<rparr>"

theorem load_phdr_entries_witness:
  "\<exists>t t'. page_init True = Some t \<and>
     load_phdr (\<lambda>k. (Some (blank_entry 0), True)) 7 8192 sample_phdr 0 t = Some (True, 2, t') \<and>
     map_option (\<lambda>e. (page_read_bytes e, Sup_Page.file_ofs e, spte_writable e)) (pt.lookup t' 0x8048000) = Some (16, 0x1000, True) \<and>
     map_option (\<lambda>e. (page_read_bytes e, Sup_Page.file_ofs e, spte_writable e)) (pt.lookup t' 0x8049000) = Some (0, 0x1010, True) \<and>
     pt.lookup t' 0x804a000 = None"
proof -
  obtain t where t: "page_init True = Some t" by (simp add: page_init_def hash_init_def)
  note ok = page_init_ok [OF t]
  have ty: "p_type sample_phdr = PT_LOAD" by (simp add: sample_phdr_def PT_LOAD_def)
  have v: "validate_segment sample_phdr 8192" by (simp add: validate_segment_def sample_phdr_def PGMASK_def)
  have z: "segment_bytes sample_phdr = (16, 0x1ff0)" by (simp add: segment_bytes_def sample_phdr_def PGMASK_def ROUND_UP_def)
  have n: "segment_pages sample_phdr = 2" by (simp add: segment_pages_def sample_phdr_def)
  have a: "p_vaddr sample_phdr AND NOT PGMASK = 0x8048000" "p_offset sample_phdr AND NOT PGMASK = 0x1000" "p_flags sample_phdr AND PF_W = 2"
    by (simp_all add: sample_phdr_def PGMASK_def PF_W_def)
  show ?thesis
    using load_phdr_entries [OF ty v z conjunct1 [OF ok], of "\<lambda>k. (Some (blank_entry 0), True)" 7 0] t conjunct2 [OF ok]
    unfolding n a by (auto simp: page_at_def segment_entry_def exec_entry_def)
qed

section \<open>Loading a program\<close>

text \<open>What an entry for a page of an executable looks like.\<close>

definition exec_page :: "sup_page_table_entry \<Rightarrow> 32 word \<Rightarrow> bool" where
  "exec_page e a \<longleftrightarrow> user_vaddr e = a \<and> unat a mod 4096 = 0 \<and> unat a + 4096 \<le> PHYS_BASE \<and>
     load_executable e \<and> \<not> loaded e \<and> \<not> swapped e \<and> \<not> mmapped e \<and> unat (page_read_bytes e) \<le> 4096"

text \<open>The table \<open>t'\<close> is \<open>t\<close> with more pages of executables.\<close>

definition loads_pages :: "sup_table \<Rightarrow> sup_table \<Rightarrow> bool" where
  "loads_pages t t' \<longleftrightarrow> pt.table_ok t' \<and> (\<forall>a e. pt.lookup t a = Some e \<longrightarrow> pt.lookup t' a = Some e) \<and>
     (\<forall>a e. pt.lookup t a = None \<and> pt.lookup t' a = Some e \<longrightarrow> exec_page e a)"

lemma loads_pages_refl: "pt.table_ok t \<Longrightarrow> loads_pages t t"
  by (auto simp: loads_pages_def)

lemma loads_pages_trans: "loads_pages t t' \<Longrightarrow> loads_pages t' t'' \<Longrightarrow> loads_pages t t''"
  unfolding loads_pages_def by (metis not_Some_eq option.inject)

lemma segment_entry_page:
  assumes "page_at v n a = Some k" "unat v mod 4096 = 0" "unat v + 4096 * n \<le> PHYS_BASE"
  shows "exec_page (segment_entry mem file w i ofs v r k) a"
proof -
  define x where "x = unat (a - v)"
  have x: "x = 4096 * k" "k < n" using assms(1) by (auto simp: page_at_def x_def [symmetric] split: if_splits)
  have av: "a - v = word_of_nat (4096 * k)" unfolding x(1) [symmetric] x_def by simp
  then have a: "v + 4096 * word_of_nat k = a" by (simp add: algebra_simps)
  have "unat a = unat (v + (a - v))" by simp
  also have "\<dots> = unat v + x" unfolding x_def by (rule unat_plus_less) (use x assms(3) in \<open>simp add: x_def [symmetric]\<close>)
  finally have ua: "unat a = unat v + 4096 * k" using x by simp
  have "unat (word_of_nat (min (r - 4096 * k) 4096) :: 32 word) = min (r - 4096 * k) 4096"
    by (simp add: unat_of_nat)
  then show ?thesis using ua assms(2, 3) x(2) by (simp add: exec_page_def segment_entry_def exec_entry_def a)
qed

lemma load_phdr_loads:
  assumes "pt.table_ok t" "\<forall>k. fst (mem k) \<noteq> None"
  shows "\<exists>ok i' t'. load_phdr mem file len phdr i t = Some (ok, i', t') \<and> loads_pages t t'"
proof (cases "p_type phdr = PT_LOAD \<and> validate_segment phdr len")
  case True
  obtain r z where rz: "segment_bytes phdr = (r, z)" by fastforce
  let ?w = "p_flags phdr AND PF_W \<noteq> 0" and ?f = "p_offset phdr AND NOT PGMASK" and ?v = "p_vaddr phdr AND NOT PGMASK"
  obtain t' where l: "load_segment mem file i ?f ?v r z ?w t = Some (i + segment_pages phdr, t')" and ok: "pt.table_ok t'"
    and t': "\<forall>a. pt.lookup t' a = (case (pt.lookup t a, page_at ?v (segment_pages phdr) a) of
       (None, Some k) \<Rightarrow> Some (segment_entry mem file ?w i ?f ?v (unat r) k) | _ \<Rightarrow> pt.lookup t a)"
    using load_segment_spec [OF conjunct2 [OF True] rz assms, where w = ?w] by blast
  have run: "load_phdr mem file len phdr i t = Some (True, i + segment_pages phdr, t')"
    using l True rz by (simp add: load_phdr_def PT_LOAD_def PT_DYNAMIC_def PT_INTERP_def PT_SHLIB_def Let_def)
  have v: "unat ?v mod 4096 = 0" unfolding mask_page by simp
  have keep: "pt.lookup t' a = Some e" if "pt.lookup t a = Some e" for a e using t' that by simp
  have new: "exec_page e a" if n: "pt.lookup t a = None" "pt.lookup t' a = Some e" for a e
  proof -
    obtain k where "page_at ?v (segment_pages phdr) a = Some k" "e = segment_entry mem file ?w i ?f ?v (unat r) k"
      using t' [rule_format, of a] n by (cases "page_at ?v (segment_pages phdr) a") simp_all
    then show ?thesis using segment_entry_page [OF _ v valid_segment(5) [OF conjunct2 [OF True]]] by simp
  qed
  have "loads_pages t t'" unfolding loads_pages_def using ok keep new by blast
  then show ?thesis using run by blast
next
  case False
  then show ?thesis using loads_pages_refl [OF assms(1)] by (auto simp: load_phdr_def)
qed

lemma load_phdrs_loads:
  assumes "pt.table_ok t" "\<forall>k. fst (mem k) \<noteq> None"
  shows "\<exists>ok t'. load_phdrs mem file bytes n ofs i t = Some (ok, t') \<and> loads_pages t t'"
  using assms
proof (induction n arbitrary: ofs i t)
  case 0
  then show ?case using loads_pages_refl [OF 0(1)] by auto
next
  case (Suc n)
  obtain ok i' t' where p: "load_phdr mem file (length bytes) (read_phdr (file_bytes bytes (unat ofs) 32)) i t = Some (ok, i', t')" "loads_pages t t'"
    using load_phdr_loads [OF Suc.prems] by blast
  have "pt.table_ok t'" using p(2) by (simp add: loads_pages_def)
  then obtain ok2 t2 where r: "load_phdrs mem file bytes n (ofs + 32) i' t' = Some (ok2, t2)" "loads_pages t' t2"
    using Suc.IH Suc.prems(2) by blast
  have "loads_pages t t2" using p(2) r(2) by (rule loads_pages_trans)
  then show ?case using p r loads_pages_refl [OF Suc.prems(1)] by (simp add: Let_def) blast
qed


text \<open>An executable of one segment.\<close>

definition sample_elf :: "byte list" where
  "sample_elf =
    [0x7f, 0x45, 0x4c, 0x46, 1, 1, 1, 0, 0, 0, 0, 0, 0, 0, 0, 0,  2, 0, 3, 0, 1, 0, 0, 0, 0x54, 0x80, 0x04, 0x08,
     52, 0, 0, 0, 0, 0, 0, 0, 0, 0, 0, 0, 52, 0, 32, 0, 1, 0, 0, 0, 0, 0, 0, 0,
     1, 0, 0, 0, 0, 0, 0, 0, 0, 0x80, 0x04, 0x08, 0, 0x80, 0x04, 0x08, 84, 0, 0, 0, 84, 0, 0, 0, 5, 0, 0, 0, 0, 0x10, 0, 0]"


end
