(* ===== verification/Syscall.thy ===== *)
theory Syscall
  imports Swap Directory
begin

text \<open>
  The system calls on files, directories and mapped files, \<open>userprog/syscall.c\<close>. The state is that of the current process (its open
  files and current directory) with the memory, file system and locks that all share. A
  file is an object in the heap \<open>vm_files\<close>, named by its address; the address that \<open>calloc\<close> returns for a new one is an
  argument. Strings and buffers are given by their bytes: that they are read and written through user
  addresses shows only in the checks of the pointers. A call returns a value, ends the process
  with status -1, or sleeps until a key is pressed.
\<close>

section \<open>State\<close>

record fd_elem =
  fde_fd :: int
  fde_file :: "32 word"
  fde_dir :: "dir option"
  fde_vaddr :: "32 word"
  fde_mmapped :: bool
  fde_isdir :: bool
  fde_mapid :: int

record sys =
  sys_vm :: vm
  fd_list :: "fd_elem list"
  curr_dir :: "dir option"
  next_fd :: int
  next_mid :: int
  console :: "byte list"
  keys :: "byte list"

datatype 'a outcome = Ret 'a sys | Exits sys | Sleeps sys

abbreviation sys_fs :: "sys \<Rightarrow> filesys" where "sys_fs s \<equiv> vm_fs (sys_vm s)"
abbreviation sys_file :: "sys \<Rightarrow> 32 word \<Rightarrow> open_file option" where "sys_file s \<equiv> vm_files (sys_vm s)"

definition set_fs :: "filesys \<Rightarrow> sys \<Rightarrow> sys" where
  "set_fs fs s = s\<lparr>sys_vm := (sys_vm s)\<lparr>vm_fs := fs\<rparr>\<rparr>"

definition set_file :: "32 word \<Rightarrow> open_file option \<Rightarrow> sys \<Rightarrow> sys" where
  "set_file p f s = s\<lparr>sys_vm := (sys_vm s)\<lparr>vm_files := (vm_files (sys_vm s))(p := f)\<rparr>\<rparr>"

definition acquire_fs :: "sys \<Rightarrow> sys option" where
  "acquire_fs s = do { ASSERT (\<not> filesys_lock (sys_vm s)); Some (s\<lparr>sys_vm := (sys_vm s)\<lparr>filesys_lock := True\<rparr>\<rparr>) }"

definition release_fs :: "sys \<Rightarrow> sys option" where
  "release_fs s = do { ASSERT (filesys_lock (sys_vm s)); Some (s\<lparr>sys_vm := (sys_vm s)\<lparr>filesys_lock := False\<rparr>\<rparr>) }"

section \<open>Checks and tables\<close>

definition check_userptr :: "nat \<Rightarrow> sys \<Rightarrow> bool option" where
  "check_userptr p s =
     (if p = 0 then Some False
      else if \<not> is_user_vaddr p then Some False
      else do {
        k \<leftarrow> pagedir_get_page (pagedir (sys_vm s) (current (sys_vm s))) p (vm_mmu (sys_vm s));
        Some (k \<noteq> 0)
      })"

definition fd_list_iter :: "fd_elem list \<Rightarrow> int \<Rightarrow> fd_elem option" where
  "fd_list_iter fds fd = find (\<lambda>e. fde_fd e = fd) fds"

definition allocate_fd :: "sys \<Rightarrow> int \<times> sys" where
  "allocate_fd s = (next_fd s, s\<lparr>next_fd := s32 (next_fd s + 1)\<rparr>)"

definition allocate_mid :: "sys \<Rightarrow> int \<times> sys" where
  "allocate_mid s = (next_mid s, s\<lparr>next_mid := s32 (next_mid s + 1)\<rparr>)"

section \<open>Files by name\<close>

definition sys_create :: "bool \<Rightarrow> byte list \<Rightarrow> disk_sector option \<Rightarrow> nat \<Rightarrow> byte list \<Rightarrow> 32 word \<Rightarrow> sys \<Rightarrow> bool outcome option" where
  "sys_create mem_ok junk inode0 ptr name initial_size s = do {
     ok \<leftarrow> check_userptr ptr s;
     if \<not> ok then Some (Exits s)
     else if length name > 14 then Some (Ret False s)
     else do {
       s \<leftarrow> acquire_fs s;
       (f, fs) \<leftarrow> filesys_open mem_ok (curr_dir s) inode0 name (sys_fs s);
       let s = set_fs fs s;
       if f = None then do {
         (result, fs) \<leftarrow> filesys_create mem_ok junk (curr_dir s) inode0 name (sint initial_size) (sys_fs s);
         s \<leftarrow> release_fs (set_fs fs s);
         Some (Ret result s)
       } else do {
         s \<leftarrow> release_fs s;
         Some (Ret False s)
       }
     }
   }"

definition sys_remove :: "bool \<Rightarrow> disk_sector option \<Rightarrow> nat \<Rightarrow> byte list \<Rightarrow> sys \<Rightarrow> bool outcome option" where
  "sys_remove mem_ok inode0 ptr name s = do {
     ok \<leftarrow> check_userptr ptr s;
     if \<not> ok then Some (Exits s)
     else do {
       s \<leftarrow> acquire_fs s;
       (result, fs) \<leftarrow> filesys_remove mem_ok (curr_dir s) inode0 name (sys_fs s);
       s \<leftarrow> release_fs (set_fs fs s);
       Some (Ret result s)
     }
   }"

text \<open>\<open>new\<close> is the address of the new file.\<close>

definition sys_open :: "bool \<Rightarrow> 32 word \<Rightarrow> disk_sector option \<Rightarrow> nat \<Rightarrow> byte list \<Rightarrow> sys \<Rightarrow> int outcome option" where
  "sys_open mem_ok new inode0 ptr name s =
     (if \<not> check_userptr_pf ptr then Some (Exits s)
      else if name = [] then Some (Ret (-1) s)
      else do {
        s \<leftarrow> acquire_fs s;
        (r, fs) \<leftarrow> filesys_open mem_ok (curr_dir s) inode0 name (sys_fs s);
        let s = set_fs fs s;
        case r of
          Some f \<Rightarrow> do {
            let s = set_file new (Some f) s;
            let (fd, s) = allocate_fd s;
            ASSERT mem_ok;
            n \<leftarrow> get_inode (sys_fs s) (file_get_inode f);
            (d, fs) \<leftarrow> (if inode_get_isdir n then dir_open mem_ok (Some (file_get_inode f)) (sys_fs s) else Some (None, sys_fs s));
            let s = set_fs fs s;
            let e = \<lparr>fde_fd = fd, fde_file = new, fde_dir = d, fde_vaddr = 0, fde_mmapped = False, fde_isdir = inode_get_isdir n, fde_mapid = 0\<rparr>;
            s \<leftarrow> release_fs (s\<lparr>fd_list := fd_list s @ [e]\<rparr>);
            Some (Ret fd s)
          }
        | None \<Rightarrow> do { s \<leftarrow> release_fs s; Some (Ret (-1) s) }
      })"

section \<open>Open files\<close>

definition sys_filesize :: "int \<Rightarrow> sys \<Rightarrow> int outcome option" where
  "sys_filesize fd s =
     (case fd_list_iter (fd_list s) fd of
        None \<Rightarrow> Some (Ret 0 s)
      | Some e \<Rightarrow> do {
          s \<leftarrow> acquire_fs s;
          f \<leftarrow> sys_file s (fde_file e);
          n \<leftarrow> file_length f (sys_fs s);
          s \<leftarrow> release_fs s;
          Some (Ret n s)
        })"

text \<open>The result is the return value and the bytes stored in the buffer; a key is read and thrown away.\<close>

definition sys_read :: "bool \<Rightarrow> int \<Rightarrow> nat \<Rightarrow> 32 word \<Rightarrow> sys \<Rightarrow> (int \<times> byte list) outcome option" where
  "sys_read mem_ok fd buffer sz s =
     (if \<not> check_userptr_pf buffer then Some (Exits s)
      else if fd = 0 then (case keys s of [] \<Rightarrow> Some (Sleeps s) | k # ks \<Rightarrow> Some (Ret (1, []) (s\<lparr>keys := ks\<rparr>)))
      else case fd_list_iter (fd_list s) fd of
        None \<Rightarrow> Some (Ret (-1, []) s)
      | Some e \<Rightarrow> do {
          s \<leftarrow> acquire_fs s;
          f \<leftarrow> sys_file s (fde_file e);
          (bs, f) \<leftarrow> file_read mem_ok f (sint sz) (sys_fs s);
          s \<leftarrow> release_fs (set_file (fde_file e) (Some f) s);
          Some (Ret (int (length bs), bs) s)
        })"

text \<open>\<open>bytes\<close> is what the buffer holds.\<close>

definition sys_write :: "bool \<Rightarrow> int \<Rightarrow> nat \<Rightarrow> byte list \<Rightarrow> 32 word \<Rightarrow> sys \<Rightarrow> int outcome option" where
  "sys_write mem_ok fd buffer bytes sz s = do {
     ok \<leftarrow> check_userptr buffer s;
     if \<not> ok then Some (Exits s)
     else if fd = 1 then Some (Ret (sint sz) (s\<lparr>console := console s @ take (unat sz) bytes\<rparr>))
     else case fd_list_iter (fd_list s) fd of
       None \<Rightarrow> Some (Ret (-1) s)
     | Some e \<Rightarrow> do {
         s \<leftarrow> acquire_fs s;
         f \<leftarrow> sys_file s (fde_file e);
         _ \<leftarrow> file_length f (sys_fs s);
         (result, s) \<leftarrow>
           (if fde_isdir e then Some (-1, s)
            else do {
              (n, f, fs) \<leftarrow> file_write mem_ok f bytes (sint sz) (sys_fs s);
              Some (n, set_file (fde_file e) (Some f) (set_fs fs s))
            });
         s \<leftarrow> release_fs s;
         Some (Ret result s)
       }
   }"

definition sys_seek :: "int \<Rightarrow> 32 word \<Rightarrow> sys \<Rightarrow> unit outcome option" where
  "sys_seek fd position s =
     (case fd_list_iter (fd_list s) fd of
        None \<Rightarrow> Some (Ret () s)
      | Some e \<Rightarrow> do {
          s \<leftarrow> acquire_fs s;
          f \<leftarrow> sys_file s (fde_file e);
          f \<leftarrow> file_seek f (sint position);
          s \<leftarrow> release_fs (set_file (fde_file e) (Some f) s);
          Some (Ret () s)
        })"

definition sys_tell :: "int \<Rightarrow> sys \<Rightarrow> int outcome option" where
  "sys_tell fd s =
     (case fd_list_iter (fd_list s) fd of
        None \<Rightarrow> Some (Ret 0 s)
      | Some e \<Rightarrow> do {
          s \<leftarrow> acquire_fs s;
          f \<leftarrow> sys_file s (fde_file e);
          s \<leftarrow> release_fs s;
          Some (Ret (file_tell f) s)
        })"

definition sys_isdir :: "int \<Rightarrow> sys \<Rightarrow> bool outcome option" where
  "sys_isdir fd s = Some (Ret (case fd_list_iter (fd_list s) fd of Some e \<Rightarrow> fde_isdir e | None \<Rightarrow> False) s)"

definition sys_inumber :: "int \<Rightarrow> sys \<Rightarrow> int outcome option" where
  "sys_inumber fd s =
     (case fd_list_iter (fd_list s) fd of
        None \<Rightarrow> Some (Ret (-1) s)
      | Some e \<Rightarrow> do {
          f \<leftarrow> sys_file s (fde_file e);
          n \<leftarrow> get_inode (sys_fs s) (file_get_inode f);
          Some (Ret (int (unat (inode_get_inumber n))) s)
        })"

text \<open>A missing descriptor is followed before it is checked, and so is the null pointer for a file that is no directory.\<close>

definition sys_readdir :: "bool \<Rightarrow> int \<Rightarrow> sys \<Rightarrow> byte list option outcome option" where
  "sys_readdir mem_ok fd s = do {
     e \<leftarrow> fd_list_iter (fd_list s) fd;
     d \<leftarrow> fde_dir e;
     (name, d) \<leftarrow> dir_readdir mem_ok (sys_fs s) d;
     Some (Ret name (s\<lparr>fd_list := map (\<lambda>x. if x = e then x\<lparr>fde_dir := Some d\<rparr> else x) (fd_list s)\<rparr>))
   }"

section \<open>Directories\<close>

definition sys_chdir :: "bool \<Rightarrow> disk_sector option \<Rightarrow> byte list \<Rightarrow> sys \<Rightarrow> bool outcome option" where
  "sys_chdir mem_ok inode0 name s = do {
     (found, p, fs) \<leftarrow> dir_lookup mem_ok (curr_dir s) (curr_dir s) name inode0 (sys_fs s);
     if found then do {
       (d, fs) \<leftarrow> dir_open mem_ok p fs;
       fs \<leftarrow> dir_close (curr_dir s) fs;
       Some (Ret True ((set_fs fs s)\<lparr>curr_dir := d\<rparr>))
     } else Some (Ret False (set_fs fs s))
   }"

definition sys_mkdir :: "bool \<Rightarrow> byte list \<Rightarrow> disk_sector option \<Rightarrow> byte list \<Rightarrow> sys \<Rightarrow> bool outcome option" where
  "sys_mkdir mem_ok junk inode0 name s = do {
     (found, _, fs) \<leftarrow> dir_lookup mem_ok (curr_dir s) (curr_dir s) name inode0 (sys_fs s);
     if found then Some (Ret False (set_fs fs s))
     else do {
       ASSERT mem_ok;
       (path, file_name) \<leftarrow> parse_path mem_ok name;
       (found, p, fs) \<leftarrow> dir_lookup mem_ok (curr_dir s) (curr_dir s) path inode0 fs;
       if \<not> found then Some (Ret False (set_fs fs s))
       else do {
         (d, fs) \<leftarrow> dir_open mem_ok p fs;
         (sec, b) \<leftarrow> free_map_allocate (free_map_file fs) 1 (free_map fs);
         let fs = fs\<lparr>free_map := b\<rparr>;
         (_, fs) \<leftarrow> dir_create mem_ok junk d (case sec of None \<Rightarrow> 0 | Some x \<Rightarrow> of_nat x) 1 file_name fs;
         old \<leftarrow> curr_dir s;
         new \<leftarrow> d;
         a \<leftarrow> get_inode fs (dir_get_inode old);
         b \<leftarrow> get_inode fs (dir_get_inode new);
         fs \<leftarrow> (if inode_get_inumber a \<noteq> inode_get_inumber b then dir_close d fs else Some fs);
         Some (Ret True (set_fs fs s))
       }
     }
   }"

section \<open>Mapped files\<close>

text \<open>Loading one page of a mapped file. When there is no page even after an eviction, the read goes through a null
  pointer; the process then exits and unmaps its files with the lock it holds, which stops the kernel.\<close>

definition user_page :: "vm \<Rightarrow> (nat \<times> vm) option" where
  "user_page v = do {
     (kpage, p) \<leftarrow> palloc_get_page {PAL_USER} (phys (vm_mmu v));
     Some (kpage, v\<lparr>vm_mmu := (vm_mmu v)\<lparr>phys := p\<rparr>\<rparr>)
   }"

definition free_user_page :: "nat \<Rightarrow> vm \<Rightarrow> vm option" where
  "free_user_page kpage v = do {
     p \<leftarrow> palloc_free_page kpage (phys (vm_mmu v));
     Some (v\<lparr>vm_mmu := (vm_mmu v)\<lparr>phys := p\<rparr>\<rparr>)
   }"

definition lazy_file_map :: "bool \<Rightarrow> spte_ref \<Rightarrow> vm \<Rightarrow> vm option" where
  "lazy_file_map mem_ok ref v = do {
     (kpage, v) \<leftarrow> user_page v;
     (kpage, v) \<leftarrow> (if kpage = 0 then do { (_, v) \<leftarrow> swap_out mem_ok v; user_page v } else Some (kpage, v));
     ASSERT (kpage \<noteq> 0);
     e \<leftarrow> spt v ref;
     (n, v) \<leftarrow> read_page mem_ok e kpage v;
     v \<leftarrow> (if n \<noteq> sint (page_read_bytes e) then free_user_page kpage v else Some v);
     let v = clear_rest e kpage v;
     k \<leftarrow> pagedir_get_page (pagedir v (current v)) (unat (user_vaddr e)) (vm_mmu v);
     v \<leftarrow> (if k = 0 then do {
            (_, m) \<leftarrow> pagedir_set_page (pagedir v (current v)) (unat (user_vaddr e)) kpage (spte_writable e) (vm_mmu v);
            Some (v\<lparr>vm_mmu := m\<rparr>)
          } else Some v);
     v \<leftarrow> allocate_frame mem_ok kpage (Some ref) v;
     Some (set_spte ref (e\<lparr>loaded := True\<rparr>) v)
   }"

text \<open>Only the first page of a mapping is loaded before its file is closed and freed.\<close>

definition sys_close :: "bool \<Rightarrow> int \<Rightarrow> sys \<Rightarrow> unit outcome option" where
  "sys_close mem_ok fd s = do {
     s \<leftarrow> acquire_fs s;
     s \<leftarrow>
       (case fd_list_iter (fd_list s) fd of
          None \<Rightarrow> Some s
        | Some t \<Rightarrow> do {
            let ref = (current (sys_vm s), fde_vaddr t);
            v \<leftarrow> (case spt (sys_vm s) ref of
                   Some e \<Rightarrow> if fde_mmapped t \<and> \<not> loaded e then lazy_file_map mem_ok ref (sys_vm s) else Some (sys_vm s)
                 | None \<Rightarrow> Some (sys_vm s));
            let s = s\<lparr>sys_vm := v\<rparr>;
            f \<leftarrow> sys_file s (fde_file t);
            fs \<leftarrow> file_close (Some f) (sys_fs s);
            Some ((set_file (fde_file t) None (set_fs fs s))\<lparr>fd_list := remove1 t (fd_list s)\<rparr>)
          });
     s \<leftarrow> release_fs s;
     Some (Ret () s)
   }"

text \<open>\<open>block\<close> is what \<open>malloc\<close> returns for the entry of a page: the fields that are not set keep what it holds.\<close>

definition mmap_entry :: "sup_page_table_entry \<Rightarrow> fd_elem \<Rightarrow> 32 word \<Rightarrow> int \<Rightarrow> int \<Rightarrow> int \<Rightarrow> sup_page_table_entry" where
  "mmap_entry block' t addr n ofs cnt = block'\<lparr>user_vaddr := addr, load_executable := False, loaded := False, swapped := False,
     spte_writable := True, page_read_bytes := word_of_int n, file_ofs := word_of_int ofs, mmapped := True,
     mid := word_of_int (fde_mapid t), spte_fd := word_of_int (fde_fd t), file_ptr := fde_file t, page_cnt := word_of_int cnt\<rparr>"

text \<open>\<open>hash_insert\<close> keeps an entry that is already there.\<close>

function mmap_loop :: "(32 word \<Rightarrow> sup_page_table_entry) \<Rightarrow> fd_elem \<Rightarrow> int \<Rightarrow> int \<Rightarrow> int \<Rightarrow> 32 word \<Rightarrow> vm \<Rightarrow> vm" where
  "mmap_loop new t cnt file_len ofs addr v =
     (if 0 < file_len then
        let n = (if file_len < 4096 then file_len else 4096);
            ref = (current v, addr);
            v = (if spt v ref = None then set_spte ref (mmap_entry (new addr) t addr n ofs cnt) v else v)
        in mmap_loop new t cnt (file_len - n) (ofs + n) (addr + 4096) v
      else v)"
  by pat_completeness auto
termination
  by (relation "measure (\<lambda>(_, _, _, file_len, _). nat file_len)") auto

declare mmap_loop.simps [simp del]

definition sys_mmap :: "(32 word \<Rightarrow> sup_page_table_entry) \<Rightarrow> int \<Rightarrow> 32 word \<Rightarrow> sys \<Rightarrow> int outcome option" where
  "sys_mmap new fd addr s =
     (if fd = 0 \<or> fd = 1 then Some (Ret (-1) s)
      else if sint addr smod 4096 \<noteq> 0 then Some (Ret (-1) s)
      else if addr = 0 then Some (Ret (-1) s)
      else case fd_list_iter (fd_list s) fd of
        None \<Rightarrow> Some (Ret (-1) s)
      | Some t \<Rightarrow> do {
          s \<leftarrow> acquire_fs s;
          f \<leftarrow> sys_file s (fde_file t);
          file_len \<leftarrow> file_length f (sys_fs s);
          s \<leftarrow> release_fs s;
          if file_len = 0 then Some (Ret (-1) s)
          else do {
            let cnt = file_len sdiv 4096 + (if file_len smod 4096 \<noteq> 0 then 1 else 0);
            if \<exists>i\<in>set [0..<nat cnt]. spt (sys_vm s) (current (sys_vm s), addr + of_nat i * 4096) \<noteq> None then Some (Ret (-1) s)
            else if addr = 0xbffff000 then Some (Ret (-1) s)
            else do {
              let (m, s) = allocate_mid s;
              let t' = t\<lparr>fde_mmapped := True, fde_mapid := m, fde_vaddr := addr\<rparr>;
              let s = s\<lparr>fd_list := map (\<lambda>x. if x = t then t' else x) (fd_list s)\<rparr>;
              Some (Ret m (s\<lparr>sys_vm := mmap_loop new t' cnt file_len 0 addr (sys_vm s)\<rparr>))
            }
          }
        })"

text \<open>The bytes at a user address, with the page faults that reading them takes; \<open>None\<close> for the bytes says that the
  process ended in one.\<close>

fun read_user_pf :: "bool \<Rightarrow> sup_page_table_entry \<Rightarrow> 32 word \<Rightarrow> nat \<Rightarrow> nat \<Rightarrow> vm \<Rightarrow> (byte list option \<times> vm) option" where
  "read_user_pf mem_ok blank esp a 0 v = Some (Some [], v)"
| "read_user_pf mem_ok blank esp a (Suc n) v = do {
     k \<leftarrow> pagedir_get_page (pagedir v (current v)) a (vm_mmu v);
     if k \<noteq> 0 then do {
       (bs, v') \<leftarrow> read_user_pf mem_ok blank esp (a + 1) n v;
       Some (map_option (\<lambda>bs. vm_ram v k # bs) bs, v')
     } else do {
       r \<leftarrow> page_fault mem_ok blank False esp a v;
       case r of
         Exit \<Rightarrow> Some (None, v)
       | Restart v \<Rightarrow> do {
           k \<leftarrow> pagedir_get_page (pagedir v (current v)) a (vm_mmu v);
           ASSERT (k \<noteq> 0);
           (bs, v') \<leftarrow> read_user_pf mem_ok blank esp (a + 1) n v;
           Some (map_option (\<lambda>bs. vm_ram v k # bs) bs, v')
         }
     }
   }"

text \<open>The pages of a mapping: all are written when the first one is marked as modified. A process that ends in a page
  fault here holds the lock of the file system, and stops the kernel when it unmaps its files.\<close>

definition munmap_write :: "bool \<Rightarrow> sup_page_table_entry \<Rightarrow> 32 word \<Rightarrow> sup_page_table_entry \<Rightarrow> int \<Rightarrow> 32 word \<Rightarrow> int \<Rightarrow> vm \<Rightarrow> vm option" where
  "munmap_write mem_ok blank esp e n vaddr ofs v = do {
     f \<leftarrow> vm_files v (file_ptr e);
     (bs, v) \<leftarrow> read_user_pf mem_ok blank esp (unat vaddr) (nat n) v;
     bs \<leftarrow> bs;
     (_, fs) \<leftarrow> file_write_at mem_ok f bs n ofs (vm_fs v);
     Some (v\<lparr>vm_fs := fs\<rparr>)
   }"

fun munmap_loop :: "bool \<Rightarrow> sup_page_table_entry \<Rightarrow> 32 word \<Rightarrow> spte_ref \<Rightarrow> nat \<Rightarrow> int \<Rightarrow> 32 word \<Rightarrow> int \<Rightarrow> vm \<Rightarrow> vm option" where
  "munmap_loop mem_ok blank esp ref 0 file_len vaddr ofs v = Some v"
| "munmap_loop mem_ok blank esp ref (Suc m) file_len vaddr ofs v = do {
     let n = (if file_len < 4096 then file_len else 4096);
     e \<leftarrow> spt v ref;
     v \<leftarrow> (if spte_dirty e then munmap_write mem_ok blank esp e n vaddr ofs v else Some v);
     e \<leftarrow> spt v ref;
     let v = set_spte ref (e\<lparr>mid := 0\<rparr>) v;
     p \<leftarrow> pagedir_clear_page (pagedir v (current v)) (unat vaddr) (vm_mmu v);
     munmap_loop mem_ok blank esp ref m (file_len - n) (vaddr + 4096) (ofs + n) (v\<lparr>vm_mmu := p\<rparr>)
   }"

text \<open>The frames whose entries carry the mapping are freed.\<close>

fun free_frames :: "32 word \<Rightarrow> frame_table_entry list \<Rightarrow> vm \<Rightarrow> vm option" where
  "free_frames m [] v = Some v"
| "free_frames m (fte # ftes) v = do {
     ref \<leftarrow> fte_spte fte;
     e \<leftarrow> spt v ref;
     v \<leftarrow> (if mid e = m then free_user_page (frame fte) (v\<lparr>frame_table := remove1 fte (frame_table v)\<rparr>) else Some v);
     free_frames m ftes v
   }"

definition sys_munmap :: "bool \<Rightarrow> sup_page_table_entry \<Rightarrow> 32 word \<Rightarrow> int \<Rightarrow> sys \<Rightarrow> unit outcome option" where
  "sys_munmap mem_ok blank esp mapping s =
     (case find (\<lambda>t. fde_mmapped t \<and> fde_mapid t = mapping) (fd_list s) of
        None \<Rightarrow> Some (Ret () s)
      | Some t \<Rightarrow> do {
          let ref = (current (sys_vm s), fde_vaddr t);
          s \<leftarrow> acquire_fs s;
          e \<leftarrow> spt (sys_vm s) ref;
          f \<leftarrow> sys_file s (file_ptr e);
          file_len \<leftarrow> file_length f (sys_fs s);
          v \<leftarrow> munmap_loop mem_ok blank esp ref (nat (sint (page_cnt e))) file_len (user_vaddr e) (sint (file_ofs e)) (sys_vm s);
          v \<leftarrow> free_frames (word_of_int mapping) (frame_table v) v;
          let v = v\<lparr>spt := (spt v)(ref := None)\<rparr>;
          s \<leftarrow> release_fs (s\<lparr>sys_vm := v, fd_list := map (\<lambda>x. if x = t then x\<lparr>fde_mmapped := False\<rparr> else x) (fd_list s)\<rparr>);
          Some (Ret () s)
        })"

section \<open>Ending a process\<close>

text \<open>Unmapping and closing every open file.\<close>

fun munmap_all :: "bool \<Rightarrow> sup_page_table_entry \<Rightarrow> 32 word \<Rightarrow> fd_elem list \<Rightarrow> sys \<Rightarrow> sys option" where
  "munmap_all mem_ok blank esp [] s = Some s"
| "munmap_all mem_ok blank esp (t # ts) s = do {
     r \<leftarrow> (if fde_mmapped t then sys_munmap mem_ok blank esp (fde_mapid t) s else Some (Ret () s));
     case r of Ret _ s \<Rightarrow> munmap_all mem_ok blank esp ts s | _ \<Rightarrow> None
   }"

fun close_all :: "fd_elem list \<Rightarrow> sys \<Rightarrow> sys option" where
  "close_all [] s = Some s"
| "close_all (t # ts) s = do {
     f \<leftarrow> sys_file s (fde_file t);
     fs \<leftarrow> file_close (Some f) (sys_fs s);
     close_all ts (set_file (fde_file t) None (set_fs fs s))
   }"

definition exit_files :: "bool \<Rightarrow> sup_page_table_entry \<Rightarrow> 32 word \<Rightarrow> sys \<Rightarrow> sys option" where
  "exit_files mem_ok blank esp s = do {
     s \<leftarrow> munmap_all mem_ok blank esp (fd_list s) s;
     close_all (fd_list s) s
   }"

section \<open>The handler\<close>

text \<open>
  What comes from outside a call: whether memory is left, what unset variables and new
  blocks hold, the address of a new file, and what is at the user addresses.
\<close>

record call_env =
  mem_left :: bool
  junk_bytes :: "byte list"
  junk_inode :: "disk_sector option"
  new_file :: "32 word"
  new_entry :: "32 word \<Rightarrow> sup_page_table_entry"
  string_at :: "32 word \<Rightarrow> byte list"
  buffer_at :: "32 word \<Rightarrow> byte list"

text \<open>The value for \<open>eax\<close> and the bytes stored in user memory, or a call that concerns processes and is theirs to do.\<close>

datatype reply = Done "32 word option" "byte list" | Halt | Exit_with int | Exec "32 word" | Wait int

definition reply_of :: "('a \<Rightarrow> reply) \<Rightarrow> 'a outcome option \<Rightarrow> reply outcome option" where
  "reply_of g r = map_option (\<lambda>r. case r of Ret x s \<Rightarrow> Ret (g x) s | Exits s \<Rightarrow> Exits s | Sleeps s \<Rightarrow> Sleeps s) r"

abbreviation (input) eax_int :: "int \<Rightarrow> reply" where "eax_int n \<equiv> Done (Some (word_of_int n)) []"
abbreviation (input) eax_bool :: "bool \<Rightarrow> reply" where "eax_bool b \<equiv> Done (Some (if b then 1 else 0)) []"

definition SYS_ARGS :: "int \<Rightarrow> nat" where
  "SYS_ARGS n = (if n \<in> {8, 9} then 3 else if n \<in> {4, 10, 13, 17} then 2 else if 1 \<le> n \<and> n \<le> 19 then 1 else 0)"

fun check_args :: "32 word list \<Rightarrow> sys \<Rightarrow> bool option" where
  "check_args [] s = Some True"
| "check_args (p # ps) s = do { ok \<leftarrow> check_userptr (unat p) s; if ok then check_args ps s else Some False }"

text \<open>A word of the user stack; one that continues on a page that is not there takes a page fault.\<close>

definition read_int :: "call_env \<Rightarrow> 32 word \<Rightarrow> 32 word \<Rightarrow> sys \<Rightarrow> (32 word option \<times> sys) option" where
  "read_int env esp p s = do {
     (bs, v) \<leftarrow> read_user_pf (mem_left env) (new_entry env (of_nat (pg_round_down (unat p + 3)))) esp (unat p) 4 (sys_vm s);
     Some (map_option (\<lambda>bs. hd (bytes_elems bs)) bs, s\<lparr>sys_vm := v\<rparr>)
   }"

fun read_args :: "call_env \<Rightarrow> 32 word \<Rightarrow> 32 word list \<Rightarrow> sys \<Rightarrow> (32 word list option \<times> sys) option" where
  "read_args env esp [] s = Some (Some [], s)"
| "read_args env esp (p # ps) s = do {
     (w, s) \<leftarrow> read_int env esp p s;
     case w of
       None \<Rightarrow> Some (None, s)
     | Some w \<Rightarrow> do { (ws, s) \<leftarrow> read_args env esp ps s; Some (map_option (\<lambda>ws. w # ws) ws, s) }
   }"

definition do_syscall :: "call_env \<Rightarrow> 32 word \<Rightarrow> int \<Rightarrow> 32 word list \<Rightarrow> sys \<Rightarrow> reply outcome option" where
  "do_syscall env esp n ws s =
     (let m = mem_left env; w1 = ws ! 0; w2 = ws ! 1; w3 = ws ! 2; fd = sint w1; blank = new_entry env 0 in
      if n = 0 then Some (Ret Halt s)
      else if n = 1 then Some (Ret (Exit_with (sint w1)) s)
      else if n = 2 then Some (Ret (Exec w1) s)
      else if n = 3 then Some (Ret (Wait (sint w1)) s)
      else if n = 4 then reply_of (\<lambda>b. eax_bool b) (sys_create m (junk_bytes env) (junk_inode env) (unat w1) (string_at env w1) w2 s)
      else if n = 5 then reply_of (\<lambda>b. eax_bool b) (sys_remove m (junk_inode env) (unat w1) (string_at env w1) s)
      else if n = 6 then reply_of (\<lambda>r. eax_int r) (sys_open m (new_file env) (junk_inode env) (unat w1) (string_at env w1) s)
      else if n = 7 then reply_of (\<lambda>r. eax_int r) (sys_filesize fd s)
      else if n = 8 then reply_of (\<lambda>(r, bs). Done (Some (word_of_int r)) bs) (sys_read m fd (unat w2) w3 s)
      else if n = 9 then reply_of (\<lambda>r. eax_int r) (sys_write m fd (unat w2) (buffer_at env w2) w3 s)
      else if n = 10 then reply_of (\<lambda>_. Done None []) (sys_seek fd w2 s)
      else if n = 11 then reply_of (\<lambda>r. eax_int r) (sys_tell fd s)
      else if n = 12 then reply_of (\<lambda>_. Done None []) (sys_close m fd s)
      else if n = 13 then reply_of (\<lambda>r. eax_int r) (sys_mmap (new_entry env) fd w2 s)
      else if n = 14 then reply_of (\<lambda>_. Done None []) (sys_munmap m blank esp fd s)
      else if n = 15 then reply_of (\<lambda>b. eax_bool b) (sys_chdir m (junk_inode env) (string_at env w1) s)
      else if n = 16 then reply_of (\<lambda>b. eax_bool b) (sys_mkdir m (junk_bytes env) (junk_inode env) (string_at env w1) s)
      else if n = 17 then reply_of (\<lambda>r. Done (Some (if r = None then 0 else 1)) (case r of None \<Rightarrow> [] | Some name \<Rightarrow> name @ [0])) (sys_readdir m fd s)
      else if n = 18 then reply_of (\<lambda>b. eax_bool b) (sys_isdir fd s)
      else if n = 19 then reply_of (\<lambda>r. eax_int r) (sys_inumber fd s)
      else Some (Ret (Done None []) s))"

definition syscall_handler :: "call_env \<Rightarrow> 32 word \<Rightarrow> sys \<Rightarrow> reply outcome option" where
  "syscall_handler env esp s = do {
     ok \<leftarrow> check_userptr (unat esp) s;
     if \<not> ok then Some (Exits s)
     else do {
       (w, s) \<leftarrow> read_int env esp esp s;
       case w of
         None \<Rightarrow> Some (Exits s)
       | Some w \<Rightarrow> do {
           let ps = map (\<lambda>i. esp + 4 * of_nat (Suc i)) [0..<SYS_ARGS (sint w)];
           ok \<leftarrow> check_args ps s;
           if \<not> ok then Some (Exits s)
           else do {
             (ws, s) \<leftarrow> read_args env esp ps s;
             case ws of None \<Rightarrow> Some (Exits s) | Some ws \<Rightarrow> do_syscall env esp (sint w) ws s
           }
         }
     }
   }"

end
