(* ===== verification/Syscall_Props.thy ===== *)
theory Syscall_Props
  imports Syscall
begin

text \<open>
  What the system calls keep: the table of open files stays well formed and the lock of
  the file system is free again after every call.
\<close>

section \<open>What paging leaves alone\<close>

definition keeps :: "vm \<Rightarrow> vm \<Rightarrow> bool" where
  "keeps v v' \<longleftrightarrow> vm_files v' = vm_files v \<and> filesys_lock v' = filesys_lock v \<and> current v' = current v"

lemma keeps_refl [simp]: "keeps v v"
  by (simp add: keeps_def)

lemma keeps_chain: "keeps u v \<Longrightarrow> keeps v w \<Longrightarrow> keeps u w"
  by (simp add: keeps_def)

lemma keeps_iff: "keeps v v' \<Longrightarrow> keeps u v' = keeps u v"
  by (auto simp: keeps_def)

lemma keeps_updates [simp]:
  "keeps u (v\<lparr>vm_mmu := m\<rparr>) = keeps u v" "keeps u (v\<lparr>vm_fs := fs\<rparr>) = keeps u v" "keeps u (v\<lparr>swap_lock := l\<rparr>) = keeps u v"
  "keeps u (v\<lparr>swap_table := b\<rparr>) = keeps u v" "keeps u (v\<lparr>swap_device := d\<rparr>) = keeps u v" "keeps u (v\<lparr>frame_table := ft\<rparr>) = keeps u v"
  "keeps u (v\<lparr>spt := p\<rparr>) = keeps u v" "keeps u (set_ram r v) = keeps u v" "keeps u (set_spte k e v) = keeps u v"
  "keeps u (clear_rest e kp v) = keeps u v"
  by (auto simp: keeps_def set_ram_def set_spte_def clear_rest_def)

lemma keeps_allocate_frame: "allocate_frame m a r v = Some v' \<Longrightarrow> keeps u v' = keeps u v"
  by (auto simp: allocate_frame_def split: if_splits)

lemma keeps_write_back: "write_back m e v = Some v' \<Longrightarrow> keeps u v' = keeps u v"
  by (auto simp: write_back_def bind_eq_Some_conv split: if_splits)

lemma keeps_write_to_disk: "write_to_disk a i v = Some v' \<Longrightarrow> keeps u v' = keeps u v"
  by (auto simp: write_to_disk_def bind_eq_Some_conv)

lemma keeps_read_from_disk: "read_from_disk a i v = Some v' \<Longrightarrow> keeps u v' = keeps u v"
  by (auto simp: read_from_disk_def bind_eq_Some_conv)

lemma keeps_read_page: "read_page m e a v = Some (n, v') \<Longrightarrow> keeps u v' = keeps u v"
  by (auto simp: read_page_def bind_eq_Some_conv)

lemma keeps_install: "install_current a kp w v = Some (ok, v') \<Longrightarrow> keeps u v' = keeps u v"
  by (auto simp: install_current_def bind_eq_Some_conv)

lemma keeps_swap_out: "swap_out m v = Some (r, v') \<Longrightarrow> keeps u v' = keeps u v"
  by (auto simp: swap_out_def bind_eq_Some_conv Let_def keeps_write_back keeps_write_to_disk split: if_splits list.splits)

lemma keeps_swap_in: "swap_in m a kp v = Some (r, v') \<Longrightarrow> keeps u v' = keeps u v"
  by (auto simp: swap_in_def bind_eq_Some_conv Let_def keeps_read_page keeps_read_from_disk keeps_allocate_frame split: if_splits)

lemma keeps_get_frame:
  assumes "get_frame m v = Some r"
  shows "keeps u (snd r) = keeps u v"
  using _ assms
proof (rule get_frame.raw_induct)
  fix f :: "bool \<Rightarrow> vm \<Rightarrow> (nat \<times> vm) option" and m v r
  assume "\<And>m v r. f m v = Some r \<Longrightarrow> keeps u (snd r) = keeps u v"
    and "palloc_get_page {PAL_USER} (phys (vm_mmu v)) \<bind>
      (\<lambda>(kpage, p). let v = v\<lparr>vm_mmu := vm_mmu v\<lparr>phys := p\<rparr>\<rparr>
        in if kpage = 0 then swap_out m v \<bind> (\<lambda>(_, v). f m v) else Some (kpage, v)) = Some r"
  then show "keeps u (snd r) = keeps u v"
    by (cases r) (auto simp: bind_eq_Some_conv Let_def keeps_swap_out split: if_splits)
qed

lemma keeps_get_frame': "get_frame m v = Some (kp, v') \<Longrightarrow> keeps u v' = keeps u v"
  using keeps_get_frame by fastforce

lemmas keeps_paging = keeps_allocate_frame keeps_read_page keeps_install keeps_swap_out keeps_swap_in keeps_get_frame'

lemma keeps_fault_load:
  assumes "fault_load m ref kp e v = Some v'"
  shows "keeps u v' = keeps u v"
proof -
  from assms obtain n v1 where 1: "read_page m e kp v = Some (n, v1)" by (auto simp: fault_load_def bind_eq_Some_conv)
  show ?thesis
    using assms [unfolded fault_load_def 1 bind.bind_lunit prod.case]
    by (auto simp: bind_eq_Some_conv keeps_allocate_frame keeps_install keeps_read_page [OF 1] split: if_split_asm)
qed

lemma keeps_fault_swapped: "fault_swapped m ref kp v = Some v' \<Longrightarrow> keeps u v' = keeps u v"
  unfolding fault_swapped_def by (auto simp: bind_eq_Some_conv keeps_install keeps_swap_in)

lemma keeps_fault_mark: "fault_mark ref v = Some v' \<Longrightarrow> keeps u v' = keeps u v"
  unfolding fault_mark_def by (auto simp: bind_eq_Some_conv)

lemma keeps_fault_known: "fault_known m w a e v = Some (Restart v') \<Longrightarrow> keeps u v' = keeps u v"
  unfolding fault_known_def Let_def
  by (auto simp: bind_eq_Some_conv keeps_fault_load keeps_fault_swapped keeps_fault_mark keeps_get_frame' split: if_split_asm)

lemma keeps_fault_unknown: "fault_unknown m blank esp fa a v = Some (Restart v') \<Longrightarrow> keeps u v' = keeps u v"
  unfolding fault_unknown_def Let_def
  by (auto simp: bind_eq_Some_conv keeps_paging split: if_splits)

lemma keeps_page_fault: "page_fault m blank w esp a v = Some (Restart v') \<Longrightarrow> keeps u v' = keeps u v"
  unfolding page_fault_def Let_def
  by (auto simp: keeps_fault_known keeps_fault_unknown split: if_splits option.splits)

lemma keeps_read_user_pf: "read_user_pf m blank esp a n v = Some (bs, v') \<Longrightarrow> keeps u v' = keeps u v"
proof (induction n arbitrary: a v bs)
  case (Suc n)
  obtain kp where k: "pagedir_get_page (pagedir v (current v)) a (vm_mmu v) = Some kp"
    using Suc.prems by (auto simp: bind_eq_Some_conv)
  show ?case
  proof (cases "kp = 0")
    case True
    then obtain r where r: "page_fault m blank False esp a v = Some r"
      using Suc.prems k by (auto simp: bind_eq_Some_conv)
    show ?thesis
    proof (cases r)
      case (Restart v1)
      obtain bs1 where "read_user_pf m blank esp (a + 1) n v1 = Some (bs1, v')"
        using Suc.prems k True r Restart by (auto simp: bind_eq_Some_conv split: if_splits)
      then show ?thesis using Suc.IH r Restart by (simp add: keeps_page_fault)
    qed (use Suc.prems k True r in simp)
  qed (use Suc.prems k Suc.IH in \<open>auto simp: bind_eq_Some_conv\<close>)
qed simp

lemma keeps_free_page: "free_user_page a v = Some v' \<Longrightarrow> keeps u v' = keeps u v" "user_page v = Some (kp, v') \<Longrightarrow> keeps u v' = keeps u v"
  by (auto simp: free_user_page_def user_page_def bind_eq_Some_conv)

lemma keeps_munmap_write: "munmap_write m blank esp e n a ofs v = Some v' \<Longrightarrow> keeps u v' = keeps u v"
  unfolding munmap_write_def by (clarsimp simp: bind_eq_Some_conv keeps_read_user_pf)

lemma keeps_munmap_loop: "munmap_loop m blank esp ref n fl a ofs v = Some v' \<Longrightarrow> keeps u v' = keeps u v"
proof (induction n arbitrary: fl a ofs v)
  case (Suc n)
  let ?n = "if fl < 4096 then fl else 4096"
  from Suc.prems obtain e v1 e1 p where w: "(if spte_dirty e then munmap_write m blank esp e ?n a ofs v else Some v) = Some v1"
    and r: "munmap_loop m blank esp ref n (fl - ?n) (a + 4096) (ofs + ?n) (set_spte ref (e1\<lparr>mid := 0\<rparr>) v1\<lparr>vm_mmu := p\<rparr>) = Some v'"
    unfolding munmap_loop.simps Let_def bind_eq_Some_conv by blast
  have "keeps u v1 = keeps u v" using w by (auto simp: keeps_munmap_write split: if_splits)
  then show ?case using Suc.IH [OF r] by simp
qed simp

lemma keeps_free_frames: "free_frames m fts v = Some v' \<Longrightarrow> keeps u v' = keeps u v"
proof (induction fts arbitrary: v)
  case (Cons fte fts)
  from Cons.prems obtain e :: sup_page_table_entry and v1 where
    w: "(if mid e = m then free_user_page (frame fte) (v\<lparr>frame_table := remove1 fte (frame_table v)\<rparr>) else Some v) = Some v1"
    and r: "free_frames m fts v1 = Some v'"
    unfolding free_frames.simps bind_eq_Some_conv by blast
  have "keeps u v1 = keeps u v" using w by (auto simp: keeps_free_page split: if_splits)
  then show ?case using Cons.IH [OF r] by simp
qed simp

lemma keeps_lazy_file_map:
  assumes "lazy_file_map m ref v = Some v'"
  shows "keeps u v' = keeps u v"
proof -
  from assms obtain kp v1 where 1: "user_page v = Some (kp, v1)"
    by (auto simp: lazy_file_map_def bind_eq_Some_conv)
  with assms obtain kp' v2 where 2: "(if kp = 0 then do { (_, v) \<leftarrow> swap_out m v1; user_page v } else Some (kp, v1)) = Some (kp', v2)"
    unfolding lazy_file_map_def bind_eq_Some_conv by (simp only: option.inject prod.case) (auto simp: bind_eq_Some_conv)
  note r = assms [unfolded lazy_file_map_def 1 bind.bind_lunit prod.case 2 Let_def]
  from r obtain e n v3 where 3: "spt v2 ref = Some e" "read_page m e kp' v2 = Some (n, v3)"
    by (auto simp: bind_eq_Some_conv split: if_splits)
  note r = r [unfolded 3 bind.bind_lunit prod.case]
  from r obtain v4 where 4: "(if n \<noteq> sint (page_read_bytes e) then free_user_page kp' v3 else Some v3) = Some v4"
    by (cases "(if n \<noteq> sint (page_read_bytes e) then free_user_page kp' v3 else Some v3)") (simp_all split: if_split_asm)
  have "keeps u v1 = keeps u v" using 1 by (simp add: keeps_free_page)
  moreover have "keeps u v2 = keeps u v1" using 2 by (auto simp: bind_eq_Some_conv keeps_free_page keeps_swap_out split: if_splits)
  moreover have "keeps u v4 = keeps u v2" using 3 4 by (auto simp: keeps_free_page keeps_read_page split: if_splits)
  moreover have "keeps u v' = keeps u v4"
    using r [unfolded 4 bind.bind_lunit] by (auto simp: bind_eq_Some_conv keeps_allocate_frame split: if_splits)
  ultimately show ?thesis by simp
qed

lemma keeps_mmap_loop: "keeps u (mmap_loop new t cnt fl ofs addr v) = keeps u v"
  by (induction new t cnt fl ofs addr v rule: mmap_loop.induct) (subst mmap_loop.simps, simp add: Let_def set_spte_def)

section \<open>The table of open files\<close>

definition table_ok :: "fd_elem list \<Rightarrow> int \<Rightarrow> (32 word \<Rightarrow> open_file option) \<Rightarrow> bool" where
  "table_ok fds n files \<longleftrightarrow> distinct (map fde_fd fds) \<and> distinct (map fde_file fds) \<and> 2 \<le> n \<and>
     (\<forall>t\<in>set fds. 2 \<le> fde_fd t \<and> fde_fd t < n \<and> files (fde_file t) \<noteq> None)"

definition sys_ok :: "sys \<Rightarrow> bool" where
  "sys_ok s \<longleftrightarrow> \<not> filesys_lock (sys_vm s) \<and> table_ok (fd_list s) (next_fd s) (sys_file s)"

text \<open>The states in which the lock is held during a call.\<close>

definition busy_ok :: "sys \<Rightarrow> bool" where
  "busy_ok s \<longleftrightarrow> filesys_lock (sys_vm s) \<and> table_ok (fd_list s) (next_fd s) (sys_file s)"

fun final :: "'a outcome \<Rightarrow> sys" where
  "final (Ret x s) = s" | "final (Exits s) = s" | "final (Sleeps s) = s"

lemma acquire_ok: "acquire_fs s = Some s' \<Longrightarrow> sys_ok s \<Longrightarrow> busy_ok s'"
  by (auto simp: acquire_fs_def sys_ok_def busy_ok_def split: if_splits)

lemma release_ok: "release_fs s = Some s' \<Longrightarrow> busy_ok s \<Longrightarrow> sys_ok s'"
  by (auto simp: release_fs_def sys_ok_def busy_ok_def split: if_splits)

lemma acquire_sel [simp]:
  "acquire_fs s = Some s' \<Longrightarrow> fd_list s' = fd_list s" "acquire_fs s = Some s' \<Longrightarrow> sys_file s' = sys_file s"
  "acquire_fs s = Some s' \<Longrightarrow> next_fd s' = next_fd s"
  by (auto simp: acquire_fs_def split: if_splits)

lemma ok_set_fs [simp]: "sys_ok (set_fs fs s) = sys_ok s" "busy_ok (set_fs fs s) = busy_ok s"
  by (auto simp: set_fs_def sys_ok_def busy_ok_def)

lemma ok_set_file: "sys_ok s \<Longrightarrow> sys_ok (set_file p (Some f) s)" "busy_ok s \<Longrightarrow> busy_ok (set_file p (Some f) s)"
  by (auto simp: set_file_def sys_ok_def busy_ok_def table_ok_def)

lemma ok_other [simp]:
  "sys_ok (s\<lparr>curr_dir := d\<rparr>) = sys_ok s" "sys_ok (s\<lparr>console := c\<rparr>) = sys_ok s" "sys_ok (s\<lparr>keys := ks\<rparr>) = sys_ok s"
  "sys_ok (s\<lparr>next_mid := m\<rparr>) = sys_ok s"
  by (auto simp: sys_ok_def)

lemma ok_keeps:
  assumes "keeps (sys_vm s) v"
  shows "sys_ok s \<Longrightarrow> sys_ok (s\<lparr>sys_vm := v\<rparr>)" "busy_ok s \<Longrightarrow> busy_ok (s\<lparr>sys_vm := v\<rparr>)"
  using assms by (auto simp: keeps_def sys_ok_def busy_ok_def)

lemma table_map:
  assumes "table_ok fds n files" "\<And>t. fde_fd (g t) = fde_fd t" "\<And>t. fde_file (g t) = fde_file t"
  shows "table_ok (map g fds) n files"
proof -
  have "map fde_fd (map g fds) = map fde_fd fds" "map fde_file (map g fds) = map fde_file fds" using assms(2,3) by simp_all
  then show ?thesis using assms unfolding table_ok_def by (metis (no_types, lifting) image_iff list.set_map)
qed

lemma ok_map:
  assumes "\<And>t. fde_fd (g t) = fde_fd t" "\<And>t. fde_file (g t) = fde_file t"
  shows "sys_ok s \<Longrightarrow> sys_ok (s\<lparr>fd_list := map g (fd_list s)\<rparr>)" "busy_ok s \<Longrightarrow> busy_ok (s\<lparr>fd_list := map g (fd_list s)\<rparr>)"
  using table_map assms by (auto simp: sys_ok_def busy_ok_def)

section \<open>Every call keeps it\<close>

lemma create_ok: "sys_create m junk i0 p name sz s = Some r \<Longrightarrow> sys_ok s \<Longrightarrow> sys_ok (final r)"
  unfolding sys_create_def Let_def
  by (auto simp: bind_eq_Some_conv acquire_ok release_ok split: if_splits)

lemma remove_ok: "sys_remove m i0 p name s = Some r \<Longrightarrow> sys_ok s \<Longrightarrow> sys_ok (final r)"
  unfolding sys_remove_def
  by (auto simp: bind_eq_Some_conv acquire_ok release_ok split: if_splits)

lemma filesize_ok: "sys_filesize fd s = Some r \<Longrightarrow> sys_ok s \<Longrightarrow> sys_ok (final r)"
  unfolding sys_filesize_def
  by (auto simp: bind_eq_Some_conv acquire_ok release_ok split: option.splits)

lemma read_ok: "sys_read m fd b sz s = Some r \<Longrightarrow> sys_ok s \<Longrightarrow> sys_ok (final r)"
  unfolding sys_read_def
  by (auto simp: bind_eq_Some_conv acquire_ok ok_set_file release_ok split: option.splits if_splits list.splits)

lemma write_ok: "sys_write m fd b bs sz s = Some r \<Longrightarrow> sys_ok s \<Longrightarrow> sys_ok (final r)"
  unfolding sys_write_def
  by (auto simp: bind_eq_Some_conv acquire_ok ok_set_file release_ok split: option.splits if_splits)

lemma seek_ok: "sys_seek fd p s = Some r \<Longrightarrow> sys_ok s \<Longrightarrow> sys_ok (final r)"
  unfolding sys_seek_def
  by (auto simp: bind_eq_Some_conv acquire_ok ok_set_file release_ok split: option.splits)

lemma tell_ok: "sys_tell fd s = Some r \<Longrightarrow> sys_ok s \<Longrightarrow> sys_ok (final r)"
  unfolding sys_tell_def
  by (auto simp: bind_eq_Some_conv acquire_ok release_ok split: option.splits)

lemma query_ok:
  "sys_isdir fd s = Some r1 \<Longrightarrow> sys_ok s \<Longrightarrow> sys_ok (final r1)" "sys_inumber fd s = Some r2 \<Longrightarrow> sys_ok s \<Longrightarrow> sys_ok (final r2)"
  unfolding sys_isdir_def sys_inumber_def by (auto simp: bind_eq_Some_conv split: option.splits)

lemma readdir_ok: "sys_readdir m fd s = Some r \<Longrightarrow> sys_ok s \<Longrightarrow> sys_ok (final r)"
  unfolding sys_readdir_def by (auto simp: bind_eq_Some_conv intro!: ok_map)

lemma chdir_ok: "sys_chdir m i0 name s = Some r \<Longrightarrow> sys_ok s \<Longrightarrow> sys_ok (final r)"
  unfolding sys_chdir_def by (auto simp: bind_eq_Some_conv split: if_splits)

lemma mkdir_ok: "sys_mkdir m junk i0 name s = Some r \<Longrightarrow> sys_ok s \<Longrightarrow> sys_ok (final r)"
  unfolding sys_mkdir_def Let_def by (auto simp: bind_eq_Some_conv split: if_splits)

lemma table_open:
  assumes "table_ok fds n files" "files new = None" "fde_fd e = n" "fde_file e = new"
  shows "table_ok (fds @ [e]) (n + 1) (files(new \<mapsto> f))"
  using assms by (auto simp: table_ok_def)

lemma open_ok:
  assumes "sys_open m new i0 p name s = Some r" "sys_ok s" "next_fd s < 2 ^ 31 - 1" "sys_file s new = None"
  shows "sys_ok (final r)"
proof -
  have n: "s32 (next_fd s + 1) = next_fd s + 1" using assms(2,3) by (intro s32_id) (auto simp: sys_ok_def table_ok_def)
  have "table_ok (fd_list s) (next_fd s) (sys_file s)" using assms(2) by (simp add: sys_ok_def)
  note t = table_open [OF this assms(4)]
  show ?thesis
    using assms(1,2) unfolding sys_open_def Let_def
    by (auto simp: bind_eq_Some_conv acquire_ok release_ok allocate_fd_def n release_fs_def sys_ok_def set_fs_def set_file_def t
        split: if_splits option.splits)
qed

lemma table_close:
  assumes "table_ok fds n files" "t \<in> set fds"
  shows "table_ok (remove1 t fds) n (files(fde_file t := None))"
proof -
  have d: "distinct fds" and f: "inj_on fde_file (set fds)" using assms(1) by (simp_all add: table_ok_def distinct_map)
  have "distinct (map g (remove1 t fds))" if "distinct (map g fds)" for g :: "fd_elem \<Rightarrow> 'a"
    using that d by (simp add: distinct_map inj_on_def)
  then show ?thesis using assms d f unfolding table_ok_def
    by (auto simp: inj_on_def distinct_map)
qed

lemma fd_list_iter_in: "fd_list_iter fds fd = Some t \<Longrightarrow> t \<in> set fds \<and> fde_fd t = fd"
  by (auto simp: fd_list_iter_def find_Some_iff)

lemma close_state:
  assumes "busy_ok s" "t \<in> set (fd_list s)"
  shows "busy_ok ((set_file (fde_file t) None (set_fs fs s))\<lparr>fd_list := remove1 t (fd_list s)\<rparr>)"
  using assms table_close by (auto simp: busy_ok_def set_file_def set_fs_def)

lemma close_ok:
  assumes "sys_close m fd s = Some r" "sys_ok s"
  shows "sys_ok (final r)"
proof -
  from assms(1) obtain s1 where s1: "acquire_fs s = Some s1" by (auto simp: sys_close_def bind_eq_Some_conv)
  note b = acquire_ok [OF s1 assms(2)]
  show ?thesis
  proof (cases "fd_list_iter (fd_list s1) fd")
    case None
    then show ?thesis using assms(1) s1 b by (auto simp: sys_close_def bind_eq_Some_conv release_ok)
  next
    case (Some t)
    let ?ref = "(current (sys_vm s1), fde_vaddr t)"
    obtain v where v: "(case spt (sys_vm s1) ?ref of
                   Some e \<Rightarrow> if fde_mmapped t \<and> \<not> loaded e then lazy_file_map m ?ref (sys_vm s1) else Some (sys_vm s1)
                 | None \<Rightarrow> Some (sys_vm s1)) = Some v"
      using assms(1) s1 Some by (auto simp: sys_close_def bind_eq_Some_conv Let_def)
    then have "keeps (sys_vm s1) v" by (auto simp: keeps_lazy_file_map split: option.splits if_splits)
    note k = ok_keeps(2) [OF this b]
    obtain f fs where "release_fs ((set_file (fde_file t) None (set_fs fs (s1\<lparr>sys_vm := v\<rparr>)))\<lparr>fd_list := remove1 t (fd_list s1)\<rparr>) = Some (final r)"
      using assms(1) s1 Some v by (auto simp: sys_close_def bind_eq_Some_conv Let_def)
    moreover have "t \<in> set (fd_list (s1\<lparr>sys_vm := v\<rparr>))" using fd_list_iter_in [OF Some] by simp
    ultimately show ?thesis using release_ok close_state [OF k] by force
  qed
qed

lemma mmap_ok:
  assumes "sys_mmap new fd addr s = Some r" "sys_ok s"
  shows "sys_ok (final r)"
proof -
  have m: "sys_ok (s1\<lparr>next_mid := n, fd_list := map (\<lambda>x. if x = t then t\<lparr>fde_mmapped := True, fde_mapid := q, fde_vaddr := a\<rparr> else x) (fd_list s1),
      sys_vm := mmap_loop new t' c l o' a (sys_vm s1)\<rparr>)" if "sys_ok s1" for s1 n t t' a q c l o'
  proof -
    have "sys_ok (s1\<lparr>next_mid := n\<rparr>)" using that by simp
    from ok_map(1) [OF _ _ this, of "\<lambda>x. if x = t then t\<lparr>fde_mmapped := True, fde_mapid := q, fde_vaddr := a\<rparr> else x"]
    have "sys_ok (s1\<lparr>next_mid := n, fd_list := map (\<lambda>x. if x = t then t\<lparr>fde_mmapped := True, fde_mapid := q, fde_vaddr := a\<rparr> else x) (fd_list s1)\<rparr>)"
      by simp
    from ok_keeps(1) [OF _ this] show ?thesis by (simp add: keeps_mmap_loop)
  qed
  show ?thesis
  proof (cases "fd = 0 \<or> fd = 1 \<or> sint addr smod 4096 \<noteq> 0 \<or> addr = 0 \<or> fd_list_iter (fd_list s) fd = None")
    case True
    then have "final r = s" using assms(1) by (auto simp: sys_mmap_def split: if_split_asm)
    then show ?thesis using assms(2) by simp
  next
    case False
    then obtain t where t: "fd_list_iter (fd_list s) fd = Some t" by auto
    note r = assms(1) [unfolded sys_mmap_def t option.case Let_def allocate_mid_def prod.case]
    from r False obtain s1 f l s2 where s1: "acquire_fs s = Some s1" "sys_file s1 (fde_file t) = Some f"
      "file_length f (sys_fs s1) = Some l" "release_fs s1 = Some s2" by (auto simp: bind_eq_Some_conv)
    have "sys_ok s2" using s1 assms(2) by (simp add: acquire_ok release_ok)
    then show ?thesis using r [unfolded s1 bind.bind_lunit] False by (auto simp: m split: if_split_asm)
  qed
qed

lemma munmap_ok:
  assumes "sys_munmap m blank esp q s = Some r" "sys_ok s"
  shows "sys_ok (final r)"
proof (cases "find (\<lambda>t. fde_mmapped t \<and> fde_mapid t = q) (fd_list s)")
  case None
  then show ?thesis using assms by (auto simp: sys_munmap_def)
next
  case (Some t)
  from assms(1) Some obtain s1 where s1: "acquire_fs s = Some s1" by (auto simp: sys_munmap_def bind_eq_Some_conv Let_def)
  note b = acquire_ok [OF s1 assms(2)]
  let ?ref = "(current (sys_vm s), fde_vaddr t)"
  let ?g = "\<lambda>x. if x = t then x\<lparr>fde_mmapped := False\<rparr> else x"
  from assms(1) Some s1 obtain n l a o' v v1 where l: "munmap_loop m blank esp ?ref n l a o' (sys_vm s1) = Some v"
    and f: "free_frames (word_of_int q) (frame_table v) v = Some v1"
    and r: "release_fs (s1\<lparr>sys_vm := v1\<lparr>spt := (spt v1)(?ref := None)\<rparr>, fd_list := map ?g (fd_list s1)\<rparr>) = Some (final r)"
    by (auto simp: sys_munmap_def bind_eq_Some_conv Let_def)
  have "keeps (sys_vm s1) (v1\<lparr>spt := (spt v1)(?ref := None)\<rparr>)"
    by (simp add: keeps_free_frames [OF f] keeps_munmap_loop [OF l])
  from ok_map(2) [OF _ _ ok_keeps(2) [OF this b], of ?g]
  show ?thesis using release_ok [OF r] by simp
qed

lemma reply_ok: "reply_of g r = Some q \<Longrightarrow> (\<And>x. r = Some x \<Longrightarrow> sys_ok (final x)) \<Longrightarrow> sys_ok (final q)"
  by (cases r) (auto simp: reply_of_def split: outcome.splits)

lemmas call_ok = create_ok remove_ok filesize_ok read_ok write_ok seek_ok tell_ok query_ok readdir_ok chdir_ok mkdir_ok close_ok mmap_ok munmap_ok

lemma do_syscall_ok:
  assumes "do_syscall env esp n ws s = Some r" "sys_ok s" "next_fd s < 2 ^ 31 - 1" "sys_file s (new_file env) = None"
  shows "sys_ok (final r)"
  using assms(1) unfolding do_syscall_def Let_def
  by (auto split: if_split_asm elim!: reply_ok intro: call_ok [OF _ assms(2)] open_ok [OF _ assms(2-)] simp: assms(2))

lemma read_int_keeps:
  assumes "read_int env esp p s = Some (w, s')"
  shows "\<exists>v. s' = s\<lparr>sys_vm := v\<rparr> \<and> keeps (sys_vm s) v"
  using assms unfolding read_int_def by (auto simp: bind_eq_Some_conv keeps_read_user_pf)

lemma read_args_keeps: "read_args env esp ps s = Some (ws, s') \<Longrightarrow> \<exists>v. s' = s\<lparr>sys_vm := v\<rparr> \<and> keeps (sys_vm s) v"
proof (induction ps arbitrary: s ws)
  case Nil
  then have "s' = s\<lparr>sys_vm := sys_vm s\<rparr>" by simp
  then show ?case using keeps_refl by blast
next
  case (Cons p ps)
  from Cons.prems obtain w s1 where 1: "read_int env esp p s = Some (w, s1)" by (auto simp: bind_eq_Some_conv)
  from read_int_keeps [OF this] obtain v where v: "s1 = s\<lparr>sys_vm := v\<rparr>" "keeps (sys_vm s) v" by blast
  show ?case
  proof (cases w)
    case (Some w')
    with Cons.prems 1 obtain ws' where "read_args env esp ps s1 = Some (ws', s')" by (auto simp: bind_eq_Some_conv)
    from Cons.IH [OF this] v show ?thesis by (auto intro: keeps_chain)
  qed (use Cons.prems 1 v in auto)
qed

lemma handler_ok:
  assumes "syscall_handler env esp s = Some r" "sys_ok s" "next_fd s < 2 ^ 31 - 1" "sys_file s (new_file env) = None"
  shows "sys_ok (final r)"
proof -
  from assms(1) obtain ok where ok: "check_userptr (unat esp) s = Some ok" by (auto simp: syscall_handler_def bind_eq_Some_conv)
  note r = assms(1) [unfolded syscall_handler_def ok bind.bind_lunit]
  show ?thesis
  proof (cases ok)
    case False
    then show ?thesis using r assms(2) by auto
  next
    case True
    with r obtain w s1 where w: "read_int env esp esp s = Some (w, s1)" by (auto simp: bind_eq_Some_conv)
    from read_int_keeps [OF this] obtain v where v: "s1 = s\<lparr>sys_vm := v\<rparr>" "keeps (sys_vm s) v" by blast
    have 1: "sys_ok s1" using ok_keeps(1) assms(2) v by blast
    show ?thesis
    proof (cases w)
      case None
      then show ?thesis using r True w 1 by auto
    next
      case (Some w')
      let ?ps = "map (\<lambda>i. esp + 4 * of_nat (Suc i)) [0..<SYS_ARGS (sint w')]"
      from r True w Some obtain ok' where ok': "check_args ?ps s1 = Some ok'" by (auto simp: bind_eq_Some_conv Let_def)
      show ?thesis
      proof (cases ok')
        case False
        then show ?thesis using r True w Some ok' 1 by (auto simp: Let_def)
      next
        case t: True
        with r True w Some ok' obtain ws s2 where ws: "read_args env esp ?ps s1 = Some (ws, s2)" by (auto simp: bind_eq_Some_conv Let_def)
        from read_args_keeps [OF this] obtain v2 where v2: "s2 = s1\<lparr>sys_vm := v2\<rparr>" "keeps (sys_vm s1) v2" by blast
        have 2: "sys_ok s2" using ok_keeps(1) 1 v2 by blast
        have 3: "next_fd s2 < 2 ^ 31 - 1" "sys_file s2 (new_file env) = None" using assms(3,4) v v2 by (auto simp: keeps_def)
        show ?thesis
        proof (cases ws)
          case None
          then show ?thesis using r True w Some ok' t ws 2 by (auto simp: Let_def)
        next
          case s: (Some ws')
          then show ?thesis using r True w Some ok' t ws do_syscall_ok [OF _ 2 3] by (auto simp: Let_def)
        qed
      qed
    qed
  qed
qed

section \<open>A concrete process\<close>

text \<open>One user page at \<open>0x1000\<close>, mapped by one page table. The words at its beginning are the number and the arguments of a call.\<close>

definition ex_ram :: "byte list \<Rightarrow> nat \<Rightarrow> byte" where
  "ex_ram bs = put_bytes 0xc0030000 bs (put_bytes 0xc0020004 [7, 0, 3, 0] (put_bytes 0xc0010000 [7, 0, 2, 0] (\<lambda>_. 0)))"

definition ex_sys :: "byte list \<Rightarrow> filesys \<Rightarrow> (32 word \<Rightarrow> open_file option) \<Rightarrow> fd_elem list \<Rightarrow> sys" where
  "ex_sys bs fs files fds = \<lparr>
     sys_vm = \<lparr>vm_mmu = \<lparr>phys = \<lparr>kernel_pool = \<lparr>used_map = \<lparr>bit_cnt = 0, bits = []\<rparr>, base = 0\<rparr>,
           user_pool = \<lparr>used_map = \<lparr>bit_cnt = 0, bits = []\<rparr>, base = 0\<rparr>, ram = ex_ram bs\<rparr>, cr3 = 0x10000, tlb = {},
         base_page_dir = 0, ram_pages = 1024\<rparr>,
       swap_device = [], swap_table = \<lparr>bit_cnt = 0, bits = []\<rparr>, swap_lock = False, filesys_lock = False, frame_table = [],
       spt = Map.empty, pagedir = (\<lambda>_. 0xc0010000), current = 0, vm_fs = fs, vm_files = files\<rparr>,
     fd_list = fds, curr_dir = None, next_fd = 5, next_mid = 1, console = [], keys = []\<rparr>"

lemma ex_entries: "rd32 (ex_ram bs) 0xc0010000 = 0x20007" "length bs \<le> 4096 \<Longrightarrow> rd32 (ex_ram bs) 0xc0020004 = 0x30007"
  by (simp_all add: rd32_def ex_ram_def put_bytes_def)

lemma ex_user_byte: "i < length bs \<Longrightarrow> ex_ram bs (0xc0030000 + i) = bs ! i"
  by (simp add: ex_ram_def put_bytes_def)

lemma ex_get_page:
  assumes "0x1000 \<le> a" "a < 0x2000" "length bs \<le> 4096"
  shows "pagedir_get_page 0xc0010000 a (vm_mmu (sys_vm (ex_sys bs fs files fds))) = Some (0xc0030000 + (a - 0x1000))"
proof -
  have n: "pd_no a = 0" "pt_no a = 1" "pg_ofs a = a - 0x1000"
    using assms by (simp_all add: pd_no_def pt_no_def pg_ofs_def le_mod_geq)
  show ?thesis using assms
    by (simp add: pagedir_get_page_def lookup_page_def is_user_vaddr_def n ex_sys_def get_entry_def ex_entries pde_get_pt_def ptov_def
        PTE_P_def PTE_ADDR_def pte_get_page_def)
qed

lemma ex_check: "0x1000 \<le> a \<Longrightarrow> a < 0x2000 \<Longrightarrow> length bs \<le> 4096 \<Longrightarrow> check_userptr a (ex_sys bs fs files fds) = Some True"
  using ex_get_page [of a bs fs files fds] by (simp add: check_userptr_def is_user_vaddr_def ex_sys_def)

lemma ex_read_user:
  assumes "0x1000 \<le> a" "a - 0x1000 + n \<le> length bs" "length bs \<le> 4096"
  shows "read_user_pf m blank esp a n (sys_vm (ex_sys bs fs files fds)) = Some (Some (take n (drop (a - 0x1000) bs)), sys_vm (ex_sys bs fs files fds))"
  using assms
proof (induction n arbitrary: a)
  case (Suc n)
  let ?v = "sys_vm (ex_sys bs fs files fds)"
  have i: "a - 0x1000 < length bs" and "a < 0x2000" using Suc.prems by simp_all
  have g: "pagedir_get_page (pagedir ?v (current ?v)) a (vm_mmu ?v) = Some (0xc0030000 + (a - 0x1000))"
    using ex_get_page [OF Suc.prems(1) \<open>a < 0x2000\<close> Suc.prems(3), of fs files fds] by (simp add: ex_sys_def)
  have r: "vm_ram ?v (0xc0030000 + (a - 0x1000)) = bs ! (a - 0x1000)" using ex_user_byte [OF i] by (simp add: ex_sys_def)
  have "Suc a - 0x1000 = Suc (a - 0x1000)" using Suc.prems(1) by simp
  then have IH: "read_user_pf m blank esp (a + 1) n ?v = Some (Some (take n (drop (Suc (a - 0x1000)) bs)), ?v)"
    using Suc.IH [of "Suc a"] Suc.prems by simp
  have "take (Suc n) (drop (a - 0x1000) bs) = bs ! (a - 0x1000) # take n (drop (Suc (a - 0x1000)) bs)"
    using i by (simp add: Cons_nth_drop_Suc [symmetric])
  then show ?case unfolding read_user_pf.simps g bind.bind_lunit IH r prod.case by simp
qed simp

lemma ex_read_int:
  assumes "unat p = 0x1000 + i" "i + 4 \<le> length bs" "length bs \<le> 4096"
  shows "read_int env esp p (ex_sys bs fs files fds) = Some (Some (hd (bytes_elems (take 4 (drop i bs)))), ex_sys bs fs files fds)"
  using ex_read_user [of "unat p" 4 bs] assms by (simp add: read_int_def)

definition ex_env :: call_env where
  "ex_env = \<lparr>mem_left = True, junk_bytes = [], junk_inode = None, new_file = 0x500,
     new_entry = (\<lambda>_. \<lparr>user_vaddr = 0, access_time = 0, swapped = False, spte_dirty = False, spte_accessed = False, disk_sector_idx = 0,
       load_executable = False, loaded = False, page_read_bytes = 0, file_ofs = 0, spte_writable = False, mmapped = False, mid = 0,
       spte_fd = 0, file_ptr = 0, page_cnt = 0\<rparr>),
     string_at = (\<lambda>_. []), buffer_at = (\<lambda>_. [])\<rparr>"

definition ex_fd :: fd_elem where
  "ex_fd = \<lparr>fde_fd = 4, fde_file = 0x400, fde_dir = None, fde_vaddr = 0, fde_mmapped = False, fde_isdir = False, fde_mapid = 0\<rparr>"

definition ex_files :: "int \<Rightarrow> 32 word \<Rightarrow> open_file option" where
  "ex_files pos = [0x400 \<mapsto> \<lparr>file_inode = 1, file_pos = pos, deny_write = False\<rparr>]"

text \<open>A call with one argument.\<close>

lemma ex_handler:
  assumes "SYS_ARGS (sint (hd (bytes_elems (take 4 bs)))) = 1" "length bs = 8"
  shows "syscall_handler env 0x1000 (ex_sys bs fs files fds) =
    do_syscall env 0x1000 (sint (hd (bytes_elems (take 4 bs)))) [hd (bytes_elems (take 4 (drop 4 bs)))] (ex_sys bs fs files fds)"
  using assms by (simp add: syscall_handler_def ex_check ex_read_int [where i = 0] ex_read_int [where i = 4] Let_def)

lemma ex_sys_ok: "sys_ok (ex_sys bs fs (ex_files pos) [ex_fd])"
  by (simp add: sys_ok_def table_ok_def ex_sys_def ex_fd_def ex_files_def)


lemma ex_tell_call:
  "syscall_handler ex_env 0x1000 (ex_sys [11, 0, 0, 0, 4, 0, 0, 0] ex_fs (ex_files 7) [ex_fd]) =
   Some (Ret (Done (Some 7) []) (ex_sys [11, 0, 0, 0, 4, 0, 0, 0] ex_fs (ex_files 7) [ex_fd]))"
  by (subst ex_handler) (simp_all add: SYS_ARGS_def do_syscall_def reply_of_def sys_tell_def fd_list_iter_def acquire_fs_def release_fs_def ex_sys_def
      ex_fd_def ex_files_def file_tell_def)


section \<open>Open files through descriptors\<close>

definition with_lock :: "sys \<Rightarrow> sys" where
  "with_lock s = s\<lparr>sys_vm := (sys_vm s)\<lparr>filesys_lock := True\<rparr>\<rparr>"

lemma unlock_vm: "\<not> filesys_lock v \<Longrightarrow> v\<lparr>filesys_lock := False\<rparr> = v" for v :: vm
  by (cases v) simp

lemma acquire_eq: "sys_ok s \<Longrightarrow> acquire_fs s = Some (with_lock s)"
  by (simp add: acquire_fs_def sys_ok_def with_lock_def)

lemma with_lock_sel [simp]:
  "fd_list (with_lock s) = fd_list s" "sys_file (with_lock s) = sys_file s" "sys_fs (with_lock s) = sys_fs s"
  by (simp_all add: with_lock_def)

lemma with_lock_set: "set_file p f (with_lock s) = with_lock (set_file p f s)" "set_fs fs (with_lock s) = with_lock (set_fs fs s)"
  by (simp_all add: with_lock_def set_file_def set_fs_def)

lemma release_eq:
  assumes "sys_ok s"
  shows "release_fs (with_lock s) = Some s"
proof -
  have "(sys_vm s)\<lparr>filesys_lock := False\<rparr> = sys_vm s" using assms by (intro unlock_vm) (simp add: sys_ok_def)
  then show ?thesis by (simp add: release_fs_def with_lock_def)
qed

lemma set_file_sel [simp]:
  "fd_list (set_file p f s) = fd_list s" "sys_file (set_file p f s) = (sys_file s)(p := f)" "sys_fs (set_file p f s) = sys_fs s"
  "fd_list (set_fs fs s) = fd_list s" "sys_file (set_fs fs s) = sys_file s" "sys_fs (set_fs fs s) = fs"
  by (simp_all add: set_file_def set_fs_def)

lemmas lock_simps = acquire_eq release_eq with_lock_set ok_set_file

lemma seek_eq:
  assumes "sys_ok s" "fd_list_iter (fd_list s) fd = Some t" "sys_file s (fde_file t) = Some f"
  shows "sys_seek fd p s = (if sint p < 0 then None else Some (Ret () (set_file (fde_file t) (Some (f\<lparr>file_pos := sint p\<rparr>)) s)))"
  using assms by (simp add: sys_seek_def lock_simps file_seek_def)

lemma open_fd_ge_2:
  assumes "sys_ok s" "fd_list_iter (fd_list s) fd = Some t"
  shows "2 \<le> fd"
proof -
  have "t \<in> set (fd_list s)" "fde_fd t = fd" using fd_list_iter_in [OF assms(2)] by blast+
  then show ?thesis using assms(1) unfolding sys_ok_def table_ok_def by blast
qed

lemma write_eq:
  assumes "sys_ok s" "fd_list_iter (fd_list s) fd = Some t" "sys_file s (fde_file t) = Some f" "\<not> fde_isdir t"
    "check_userptr buf s = Some True" "get_inode (sys_fs s) (file_inode f) = Some n"
    "inode_write_at m (file_inode f) bytes (sint sz) (file_pos f) (sys_fs s) = Some (k, fs)"
  shows "sys_write m fd buf bytes sz s = Some (Ret k (set_file (fde_file t) (Some (f\<lparr>file_pos := s32 (file_pos f + k)\<rparr>)) (set_fs fs s)))"
  using assms open_fd_ge_2 [OF assms(1,2)]
    by (simp add: sys_write_def lock_simps file_length_def file_write_def)

lemma read_eq:
  assumes "sys_ok s" "fd_list_iter (fd_list s) fd = Some t" "sys_file s (fde_file t) = Some f" "check_userptr_pf buf"
    "inode_read_at m (sys_fs s) (file_inode f) (sint sz) (file_pos f) = Some bs"
  shows "sys_read m fd buf sz s =
    Some (Ret (int (length bs), bs) (set_file (fde_file t) (Some (f\<lparr>file_pos := s32 (file_pos f + int (length bs))\<rparr>)) s))"
  using assms open_fd_ge_2 [OF assms(1,2)]
    by (simp add: sys_read_def lock_simps file_read_def)

lemma check_userptr_imp_pf: "check_userptr p s = Some True \<Longrightarrow> check_userptr_pf p"
  by (simp add: check_userptr_def check_userptr_pf_def split: if_splits)



text \<open>C37. A user program can stop the kernel by seeking. \<open>seek\<close> takes an unsigned position and passes it on as a signed
  one, which \<open>file_seek\<close> asserts not to be negative, so for every open descriptor a position of 2 GB or more ends in a failed
  assertion; a smaller one is where the next \<open>tell\<close> finds the file.\<close>

theorem seek_stops_kernel:
  assumes "sys_ok s" "fd_list_iter (fd_list s) fd = Some t"
  shows "if 2 ^ 31 \<le> unat p then sys_seek fd p s = None
    else \<exists>s'. sys_seek fd p s = Some (Ret () s') \<and> sys_tell fd s' = Some (Ret (int (unat p)) s')"
proof -
  have "t \<in> set (fd_list s)" using fd_list_iter_in [OF assms(2)] by blast
  then obtain f where f: "sys_file s (fde_file t) = Some f" using assms(1) unfolding sys_ok_def table_ok_def by blast
  define u where "u = unat p"
  have s: "sint p = signed_take_bit 31 (int u)" by (simp add: sint_uint u_def)
  have p: "sint p = int (unat p)" if "unat p < 2 ^ 31"
    using that unfolding s u_def [symmetric] by (intro signed_take_bit_int_eq_self) auto
  have n: "sint p < 0" if "2 ^ 31 \<le> unat p"
  proof -
    have "2 ^ 31 \<le> u" "u < 2 ^ 32" using that unsigned_less [of p] by (simp_all add: u_def)
    then have "u div 2 ^ 31 = 1" by (simp add: div_nat_eqI)
    then have "odd (int u div 2 ^ 31)" using zdiv_int [of u "2 ^ 31"] by simp
    then show ?thesis unfolding s signed_take_bit_negative_iff bit_iff_odd .
  qed
  show ?thesis
  proof (cases "2 ^ 31 \<le> unat p")
    case True
    then show ?thesis using seek_eq [OF assms f, of p] n by simp
  next
    case False
    let ?s = "set_file (fde_file t) (Some (f\<lparr>file_pos := sint p\<rparr>)) s"
    have "sys_tell fd ?s = Some (Ret (sint p) ?s)"
      using assms by (simp add: sys_tell_def lock_simps file_tell_def)
    then show ?thesis using seek_eq [OF assms f, of p] p False by simp
  qed
qed

theorem seek_stops_kernel_witness:
  "sys_seek 4 0x80000000 (ex_sys [] ex_fs (ex_files 0) [ex_fd]) = None \<and>
   (\<exists>s'. sys_seek 4 0x7fffffff (ex_sys [] ex_fs (ex_files 0) [ex_fd]) = Some (Ret () s'))"
proof -
  let ?s = "ex_sys [] ex_fs (ex_files 0) [ex_fd]"
  have f: "fd_list_iter (fd_list ?s) 4 = Some ex_fd" by (simp add: ex_sys_def fd_list_iter_def ex_fd_def)
  show ?thesis
    using seek_stops_kernel [OF ex_sys_ok f, of "0x80000000"] seek_stops_kernel [OF ex_sys_ok f, of "0x7fffffff"] by auto
qed

section \<open>Unmapping\<close>

text \<open>Unmapping a mapping whose first page is not marked as modified changes nothing but the mappings and the mark of the first entry.\<close>

lemma munmap_loop_clean:
  assumes "munmap_loop m blank esp ref n fl a ofs v = Some v'" "spt v ref = Some e" "\<not> spte_dirty e"
  shows "frame_table v' = frame_table v \<and> spt v' = (if n = 0 then spt v else (spt v)(ref \<mapsto> e\<lparr>mid := 0\<rparr>))"
  using assms
proof (induction n arbitrary: fl a ofs v e)
  case (Suc n)
  let ?n = "if fl < 4096 then fl else 4096"
  let ?v = "set_spte ref (e\<lparr>mid := 0\<rparr>) v"
  from Suc.prems obtain p where r: "munmap_loop m blank esp ref n (fl - ?n) (a + 4096) (ofs + ?n) (?v\<lparr>vm_mmu := p\<rparr>) = Some v'"
    unfolding munmap_loop.simps Let_def by (auto simp: bind_eq_Some_conv)
  have e: "spt (?v\<lparr>vm_mmu := p\<rparr>) ref = Some (e\<lparr>mid := 0\<rparr>)" "\<not> spte_dirty (e\<lparr>mid := 0\<rparr>)"
    using Suc.prems(3) by (simp_all add: set_spte_def)
  show ?case using Suc.IH [OF r e] by (auto simp: set_spte_def fun_eq_iff split: if_splits)
qed simp

lemma free_frames_keeps_frame:
  assumes "free_frames m fts v = Some v'" "fte \<in> set (frame_table v)" "fte_spte fte = Some ref" "spt v ref = Some e" "mid e \<noteq> m"
  shows "fte \<in> set (frame_table v') \<and> spt v' = spt v \<and> swap_lock v' = swap_lock v"
  using assms
proof (induction fts arbitrary: v)
  case (Cons x fts)
  from Cons.prems(1) obtain r d v1 where x: "fte_spte x = Some r" "spt v r = Some d"
    and w: "(if mid d = m then free_user_page (frame x) (v\<lparr>frame_table := remove1 x (frame_table v)\<rparr>) else Some v) = Some v1"
    and r: "free_frames m fts v1 = Some v'"
    unfolding free_frames.simps bind_eq_Some_conv by blast
  have "fte \<noteq> x" if "mid d = m" using that x Cons.prems(3-5) by auto
  then have "fte \<in> set (frame_table v1) \<and> spt v1 = spt v \<and> swap_lock v1 = swap_lock v" using w Cons.prems(2)
    by (auto simp: free_user_page_def bind_eq_Some_conv split: if_splits)
  then show ?case using Cons.IH [OF r] Cons.prems by simp
qed simp

text \<open>C38. Unmapping a file leaves its first page in the frame table, with a pointer to the entry that has just been
  freed: the mark of the mapping is cleared in the first entry before the frames are searched for it. When the eviction
  reaches that frame it follows the pointer.\<close>

theorem munmap_leaves_dangling_frame:
  assumes "sys_munmap m blank esp q s = Some (Ret () s')" "find (\<lambda>t. fde_mmapped t \<and> fde_mapid t = q) (fd_list s) = Some t"
    and "spt (sys_vm s) ref = Some e" "ref = (current (sys_vm s), fde_vaddr t)" "\<not> spte_dirty e" "0 < sint (page_cnt e)" "word_of_int q \<noteq> (0 :: 32 word)"
    and "fte \<in> set (frame_table (sys_vm s))" "fte_spte fte = Some ref"
  shows "fte \<in> set (frame_table (sys_vm s')) \<and> spt (sys_vm s') ref = None \<and>
    (\<forall>v fts. frame_table v = fte # fts \<and> spt v ref = None \<longrightarrow> swap_out m v = None)"
proof -
  note m = assms(1) [unfolded sys_munmap_def assms(2) option.case Let_def assms(4) [symmetric]]
  from m obtain s1 where 1: "acquire_fs s = Some s1" by (auto simp: bind_eq_Some_conv)
  have s1: "spt (sys_vm s1) = spt (sys_vm s)" "frame_table (sys_vm s1) = frame_table (sys_vm s)"
    using 1 by (auto simp: acquire_fs_def split: if_split_asm)
  note m = m [unfolded 1 bind.bind_lunit s1(1) assms(3)]
  from m obtain fl v v1 where
    l: "munmap_loop m blank esp ref (nat (sint (page_cnt e))) fl (user_vaddr e) (sint (file_ofs e)) (sys_vm s1) = Some v" and
    f: "free_frames (word_of_int q) (frame_table v) v = Some v1" and
    r: "release_fs (s1\<lparr>sys_vm := v1\<lparr>spt := (spt v1)(ref := None)\<rparr>, fd_list := map (\<lambda>x. if x = t then x\<lparr>fde_mmapped := False\<rparr> else x) (fd_list s1)\<rparr>) = Some s'"
    unfolding bind_eq_Some_conv by auto
  have "spt v ref = Some (e\<lparr>mid := 0\<rparr>)" "fte \<in> set (frame_table v)"
    using munmap_loop_clean [OF l _ assms(5)] s1 assms(3,6,8) by simp_all
  from free_frames_keeps_frame [OF f this(2) assms(9) this(1)] assms(7)
  have "fte \<in> set (frame_table v1)" by simp
  then have "fte \<in> set (frame_table (sys_vm s')) \<and> spt (sys_vm s') ref = None" using r by (auto simp: release_fs_def split: if_split_asm)
  moreover have "swap_out m w = None" if "frame_table w = fte # fts" "spt w ref = None" for w fts
    using that assms(9) by (simp add: swap_out_def Let_def)
  ultimately show ?thesis by blast
qed

lemma ex_clear: "\<exists>m'. pagedir_clear_page 0xc0010000 0x1000 (vm_mmu (sys_vm (ex_sys [] fs files fds))) = Some m'"
proof -
  have n: "pd_no 0x1000 = 0" "pt_no 0x1000 = 1" "pg_ofs 0x1000 = 0" by (simp_all add: pd_no_def pt_no_def pg_ofs_def)
  show ?thesis
    by (simp add: pagedir_clear_page_def lookup_page_def is_user_vaddr_def is_kernel_vaddr_def n ex_sys_def get_entry_def ex_entries pde_get_pt_def ptov_def
        PTE_P_def PTE_ADDR_def invalidate_pagedir_def active_pd_def pagedir_activate_def vtop_def set_entry_def)
qed

definition ex_map_entry :: sup_page_table_entry where
  "ex_map_entry = (new_entry ex_env 0)\<lparr>user_vaddr := 0x1000, loaded := True, spte_writable := True, page_read_bytes := 600, mmapped := True,
     mid := 1, spte_fd := 4, file_ptr := 0x400, page_cnt := 1\<rparr>"

definition ex_frame :: frame_table_entry where
  "ex_frame = \<lparr>frame = 0xc0030000, owner = 0, fte_spte = Some (0, 0x1000), fte_mmapped = False\<rparr>"

definition ex_mapped :: sys where
  "ex_mapped = (let s = ex_sys [] ex_fs (ex_files 0) [ex_fd\<lparr>fde_vaddr := 0x1000, fde_mmapped := True, fde_mapid := 1\<rparr>]
     in s\<lparr>sys_vm := (sys_vm s)\<lparr>spt := [(0, 0x1000) \<mapsto> ex_map_entry], frame_table := [ex_frame]\<rparr>\<rparr>)"

lemma ex_mapped_sel:
  "fd_list ex_mapped = [ex_fd\<lparr>fde_vaddr := 0x1000, fde_mmapped := True, fde_mapid := 1\<rparr>]" "spt (sys_vm ex_mapped) = [(0, 0x1000) \<mapsto> ex_map_entry]"
  "frame_table (sys_vm ex_mapped) = [ex_frame]" "current (sys_vm ex_mapped) = 0" "sys_fs ex_mapped = ex_fs" "sys_file ex_mapped = ex_files 0"
  "pagedir (sys_vm ex_mapped) = (\<lambda>_. 0xc0010000)" "\<not> filesys_lock (sys_vm ex_mapped)"
  "vm_mmu (sys_vm ex_mapped) = vm_mmu (sys_vm (ex_sys [] ex_fs (ex_files 0) []))"
  by (simp_all add: ex_mapped_def ex_sys_def Let_def)

lemma ex_map_entry_sel:
  "user_vaddr ex_map_entry = 0x1000" "\<not> spte_dirty ex_map_entry" "page_cnt ex_map_entry = 1" "file_ptr ex_map_entry = 0x400" "file_ofs ex_map_entry = 0"
  by (simp_all add: ex_map_entry_def ex_env_def)

lemma ex_munmap: "\<exists>s'. sys_munmap True blank esp 1 ex_mapped = Some (Ret () s')"
proof -
  let ?ref = "(0, 0x1000) :: spte_ref"
  let ?s = "with_lock ex_mapped"
  have v: "spt (sys_vm ?s) = [?ref \<mapsto> ex_map_entry]" "frame_table (sys_vm ?s) = [ex_frame]" "current (sys_vm ?s) = 0" "sys_fs ?s = ex_fs"
    "sys_file ?s = ex_files 0" "pagedir (sys_vm ?s) = (\<lambda>_. 0xc0010000)" "vm_mmu (sys_vm ?s) = vm_mmu (sys_vm (ex_sys [] ex_fs (ex_files 0) []))"
    "filesys_lock (sys_vm ?s)"
    by (simp_all add: with_lock_def ex_mapped_sel)
  obtain m' where m': "pagedir_clear_page 0xc0010000 0x1000 (vm_mmu (sys_vm (ex_sys [] ex_fs (ex_files 0) []))) = Some m'" using ex_clear by blast
  let ?v = "(set_spte ?ref (ex_map_entry\<lparr>mid := 0\<rparr>) (sys_vm ?s))\<lparr>vm_mmu := m'\<rparr>"
  have l: "munmap_loop True blank esp ?ref (Suc 0) 600 0x1000 0 (sys_vm ?s) = Some ?v"
    unfolding munmap_loop.simps Let_def by (simp add: v ex_map_entry_sel set_spte_def m')
  have vs: "frame_table ?v = [ex_frame]" "spt ?v ?ref = Some (ex_map_entry\<lparr>mid := 0\<rparr>)" "filesys_lock ?v" by (simp_all add: set_spte_def v)
  have f: "free_frames 1 [ex_frame] ?v = Some ?v" by (simp add: set_spte_def ex_frame_def)
  have e: "find (\<lambda>t. fde_mmapped t \<and> fde_mapid t = 1) (fd_list ex_mapped) = Some (ex_fd\<lparr>fde_vaddr := 0x1000, fde_mmapped := True, fde_mapid := 1\<rparr>)"
    by (simp add: ex_mapped_sel)
  have o': "ex_files 0 0x400 = Some \<lparr>file_inode = 1, file_pos = 0, deny_write = False\<rparr>" "data_length ex_data = 600"
    by (simp_all add: ex_files_def ex_data_def)
  have a: "acquire_fs ex_mapped = Some ?s" by (simp add: acquire_fs_def ex_mapped_sel with_lock_def)
  have n: "nat (sint (1 :: 32 word)) = Suc 0" "sint (0 :: 32 word) = 0" "word_of_int 1 = (1 :: 32 word)" by simp_all
  have r: "(current (sys_vm ex_mapped), fde_vaddr (ex_fd\<lparr>fde_vaddr := 0x1000, fde_mmapped := True, fde_mapid := 1\<rparr>)) = ?ref" by (simp add: ex_mapped_sel)
  show ?thesis
    unfolding sys_munmap_def e option.case Let_def a bind.bind_lunit r v fun_upd_same ex_map_entry_sel o' file_length_def n
    by (simp add: ex_inode inode_length_def o' l f release_fs_def vs del: munmap_loop.simps free_frames.simps)
qed

theorem munmap_leaves_dangling_frame_witness:
  "\<exists>s'. sys_munmap True ex_map_entry 0x1800 1 ex_mapped = Some (Ret () s') \<and> ex_frame \<in> set (frame_table (sys_vm s')) \<and>
     spt (sys_vm s') (0, 0x1000) = None"
proof -
  obtain s' where s': "sys_munmap True ex_map_entry 0x1800 1 ex_mapped = Some (Ret () s')" using ex_munmap by blast
  have 1: "find (\<lambda>t. fde_mmapped t \<and> fde_mapid t = 1) (fd_list ex_mapped) = Some (ex_fd\<lparr>fde_vaddr := 0x1000, fde_mmapped := True, fde_mapid := 1\<rparr>)"
    "spt (sys_vm ex_mapped) (0, 0x1000) = Some ex_map_entry"
    "(0, 0x1000) = (current (sys_vm ex_mapped), fde_vaddr (ex_fd\<lparr>fde_vaddr := 0x1000, fde_mmapped := True, fde_mapid := 1\<rparr>))"
    "\<not> spte_dirty ex_map_entry" "0 < sint (page_cnt ex_map_entry)" "word_of_int 1 \<noteq> (0 :: 32 word)"
    "ex_frame \<in> set (frame_table (sys_vm ex_mapped))" "fte_spte ex_frame = Some (0, 0x1000)"
    by (simp_all add: ex_mapped_sel ex_map_entry_sel ex_frame_def)
  from munmap_leaves_dangling_frame [OF s' 1] s' show ?thesis by blast
qed

end
