(* ===== verification/Process.thy ===== *)
theory Process
  imports Kernel_Inv
begin

text \<open>
  Starting, ending and waiting for processes (\<open>userprog/process.c\<close>, and \<open>exit\<close>, \<open>exec\<close> and \<open>wait\<close> of \<open>userprog/syscall.c\<close>), on
  the state of the threading system. A parent keeps a \<open>child_info\<close> for every child it ever started, and a list of those
  still alive. A pointer to a \<open>child_info\<close> is its position in the list, from which nothing is removed before the parent ends
  except by a failed start. A call that has to wait stops at the semaphore, and its rest is a definition of its own.
\<close>

section \<open>Waiting for a child\<close>

text \<open>The search of \<open>process_wait\<close> for the information about a child: it returns at once, or goes on with a pointer to an entry. When
  no entry has the number, the pointer is left at the last one.\<close>

fun wait_info :: "int \<Rightarrow> child_info list \<Rightarrow> (int \<times> child_info list) + nat" where
  "wait_info t [] = Inl (-1, [])"
| "wait_info t (c # cs) =
     (if ci_tid c = t then
        if \<not> ci_exited c then Inr 0
        else if \<not> ci_waited c then Inl (ci_exit_status c, c\<lparr>ci_waited := True\<rparr> # cs)
        else Inl (-1, c # cs)
      else if cs = [] then Inr 0
      else case wait_info t cs of Inl (x, cs') \<Rightarrow> Inl (x, c # cs') | Inr i \<Rightarrow> Inr (Suc i))"

text \<open>The search for the thread of a child: again the last one when there is none; with an empty list the pointer is not set.\<close>

fun find_child :: "kernel \<Rightarrow> int \<Rightarrow> tptr list \<Rightarrow> tptr option" where
  "find_child k t [] = None"
| "find_child k t (c # cs) = do { th \<leftarrow> threads k c; if tid th = t \<or> cs = [] then Some c else find_child k t cs }"

text \<open>The call returns, or waits for the thread of the child with a pointer to an entry.\<close>

datatype waiting = Returns int kernel | Waits nat tptr kernel

definition process_wait :: "int \<Rightarrow> kernel \<Rightarrow> waiting option" where
  "process_wait child_tid k = do {
     me \<leftarrow> thread_current k;
     th \<leftarrow> threads k me;
     case wait_info child_tid (child_info_list th) of
       Inl (x, cs) \<Rightarrow> Some (Returns x (upd_thread me (\<lambda>t. t\<lparr>child_info_list := cs\<rparr>) k))
     | Inr i \<Rightarrow> do {
         temp_child \<leftarrow> find_child k child_tid (children_thread_list th);
         k \<leftarrow> sema_down (WaitSema temp_child) k;
         Some (Waits i temp_child k)
       }
   }"

text \<open>The rest of the call, once the semaphore is down.\<close>

definition process_wait_rest :: "nat \<Rightarrow> kernel \<Rightarrow> int option" where
  "process_wait_rest i k = do {
     me \<leftarrow> thread_current k;
     th \<leftarrow> threads k me;
     ASSERT (i < length (child_info_list th));
     Some (ci_exit_status (child_info_list th ! i))
   }"

section \<open>Ending a process\<close>

text \<open>Waiting for the children that are still alive. A wait that blocks ends the model of the loop: the list element that the
  loop continues from may be freed by then.\<close>

fun wait_children :: "tptr list \<Rightarrow> kernel \<Rightarrow> waiting option" where
  "wait_children [] k = Some (Returns 0 k)"
| "wait_children (c # cs) k = do {
     th \<leftarrow> threads k c;
     r \<leftarrow> process_wait (tid th) k;
     case r of Returns _ k \<Rightarrow> wait_children cs k | Waits i c k \<Rightarrow> Some (Waits i c k)
   }"

text \<open>Telling the parent.\<close>

definition report_exit :: "int \<Rightarrow> kernel \<Rightarrow> kernel option" where
  "report_exit st k = do {
     me \<leftarrow> thread_current k;
     th \<leftarrow> threads k me;
     p \<leftarrow> parent_thread th;
     _ \<leftarrow> threads k p;
     Some (upd_thread p (\<lambda>pt. pt\<lparr>child_info_list :=
       map (\<lambda>c. if ci_tid c = tid th then c\<lparr>ci_exit_status := st, ci_exited := True\<rparr> else c) (child_info_list pt)\<rparr>) k)
   }"

text \<open>The whole of \<open>exit\<close> but for the message and the files, up to a wait for a child. \<open>exit_rest\<close> is what follows the waiting.\<close>

definition exit_rest :: "int \<Rightarrow> kernel \<Rightarrow> kernel option" where
  "exit_rest st k = do { k \<leftarrow> report_exit st k; thread_exit k }"

definition process_end :: "int \<Rightarrow> kernel \<Rightarrow> waiting option" where
  "process_end st k = do {
     me \<leftarrow> thread_current k;
     th \<leftarrow> threads k me;
     let k = upd_thread me (\<lambda>t. t\<lparr>exit_status := st\<rparr>) k;
     r \<leftarrow> wait_children (children_thread_list th) k;
     case r of
       Returns _ k \<Rightarrow> do { k \<leftarrow> exit_rest st k; Some (Returns st k) }
     | Waits i c k \<Rightarrow> Some (Waits i c k)
   }"

section \<open>Starting a process\<close>

text \<open>What the new thread does around loading: it tells its parent.\<close>

definition start_process :: "bool \<Rightarrow> kernel \<Rightarrow> kernel option" where
  "start_process success k = do {
     me \<leftarrow> thread_current k;
     th \<leftarrow> threads k me;
     p \<leftarrow> parent_thread th;
     _ \<leftarrow> threads k p;
     let k = upd_thread p (\<lambda>t. t\<lparr>child_load_failed := \<not> success\<rparr>) k;
     if success then sema_up (ChildSync me) k else thread_exit k
   }"

text \<open>The rest of \<open>process_execute\<close> after the thread has been created: when loading has failed, the thread and the entry are
  removed. \<open>temp\<close> is the thread with the number or, when there is none, the last in the list.\<close>

fun find_info :: "int \<Rightarrow> child_info list \<Rightarrow> child_info option" where
  "find_info t [] = None"
| "find_info t (c # cs) = (if ci_tid c = t \<or> cs = [] then Some c else find_info t cs)"

definition remove_failed_child :: "int \<Rightarrow> tptr \<Rightarrow> tptr list \<Rightarrow> kernel \<Rightarrow> kernel option" where
  "remove_failed_child t me cs k =
     (if cs = [] then Some k
      else do {
        temp \<leftarrow> find_child k t cs;
        let k = upd_thread me (\<lambda>th. th\<lparr>children_thread_list := remove1 temp cs\<rparr>) k;
        Some (k\<lparr>threads := (threads k)(temp := None)\<rparr>)
      })"

definition execute_rest :: "int \<Rightarrow> kernel \<Rightarrow> (int \<times> kernel) option" where
  "execute_rest t k = do {
     me \<leftarrow> thread_current k;
     th \<leftarrow> threads k me;
     if child_load_failed th then do {
       k \<leftarrow> remove_failed_child t me (children_thread_list th) k;
       let k = (case find_info t (child_info_list th) of
                  None \<Rightarrow> k
                | Some c \<Rightarrow> upd_thread me (\<lambda>th. th\<lparr>child_info_list := remove1 c (child_info_list th)\<rparr>) k);
       Some (-1, k)
     } else Some (t, k)
   }"

text \<open>The end of \<open>exec\<close>: waiting until the child has loaded its program. The pointer is not set when no child has the number.\<close>

definition exec_sync :: "int \<Rightarrow> kernel \<Rightarrow> kernel option" where
  "exec_sync t k = do {
     me \<leftarrow> thread_current k;
     th \<leftarrow> threads k me;
     if children_thread_list th = [] then Some k
     else do {
       child \<leftarrow> find (\<lambda>c. map_option tid (threads k c) = Some t) (children_thread_list th);
       sema_down (ChildSync child) k
     }
   }"

section \<open>What a parent knows about its children\<close>

text \<open>The abstract state of a child, and the map from numbers to states that the list of entries stands for.\<close>

datatype child_state = Alive | Exited int | Collected int

definition state_of :: "child_info \<Rightarrow> child_state" where
  "state_of c = (if \<not> ci_exited c then Alive else if ci_waited c then Collected (ci_exit_status c) else Exited (ci_exit_status c))"

definition children :: "child_info list \<Rightarrow> int \<Rightarrow> child_state option" where
  "children cs = map_of (map (\<lambda>c. (ci_tid c, state_of c)) cs)"

lemma children_simps [simp]:
  "children [] = Map.empty" "children (c # cs) = (children cs)(ci_tid c \<mapsto> state_of c)"
  by (simp_all add: children_def)

text \<open>The mark that a child leaves.\<close>

definition mark_exit :: "int \<Rightarrow> int \<Rightarrow> child_info list \<Rightarrow> child_info list" where
  "mark_exit t st cs = map (\<lambda>c. if ci_tid c = t then c\<lparr>ci_exit_status := st, ci_exited := True\<rparr> else c) cs"

lemma mark_exit_length [simp]: "length (mark_exit t st cs) = length cs"
  by (simp add: mark_exit_def)

lemma mark_exit_tids: "map ci_tid (mark_exit t st cs) = map ci_tid cs"
  by (simp add: mark_exit_def)

lemma mark_exit_nth: "i < length cs \<Longrightarrow> ci_tid (cs ! i) = t \<Longrightarrow> ci_exit_status (mark_exit t st cs ! i) = st"
  by (simp add: mark_exit_def)

lemma children_mark_other: "u \<noteq> t \<Longrightarrow> children (mark_exit t st cs) u = children cs u"
  by (induction cs) (auto simp: mark_exit_def state_of_def)

lemma children_mark: "children cs t = Some Alive \<Longrightarrow> (\<forall>c\<in>set cs. ci_waited c \<longrightarrow> ci_exited c) \<Longrightarrow> children (mark_exit t st cs) t = Some (Exited st)"
  by (induction cs) (auto simp: mark_exit_def state_of_def split: if_splits)

text \<open>The search of \<open>process_wait\<close> by the state of the child.\<close>

lemma wait_info_alive:
  "children cs t = Some Alive \<Longrightarrow> \<exists>i. wait_info t cs = Inr i \<and> i < length cs \<and> ci_tid (cs ! i) = t"
proof (induction cs)
  case (Cons c cs)
  show ?case
  proof (cases "ci_tid c = t")
    case False
    then have "children cs t = Some Alive" "cs \<noteq> []" using Cons.prems by auto
    then show ?thesis using Cons.IH False by auto
  qed (use Cons.prems in \<open>auto simp: state_of_def split: if_splits\<close>)
qed simp

lemma wait_info_exited:
  "children cs t = Some (Exited st) \<Longrightarrow> \<exists>cs'. wait_info t cs = Inl (st, cs') \<and> children cs' = (children cs)(t \<mapsto> Collected st)"
proof (induction cs)
  case (Cons c cs)
  show ?case
  proof (cases "ci_tid c = t")
    case False
    then have "children cs t = Some (Exited st)" "cs \<noteq> []" using Cons.prems by auto
    then show ?thesis using Cons.IH False by (auto simp: fun_eq_iff)
  qed (use Cons.prems in \<open>auto simp: state_of_def split: if_splits\<close>)
qed simp

lemma wait_info_collected: "children cs t = Some (Collected st) \<Longrightarrow> wait_info t cs = Inl (-1, cs)"
  by (induction cs) (auto simp: state_of_def split: if_splits)

lemma wait_info_unknown: "children cs t = None \<Longrightarrow> cs \<noteq> [] \<Longrightarrow> wait_info t cs = Inr (length cs - 1)"
proof (induction cs)
  case (Cons c cs)
  then have "ci_tid c \<noteq> t" "children cs t = None" by (auto split: if_splits)
  then show ?case using Cons.IH by (cases cs) auto
qed simp

section \<open>Properties\<close>

lemma current_eq: "threads k (current k) = Some th \<Longrightarrow> status th = THREAD_RUNNING \<Longrightarrow> thread_current k = Some (current k)"
  by (simp add: thread_current_def)

lemma process_wait_returns:
  assumes "threads k (current k) = Some th" "status th = THREAD_RUNNING" "wait_info t (child_info_list th) = Inl (x, cs)"
  shows "process_wait t k = Some (Returns x (upd_thread (current k) (\<lambda>t. t\<lparr>child_info_list := cs\<rparr>) k))"
  using assms by (simp add: process_wait_def current_eq)

text \<open>The entries that a thread has about its children.\<close>

definition infos :: "kernel \<Rightarrow> tptr \<Rightarrow> child_info list" where
  "infos k p = (case threads k p of Some th \<Rightarrow> child_info_list th | None \<Rightarrow> [])"

lemma report_exit_infos:
  assumes "report_exit st k = Some k'" "threads k (current k) = Some c" "parent_thread c = Some p"
  shows "infos k' p = mark_exit (tid c) st (infos k p) \<and> (\<forall>q. q \<noteq> p \<longrightarrow> infos k' q = infos k q)"
proof -
  have "thread_current k = Some (current k)" using assms(1) by (auto simp: report_exit_def thread_current_def bind_eq_Some_conv split: if_splits)
  then obtain pt where "threads k p = Some pt" "k' = upd_thread p (\<lambda>pt. pt\<lparr>child_info_list := mark_exit (tid c) st (child_info_list pt)\<rparr>) k"
    using assms by (auto simp: report_exit_def bind_eq_Some_conv mark_exit_def)
  then show ?thesis by (simp add: infos_def upd_thread_def)
qed


text \<open>A parent, thread 5, with a child, thread 2, which has the number 3; \<open>cur\<close> is running.\<close>

definition ex_family :: "tptr \<Rightarrow> child_info list \<Rightarrow> bool \<Rightarrow> kernel" where
  "ex_family cur cs failed = (thread_init 5 False)\<lparr>current := cur, threads := [
     5 \<mapsto> empty_thread\<lparr>tid := 1, status := if cur = 5 then THREAD_RUNNING else THREAD_BLOCKED, child_info_list := cs,
       children_thread_list := [2], child_load_failed := failed\<rparr>,
     2 \<mapsto> empty_thread\<lparr>tid := 3, status := if cur = 2 then THREAD_RUNNING else THREAD_READY, parent_thread := Some 5\<rparr>]\<rparr>"

definition ex_info :: "bool \<Rightarrow> int \<Rightarrow> child_info" where
  "ex_info exited st = \<lparr>ci_tid = 3, ci_exit_status = st, ci_exited = exited, ci_waited = False\<rparr>"

lemma ex_family_current: "cur = 5 \<or> cur = 2 \<Longrightarrow> thread_current (ex_family cur cs failed) = Some cur" "current (ex_family cur cs failed) = cur"
  by (auto simp: ex_family_def thread_current_def)

lemma ex_family_infos: "infos (ex_family cur cs failed) 5 = cs"
  by (simp add: ex_family_def infos_def)


lemma find_child_last:
  assumes "\<forall>x\<in>set (cs @ [c]). \<exists>th. threads k x = Some th \<and> tid th \<noteq> t"
  shows "find_child k t (cs @ [c]) = Some c"
  using assms by (induction cs) auto

text \<open>Waiting for a thread that is no child does not return -1. The comment promises -1 at once for a number that is
  unknown; the search leaves its pointer at the last child, so the caller waits for that one, and
  returns its status. When no child is left alive, a pointer that was never set is followed.\<close>

theorem wait_for_stranger:
  assumes "thread_current k = Some p" "threads k p = Some th" "child_info_list th \<noteq> []" "children (child_info_list th) t = None"
    and "\<forall>x\<in>set (children_thread_list th). \<exists>c. threads k x = Some c \<and> tid c \<noteq> t"
  shows "process_wait t k = (if children_thread_list th = [] then None
    else map_option (Waits (length (child_info_list th) - 1) (last (children_thread_list th)))
           (sema_down (WaitSema (last (children_thread_list th))) k))"
proof -
  have w: "wait_info t (child_info_list th) = Inr (length (child_info_list th) - 1)" using wait_info_unknown assms(3,4) by blast
  show ?thesis
  proof (cases "children_thread_list th" rule: rev_cases)
    case Nil
    then show ?thesis using assms(1,2) w by (simp add: process_wait_def)
  next
    case (snoc cs c)
    then have "find_child k t (children_thread_list th) = Some c" using find_child_last assms(5) by metis
    then show ?thesis using assms(1,2) w snoc
      by (cases "sema_down (WaitSema c) k") (simp_all add: process_wait_def)
  qed
qed

theorem wait_for_stranger_witness:
  "process_wait 77 (ex_family 5 [ex_info False 0] False) =
     map_option (Waits 0 2) (sema_down (WaitSema 2) (ex_family 5 [ex_info False 0] False))"
proof -
  let ?k = "ex_family 5 [ex_info False 0] False"
  obtain th where th: "threads ?k 5 = Some th" "child_info_list th = [ex_info False 0]" "children_thread_list th = [2]"
    by (simp add: ex_family_def)
  have "threads ?k 2 = Some (empty_thread\<lparr>tid := 3, status := THREAD_READY, parent_thread := Some 5\<rparr>)" by (simp add: ex_family_def)
  then show ?thesis
    using wait_for_stranger [OF ex_family_current(1) th(1), of 77] th by (simp add: ex_info_def)
qed

text \<open>C39. A program that cannot be loaded costs its parent another child. The thread of the failed program has taken itself
  off the list of children before the parent looks for it, so the search ends at the last of the other
  children, and the page of that thread, which may be running, is freed.\<close>

theorem failed_exec_frees_sibling:
  assumes "thread_current k = Some p" "threads k p = Some th" "child_load_failed th" "children_thread_list th = cs @ [c]"
    and "\<forall>x\<in>set (cs @ [c]). \<exists>y. threads k x = Some y \<and> tid y \<noteq> t" "c \<noteq> p"
  shows "\<exists>k'. execute_rest t k = Some (-1, k') \<and> threads k c \<noteq> None \<and> threads k' c = None \<and>
    (\<exists>th'. threads k' p = Some th' \<and> c \<in> set (children_thread_list th) \<and> children_thread_list th' = remove1 c (cs @ [c]))"
proof -
  let ?k1 = "(upd_thread p (\<lambda>th. th\<lparr>children_thread_list := remove1 c (cs @ [c])\<rparr>) k)\<lparr>threads :=
    (threads (upd_thread p (\<lambda>th. th\<lparr>children_thread_list := remove1 c (cs @ [c])\<rparr>) k))(c := None)\<rparr>"
  have f: "find_child k t (cs @ [c]) = Some c" using find_child_last [OF assms(5)] .
  have k1: "threads ?k1 c = None" "threads ?k1 p = Some (th\<lparr>children_thread_list := remove1 c (cs @ [c])\<rparr>)"
    using assms(2,6) by (simp_all add: upd_thread_def)
  have r: "remove_failed_child t p (children_thread_list th) k = Some ?k1"
    using f assms(4) by (simp add: remove_failed_child_def Let_def)
  have "threads k c \<noteq> None" using assms(5) by auto
  moreover have "\<exists>k'. execute_rest t k = Some (-1, k') \<and> threads k' c = None \<and>
      (\<exists>th'. threads k' p = Some th' \<and> children_thread_list th' = remove1 c (cs @ [c]))"
    using assms(1-3,6) r k1 by (cases "find_info t (child_info_list th)") (simp_all add: execute_rest_def upd_thread_def)
  ultimately show ?thesis using assms(4) by auto
qed

theorem failed_exec_frees_sibling_witness:
  "\<exists>k'. execute_rest 4 (ex_family 5 [ex_info False 0] True) = Some (-1, k') \<and>
     threads (ex_family 5 [ex_info False 0] True) 2 \<noteq> None \<and> threads k' 2 = None"
proof -
  let ?k = "ex_family 5 [ex_info False 0] True"
  obtain th where th: "threads ?k 5 = Some th" "child_load_failed th" "children_thread_list th = [] @ [2]" by (simp add: ex_family_def)
  have "threads ?k 2 = Some (empty_thread\<lparr>tid := 3, status := THREAD_READY, parent_thread := Some 5\<rparr>)" by (simp add: ex_family_def)
  with failed_exec_frees_sibling [OF ex_family_current(1) th, of 4] show ?thesis by auto
qed

end
