(* ===== verification/Intq.thy ===== *)
theory Intq
  imports Kernel_Inv
begin

text \<open>
  Queues between interrupt handlers and threads, \<open>devices/intq.c\<close>, and the input buffer, \<open>devices/input.c\<close>: a ring of 64
  bytes, of which 63 are used, with at most one thread waiting for each condition. A call that has
  to wait ends with \<open>Must_wait\<close>; the thread then takes the lock of the queue, sleeps in \<open>wait\<close> and tries
  again. Interrupts are off throughout.
\<close>

section \<open>Operations\<close>

type_synonym key = "8 word"

record intq =
  q_not_full :: "tptr option"
  q_not_empty :: "tptr option"
  q_buf :: "key list"
  q_head :: nat
  q_tail :: nat

abbreviation (input) INTQ_BUFSIZE :: nat where "INTQ_BUFSIZE \<equiv> 64"

definition intq_next :: "nat \<Rightarrow> nat" where
  "intq_next pos = (pos + 1) mod INTQ_BUFSIZE"

text \<open>The buffer is not cleared.\<close>

definition intq_init :: "intq \<Rightarrow> intq" where
  "intq_init q = q\<lparr>q_not_full := None, q_not_empty := None, q_head := 0, q_tail := 0\<rparr>"

definition intq_empty :: "intq \<Rightarrow> bool" where
  "intq_empty q \<longleftrightarrow> q_head q = q_tail q"

definition intq_full :: "intq \<Rightarrow> bool" where
  "intq_full q \<longleftrightarrow> intq_next (q_head q) = q_tail q"

text \<open>The two members that \<open>wait\<close> and \<open>signal\<close> may get.\<close>

datatype waiter = Not_empty | Not_full

fun waiter_of :: "waiter \<Rightarrow> intq \<Rightarrow> tptr option" where
  "waiter_of Not_empty q = q_not_empty q"
| "waiter_of Not_full q = q_not_full q"

fun set_waiter :: "waiter \<Rightarrow> tptr option \<Rightarrow> intq \<Rightarrow> intq" where
  "set_waiter Not_empty t q = q\<lparr>q_not_empty := t\<rparr>"
| "set_waiter Not_full t q = q\<lparr>q_not_full := t\<rparr>"

fun holds :: "waiter \<Rightarrow> intq \<Rightarrow> bool" where
  "holds Not_empty q = (\<not> intq_empty q)"
| "holds Not_full q = (\<not> intq_full q)"

definition intq_wait :: "waiter \<Rightarrow> intq \<Rightarrow> kernel \<Rightarrow> (intq \<times> kernel) option" where
  "intq_wait w q k = do {
     ASSERT (\<not> in_external_intr k);
     ASSERT (\<not> holds w q);
     me \<leftarrow> thread_current k;
     k \<leftarrow> thread_block k;
     Some (set_waiter w (Some me) q, k)
   }"

definition intq_signal :: "waiter \<Rightarrow> intq \<Rightarrow> kernel \<Rightarrow> (intq \<times> kernel) option" where
  "intq_signal w q k = do {
     ASSERT (holds w q);
     case waiter_of w q of
       None \<Rightarrow> Some (q, k)
     | Some t \<Rightarrow> do { k \<leftarrow> thread_unblock t k; Some (set_waiter w None q, k) }
   }"

datatype 'a progress = Must_wait | Done 'a intq kernel

text \<open>The work on the ring.\<close>

definition ring_get :: "intq \<Rightarrow> key \<times> intq" where
  "ring_get q = (q_buf q ! q_tail q, q\<lparr>q_tail := intq_next (q_tail q)\<rparr>)"

definition ring_put :: "key \<Rightarrow> intq \<Rightarrow> intq" where
  "ring_put c q = q\<lparr>q_buf := (q_buf q)[q_head q := c], q_head := intq_next (q_head q)\<rparr>"

definition intq_getc :: "intq \<Rightarrow> kernel \<Rightarrow> key progress option" where
  "intq_getc q k =
     (if intq_empty q then do { ASSERT (\<not> in_external_intr k); Some Must_wait }
      else do {
        let (c, q) = ring_get q;
        (q, k) \<leftarrow> intq_signal Not_full q k;
        Some (Done c q k)
      })"

definition intq_putc :: "key \<Rightarrow> intq \<Rightarrow> kernel \<Rightarrow> unit progress option" where
  "intq_putc c q k =
     (if intq_full q then do { ASSERT (\<not> in_external_intr k); Some Must_wait }
      else do {
        (q, k) \<leftarrow> intq_signal Not_empty (ring_put c q) k;
        Some (Done () q k)
      })"

text \<open>The input buffer; telling the serial port that there is room is left out.\<close>

definition input_init :: "intq \<Rightarrow> intq" where
  "input_init q = intq_init q"

definition input_full :: "intq \<Rightarrow> bool" where
  "input_full q = intq_full q"

definition input_putc :: "key \<Rightarrow> intq \<Rightarrow> kernel \<Rightarrow> (intq \<times> kernel) option" where
  "input_putc c q k = do {
     ASSERT (\<not> intq_full q);
     r \<leftarrow> intq_putc c q k;
     case r of Must_wait \<Rightarrow> None | Done _ q k \<Rightarrow> Some (q, k)
   }"

definition input_getc :: "intq \<Rightarrow> kernel \<Rightarrow> key progress option" where
  "input_getc q k = intq_getc q k"

section \<open>Bounded queues\<close>

text \<open>What a client may rely on: a first-in first-out queue that holds at most \<open>cap\<close> elements. The run of a sequence of
  operations, in which an element that does not fit and a removal from the empty queue are refused, is
  that of a list.\<close>

datatype 'a queue_op = Put 'a | Get

fun list_run :: "nat \<Rightarrow> 'a queue_op list \<Rightarrow> 'a list \<Rightarrow> 'a list \<times> 'a list" where
  "list_run n [] xs = ([], xs)"
| "list_run n (Put x # ops) xs = list_run n ops (if length xs < n then xs @ [x] else xs)"
| "list_run n (Get # ops) xs = (case xs of [] \<Rightarrow> list_run n ops [] | x # xs \<Rightarrow> let (out, xs) = list_run n ops xs in (x # out, xs))"

locale bounded_queue =
  fixes ok :: "'q \<Rightarrow> bool" and contents :: "'q \<Rightarrow> 'a list" and put :: "'a \<Rightarrow> 'q \<Rightarrow> 'q" and get :: "'q \<Rightarrow> 'a \<times> 'q"
    and empty :: "'q \<Rightarrow> bool" and full :: "'q \<Rightarrow> bool" and cap :: nat
  assumes empty: "ok q \<Longrightarrow> empty q \<longleftrightarrow> contents q = []"
    and full: "ok q \<Longrightarrow> full q \<longleftrightarrow> length (contents q) = cap"
    and bounded: "ok q \<Longrightarrow> length (contents q) \<le> cap"
    and put: "ok q \<Longrightarrow> \<not> full q \<Longrightarrow> ok (put x q) \<and> contents (put x q) = contents q @ [x]"
    and get: "ok q \<Longrightarrow> \<not> empty q \<Longrightarrow> get q = (x, q') \<Longrightarrow> ok q' \<and> contents q = x # contents q'"
begin

fun queue_run :: "'a queue_op list \<Rightarrow> 'q \<Rightarrow> 'a list \<times> 'q" where
  "queue_run [] q = ([], q)"
| "queue_run (Put x # ops) q = queue_run ops (if full q then q else put x q)"
| "queue_run (Get # ops) q = (if empty q then queue_run ops q else let (x, q) = get q; (out, q) = queue_run ops q in (x # out, q))"

lemma run_refines:
  "ok q \<Longrightarrow> queue_run ops q = (out, q') \<Longrightarrow> ok q' \<and> list_run cap ops (contents q) = (out, contents q')"
proof (induction ops arbitrary: q out q')
  case (Cons op ops)
  show ?case
  proof (cases op)
    case (Put x)
    show ?thesis
    proof (cases "full q")
      case True
      then show ?thesis using Cons.IH [OF Cons.prems(1), of out q'] Cons.prems Put full [OF Cons.prems(1)] by simp
    next
      case False
      then have "length (contents q) < cap" using full bounded Cons.prems(1) by (simp add: le_neq_implies_less)
      then show ?thesis using Cons.IH [of "put x q" out q'] Cons.prems Put False put [OF Cons.prems(1) False, of x] by simp
    qed
  next
    case Get
    show ?thesis
    proof (cases "empty q")
      case True
      then show ?thesis using Cons.IH [OF Cons.prems(1), of out q'] Cons.prems Get empty [OF Cons.prems(1)] by simp
    next
      case False
      obtain x q1 where g: "get q = (x, q1)" by fastforce
      obtain out1 q2 where r: "queue_run ops q1 = (out1, q2)" by fastforce
      note q1 = get [OF Cons.prems(1) False g]
      show ?thesis using Cons.IH [OF _ r] Cons.prems(2) Get False g r q1 by simp
    qed
  qed
qed simp

end

section \<open>The ring is a bounded queue\<close>

definition ring_ok :: "intq \<Rightarrow> bool" where
  "ring_ok q \<longleftrightarrow> length (q_buf q) = INTQ_BUFSIZE \<and> q_head q < INTQ_BUFSIZE \<and> q_tail q < INTQ_BUFSIZE"

definition fill_cnt :: "intq \<Rightarrow> nat" where
  "fill_cnt q = (q_head q + INTQ_BUFSIZE - q_tail q) mod INTQ_BUFSIZE"

definition ring :: "intq \<Rightarrow> key list" where
  "ring q = map (\<lambda>i. q_buf q ! ((q_tail q + i) mod INTQ_BUFSIZE)) [0..<fill_cnt q]"

lemma fill_cnt_cases:
  assumes "ring_ok q"
  shows "fill_cnt q = (if q_tail q \<le> q_head q then q_head q - q_tail q else q_head q + 64 - q_tail q)"
  using assms by (auto simp: fill_cnt_def ring_ok_def le_mod_geq)

lemma next_cases: "n < 64 \<Longrightarrow> intq_next n = (if n = 63 then 0 else n + 1)"
  by (auto simp: intq_next_def)

lemma mod_64: "a < 128 \<Longrightarrow> a mod 64 = (if a < 64 then a else a - 64)" for a :: nat
  by (auto simp: le_mod_geq)

lemma ring_put_contents:
  assumes "ring_ok q" "\<not> intq_full q"
  shows "ring_ok (ring_put c q) \<and> ring (ring_put c q) = ring q @ [c]"
proof -
  have q: "q_head q < 64" "q_tail q < 64" "length (q_buf q) = 64" using assms(1) by (simp_all add: ring_ok_def)
  have ok: "ring_ok (ring_put c q)" using q by (simp add: ring_ok_def ring_put_def intq_next_def)
  have n: "fill_cnt (ring_put c q) = Suc (fill_cnt q)"
    using assms(2) q fill_cnt_cases [OF ok] fill_cnt_cases [OF assms(1)] next_cases [of "q_head q"]
    by (auto simp: ring_put_def intq_full_def split: if_splits)
  have h: "(q_tail q + fill_cnt q) mod 64 = q_head q" using q fill_cnt_cases [OF assms(1)] by (auto simp: le_mod_geq)
  have d: "(q_tail q + i) mod 64 \<noteq> q_head q" if "i < fill_cnt q" for i
    using that q fill_cnt_cases [OF assms(1)] mod_64 [of "q_tail q + i"] by (auto split: if_splits)
  have "(q_buf q)[q_head q := c] ! ((q_tail q + i) mod 64) = q_buf q ! ((q_tail q + i) mod 64)" if "i < fill_cnt q" for i
    using d [OF that] by (intro nth_list_update_neq) simp
  then show ?thesis using ok n h q by (simp add: ring_def ring_put_def)
qed

lemma ring_get_contents:
  assumes "ring_ok q" "\<not> intq_empty q" "ring_get q = (c, q')"
  shows "ring_ok q' \<and> ring q = c # ring q'"
proof -
  have q: "q_head q < 64" "q_tail q < 64" "length (q_buf q) = 64" using assms(1) by (simp_all add: ring_ok_def)
  have q': "q' = q\<lparr>q_tail := intq_next (q_tail q)\<rparr>" "c = q_buf q ! q_tail q" using assms(3) by (auto simp: ring_get_def)
  have ok: "ring_ok q'" using q by (simp add: ring_ok_def q' intq_next_def)
  have n: "fill_cnt q = Suc (fill_cnt q')"
    using assms(2) q fill_cnt_cases [OF ok] fill_cnt_cases [OF assms(1)] next_cases [of "q_tail q"]
    by (auto simp: q' intq_empty_def split: if_splits)
  have "(q_tail q + Suc i) mod 64 = (intq_next (q_tail q) + i) mod 64" for i
    by (simp add: intq_next_def mod_simps)
  then show ?thesis using ok n q unfolding ring_def n
    by (simp add: q' map_upt_Suc del: upt_Suc)
qed

interpretation rq: bounded_queue ring_ok ring ring_put ring_get intq_empty intq_full 63
proof
  fix q :: intq assume ok: "ring_ok q"
  note c = fill_cnt_cases [OF ok] and q = ok [unfolded ring_ok_def]
  show "intq_empty q \<longleftrightarrow> ring q = []" using c q by (auto simp: ring_def intq_empty_def split: if_splits)
  show "intq_full q \<longleftrightarrow> length (ring q) = 63" using c q next_cases [of "q_head q"] by (auto simp: ring_def intq_full_def split: if_splits)
  show "length (ring q) \<le> 63" using c q by (auto simp: ring_def split: if_splits)
qed (use ring_put_contents ring_get_contents in blast)+

section \<open>Properties\<close>

text \<open>A sequence of calls by threads; the result has the bytes that were read. A call that has to wait is not repeated here.\<close>

fun intq_run :: "key queue_op list \<Rightarrow> intq \<Rightarrow> kernel \<Rightarrow> (key list \<times> intq) option" where
  "intq_run [] q k = Some ([], q)"
| "intq_run (Put c # ops) q k = do {
     r \<leftarrow> intq_putc c q k;
     case r of Must_wait \<Rightarrow> intq_run ops q k | Done _ q k \<Rightarrow> intq_run ops q k
   }"
| "intq_run (Get # ops) q k = do {
     r \<leftarrow> intq_getc q k;
     case r of Must_wait \<Rightarrow> intq_run ops q k | Done c q k \<Rightarrow> do { (out, q) \<leftarrow> intq_run ops q k; Some (c # out, q) }
   }"

definition no_waiters :: "intq \<Rightarrow> bool" where
  "no_waiters q \<longleftrightarrow> q_not_full q = None \<and> q_not_empty q = None"

lemma no_waiters_ring: "no_waiters (ring_put c q) = no_waiters q" "no_waiters (snd (ring_get q)) = no_waiters q"
  by (simp_all add: no_waiters_def ring_put_def ring_get_def)

lemma put_not_empty: "ring_ok q \<Longrightarrow> \<not> intq_full q \<Longrightarrow> \<not> intq_empty (ring_put c q)"
  using rq.put rq.empty by fastforce

lemma get_not_full: "ring_ok q \<Longrightarrow> \<not> intq_empty q \<Longrightarrow> \<not> intq_full (snd (ring_get q))"
  using rq.get [of q "fst (ring_get q)" "snd (ring_get q)"] rq.full [of "snd (ring_get q)"] rq.bounded [of q] by fastforce

lemma signal_idle: "no_waiters q \<Longrightarrow> holds w q \<Longrightarrow> intq_signal w q k = Some (q, k)"
  by (cases w) (simp_all add: intq_signal_def no_waiters_def)

lemma putc_done: "ring_ok q \<Longrightarrow> no_waiters q \<Longrightarrow> \<not> intq_full q \<Longrightarrow> intq_putc c q k = Some (Done () (ring_put c q) k)"
  by (simp add: intq_putc_def signal_idle no_waiters_ring put_not_empty)

lemma getc_done:
  assumes "ring_ok q" "no_waiters q" "\<not> intq_empty q" "ring_get q = (c, q')"
  shows "intq_getc q k = Some (Done c q' k)"
  using assms get_not_full [OF assms(1,3)] no_waiters_ring(2) [of q] by (simp add: intq_getc_def signal_idle)

lemma intq_run_ring: "ring_ok q \<Longrightarrow> no_waiters q \<Longrightarrow> \<not> in_external_intr k \<Longrightarrow> intq_run ops q k = Some (rq.queue_run ops q)"
proof (induction ops arbitrary: q)
  case (Cons op ops)
  show ?case
  proof (cases op)
    case (Put c)
    show ?thesis
    proof (cases "intq_full q")
      case True
      then show ?thesis using Cons Put by (simp add: intq_putc_def)
    next
      case False
      then show ?thesis using Cons Put rq.put [OF Cons.prems(1) False, of c] by (simp add: putc_done no_waiters_ring)
    qed
  next
    case Get
    obtain c q' where g: "ring_get q = (c, q')" by fastforce
    show ?thesis
    proof (cases "intq_empty q")
      case True
      then show ?thesis using Cons Get by (simp add: intq_getc_def)
    next
      case False
      have q': "ring_ok q'" "no_waiters q'" using rq.get [OF Cons.prems(1) False g] Cons.prems(2) no_waiters_ring(2) [of q] g by simp_all
      show ?thesis using Cons.IH [OF q' Cons.prems(3)] Get False g getc_done [OF Cons.prems(1,2) False g]
        by (simp split: prod.splits)
    qed
  qed
qed simp

text \<open>C27. An interrupt queue is a first-in first-out queue of 63 bytes. From \<open>intq_init\<close> on, every sequence of calls while no
  thread waits returns the bytes in the order in which they were added, refuses a byte exactly when 63 are
  held and a removal exactly when none is, and never indexes outside the buffer.\<close>

theorem intq_is_fifo:
  assumes "length (q_buf q0) = 64" "\<not> in_external_intr k"
  shows "\<exists>out q. intq_run ops (intq_init q0) k = Some (out, q) \<and> list_run 63 ops [] = (out, ring q) \<and>
    length (q_buf q) = 64 \<and> q_head q < 64 \<and> q_tail q < 64 \<and> length (ring q) \<le> 63"
proof -
  let ?q = "intq_init q0"
  have ok: "ring_ok ?q" "no_waiters ?q" "ring ?q = []"
    using assms(1) by (simp_all add: ring_ok_def no_waiters_def intq_init_def ring_def fill_cnt_def)
  obtain out q where r: "rq.queue_run ops ?q = (out, q)" by fastforce
  then have "ring_ok q \<and> list_run 63 ops [] = (out, ring q)" using rq.run_refines [OF ok(1) r] ok(3) by simp
  then show ?thesis using intq_run_ring [OF ok(1,2) assms(2), of ops] r rq.bounded [of q] by (simp add: ring_ok_def)
qed

theorem intq_is_fifo_witness:
  "\<exists>out q. intq_run [Put 1, Put 2, Get, Put 3, Get] (intq_init \<lparr>q_not_full = None, q_not_empty = None, q_buf = replicate 64 0, q_head = 9, q_tail = 5\<rparr>)
      (thread_init 5 False) = Some (out, q) \<and> out = [1, 2] \<and> ring q = [3]"
  using intq_is_fifo [of "\<lparr>q_not_full = None, q_not_empty = None, q_buf = replicate 64 0, q_head = 9, q_tail = 5\<rparr>" "thread_init 5 False"
      "[Put 1, Put 2, Get, Put 3, Get]"]
  by (auto simp: thread_init_def)

text \<open>A key can stop the kernel. When a thread waits for input and the running thread, which is not the idle thread, has no
  higher priority, the interrupt of the next key adds it to the buffer and wakes the waiting thread; waking yields at once, and yielding
  inside an interrupt is a failed assertion.\<close>

theorem key_press_stops_kernel:
  assumes "in_external_intr k" "\<not> intq_full q" "q_not_empty q = Some t" "threads k t = Some w" "status w = THREAD_BLOCKED"
    and "thread_current k = Some c" "idle_thread k \<noteq> Some c" "prio k c \<le> priority w"
  shows "input_putc key q k = None"
proof -
  have ct: "c \<noteq> t" using assms(4-6) by (auto simp: thread_current_def bind_eq_Some_conv split: if_splits)
  let ?k = "set_status t THREAD_READY (insert_ready t k)"
  have "thread_current ?k = Some c" using assms(6) ct unfolding thread_current_eq by (simp add: stat_set_status)
  moreover have "prio ?k c = prio k c" "prio ?k t = priority w"
    using assms(4) by (auto simp: prio_def set_status_def insert_ready_def upd_thread_def split: option.splits)
  moreover have "thread_yield ?k = None" using assms(1) by (simp add: thread_yield_def)
  ultimately have "thread_unblock t k = None" using assms(4,5,7,8) by (simp add: thread_unblock_def is_thread_def)
  then have "intq_signal Not_empty (ring_put key q) k = None"
    using assms(3) by (simp add: intq_signal_def ring_put_def)
  then show ?thesis using assms(2) by (simp add: input_putc_def intq_putc_def)
qed

definition ex_waiting :: kernel where
  "ex_waiting = (thread_init 5 False)\<lparr>in_external_intr := True, threads := [
     5 \<mapsto> empty_thread\<lparr>status := THREAD_RUNNING, priority := 31\<rparr>, 2 \<mapsto> empty_thread\<lparr>status := THREAD_BLOCKED, priority := 31\<rparr>]\<rparr>"

theorem key_press_stops_kernel_witness:
  "input_putc 65 \<lparr>q_not_full = None, q_not_empty = Some 2, q_buf = replicate 64 0, q_head = 0, q_tail = 0\<rparr> ex_waiting = None"
  by (rule key_press_stops_kernel [where t = 2 and c = 5 and w = "empty_thread\<lparr>status := THREAD_BLOCKED, priority := 31\<rparr>"])
    (simp_all add: ex_waiting_def thread_init_def intq_full_def intq_next_def thread_current_def prio_def)

end
