(* ===== verification/Keyboard.thy ===== *)
theory Keyboard
  imports Intq
begin

text \<open>
  The keyboard driver, \<open>devices/kbd.c\<close>: scancodes are mapped to characters by tables, the keys that shift are tracked, and
  characters go to the input buffer. The two bytes that the data register may deliver are arguments.
\<close>

section \<open>Tables\<close>

type_synonym keymap = "(nat \<times> key list) list"

definition chars :: "string \<Rightarrow> key list" where
  "chars s = map of_char s"

definition invariant_keymap :: keymap where
  "invariant_keymap = [(0x01, [27]), (0x0e, [8]), (0x0f, 9 # chars ''QWERTYUIOP''), (0x1c, [13]), (0x1e, chars ''ASDFGHJKL''),
     (0x2c, chars ''ZXCVBNM''), (0x37, chars ''*''), (0x39, chars '' '')]"

definition unshifted_keymap :: keymap where
  "unshifted_keymap = [(0x02, chars ''1234567890-=''), (0x1a, chars ''[]''), (0x27, [59, 39, 96]), (0x2b, [92]), (0x33, chars '',./'')]"

definition shifted_keymap :: keymap where
  "shifted_keymap = [(0x02, chars ''!@#$%^&*()_+''), (0x1a, chars ''{}''), (0x27, [58, 34, 126]), (0x2b, [124]), (0x33, chars ''<>?'')]"

fun map_key :: "keymap \<Rightarrow> nat \<Rightarrow> key option" where
  "map_key [] scancode = None"
| "map_key ((first, cs) # k) scancode =
     (if first \<le> scancode \<and> scancode < first + length cs then Some (cs ! (scancode - first)) else map_key k scancode)"

definition isupper :: "key \<Rightarrow> bool" where
  "isupper c \<longleftrightarrow> 65 \<le> c \<and> c \<le> 90"

definition tolower :: "key \<Rightarrow> key" where
  "tolower c = (if isupper c then c - 65 + 97 else c)"

section \<open>The interrupt handler\<close>

record kbd =
  left_shift :: bool
  right_shift :: bool
  left_alt :: bool
  right_alt :: bool
  left_ctrl :: bool
  right_ctrl :: bool
  caps_lock :: bool
  key_cnt :: int

definition read_code :: "key \<Rightarrow> key \<Rightarrow> nat" where
  "read_code b1 b2 = (if b1 = 0xe0 then 0xe000 + unat b2 else unat b1)"

text \<open>Bit 7 tells a release.\<close>

definition is_release :: "nat \<Rightarrow> bool" where
  "is_release code \<longleftrightarrow> odd (code div 0x80)"

definition key_code :: "nat \<Rightarrow> nat" where
  "key_code code = (if is_release code then code - 0x80 else code)"

definition find_key :: "bool \<Rightarrow> nat \<Rightarrow> key option" where
  "find_key shift code =
     (case map_key invariant_keymap code of
        Some c \<Rightarrow> Some c
      | None \<Rightarrow> map_key (if shift then shifted_keymap else unshifted_keymap) code)"

definition modify_key :: "bool \<Rightarrow> bool \<Rightarrow> bool \<Rightarrow> bool \<Rightarrow> key \<Rightarrow> key" where
  "modify_key shift caps ctrl alt c =
     (let c = (if ctrl \<and> 0x40 \<le> c \<and> c < 0x60 then c - 0x40 else if shift = caps then tolower c else c)
      in if alt then c + 0x80 else c)"

definition shift_key :: "nat \<Rightarrow> bool \<Rightarrow> kbd \<Rightarrow> kbd" where
  "shift_key code down s =
     (if code = 0x2a then s\<lparr>left_shift := down\<rparr>
      else if code = 0x36 then s\<lparr>right_shift := down\<rparr>
      else if code = 0x38 then s\<lparr>left_alt := down\<rparr>
      else if code = 0xe038 then s\<lparr>right_alt := down\<rparr>
      else if code = 0x1d then s\<lparr>left_ctrl := down\<rparr>
      else if code = 0xe01d then s\<lparr>right_ctrl := down\<rparr>
      else s)"

definition keyboard_interrupt :: "key \<Rightarrow> key \<Rightarrow> kbd \<Rightarrow> intq \<Rightarrow> kernel \<Rightarrow> (kbd \<times> intq \<times> kernel) option" where
  "keyboard_interrupt b1 b2 s q k =
     (let shift = (left_shift s \<or> right_shift s); alt = (left_alt s \<or> right_alt s); ctrl = (left_ctrl s \<or> right_ctrl s);
          raw = read_code b1 b2; release = is_release raw; code = key_code raw in
      if code = 0x3a then Some (if release then s else s\<lparr>caps_lock := \<not> caps_lock s\<rparr>, q, k)
      else case find_key shift code of
        Some c \<Rightarrow>
          if \<not> release \<and> \<not> input_full q then do {
            (q, k) \<leftarrow> input_putc (modify_key shift (caps_lock s) ctrl alt c) q k;
            Some (s\<lparr>key_cnt := key_cnt s + 1\<rparr>, q, k)
          } else Some (s, q, k)
      | None \<Rightarrow> Some (shift_key code (\<not> release) s, q, k))"

section \<open>Properties\<close>

text \<open>The byte that a key sends when it is pressed; 0x80 is added when it is released.\<close>

definition press :: "nat \<Rightarrow> key" where
  "press code = of_nat code"

lemma press_code:
  assumes "code < 0x80"
  shows "read_code (press code) b2 = code \<and> \<not> is_release code \<and> key_code code = code"
proof -
  have u: "unat (press code) = code" using assms by (simp add: press_def unat_of_nat)
  then have "press code \<noteq> 0xe0" using assms by auto
  then show ?thesis using u assms by (simp add: read_code_def is_release_def key_code_def)
qed

lemma release_code:
  assumes "code < 0x60"
  shows "read_code (press code + 0x80) b2 = code + 0x80 \<and> is_release (code + 0x80) \<and> key_code (code + 0x80) = code"
proof -
  have "press code + 0x80 = of_nat (code + 0x80)" by (simp add: press_def)
  then have u: "unat (press code + 0x80) = code + 0x80" using assms by (simp only: unat_of_nat) simp
  have "press code + 0x80 \<noteq> 0xe0"
  proof
    assume "press code + 0x80 = 0xe0"
    then have "code + 0x80 = 0xe0" using u by simp
    then show False using assms by simp
  qed
  moreover have "(code + 0x80) div 0x80 = 1" using assms by simp
  ultimately show ?thesis using u by (simp add: read_code_def is_release_def key_code_def del: div_add_self2)
qed

lemma letter_table: "\<forall>n\<in>set [65..<91]. \<exists>code\<in>set [1..<0x33]. map_key invariant_keymap code = Some (of_nat n)"
  by code_simp

lemma letter_keys: "isupper c \<Longrightarrow> \<exists>code < 0x33. map_key invariant_keymap code = Some c"
proof -
  assume "isupper c"
  then have "65 \<le> unat c" "unat c < 91" by (simp_all add: isupper_def word_le_nat_alt)
  then have "unat c \<in> set [65..<91]" unfolding set_upt by simp
  then obtain code where "code \<in> set [1..<0x33]" "map_key invariant_keymap code = Some (of_nat (unat c))" using letter_table by blast
  then show ?thesis unfolding set_upt by auto
qed

lemma putc_idle:
  assumes "ring_ok q" "no_waiters q" "\<not> intq_full q"
  shows "input_putc c q k = Some (ring_put c q, k)"
  using assms by (simp add: input_putc_def putc_done)

text \<open>Every letter has a key, and the key types the letter. Pressing it adds one character to the input buffer: the
  control character when Ctrl is down, the capital when exactly one of Shift and Caps Lock applies, else the small
  letter, with the high bit set when Alt is down; releasing it adds nothing. When the buffer is full the key is dropped.\<close>

theorem letter_keys_type_letters:
  assumes "isupper c" "ring_ok q" "no_waiters q"
  shows "\<exists>code. (\<forall>s k b. keyboard_interrupt (press code) b s q k =
      (if intq_full q then Some (s, q, k)
       else Some (s\<lparr>key_cnt := key_cnt s + 1\<rparr>, ring_put ((if left_ctrl s \<or> right_ctrl s then c - 0x40
           else if (left_shift s \<or> right_shift s) \<noteq> caps_lock s then c else c + 0x20) + (if left_alt s \<or> right_alt s then 0x80 else 0)) q, k))) \<and>
    (\<forall>s k b. keyboard_interrupt (press code + 0x80) b s q k = Some (s, q, k))"
proof -
  obtain code where code: "code < 0x33" "map_key invariant_keymap code = Some c" using letter_keys [OF assms(1)] by blast
  have n: "code \<noteq> 0x3a" "code < 0x80" "code < 0x60" using code(1) by simp_all
  have f: "find_key sh code = Some c" for sh using code(2) by (simp add: find_key_def)
  have c: "0x40 \<le> c" "c < 0x60" "c - 65 + 97 = c + 0x20" using assms(1) by (simp_all add: isupper_def word_le_nat_alt word_less_nat_alt)
  have p: "keyboard_interrupt (press code) b s q k =
      (if intq_full q then Some (s, q, k)
       else Some (s\<lparr>key_cnt := key_cnt s + 1\<rparr>, ring_put ((if left_ctrl s \<or> right_ctrl s then c - 0x40
           else if (left_shift s \<or> right_shift s) \<noteq> caps_lock s then c else c + 0x20) + (if left_alt s \<or> right_alt s then 0x80 else 0)) q, k))"
    for s k b
    using press_code [OF n(2), of b] n(1) assms c
    by (simp add: keyboard_interrupt_def Let_def f input_full_def putc_idle modify_key_def tolower_def add.commute)
  have r: "keyboard_interrupt (press code + 0x80) b s q k = Some (s, q, k)" for s k b
    using release_code [OF n(3), of b] n(1) by (simp add: keyboard_interrupt_def Let_def f)
  show ?thesis using p r by blast
qed

definition ex_kbd :: kbd where
  "ex_kbd = \<lparr>left_shift = True, right_shift = False, left_alt = False, right_alt = False, left_ctrl = False, right_ctrl = False,
     caps_lock = False, key_cnt = 0\<rparr>"

definition ex_queue :: intq where
  "ex_queue = \<lparr>q_not_full = None, q_not_empty = None, q_buf = replicate 64 0, q_head = 0, q_tail = 0\<rparr>"

theorem letter_keys_type_letters_witness:
  "\<exists>code. keyboard_interrupt (press code) 0 ex_kbd ex_queue (thread_init 5 False) =
     Some (ex_kbd\<lparr>key_cnt := 1\<rparr>, ring_put 75 ex_queue, thread_init 5 False)"
proof -
  have q: "ring_ok ex_queue" "no_waiters ex_queue" "\<not> intq_full ex_queue" "isupper 75"
    by (simp_all add: ex_queue_def ring_ok_def no_waiters_def intq_full_def intq_next_def isupper_def)
  obtain code where "\<forall>s k b. keyboard_interrupt (press code) b s ex_queue k =
      (if intq_full ex_queue then Some (s, ex_queue, k)
       else Some (s\<lparr>key_cnt := key_cnt s + 1\<rparr>, ring_put ((if left_ctrl s \<or> right_ctrl s then 75 - 0x40
           else if (left_shift s \<or> right_shift s) \<noteq> caps_lock s then 75 else 75 + 0x20) + (if left_alt s \<or> right_alt s then 0x80 else 0)) ex_queue, k))"
    using letter_keys_type_letters [OF q(4,1,2)] by blast
  then have "keyboard_interrupt (press code) 0 ex_kbd ex_queue (thread_init 5 False) =
     Some (ex_kbd\<lparr>key_cnt := 1\<rparr>, ring_put 75 ex_queue, thread_init 5 False)"
    using q(3) by (simp add: ex_kbd_def)
  then show ?thesis by blast
qed

end
