(* ===== verification/Vga.thy ===== *)
theory Vga
  imports Cstring
begin

text \<open>
  The text screen, \<open>devices/vga.c\<close>: the framebuffer is a list of rows of cells (character, attribute), as it is seen by a user of the
  display, with the position of the cursor. Where the hardware says that the cursor is when the driver
  starts is an argument.
\<close>

section \<open>Operations\<close>

abbreviation (input) COL_CNT :: nat where "COL_CNT \<equiv> 80"
abbreviation (input) ROW_CNT :: nat where "ROW_CNT \<equiv> 25"
abbreviation (input) GRAY_ON_BLACK :: byte where "GRAY_ON_BLACK \<equiv> 7"

type_synonym cell = "byte \<times> byte"

record vga =
  fb :: "cell list list"
  cx :: nat
  cy :: nat
  cursor :: nat

definition find_cursor :: "byte \<Rightarrow> byte \<Rightarrow> nat \<times> nat" where
  "find_cursor high low = (let cp = 256 * unat high + unat low in (cp mod COL_CNT, cp div COL_CNT))"

definition vga_init :: "byte \<Rightarrow> byte \<Rightarrow> vga \<Rightarrow> vga" where
  "vga_init high low v = (let (x, y) = find_cursor high low in v\<lparr>cx := x, cy := y\<rparr>)"

text \<open>The 16-bit position that is written to the cursor registers.\<close>

definition move_cursor :: "vga \<Rightarrow> vga" where
  "move_cursor v = v\<lparr>cursor := (cx v + COL_CNT * cy v) mod 2 ^ 16\<rparr>"

definition clear_row :: "nat \<Rightarrow> vga \<Rightarrow> vga" where
  "clear_row y v = v\<lparr>fb := (fb v)[y := replicate COL_CNT (32, GRAY_ON_BLACK)]\<rparr>"

definition cls :: "vga \<Rightarrow> vga" where
  "cls v = move_cursor ((fold clear_row [0..<ROW_CNT] v)\<lparr>cx := 0, cy := 0\<rparr>)"

definition newline :: "vga \<Rightarrow> vga" where
  "newline v =
     (let v = v\<lparr>cx := 0, cy := cy v + 1\<rparr> in
      if cy v \<ge> ROW_CNT then clear_row (ROW_CNT - 1) (v\<lparr>cy := ROW_CNT - 1, fb := take (ROW_CNT - 1) (tl (fb v)) @ drop (ROW_CNT - 1) (fb v)\<rparr>)
      else v)"

definition put_cell :: "byte \<Rightarrow> vga \<Rightarrow> vga option" where
  "put_cell c v = do {
     ASSERT (cy v < ROW_CNT \<and> cx v < COL_CNT);
     Some (v\<lparr>fb := (fb v)[cy v := (fb v ! cy v)[cx v := (c, GRAY_ON_BLACK)]]\<rparr>)
   }"

text \<open>A store outside the screen is \<open>None\<close>.\<close>

definition vga_putc :: "byte \<Rightarrow> vga \<Rightarrow> vga option" where
  "vga_putc c v = do {
     v \<leftarrow> (if c = 10 then Some (newline v)
          else if c = 12 then Some (cls v)
          else if c = 8 then Some (if cx v > 0 then v\<lparr>cx := cx v - 1\<rparr> else v)
          else if c = 13 then Some (v\<lparr>cx := 0\<rparr>)
          else if c = 9 then
            (let v = v\<lparr>cx := (cx v + 1 + 7) div 8 * 8\<rparr> in Some (if cx v \<ge> COL_CNT then newline v else v))
          else do {
            v \<leftarrow> put_cell c v;
            let v = v\<lparr>cx := cx v + 1\<rparr>;
            Some (if cx v \<ge> COL_CNT then newline v else v)
          });
     Some (move_cursor v)
   }"

fun vga_puts :: "byte list \<Rightarrow> vga \<Rightarrow> vga option" where
  "vga_puts [] v = Some v"
| "vga_puts (c # cs) v = do { v \<leftarrow> vga_putc c v; vga_puts cs v }"

section \<open>The screen stays well formed\<close>

definition vga_ok :: "vga \<Rightarrow> bool" where
  "vga_ok v \<longleftrightarrow> length (fb v) = ROW_CNT \<and> (\<forall>row\<in>set (fb v). length row = COL_CNT) \<and> cx v < COL_CNT \<and> cy v < ROW_CNT"

lemma ok_move [simp]: "vga_ok (move_cursor v) = vga_ok v"
  by (simp add: vga_ok_def move_cursor_def)

lemma fold_clear:
  "length (fb (fold clear_row ys v)) = length (fb v) \<and> cx (fold clear_row ys v) = cx v \<and> cy (fold clear_row ys v) = cy v \<and>
   ((\<forall>row\<in>set (fb v). length row = COL_CNT) \<longrightarrow> (\<forall>row\<in>set (fb (fold clear_row ys v)). length row = COL_CNT))"
proof (induction ys arbitrary: v)
  case (Cons y ys)
  have "\<forall>row\<in>set (fb (clear_row y v)). length row = COL_CNT" if "\<forall>row\<in>set (fb v). length row = COL_CNT"
    using that set_update_subset_insert by (fastforce simp: clear_row_def)
  then show ?case using Cons.IH [of "clear_row y v"] by (simp add: clear_row_def)
qed simp

lemma ok_cls: "vga_ok v \<Longrightarrow> vga_ok (cls v)"
  using fold_clear [of "[0..<ROW_CNT]" v] by (simp add: cls_def vga_ok_def move_cursor_def del: upt_rec_numeral)

lemma scroll_rows:
  assumes "length (fb v) = ROW_CNT" "\<forall>row\<in>set (fb v). length row = COL_CNT"
  shows "length (take 24 (tl (fb v)) @ drop 24 (fb v)) = ROW_CNT" "\<forall>row\<in>set (take 24 (tl (fb v)) @ drop 24 (fb v)). length row = COL_CNT"
proof -
  show "length (take 24 (tl (fb v)) @ drop 24 (fb v)) = ROW_CNT" using assms(1) by simp
  have "set (take 24 (tl (fb v))) \<subseteq> set (fb v)" by (cases "fb v") (auto dest: in_set_takeD)
  then show "\<forall>row\<in>set (take 24 (tl (fb v)) @ drop 24 (fb v)). length row = COL_CNT" using assms(2) by (auto dest: in_set_dropD)
qed

lemma ok_newline:
  assumes "length (fb v) = ROW_CNT" "\<forall>row\<in>set (fb v). length row = COL_CNT" "cy v < ROW_CNT"
  shows "vga_ok (newline v)"
proof (cases "cy v + 1 \<ge> ROW_CNT")
  case True
  let ?rows = "take 24 (tl (fb v)) @ drop 24 (fb v)"
  have "\<forall>row\<in>set (?rows[24 := replicate 80 (32, 7)]). length row = 80"
    using scroll_rows [OF assms(1,2)] set_update_subset_insert [of ?rows 24 "replicate 80 (32, 7)"] by fastforce
  then show ?thesis using True scroll_rows [OF assms(1,2)] by (simp add: newline_def vga_ok_def clear_row_def Let_def)
next
  case False
  then show ?thesis using assms by (simp add: newline_def vga_ok_def Let_def)
qed

lemma put_cell_ok:
  assumes "vga_ok v"
  shows "\<exists>v'. put_cell c v = Some v' \<and> vga_ok v' \<and> cx v' = cx v \<and> cy v' = cy v"
proof -
  have "length (fb v ! cy v) = 80" using assms by (simp add: vga_ok_def)
  then have "\<forall>row\<in>set ((fb v)[cy v := (fb v ! cy v)[cx v := (c, 7)]]). length row = 80"
    using assms set_update_subset_insert [of "fb v" "cy v" "(fb v ! cy v)[cx v := (c, 7)]"] by (fastforce simp: vga_ok_def)
  then show ?thesis using assms by (simp add: put_cell_def vga_ok_def)
qed

lemma putc_ok:
  assumes "vga_ok v"
  shows "\<exists>v'. vga_putc c v = Some v' \<and> vga_ok v' \<and> cursor v' = cx v' + COL_CNT * cy v'"
proof -
  have ok: "length (fb v) = 25" "\<forall>row\<in>set (fb v). length row = 80" "cx v < 80" "cy v < 25" using assms by (auto simp: vga_ok_def)
  have m: "cursor (move_cursor u) = cx (move_cursor u) + COL_CNT * cy (move_cursor u)" if "vga_ok u" for u
    using that by (simp add: move_cursor_def vga_ok_def)
  have nl: "vga_ok (newline (v\<lparr>cx := x\<rparr>))" for x using ok_newline [of "v\<lparr>cx := x\<rparr>"] ok by simp
  obtain v1 where v1: "put_cell c v = Some v1" "vga_ok v1" "cx v1 = cx v" "cy v1 = cy v" using put_cell_ok [OF assms] by blast
  have nl1: "vga_ok (newline (v1\<lparr>cx := x\<rparr>))" for x using ok_newline [of "v1\<lparr>cx := x\<rparr>"] v1(2) by (simp add: vga_ok_def)
  have "\<exists>u. vga_putc c v = Some (move_cursor u) \<and> vga_ok u"
    using nl [of "cx v"] nl nl1 ok_cls [OF assms] v1 ok assms
    by (simp add: vga_putc_def Let_def) (auto simp: vga_ok_def)
  then show ?thesis using m by force
qed

text \<open>C35. Writing never leaves the screen. Whatever bytes are written, control characters included, every store is inside the
  framebuffer, which keeps its 25 rows of 80 cells, the cursor stays on the screen, and the position given to the hardware
  is that of the cursor.\<close>

theorem vga_stays_on_screen:
  assumes "vga_ok v" "cs \<noteq> []"
  shows "\<exists>v'. vga_puts cs v = Some v' \<and> length (fb v') = ROW_CNT \<and> (\<forall>row\<in>set (fb v'). length row = COL_CNT) \<and>
    cx v' < COL_CNT \<and> cy v' < ROW_CNT \<and> cursor v' = cx v' + COL_CNT * cy v'"
proof -
  have "\<exists>v'. vga_puts cs v = Some v' \<and> vga_ok v' \<and> cursor v' = cx v' + COL_CNT * cy v'" using assms
  proof (induction cs arbitrary: v)
    case (Cons c cs)
    obtain v1 where "vga_putc c v = Some v1" "vga_ok v1" "cursor v1 = cx v1 + COL_CNT * cy v1" using putc_ok [OF Cons.prems(1)] by blast
    then show ?case using Cons.IH by (cases "cs = []") auto
  qed simp
  then show ?thesis by (auto simp: vga_ok_def)
qed

theorem vga_stays_on_screen_witness:
  "\<exists>v'. vga_puts [72, 10, 9, 12, 105] \<lparr>fb = replicate 25 (replicate 80 (32, 7)), cx = 79, cy = 24, cursor = 0\<rparr> = Some v' \<and> cx v' < 80"
  using vga_stays_on_screen [of "\<lparr>fb = replicate 25 (replicate 80 (32, 7)), cx = 79, cy = 24, cursor = 0\<rparr>" "[72, 10, 9, 12, 105]"]
  by (auto simp: vga_ok_def)

end
