(* ===== verification/Random_Bytes.thy ===== *)
theory Random_Bytes
  imports Cstring
begin

text \<open>
  The pseudo-random number generator, \<open>lib/random.c\<close>: RC4 with a state of 256 bytes and two indices that wrap at 8 bits.
\<close>

section \<open>Operations\<close>

record rng =
  rng_s :: "byte list"
  s_i :: byte
  s_j :: byte
  inited :: bool

definition swap_byte :: "nat \<Rightarrow> nat \<Rightarrow> byte list \<Rightarrow> byte list" where
  "swap_byte a b s = s[a := s ! b, b := s ! a]"

definition seed_byte :: "32 word \<Rightarrow> nat \<Rightarrow> byte" where
  "seed_byte seed i = ucast (drop_bit (8 * (i mod 4)) seed)"

fun key_schedule :: "32 word \<Rightarrow> nat list \<Rightarrow> byte \<Rightarrow> byte list \<Rightarrow> byte list" where
  "key_schedule seed [] j s = s"
| "key_schedule seed (i # is') j s =
     (let j = j + (s ! i + seed_byte seed i) in key_schedule seed is' j (swap_byte i (unat j) s))"

definition random_init :: "32 word \<Rightarrow> rng \<Rightarrow> rng" where
  "random_init seed r = r\<lparr>rng_s := key_schedule seed [0..<256] 0 (map of_nat [0..<256]), s_i := 0, s_j := 0, inited := True\<rparr>"

definition random_byte :: "rng \<Rightarrow> byte \<times> rng" where
  "random_byte r =
     (let i = s_i r + 1;
          j = s_j r + rng_s r ! unat i;
          s = swap_byte (unat i) (unat j) (rng_s r)
      in (s ! unat (s ! unat i + s ! unat j), r\<lparr>rng_s := s, s_i := i, s_j := j\<rparr>))"

fun bytes_loop :: "nat \<Rightarrow> rng \<Rightarrow> byte list \<times> rng" where
  "bytes_loop 0 r = ([], r)"
| "bytes_loop (Suc n) r = (let (b, r) = random_byte r; (bs, r) = bytes_loop n r in (b # bs, r))"

definition random_bytes :: "nat \<Rightarrow> rng \<Rightarrow> byte list \<times> rng" where
  "random_bytes n r = bytes_loop n (if inited r then r else random_init 0 r)"

definition random_ulong :: "rng \<Rightarrow> 32 word \<times> rng" where
  "random_ulong r = (let (bs, r) = random_bytes 4 r in (horner_sum ucast (2 ^ 8) bs, r))"

section \<open>The state is a permutation\<close>

definition rng_ok :: "byte list \<Rightarrow> bool" where
  "rng_ok s \<longleftrightarrow> length s = 256 \<and> distinct s"

lemma unat_byte: "unat (b :: byte) < 256"
  using unsigned_less [of b] by simp

lemma swap_ok: "rng_ok s \<Longrightarrow> a < 256 \<Longrightarrow> b < 256 \<Longrightarrow> rng_ok (swap_byte a b s)"
  by (auto simp: rng_ok_def swap_byte_def intro: distinct_swap [THEN iffD2])

lemma schedule_ok: "rng_ok s \<Longrightarrow> (\<forall>i\<in>set is'. i < 256) \<Longrightarrow> rng_ok (key_schedule seed is' j s)"
  by (induction is' arbitrary: j s) (simp_all add: Let_def swap_ok unat_byte)

lemma initial_ok: "rng_ok (map of_nat [0..<256])"
proof -
  have "inj_on (of_nat :: nat \<Rightarrow> byte) {0..<256}"
    by (rule inj_on_inverseI [of _ unat]) (simp add: unat_of_nat)
  then show ?thesis by (simp add: rng_ok_def distinct_map del: upt_rec_numeral)
qed

lemma init_ok: "rng_ok (rng_s (random_init seed r))"
  unfolding random_init_def by (simp add: schedule_ok [OF initial_ok] del: upt_rec_numeral)

lemma random_byte_ok: "rng_ok (rng_s r) \<Longrightarrow> random_byte r = (b, r') \<Longrightarrow> rng_ok (rng_s r') \<and> inited r' = inited r \<and> s_i r' = s_i r + 1"
  by (auto simp: random_byte_def Let_def swap_ok unat_byte)

lemma bytes_loop_ok:
  "rng_ok (rng_s r) \<Longrightarrow> bytes_loop n r = (bs, r') \<Longrightarrow>
   rng_ok (rng_s r') \<and> length bs = n \<and> inited r' = inited r \<and> s_i r' = s_i r + of_nat n"
proof (induction n arbitrary: r bs r')
  case (Suc n)
  obtain b r1 where 1: "random_byte r = (b, r1)" by fastforce
  obtain bs1 r2 where 2: "bytes_loop n r1 = (bs1, r2)" by fastforce
  show ?case using Suc.IH [OF _ 2] random_byte_ok [OF Suc.prems(1) 1] Suc.prems(2) 1 2 by (auto simp: algebra_simps)
qed simp

lemma permutation: "rng_ok s \<Longrightarrow> set s = UNIV"
proof -
  assume "rng_ok s"
  then have "card (set s) = card (UNIV :: byte set)" by (simp add: rng_ok_def distinct_card card_word)
  then show ?thesis by (intro card_subset_eq) simp_all
qed

text \<open>The state of the generator is always a permutation of the 256 bytes, every index into it is in range, and as many
  bytes as asked for are produced: for every seed and every sequence of requests, also when the first
  request comes before any initialisation.\<close>

theorem random_state_permutation:
  assumes "\<not> inited r \<or> r = random_init seed r0" "random_bytes n r = (bs, r1)" "random_bytes m r1 = (cs, r2)"
  shows "length bs = n \<and> length cs = m \<and> length (rng_s r2) = 256 \<and> distinct (rng_s r2) \<and> set (rng_s r2) = UNIV \<and>
    s_i r2 = of_nat (n + m)"
proof -
  let ?r = "if inited r then r else random_init 0 r"
  have r: "rng_ok (rng_s ?r)" "inited ?r" "s_i ?r = 0" using assms(1) init_ok by (auto simp: random_init_def)
  have 1: "rng_ok (rng_s r1) \<and> length bs = n \<and> inited r1 \<and> s_i r1 = of_nat n"
    using bytes_loop_ok [OF r(1), of n bs r1] assms(2) r by (simp add: random_bytes_def)
  then have "rng_ok (rng_s r2) \<and> length cs = m \<and> s_i r2 = of_nat (n + m)"
    using bytes_loop_ok [of r1 m cs r2] assms(3) by (simp add: random_bytes_def)
  then show ?thesis using 1 permutation by (simp add: rng_ok_def)
qed

theorem random_state_permutation_witness:
  "\<exists>bs r1 cs r2. random_bytes 3 (random_init 7 \<lparr>rng_s = [], s_i = 0, s_j = 0, inited = False\<rparr>) = (bs, r1) \<and> random_bytes 5 r1 = (cs, r2) \<and>
     length bs = 3 \<and> set (rng_s r2) = UNIV \<and> s_i r2 = 8"
proof -
  let ?r = "random_init 7 \<lparr>rng_s = [], s_i = 0, s_j = 0, inited = False\<rparr>"
  obtain bs r1 where 1: "random_bytes 3 ?r = (bs, r1)" by fastforce
  obtain cs r2 where 2: "random_bytes 5 r1 = (cs, r2)" by fastforce
  from random_state_permutation [OF disjI2 [OF refl] 1 2] show ?thesis using 1 2 by auto
qed

end
