(* ===== verification/Descriptors.thy ===== *)
theory Descriptors
  imports Prelude "HOL-Library.Word"
begin

text \<open>
  The descriptors of segments, \<open>userprog/gdt.c\<close>, and of interrupts, \<open>threads/interrupt.c\<close>, as the 64-bit words that the processor
  reads, with the registration of interrupt handlers. A handler and the entry point of an interrupt
  are addresses.
\<close>

unbundle bit_operations_syntax

section \<open>Segments\<close>

datatype seg_class = CLS_SYSTEM | CLS_CODE_DATA
datatype seg_granularity = GRAN_BYTE | GRAN_PAGE

definition make_seg_desc :: "32 word \<Rightarrow> 32 word \<Rightarrow> seg_class \<Rightarrow> 32 word \<Rightarrow> 32 word \<Rightarrow> seg_granularity \<Rightarrow> 64 word option" where
  "make_seg_desc base limit cls type dpl gran = do {
     ASSERT (limit \<le> 0xfffff);
     ASSERT (type \<le> 15);
     ASSERT (dpl \<le> 3);
     let e0 = (limit AND 0xffff) OR push_bit 16 base;
     let e1 = (drop_bit 16 base AND 0xff) OR push_bit 8 type OR push_bit 12 (if cls = CLS_CODE_DATA then 1 else 0) OR push_bit 13 dpl
            OR push_bit 15 1 OR (limit AND 0xf0000) OR push_bit 22 1 OR push_bit 23 (if gran = GRAN_PAGE then 1 else 0)
            OR (base AND 0xff000000);
     Some (ucast e0 OR push_bit 32 (ucast e1))
   }"

definition make_code_desc :: "32 word \<Rightarrow> 64 word option" where
  "make_code_desc dpl = make_seg_desc 0 0xfffff CLS_CODE_DATA 10 dpl GRAN_PAGE"

definition make_data_desc :: "32 word \<Rightarrow> 64 word option" where
  "make_data_desc dpl = make_seg_desc 0 0xfffff CLS_CODE_DATA 2 dpl GRAN_PAGE"

definition make_tss_desc :: "32 word \<Rightarrow> 64 word option" where
  "make_tss_desc laddr = make_seg_desc laddr 0x67 CLS_SYSTEM 9 0 GRAN_BYTE"

definition make_gdtr_operand :: "16 word \<Rightarrow> 32 word \<Rightarrow> 64 word" where
  "make_gdtr_operand limit base = ucast limit OR push_bit 16 (ucast base)"

definition gdt_init :: "32 word \<Rightarrow> 64 word list option" where
  "gdt_init tss = do {
     kc \<leftarrow> make_code_desc 0;
     kd \<leftarrow> make_data_desc 0;
     uc \<leftarrow> make_code_desc 3;
     ud \<leftarrow> make_data_desc 3;
     ts \<leftarrow> make_tss_desc tss;
     Some [0, kc, kd, uc, ud, ts]
   }"

section \<open>Interrupts\<close>

abbreviation (input) SEL_KCSEG :: "32 word" where "SEL_KCSEG \<equiv> 8"

definition make_gate :: "32 word \<Rightarrow> 32 word \<Rightarrow> 32 word \<Rightarrow> 64 word option" where
  "make_gate f dpl type = do {
     ASSERT (f \<noteq> 0);
     ASSERT (dpl \<le> 3);
     ASSERT (type \<le> 15);
     let e0 = (f AND 0xffff) OR push_bit 16 SEL_KCSEG;
     let e1 = (f AND 0xffff0000) OR push_bit 15 1 OR push_bit 13 dpl OR push_bit 12 0 OR push_bit 8 type;
     Some (ucast e0 OR push_bit 32 (ucast e1))
   }"

definition make_intr_gate :: "32 word \<Rightarrow> 32 word \<Rightarrow> 64 word option" where
  "make_intr_gate f dpl = make_gate f dpl 14"

definition make_trap_gate :: "32 word \<Rightarrow> 32 word \<Rightarrow> 64 word option" where
  "make_trap_gate f dpl = make_gate f dpl 15"

definition make_idtr_operand :: "16 word \<Rightarrow> 32 word \<Rightarrow> 64 word" where
  "make_idtr_operand limit base = ucast limit OR push_bit 16 (ucast base)"

section \<open>What the processor reads\<close>

definition gate_offset :: "64 word \<Rightarrow> 32 word" where
  "gate_offset g = ucast (take_bit 16 g) OR push_bit 16 (ucast (drop_bit 48 g))"

definition gate_selector :: "64 word \<Rightarrow> 16 word" where
  "gate_selector g = ucast (drop_bit 16 g)"

definition gate_type :: "64 word \<Rightarrow> 64 word" where
  "gate_type g = take_bit 4 (drop_bit 40 g)"

definition gate_dpl :: "64 word \<Rightarrow> 64 word" where
  "gate_dpl g = take_bit 2 (drop_bit 45 g)"

definition gate_present :: "64 word \<Rightarrow> bool" where
  "gate_present g \<longleftrightarrow> bit g 47"

lemma masks: "(0xffff :: 32 word) = mask 16" "(0xffff0000 :: 32 word) = push_bit 16 (mask 16)" "(0xff :: 32 word) = mask 8"
  "(0xf0000 :: 32 word) = push_bit 16 (mask 4)" "(0xff000000 :: 32 word) = push_bit 24 (mask 8)" "(0xfffff :: 32 word) = mask 20"
  by (simp_all add: mask_eq_exp_minus_1 push_bit_eq_mult)

lemma small_word:
  fixes d :: "32 word"
  assumes "unat d < 2 ^ n" "n \<le> k"
  shows "\<not> bit d k"
proof
  assume "bit d k"
  then have "bit (unat d) k" by (simp add: bit_unsigned_iff)
  then have "unat d div 2 ^ k \<noteq> 0" unfolding bit_iff_odd by (metis even_zero)
  moreover have "unat d < 2 ^ k" using assms less_le_trans power_increasing by (metis one_le_numeral)
  ultimately show False by simp
qed

lemma small_3: "d \<le> 3 \<Longrightarrow> 2 \<le> k \<Longrightarrow> \<not> bit d k" for d :: "32 word"
  by (rule small_word [of _ 2]) (simp_all add: word_le_nat_alt)

lemma small_15: "d \<le> 15 \<Longrightarrow> 4 \<le> k \<Longrightarrow> \<not> bit d k" for d :: "32 word"
  by (rule small_word [of _ 4]) (simp_all add: word_le_nat_alt)

lemma make_gate_bits:
  assumes "make_gate f dpl type = Some g"
  shows "bit g n \<longleftrightarrow> (if n < 16 then bit f n else if n < 32 then n = 19 else if n < 48 then
     (if n = 47 then True else if n \<ge> 45 then bit dpl (n - 45) else n \<ge> 40 \<and> bit type (n - 40)) else n < 64 \<and> bit f (n - 32))"
proof -
  have a: "dpl \<le> 3" "type \<le> 15" using assms by (auto simp: make_gate_def split: if_splits)
  have d: "bit dpl k \<longleftrightarrow> k < 2 \<and> bit dpl k" "bit type k \<longleftrightarrow> k < 4 \<and> bit type k" for k
    using small_3 [OF a(1)] small_15 [OF a(2)] not_le by blast+
  define kcseg :: "32 word" where "kcseg = push_bit 16 SEL_KCSEG"
  define present :: "32 word" where "present = push_bit 15 1"
  have "kcseg = 2 ^ 19" "present = 2 ^ 15" by (simp_all add: kcseg_def present_def)
  then have c: "bit kcseg k \<longleftrightarrow> k = 19" "bit present k \<longleftrightarrow> k = 15" for k by (simp_all only: bit_exp_iff) auto
  have g: "g = ucast ((f AND 0xffff) OR kcseg) OR push_bit 32 (ucast ((f AND 0xffff0000) OR present OR push_bit 13 dpl OR push_bit 8 type))"
    using assms by (auto simp: make_gate_def Let_def kcseg_def present_def split: if_splits)
  show ?thesis unfolding g masks
    using small_3 [OF a(1), of "n - 45"] small_15 [OF a(2), of "n - 40"] bit_imp_le_length [of f "n - 32"]
    by (auto simp: bit_simps c not_le less_diff_conv2)
qed

lemma gate_fields:
  assumes "make_gate f dpl type = Some g"
  shows "gate_offset g = f" "gate_selector g = 8" "gate_type g = ucast type" "gate_dpl g = ucast dpl" "gate_present g"
proof -
  note b = make_gate_bits [OF assms]
  have a: "dpl \<le> 3" "type \<le> 15" using assms by (auto simp: make_gate_def split: if_splits)
  show "gate_offset g = f" by (rule bit_word_eqI) (auto simp: gate_offset_def bit_simps b)
  show "gate_present g" by (simp add: gate_present_def b)
  have "bit (8 :: 16 word) n \<longleftrightarrow> n = 3" for n
  proof -
    have "(8 :: 16 word) = 2 ^ 3" by simp
    then show ?thesis by (simp only: bit_exp_iff) auto
  qed
  then show "gate_selector g = 8" by (intro bit_word_eqI) (auto simp: gate_selector_def bit_simps b)
  have t: "n < 4" if "bit type n" for n using small_15 [OF a(2), of n] that by (meson not_less)
  show "gate_type g = ucast type" by (intro bit_word_eqI) (auto simp: gate_type_def bit_simps b dest: t)
  have d: "n < 2" if "bit dpl n" for n using small_3 [OF a(1), of n] that by (meson not_less)
  show "gate_dpl g = ucast dpl" by (intro bit_word_eqI) (auto simp: gate_dpl_def bit_simps b dest: d)
qed

section \<open>Registration\<close>

datatype intr_level = INTR_OFF | INTR_ON

record idt_state =
  idt :: "nat \<Rightarrow> 64 word"
  intr_handlers :: "nat \<Rightarrow> 32 word option"
  intr_names :: "nat \<Rightarrow> string"

fun fill_gates :: "(nat \<Rightarrow> 32 word) \<Rightarrow> nat list \<Rightarrow> (nat \<Rightarrow> 64 word) \<Rightarrow> (nat \<Rightarrow> 64 word) option" where
  "fill_gates stubs [] t = Some t"
| "fill_gates stubs (i # is') t = do { g \<leftarrow> make_intr_gate (stubs i) 0; fill_gates stubs is' (t(i := g)) }"

definition exception_names :: "(nat \<times> string) list" where
  "exception_names = [(0, ''#DE Divide Error''), (1, ''#DB Debug Exception''), (2, ''NMI Interrupt''), (3, ''#BP Breakpoint Exception''),
     (4, ''#OF Overflow Exception''), (5, ''#BR BOUND Range Exceeded Exception''), (6, ''#UD Invalid Opcode Exception''),
     (7, ''#NM Device Not Available Exception''), (8, ''#DF Double Fault Exception''), (9, ''Coprocessor Segment Overrun''),
     (10, ''#TS Invalid TSS Exception''), (11, ''#NP Segment Not Present''), (12, ''#SS Stack Fault Exception''),
     (13, ''#GP General Protection Exception''), (14, ''#PF Page-Fault Exception''), (16, ''#MF x87 FPU Floating-Point Error''),
     (17, ''#AC Alignment Check Exception''), (18, ''#MC Machine-Check Exception''), (19, ''#XF SIMD Floating-Point Exception'')]"

definition intr_init :: "(nat \<Rightarrow> 32 word) \<Rightarrow> idt_state \<Rightarrow> idt_state option" where
  "intr_init stubs t = do {
     g \<leftarrow> fill_gates stubs [0..<256] (idt t);
     Some (t\<lparr>idt := g, intr_names := (\<lambda>i. case map_of exception_names i of Some n \<Rightarrow> n | None \<Rightarrow> ''unknown'')\<rparr>)
   }"

definition register_handler :: "(nat \<Rightarrow> 32 word) \<Rightarrow> nat \<Rightarrow> 32 word \<Rightarrow> intr_level \<Rightarrow> 32 word \<Rightarrow> string \<Rightarrow> idt_state \<Rightarrow> idt_state option" where
  "register_handler stubs vec_no dpl level handler name t = do {
     ASSERT (intr_handlers t vec_no = None);
     g \<leftarrow> (if level = INTR_ON then make_trap_gate (stubs vec_no) dpl else make_intr_gate (stubs vec_no) dpl);
     Some (t\<lparr>idt := (idt t)(vec_no := g), intr_handlers := (intr_handlers t)(vec_no \<mapsto> handler), intr_names := (intr_names t)(vec_no := name)\<rparr>)
   }"

definition intr_register_ext :: "(nat \<Rightarrow> 32 word) \<Rightarrow> nat \<Rightarrow> 32 word \<Rightarrow> string \<Rightarrow> idt_state \<Rightarrow> idt_state option" where
  "intr_register_ext stubs vec_no handler name t = do {
     ASSERT (0x20 \<le> vec_no \<and> vec_no \<le> 0x2f);
     register_handler stubs vec_no 0 INTR_OFF handler name t
   }"

definition intr_register_int :: "(nat \<Rightarrow> 32 word) \<Rightarrow> nat \<Rightarrow> 32 word \<Rightarrow> intr_level \<Rightarrow> 32 word \<Rightarrow> string \<Rightarrow> idt_state \<Rightarrow> idt_state option" where
  "intr_register_int stubs vec_no dpl level handler name t = do {
     ASSERT (vec_no < 0x20 \<or> vec_no > 0x2f);
     register_handler stubs vec_no dpl level handler name t
   }"

text \<open>The tables that the kernel can reach; \<open>user\<close> collects the vectors that were registered for user mode, with privilege level 3.\<close>

inductive idt_reach :: "(nat \<Rightarrow> 32 word) \<Rightarrow> nat set \<Rightarrow> idt_state \<Rightarrow> bool" for stubs where
  start: "intr_init stubs t0 = Some t \<Longrightarrow> intr_handlers t0 = Map.empty \<Longrightarrow> idt_reach stubs {} t"
| ext: "idt_reach stubs user t \<Longrightarrow> intr_register_ext stubs v h name t = Some t' \<Longrightarrow> idt_reach stubs user t'"
| int: "idt_reach stubs user t \<Longrightarrow> v < 256 \<Longrightarrow> intr_register_int stubs v dpl level h name t = Some t' \<Longrightarrow>
    idt_reach stubs (if dpl = 3 then insert v user else user) t'"

inductive_cases idt_startE: "idt_reach stubs {} t"

definition gate_ok :: "32 word \<Rightarrow> nat set \<Rightarrow> nat \<Rightarrow> 64 word \<Rightarrow> bool" where
  "gate_ok stub user v g \<longleftrightarrow> gate_offset g = stub \<and> gate_selector g = 8 \<and> gate_present g \<and> (gate_dpl g = 3 \<longleftrightarrow> v \<in> user) \<and>
     gate_type g \<in> {14, 15} \<and> (0x20 \<le> v \<and> v \<le> 0x2f \<longrightarrow> gate_type g = 14)"

definition idt_ok :: "(nat \<Rightarrow> 32 word) \<Rightarrow> nat set \<Rightarrow> idt_state \<Rightarrow> bool" where
  "idt_ok stubs user t \<longleftrightarrow> (\<forall>v < 256. gate_ok (stubs v) user v (idt t v)) \<and> (\<forall>v \<in> user. intr_handlers t v \<noteq> None) \<and> user \<inter> {0x20..0x2f} = {}"

lemma intr_gate_ok:
  assumes "make_intr_gate f dpl = Some g"
  shows "gate_offset g = f" "gate_selector g = 8" "gate_present g" "gate_type g = 14" "gate_dpl g = ucast dpl"
  using gate_fields [OF assms [unfolded make_intr_gate_def]] by simp_all

lemma trap_gate_ok:
  assumes "make_trap_gate f dpl = Some g"
  shows "gate_offset g = f" "gate_selector g = 8" "gate_present g" "gate_type g = 15" "gate_dpl g = ucast dpl"
  using gate_fields [OF assms [unfolded make_trap_gate_def]] by simp_all

lemma fill_gates_spec:
  assumes "fill_gates stubs vs t = Some t'" "distinct vs"
  shows "\<forall>v\<in>set vs. gate_ok (stubs v) {} v (t' v)" "v \<notin> set vs \<Longrightarrow> t' v = t v"
proof -
  have "(\<forall>v\<in>set vs. gate_ok (stubs v) {} v (t' v)) \<and> (\<forall>v. v \<notin> set vs \<longrightarrow> t' v = t v)" using assms
  proof (induction vs arbitrary: t)
    case (Cons i vs)
    then obtain g where g: "make_intr_gate (stubs i) 0 = Some g" "fill_gates stubs vs (t(i := g)) = Some t'" by (auto simp: bind_eq_Some_conv)
    have "gate_ok (stubs i) {} i g" using intr_gate_ok [OF g(1)] by (simp add: gate_ok_def)
    then show ?case using Cons.IH [OF g(2)] Cons.prems(2) by auto
  qed simp
  then show "\<forall>v\<in>set vs. gate_ok (stubs v) {} v (t' v)" "v \<notin> set vs \<Longrightarrow> t' v = t v" by blast+
qed

lemma dpl_3: "(ucast (dpl :: 32 word) :: 64 word) = 3 \<longleftrightarrow> dpl = 3"
proof
  assume "(ucast dpl :: 64 word) = 3"
  then have "unat (ucast dpl :: 64 word) = 3" by simp
  then have "unat dpl = unat (3 :: 32 word)" using unat_ucast_up [where 'a = 32 and 'b = 64, of dpl] by simp
  then show "dpl = 3" by (simp only: word_unat_eq_iff)
qed simp

lemma register_ok:
  assumes "register_handler stubs v dpl level h name t = Some t'" "idt_ok stubs user t" "v < 256"
    and "0x20 \<le> v \<and> v \<le> 0x2f \<longrightarrow> dpl = 0 \<and> level = INTR_OFF"
  shows "idt_ok stubs (if dpl = 3 then insert v user else user) t'"
proof -
  let ?user = "if dpl = 3 then insert v user else user"
  obtain g where n: "intr_handlers t v = None"
    and g: "(if level = INTR_ON then make_trap_gate (stubs v) dpl else make_intr_gate (stubs v) dpl) = Some g"
    and t': "t' = t\<lparr>idt := (idt t)(v := g), intr_handlers := (intr_handlers t)(v \<mapsto> h), intr_names := (intr_names t)(v := name)\<rparr>"
    using assms(1) by (auto simp: register_handler_def bind_eq_Some_conv split: if_splits)
  have nv: "v \<notin> user" using assms(2) n unfolding idt_ok_def by blast
  have gv: "gate_ok (stubs v) ?user v g"
  proof (cases level)
    case INTR_OFF
    then have "make_intr_gate (stubs v) dpl = Some g" using g by simp
    from intr_gate_ok [OF this] show ?thesis using nv by (auto simp: gate_ok_def dpl_3)
  next
    case INTR_ON
    then have "make_trap_gate (stubs v) dpl = Some g" using g by simp
    from trap_gate_ok [OF this] show ?thesis using nv assms(4) INTR_ON by (auto simp: gate_ok_def dpl_3)
  qed
  have "gate_ok (stubs u) ?user u (idt t u)" if "u < 256" "u \<noteq> v" for u
    using assms(2) that unfolding idt_ok_def gate_ok_def by auto
  moreover have "\<forall>u\<in>?user. intr_handlers t' u \<noteq> None" using assms(2) unfolding idt_ok_def t' by auto
  moreover have "?user \<inter> {0x20..0x2f} = {}" using assms(2,4) unfolding idt_ok_def by auto
  ultimately show ?thesis using gv unfolding idt_ok_def t' by auto
qed

lemma idt_reach_ok: "idt_reach stubs user t \<Longrightarrow> idt_ok stubs user t"
proof (induction rule: idt_reach.induct)
  case (start t0 t)
  then obtain g where g: "fill_gates stubs [0..<256] (idt t0) = Some g" "idt t = g" by (auto simp: intr_init_def bind_eq_Some_conv)
  have "gate_ok (stubs v) {} v (g v)" if "v < 256" for v using fill_gates_spec(1) [OF g(1)] that by (simp del: upt_rec_numeral)
  then show ?case using g by (simp add: idt_ok_def)
next
  case (ext user t v h name t')
  then have r: "register_handler stubs v 0 INTR_OFF h name t = Some t'" "v < 256" by (auto simp: intr_register_ext_def split: if_splits)
  then show ?case using register_ok [OF r(1) ext.IH r(2)] by simp
next
  case (int user t v dpl level h name t')
  have r: "register_handler stubs v dpl level h name t = Some t'" "\<not> (0x20 \<le> v \<and> v \<le> 0x2f)"
    using int.hyps(3) by (auto simp: intr_register_int_def split: if_splits)
  then show ?case using register_ok [OF r(1) int.IH int.hyps(2)] by blast
qed

text \<open>C34. The interrupt table only leads into the kernel. After the initialisation and any registrations, every one of the 256
  gates is present and enters its own stub in the kernel code segment; user mode may invoke exactly the
  vectors that were registered with privilege level 3, none of them that of a device; devices interrupt with
  interrupts turned off.\<close>

theorem interrupt_table_safe:
  assumes "idt_reach stubs user t" "v < 256"
  shows "gate_present (idt t v) \<and> gate_offset (idt t v) = stubs v \<and> gate_selector (idt t v) = 8 \<and>
    (gate_dpl (idt t v) = 3 \<longleftrightarrow> v \<in> user) \<and> (0x20 \<le> v \<and> v \<le> 0x2f \<longrightarrow> v \<notin> user \<and> gate_type (idt t v) = 14)"
  using idt_reach_ok [OF assms(1)] assms(2) by (auto simp: idt_ok_def gate_ok_def)

definition ex_stubs :: "nat \<Rightarrow> 32 word" where
  "ex_stubs v = 0xc0020000 + of_nat (16 * v)"

lemma make_gate_total: "f \<noteq> 0 \<Longrightarrow> dpl \<le> 3 \<Longrightarrow> \<exists>g. make_intr_gate f dpl = Some g \<and> (\<exists>h. make_trap_gate f dpl = Some h)"
  by (simp add: make_intr_gate_def make_trap_gate_def make_gate_def Let_def)

lemma fill_gates_total: "(\<forall>v\<in>set vs. stubs v \<noteq> 0) \<Longrightarrow> \<exists>t'. fill_gates stubs vs t = Some t'"
proof (induction vs arbitrary: t)
  case (Cons v vs)
  then obtain g where "make_intr_gate (stubs v) 0 = Some g" using make_gate_total [of "stubs v" 0] by auto
  then show ?case using Cons by simp
qed simp

lemma ex_stubs_nonzero: "v < 256 \<Longrightarrow> ex_stubs v \<noteq> 0"
proof
  assume v: "v < 256" "ex_stubs v = 0"
  have "unat (ex_stubs v) = (0xc0020000 + 16 * v) mod 2 ^ 32"
    unfolding ex_stubs_def by (simp add: unat_word_ariths unat_of_nat mod_simps)
  then show False using v by simp
qed

theorem interrupt_table_safe_witness:
  "\<exists>t. idt_reach ex_stubs {0x30} t \<and> gate_offset (idt t 0x30) = ex_stubs 0x30 \<and> gate_dpl (idt t 0x30) = 3 \<and> gate_dpl (idt t 14) \<noteq> 3"
proof -
  let ?t0 = "\<lparr>idt = (\<lambda>_. 0), intr_handlers = Map.empty, intr_names = (\<lambda>_. [])\<rparr>"
  obtain g where g: "fill_gates ex_stubs [0..<256] (idt ?t0) = Some g"
    using fill_gates_total [of "[0..<256]" ex_stubs] ex_stubs_nonzero by (auto simp del: upt_rec_numeral)
  then obtain t where t: "intr_init ex_stubs ?t0 = Some t" "intr_handlers t = Map.empty"
    by (auto simp: intr_init_def simp del: upt_rec_numeral)
  obtain h where "make_trap_gate (ex_stubs 0x30) 3 = Some h" using make_gate_total [of "ex_stubs 0x30" 3] ex_stubs_nonzero [of 48] by auto
  then obtain t' where t': "intr_register_int ex_stubs 0x30 3 INTR_ON 0xc0030000 ''syscall'' t = Some t'"
    using t(2) by (simp add: intr_register_int_def register_handler_def)
  have "idt_reach ex_stubs {} t" using idt_reach.start [OF t(1)] by simp
  from idt_reach.int [OF this _ t'] have r: "idt_reach ex_stubs {0x30} t'" by simp
  from interrupt_table_safe [OF r, of 48] interrupt_table_safe [OF r, of 14] r show ?thesis by (intro exI [of _ t']) simp
qed

section \<open>Segments as the processor reads them\<close>

definition seg_base :: "64 word \<Rightarrow> 32 word" where
  "seg_base d = ucast (take_bit 24 (drop_bit 16 d)) OR push_bit 24 (ucast (drop_bit 56 d))"

definition seg_limit :: "64 word \<Rightarrow> 32 word" where
  "seg_limit d = ucast (take_bit 16 d) OR push_bit 16 (ucast (take_bit 4 (drop_bit 48 d)))"

definition seg_dpl :: "64 word \<Rightarrow> 64 word" where
  "seg_dpl d = take_bit 2 (drop_bit 45 d)"

lemma small_20: "d \<le> 0xfffff \<Longrightarrow> 20 \<le> k \<Longrightarrow> \<not> bit d k" for d :: "32 word"
  by (rule small_word [of _ 20]) (simp_all add: word_le_nat_alt)

lemma seg_bits:
  assumes "make_seg_desc base limit cls type dpl gran = Some d"
  shows "m < 32 \<Longrightarrow> bit d m \<longleftrightarrow> (if m < 16 then bit limit m else bit base (m - 16))"
    "m < 32 \<Longrightarrow> bit d (m + 32) \<longleftrightarrow> (if m < 8 then bit base (m + 16) else if m < 12 then bit type (m - 8) else if m = 12 then cls = CLS_CODE_DATA
      else if m < 15 then bit dpl (m - 13) else if m = 15 then True else if m < 20 then bit limit m else if m < 22 then False else if m = 22 then True
      else if m = 23 then gran = GRAN_PAGE else bit base m)"
proof -
  have a: "limit \<le> 0xfffff" "type \<le> 15" "dpl \<le> 3" using assms by (auto simp: make_seg_desc_def split: if_splits)
  define c where "c = push_bit 12 (if cls = CLS_CODE_DATA then 1 else 0 :: 32 word)"
  define p where "p = push_bit 15 (1 :: 32 word)"
  define w where "w = push_bit 22 (1 :: 32 word)"
  define g where "g = push_bit 23 (if gran = GRAN_PAGE then 1 else 0 :: 32 word)"
  have e: "c = (if cls = CLS_CODE_DATA then 2 ^ 12 else 0)" "p = 2 ^ 15" "w = 2 ^ 22" "g = (if gran = GRAN_PAGE then 2 ^ 23 else 0)"
    by (simp_all add: c_def p_def w_def g_def)
  have b: "bit p k \<longleftrightarrow> k = 15" "bit w k \<longleftrightarrow> k = 22" for k unfolding e by (simp_all only: bit_exp_iff) auto
  have q: "bit ((2 :: 32 word) ^ 12) k \<longleftrightarrow> k = 12" "bit ((2 :: 32 word) ^ 23) k \<longleftrightarrow> k = 23" for k by (simp_all only: bit_exp_iff) auto
  have "bit c k = (if cls = CLS_CODE_DATA then bit ((2 :: 32 word) ^ 12) k else bit (0 :: 32 word) k)" for k unfolding e by (rule if_distrib)
  moreover have "bit g k = (if gran = GRAN_PAGE then bit ((2 :: 32 word) ^ 23) k else bit (0 :: 32 word) k)" for k unfolding e by (rule if_distrib)
  ultimately have b': "bit c k \<longleftrightarrow> k = 12 \<and> cls = CLS_CODE_DATA" "bit g k \<longleftrightarrow> k = 23 \<and> gran = GRAN_PAGE" for k
    unfolding q by simp_all
  define e0 where "e0 = (limit AND 0xffff) OR push_bit 16 base"
  define e1 where "e1 = (drop_bit 16 base AND 0xff) OR push_bit 8 type OR c OR push_bit 13 dpl OR p OR (limit AND 0xf0000) OR w OR g OR (base AND 0xff000000)"
  have d: "d = ucast e0 OR push_bit 32 (ucast e1)"
    using assms by (auto simp: make_seg_desc_def Let_def e0_def e1_def c_def p_def w_def g_def split: if_splits)
  have 0: "bit e0 m \<longleftrightarrow> m < 32 \<and> (if m < 16 then bit limit m else bit base (m - 16))" for m
    unfolding e0_def masks by (auto simp: bit_simps)
  have t: "bit type k \<longrightarrow> k < 4" "bit dpl k \<longrightarrow> k < 2" "bit base k \<longrightarrow> k < 32" for k
    using small_15 [OF a(2), of k] small_3 [OF a(3), of k] bit_imp_le_length [of base k] by (auto simp: not_le [symmetric])
  have 1: "bit e1 m \<longleftrightarrow> m < 32 \<and> (if m < 8 then bit base (m + 16) else if m < 12 then bit type (m - 8) else if m = 12 then cls = CLS_CODE_DATA
      else if m < 15 then bit dpl (m - 13) else if m = 15 then True else if m < 20 then bit limit m else if m < 22 then False else if m = 22 then True
      else if m = 23 then gran = GRAN_PAGE else bit base m)" for m
  proof -
    have x: "bit (drop_bit 16 base AND mask 8) m \<longleftrightarrow> m < 8 \<and> bit base (16 + m)"
      "bit (push_bit 8 type) m \<longleftrightarrow> 8 \<le> m \<and> m < 12 \<and> bit type (m - 8)"
      "bit (push_bit 13 dpl) m \<longleftrightarrow> 13 \<le> m \<and> m < 15 \<and> bit dpl (m - 13)"
      "bit (limit AND push_bit 16 (mask 4)) m \<longleftrightarrow> 16 \<le> m \<and> m < 20 \<and> bit limit m"
      "bit (base AND push_bit 24 (mask 8)) m \<longleftrightarrow> 24 \<le> m \<and> m < 32 \<and> bit base m"
      using t(1) [of "m - 8"] t(2) [of "m - 13"] by (auto simp: bit_simps)
    have e: "bit e1 m \<longleftrightarrow> m < 8 \<and> bit base (16 + m) \<or> 8 \<le> m \<and> m < 12 \<and> bit type (m - 8) \<or> m = 12 \<and> cls = CLS_CODE_DATA \<or>
        13 \<le> m \<and> m < 15 \<and> bit dpl (m - 13) \<or> m = 15 \<or> 16 \<le> m \<and> m < 20 \<and> bit limit m \<or> m = 22 \<or> m = 23 \<and> gran = GRAN_PAGE \<or>
        24 \<le> m \<and> m < 32 \<and> bit base m"
      unfolding e1_def masks bit_or_iff x b b' by blast
    consider "m < 8" | "8 \<le> m \<and> m < 12" | "m = 12" | "13 \<le> m \<and> m < 15" | "m = 15" | "16 \<le> m \<and> m < 20" | "20 \<le> m \<and> m < 22" | "m = 22" |
      "m = 23" | "24 \<le> m \<and> m < 32" | "32 \<le> m" by linarith
    then show ?thesis unfolding e by cases (simp_all add: add.commute)
  qed
  have "bit d m \<longleftrightarrow> bit e0 m" if "m < 32" for m using that unfolding d by (simp add: bit_simps)
  then show "m < 32 \<Longrightarrow> bit d m \<longleftrightarrow> (if m < 16 then bit limit m else bit base (m - 16))" by (simp add: 0)
  have "bit d (m + 32) \<longleftrightarrow> bit e1 m" if "m < 32" for m
    using that bit_imp_le_length [of e0 "m + 32"] unfolding d by (auto simp: bit_simps)
  then show "m < 32 \<Longrightarrow> bit d (m + 32) \<longleftrightarrow> (if m < 8 then bit base (m + 16) else if m < 12 then bit type (m - 8) else if m = 12 then cls = CLS_CODE_DATA
      else if m < 15 then bit dpl (m - 13) else if m = 15 then True else if m < 20 then bit limit m else if m < 22 then False else if m = 22 then True
      else if m = 23 then gran = GRAN_PAGE else bit base m)" unfolding 1 by blast
qed

text \<open>A segment descriptor says what it was made from. For all arguments within the asserted ranges, the processor reads
  back the base, the limit and the privilege level.\<close>

theorem segment_descriptor_roundtrip:
  assumes "make_seg_desc base limit cls type dpl gran = Some d"
  shows "seg_base d = base \<and> seg_limit d = limit \<and> seg_dpl d = ucast dpl \<and> bit d 47"
proof -
  note b = seg_bits [OF assms]
  have a: "limit \<le> 0xfffff" "dpl \<le> 3" using assms by (auto simp: make_seg_desc_def split: if_splits)
  have l: "n < 20" if "bit limit n" for n using small_20 [OF a(1), of n] that by (meson not_less)
  have p: "n < 2" if "bit dpl n" for n using small_3 [OF a(2), of n] that by (meson not_less)
  have "seg_base d = base"
  proof (rule bit_word_eqI)
    fix n assume "n < LENGTH(32)"
    then have n: "n < 32" by simp
    consider "n < 16" | "16 \<le> n \<and> n < 24" | "24 \<le> n" by linarith
    then show "bit (seg_base d) n = bit base n"
    proof cases
      case 1 then show ?thesis using b(1) [of "16 + n"] by (simp add: seg_base_def bit_simps)
    next
      case 2
      then have "n - 16 < 8" "n - 16 < 32" by linarith+
      then have "bit d (n + 16) = bit base n" using b(2) [of "n - 16"] 2 by (simp only: if_True) (simp add: add.commute)
      then show ?thesis using 2 by (simp add: seg_base_def bit_simps add.commute)
    next
      case 3 then show ?thesis using b(2) [of n] n by (auto simp: seg_base_def bit_simps add.commute)
    qed
  qed
  moreover have "seg_limit d = limit"
  proof (rule bit_word_eqI)
    fix n assume "n < LENGTH(32)"
    then have n: "n < 32" by simp
    consider "n < 16" | "16 \<le> n \<and> n < 20" | "20 \<le> n" by linarith
    then show "bit (seg_limit d) n = bit limit n"
    proof cases
      case 1 then show ?thesis using b(1) [of n] by (simp add: seg_limit_def bit_simps)
    next
      case 2 then show ?thesis using b(2) [of n] by (auto simp: seg_limit_def bit_simps add.commute)
    next
      case 3 then show ?thesis using l [of n] by (auto simp: seg_limit_def bit_simps)
    qed
  qed
  moreover have "seg_dpl d = ucast dpl"
  proof (rule bit_word_eqI)
    fix n assume "n < LENGTH(64)"
    show "bit (seg_dpl d) n = bit (ucast dpl :: 64 word) n"
    proof (cases "n < 2")
      case True then show ?thesis using b(2) [of "13 + n"] by (simp add: seg_dpl_def bit_simps add.commute)
    next
      case False then show ?thesis using p [of n] by (auto simp: seg_dpl_def bit_simps)
    qed
  qed
  ultimately show ?thesis using b(2) [of 15] by simp
qed

theorem segment_descriptor_roundtrip_witness:
  "\<exists>d. make_tss_desc 0xc0123456 = Some d \<and> seg_base d = 0xc0123456 \<and> seg_limit d = 0x67"
proof -
  obtain d where "make_seg_desc 0xc0123456 0x67 CLS_SYSTEM 9 0 GRAN_BYTE = Some d" by (simp add: make_seg_desc_def Let_def)
  with segment_descriptor_roundtrip [OF this] show ?thesis by (simp add: make_tss_desc_def)
qed

end
