(* ===== verification/Spec2Isabelle.thy ===== *)
theory Spec2Isabelle
  imports Clist_Sort Bitmap_Refine Kernel_Live Sup_Page Arith64 Cstring_Props Stdlib Stdio_Props Directory_Props Malloc_Props Swap_Props Loader_Props Syscall_Props Process Keyboard Vga Random_Bytes Descriptors
begin

text \<open>
  A verification development for the Pintos kernel of this repository (\<open>src/pintos/src\<close>).

  \<^bold>\<open>The program.\<close> Pintos is a small operating system for 80x86 machines in C. Its parts are a
  library shared by all of them (\<open>lib\<close>: lists, bitmaps, hash tables, strings, formatted output,
  sorting, 64-bit division), the kernel core (\<open>threads\<close>, \<open>devices/timer.c\<close>: threads, a priority
  scheduler with priority donation and a multi-level feedback queue, semaphores, locks, condition
  variables, sleeping), the file system (\<open>filesys\<close>: free map, inodes with indexed blocks, files,
  directories, a block cache), user programs (\<open>userprog\<close>: loading, system calls, page directories)
  and virtual memory (\<open>vm\<close>: supplementary page table, frame table, swap). The scheduler keeps its
  queues as lists ordered by priority; the free map, the swap table and the page pools are
  bitmaps; the supplementary page table is a hash table; inodes allocate through the free map.

  \<^bold>\<open>Conventions.\<close> An assertion failure, a panic, a fault or an index outside an array is the result
  \<open>None\<close> (theory \<open>Prelude\<close>); a value \<open>Some\<close> says that the code returned. Machine integers are words or
  integers with the wrap-around written out (\<open>u32\<close>, \<open>s32\<close>). Loops are recursive functions with a
  termination proof; the few that may run for ever on ill-formed data are partial functions in
  the option monad, and their theorems prove that they return. What a device delivers is an
  argument, and so is, outside the allocators, what \<open>malloc\<close> answers.

  \<^bold>\<open>Lists\<close> (\<open>lib/kernel/list.c\<close>). \<open>Clist\<close> has every operation on an explicit heap of prev and next
  links. \<open>List_Interface\<close> states what a client may rely on, \<open>Clist_Rep\<close> and \<open>Clist_Sort\<close> show that the
  pointer operations implement operations on sequences: sorting is stable and in place, ordered
  insertion keeps first-come first-served order, splicing, reversing and removing duplicates.

  \<^bold>\<open>Bitmaps\<close> (\<open>lib/kernel/bitmap.c\<close>). \<open>Bitmap\<close> has the packed operations with \<open>size_t\<close> wrap-around,
  \<open>Bitmap_Refine\<close> the sequence of bits they implement, first-fit allocation, and the locale
  \<open>slot_allocator\<close>, interpreted on the bitmap, from which the free map takes its properties.

  \<^bold>\<open>Hash tables\<close> (\<open>lib/kernel/hash.c\<close>, \<open>vm/page.c\<close>). \<open>Hash\<close> models chaining and resizing. \<open>Hash_Refine\<close>
  shows, for every client that meets the locale \<open>hash_key\<close>, that the table is a finite map and that
  iteration visits each element once; \<open>Sup_Page\<close> interprets it on the supplementary page table.

  \<^bold>\<open>Scheduling\<close> (\<open>threads/thread.c\<close>, \<open>threads/synch.c\<close>, \<open>threads/fixed_point.h\<close>, \<open>devices/timer.c\<close>).
  \<open>Fixed_Point\<close> has the 17.14 arithmetic and the priority formula. \<open>Kernel\<close> and \<open>Synch\<close> have the thread
  and kernel state and every operation; a call that switches threads leaves the rest of its work
  as a stack of frames of the switched-out thread, and \<open>step\<close> is the transition relation of the
  machine: one call, one frame, or one timer interrupt. \<open>Kernel_Inv\<close> and \<open>Kernel_Steps\<close> prove an
  invariant of every reachable state; \<open>Kernel_Props\<close> has what follows: each thread is on at most one
  queue, each lock has one holder, a yield runs the highest priority first, sleepers wake in
  time, nested donation ends, the load average is bounded. \<open>Kernel_Live\<close> shows progress: timer interrupts
  always return, and a thread that sleeps for \<open>m\<close> ticks is ready again after \<open>m\<close> of them and not before.

  \<^bold>\<open>Memory\<close> (\<open>threads/palloc.c\<close>, \<open>threads/malloc.c\<close>). \<open>Palloc\<close> has the two page pools over the bitmap model and the bytes of
  the pages. \<open>Malloc\<close> has the block allocator with its descriptors, arenas and 32-bit sizes; \<open>Malloc_Inv\<close>
  states the invariant of the heap and shows that every operation keeps it; \<open>Malloc_Props\<close> proves,
  through the locale \<open>block_allocator\<close>, that blocks never overlap, that freeing is the inverse of
  allocating, that \<open>realloc\<close> keeps the contents, and what happens for sizes near 4 GB.

  \<^bold>\<open>Address spaces and loading\<close> (\<open>userprog/pagedir.c\<close>, \<open>userprog/process.c\<close>, \<open>threads/pte.h\<close>). \<open>Pagedir\<close> has two-level page
  directories as entries in the memory of the page allocator, with the translations a processor
  may still hold; \<open>Pagedir_Props\<close> proves, through the locale \<open>address_space\<close>, that mapping and unmapping
  touch one page only. \<open>User_Stack\<close> builds the stack of a new process from its command line and proves
  that the program finds its arguments there. \<open>Loader\<close> reads the headers of an ELF file and fills the
  supplementary page table; \<open>Loader_Props\<close> proves that no file makes it fail an assertion or map a
  page outside user memory, and which bytes each page is to be read from.

  \<^bold>\<open>Arithmetic, strings, sorting, output\<close> (\<open>lib/arithmetic.c\<close>, \<open>lib/string.c\<close>, \<open>lib/stdlib.c\<close>, \<open>lib/stdio.c\<close>).
  \<open>Arith64\<close> proves the division routines equal to division at 64 bits, the DIVL traps included.
  \<open>Cstring\<close> models the string functions on a memory of bytes, \<open>Cstring_Props\<close> proves copying under overlap,
  bounded copying and the tokeniser. \<open>Stdlib\<close> proves heapsort and binary search for every comparison
  that meets the locale \<open>comparison\<close>. \<open>Stdio\<close> models the printf family with its format parser and argument
  slots, \<open>Stdio_Props\<close> proves the buffers large enough and that \<open>atoi\<close> reads back what \<open>%d\<close> writes.

  \<^bold>\<open>File system\<close> (\<open>filesys/free-map.c\<close>, \<open>filesys/inode.c\<close>, \<open>filesys/file.c\<close>, \<open>filesys/directory.c\<close>, \<open>filesys/filesys.c\<close>).
  \<open>Free_Map\<close> allocates blocks and index blocks from a bitmap; new blocks are fresh sectors. \<open>Inode\<close> models
  every operation on a disk of sectors; \<open>Inode_Props\<close> proves that reads return the bytes of the file
  through all three levels of the index, that writes are read back, and shows two ways in which
  blocks are mishandled. \<open>File\<close> has open files with their position and the denial of writes.
  \<open>Directory\<close> has directories as files of 24-byte entries and the operations on path names;
  \<open>Directory_Props\<close> proves, through the locale \<open>name_space\<close>, that a directory is a map from names to
  sectors and that reading it lists its names.

  \<^bold>\<open>Frames, swapping, page faults\<close> (\<open>vm/frame.c\<close>, \<open>vm/swap.c\<close>, \<open>userprog/exception.c\<close>). \<open>Swap\<close> has the frame table with
  its choice of a victim, the swap table over the bitmap and the whole page fault handler: loading
  from a file, return from the swap disk, growth of the stack. \<open>Swap_Props\<close> proves that a page comes
  back from the disk with its bytes and that the other slots keep theirs, and shows what eviction
  leaves behind.

  \<^bold>\<open>System calls\<close> (\<open>userprog/syscall.c\<close>). \<open>Syscall\<close> has the table of open files, the calls on files, directories
  and mapped files, the checks of user pointers and the dispatch on the call number; exit, exec and
  wait are in \<open>Process\<close>. \<open>Syscall_Props\<close> proves that every call keeps the table well formed and leaves
  the lock of the file system free, that what is written is read back after a seek, and shows the
  calls with which a program stops the kernel.

  \<^bold>\<open>Process families\<close> (\<open>userprog/process.c\<close>, \<open>userprog/syscall.c\<close>). \<open>Process\<close> has the records of children and
  their semaphores on top of the scheduler: a parent that waits gets the exit status of its child
  in every order of the two, and a failed exec frees the record of another child.

  \<^bold>\<open>Input, screen, random numbers, descriptors\<close> (\<open>devices/intq.c\<close>, \<open>devices/input.c\<close>, \<open>devices/kbd.c\<close>, \<open>devices/vga.c\<close>,
  \<open>lib/random.c\<close>, \<open>userprog/gdt.c\<close>, \<open>threads/interrupt.c\<close>). \<open>Intq\<close> shows that the ring buffer is a queue of at most
  63 bytes, through the locale \<open>bounded_queue\<close>. \<open>Keyboard\<close> maps scancodes to characters, \<open>Vga\<close> keeps the cursor
  on the screen, \<open>Random_Bytes\<close> keeps its state a permutation, and \<open>Descriptors\<close> has the tables of segments
  and interrupt gates: only the gates opened to user programs can be called by them.

  \<^bold>\<open>Bounds.\<close> \<open>traverse\<close> and \<open>tokenize\<close>, the loops of clients, take fuel: one step more than the number of
  elements or characters, which the theorems prove to be enough. The 22 octal digits of a 64-bit
  number bound the digit loop of \<open>format_integer\<close>. File offsets stay below \<open>2^31\<close>, the range of \<open>off_t\<close>.

  \<^bold>\<open>Not modelled.\<close> Device registers, the interrupt controller, the serial port and the protocol of the disk
  controller (hardware below the level of C semantics); the console, which only passes characters on;
  the boot loader, the assembly code of thread switches and system call stubs, \<open>threads/init.c\<close> and the
  task state segment (they set the machine up); the block cache, which has no callers left;
  \<open>filesys_init\<close>, \<open>do_format\<close> and \<open>fsutil.c\<close>, which call other parts in sequence; \<open>hex_dump\<close>; the user library,
  tests, examples and host utilities.
\<close>

end
